(* ===== verification/Prelude.thy ===== *)
theory Prelude
  imports Main "HOL-Library.Word" "HOL-Library.Char_ord" "HOL-Library.List_Lexorder"
begin

text \<open>
  Shared material of the development: C strings and characters, the C library functions the shell
  uses on them, checked machine integers, and general lemmas on lists and loops.

  A C string is a \<^typ>\<open>string\<close> (a list of the characters in front of the terminating NUL; the NUL
  itself is not an element). \<open>char\<close> is signed in the builds of this program, so a comparison of two
  \<open>char\<close> values compares \<open>schar\<close>, while \<open>(unsigned char)\<close> casts read \<open>uchar\<close>. The character
  classes are those of the C locale on bytes.
\<close>

unbundle bit_operations_syntax

named_theorems cstr \<open>facts about C strings and characters\<close>

section \<open>Characters\<close>

definition uchar :: "char \<Rightarrow> nat" where
  "uchar c = of_char c"

definition schar :: "char \<Rightarrow> int" where
  "schar c = (if uchar c < 128 then int (uchar c) else int (uchar c) - 256)"

definition nul :: char where
  "nul = CHR 0x00"

definition isdigit :: "char \<Rightarrow> bool" where
  "isdigit c \<longleftrightarrow> 48 \<le> uchar c \<and> uchar c \<le> 57"

definition isupper :: "char \<Rightarrow> bool" where
  "isupper c \<longleftrightarrow> 65 \<le> uchar c \<and> uchar c \<le> 90"

definition islower :: "char \<Rightarrow> bool" where
  "islower c \<longleftrightarrow> 97 \<le> uchar c \<and> uchar c \<le> 122"

definition isalpha :: "char \<Rightarrow> bool" where
  "isalpha c \<longleftrightarrow> isupper c \<or> islower c"

definition isalnum :: "char \<Rightarrow> bool" where
  "isalnum c \<longleftrightarrow> isalpha c \<or> isdigit c"

definition isprint :: "char \<Rightarrow> bool" where
  "isprint c \<longleftrightarrow> 32 \<le> uchar c \<and> uchar c \<le> 126"

definition isxdigit :: "char \<Rightarrow> bool" where
  "isxdigit c \<longleftrightarrow>
     isdigit c \<or> (97 \<le> uchar c \<and> uchar c \<le> 102) \<or> (65 \<le> uchar c \<and> uchar c \<le> 70)"

definition isodigit :: "char \<Rightarrow> bool" where
  "isodigit c \<longleftrightarrow> 48 \<le> uchar c \<and> uchar c < 56"

definition isspace :: "char \<Rightarrow> bool" where
  "isspace c \<longleftrightarrow> uchar c = 32 \<or> (9 \<le> uchar c \<and> uchar c \<le> 13)"

lemma uchar_less [simp]: "uchar c < 256"
  by (simp add: uchar_def)

lemma uchar_inject [simp]: "uchar c = uchar d \<longleftrightarrow> c = d"
  by (simp add: uchar_def)

lemma uchar_char_of [simp]: "n < 256 \<Longrightarrow> uchar (char_of n) = n"
  by (simp add: uchar_def of_char_of)

lemma char_of_uchar [simp]: "char_of (uchar c) = c"
  by (simp add: uchar_def)

lemma schar_inject [simp]: "schar c = schar d \<longleftrightarrow> c = d"
  using uchar_less [of c] uchar_less [of d]
  by (auto simp: schar_def simp flip: uchar_inject simp del: uchar_less split: if_splits)

section \<open>Strings\<close>

text \<open>A string the C code can hold: no NUL inside.\<close>

definition cstring :: "string \<Rightarrow> bool" where
  "cstring s \<longleftrightarrow> nul \<notin> set s"

lemma cstring_simps [simp]:
  "cstring []"
  "cstring (c # s) \<longleftrightarrow> c \<noteq> nul \<and> cstring s"
  "cstring (s @ t) \<longleftrightarrow> cstring s \<and> cstring t"
  by (auto simp: cstring_def)

lemma cstring_nth: "cstring s \<Longrightarrow> i < length s \<Longrightarrow> s ! i \<noteq> nul"
  by (metis cstring_def nth_mem)

text \<open>\<open>strchr\<close> as an index, for a character other than NUL.\<close>

fun strchr :: "string \<Rightarrow> char \<Rightarrow> nat option" where
  "strchr [] c = None"
| "strchr (x # xs) c = (if x = c then Some 0 else map_option Suc (strchr xs c))"

lemma strchr_None [cstr]: "strchr s c = None \<longleftrightarrow> c \<notin> set s"
  by (induction s) auto

lemma strchr_Some:
  "strchr s c = Some i \<longleftrightarrow> i < length s \<and> s ! i = c \<and> c \<notin> set (take i s)"
proof (induction s arbitrary: i)
  case (Cons x xs)
  then show ?case
    by (cases i) (auto simp: nth_Cons')
qed simp

text \<open>Reading \<open>s[i]\<close>: the terminating NUL may be read, nothing behind it.\<close>

definition char_at :: "string \<Rightarrow> nat \<Rightarrow> char option" where
  "char_at s i = (if i < length s then Some (s ! i) else if i = length s then Some nul else None)"

text \<open>\<open>strchr\<close> as the C library has it, which also finds the terminating NUL.\<close>

definition strchr_nul :: "string \<Rightarrow> char \<Rightarrow> nat option" where
  "strchr_nul s c = (if c = nul then Some (length s) else strchr s c)"

fun join :: "string \<Rightarrow> string list \<Rightarrow> string" where
  "join sep [] = []"
| "join sep [w] = w"
| "join sep (w # ws) = w @ sep @ join sep ws"

lemma join_Cons: "ws \<noteq> [] \<Longrightarrow> join sep (w # ws) = w @ sep @ join sep ws"
  by (cases ws) auto

lemma cstring_join: "cstring sep \<Longrightarrow> \<forall>w \<in> set ws. cstring w \<Longrightarrow> cstring (join sep ws)"
  by (induction sep ws rule: join.induct) auto

definition hasprefix :: "string \<Rightarrow> string \<Rightarrow> bool" where
  "hasprefix s p \<longleftrightarrow> take (length p) s = p"

section \<open>Numbers in strings\<close>

text \<open>
  \<open>strtol\<close>: white space, a sign, digits of the base; the value saturates at the bounds of a 64-bit
  \<open>long\<close>; the second component is the rest of the string, all of it when no digit was read. Base 0
  takes the base from the prefix of the number.
\<close>

definition digit_val :: "char \<Rightarrow> int" where
  "digit_val c =
     (if isdigit c then int (uchar c) - 48
      else if islower c then int (uchar c) - 87
      else if isupper c then int (uchar c) - 55 else 99)"

fun digits_val :: "int \<Rightarrow> int \<Rightarrow> string \<Rightarrow> int \<times> string" where
  "digits_val base n [] = (n, [])"
| "digits_val base n (c # s) =
     (if digit_val c < base then digits_val base (base * n + digit_val c) s else (n, c # s))"

definition sat64 :: "int \<Rightarrow> int" where
  "sat64 n = max (- (2 ^ 63)) (min (2 ^ 63 - 1) n)"

definition strtol_sign :: "string \<Rightarrow> bool \<times> string" where
  "strtol_sign s = (case dropWhile isspace s of
      [] \<Rightarrow> (False, [])
    | c # r \<Rightarrow> if c = CHR ''-'' then (True, r) else if c = CHR ''+'' then (False, r)
               else (False, c # r))"

definition strtol :: "int \<Rightarrow> string \<Rightarrow> int \<times> string" where
  "strtol base s =
     (let (neg, u) = strtol_sign s
      in if u = [] \<or> \<not> digit_val (hd u) < base then (0, s)
         else let (n, r) = digits_val base 0 u in (sat64 (if neg then - n else n), r))"

definition strtol10 :: "string \<Rightarrow> int \<times> string" where
  "strtol10 s = strtol 10 s"

definition strtol_auto :: "string \<Rightarrow> int \<times> string" where
  "strtol_auto s =
     (let (neg, u) = strtol_sign s;
          hex = (take 2 u = ''0x'' \<or> take 2 u = ''0X'') \<and> 2 < length u \<and> digit_val (u ! 2) < 16
      in if hex then let (n, r) = digits_val 16 0 (drop 2 u) in (sat64 (if neg then - n else n), r)
         else strtol (if take 1 u = ''0'' then 8 else 10) s)"

text \<open>
  The program redefines \<open>atoi(s)\<close> as \<open>strtol(s, NULL, 0)\<close> (\<open>include/desh/stdenv.h\<close>); a \<open>long\<close> that is
  assigned to an \<open>int\<close> keeps its low 32 bits, read as a signed number.
\<close>

definition atoi :: "string \<Rightarrow> int" where
  "atoi s = fst (strtol_auto s)"

definition int_of_long :: "int \<Rightarrow> int" where
  "int_of_long n = sint (word_of_int n :: 32 word)"

text \<open>Decimal output: \<open>%d\<close>, and its part on numbers that are not negative.\<close>

fun show_nat :: "nat \<Rightarrow> string" where
  "show_nat n = (if n < 10 then [char_of (48 + n)] else show_nat (n div 10) @ [char_of (48 + n mod 10)])"

declare show_nat.simps [simp del]

definition show_int :: "int \<Rightarrow> string" where
  "show_int n = (if n < 0 then CHR ''-'' # show_nat (nat (- n)) else show_nat (nat n))"

lemma digits_val_append:
  "digits_val b 0 s = (m, []) \<Longrightarrow> digits_val b 0 (s @ t) = digits_val b m t"
proof -
  have "digits_val b n s = (m, []) \<Longrightarrow> digits_val b n (s @ t) = digits_val b m t" for n
    by (induction b n s rule: digits_val.induct) (auto split: if_splits)
  then show "digits_val b 0 s = (m, []) \<Longrightarrow> digits_val b 0 (s @ t) = digits_val b m t" .
qed

lemma digit_val_dec: "d < 10 \<Longrightarrow> digit_val (char_of (48 + d)) = int d"
  by (simp add: digit_val_def isdigit_def)

lemma digits_val_show_nat: "digits_val 10 0 (show_nat n) = (int n, [])"
proof (induction n rule: show_nat.induct)
  case (1 n)
  show ?case
  proof (cases "n < 10")
    case True
    then show ?thesis by (subst show_nat.simps) (simp add: digit_val_dec)
  next
    case False
    then have "digits_val 10 0 (show_nat n) = digits_val 10 (int (n div 10)) [char_of (48 + n mod 10)]"
      using 1 by (subst show_nat.simps) (simp add: digits_val_append)
    then show ?thesis by (simp add: digit_val_dec zdiv_int zmod_int)
  qed
qed

lemma show_nat_nonempty [simp]: "show_nat n \<noteq> []"
  by (subst show_nat.simps) simp

lemma show_nat_digits: "c \<in> set (show_nat n) \<Longrightarrow> isdigit c"
proof (induction n rule: show_nat.induct)
  case (1 n)
  then show ?case by (cases "n < 10") (auto simp: show_nat.simps [of n] isdigit_def)
qed

lemma show_nat_hd: "0 < n \<Longrightarrow> hd (show_nat n) \<noteq> CHR ''0''"
proof (induction n rule: show_nat.induct)
  case (1 n)
  have "uchar (CHR ''0'') = 48" by (simp add: uchar_def)
  then show ?case using 1
    by (cases "n < 10") (auto simp: show_nat.simps [of n] simp flip: uchar_inject)
qed

section \<open>Signed integers\<close>

text \<open>Signed overflow is undefined behaviour in C: it is the value \<^const>\<open>None\<close>.\<close>

definition c_int :: "int \<Rightarrow> int option" where
  "c_int n = (if - (2 ^ 31) \<le> n \<and> n < 2 ^ 31 then Some n else None)"

lemma c_int_Some [simp]: "c_int n = Some m \<longleftrightarrow> m = n \<and> - (2 ^ 31) \<le> n \<and> n < 2 ^ 31"
  by (auto simp: c_int_def)

section \<open>Lists\<close>

text \<open>How many elements of a list satisfy a predicate, and what an update does to that number.\<close>

definition cnt :: "('a \<Rightarrow> bool) \<Rightarrow> 'a list \<Rightarrow> nat" where
  "cnt P xs = length (filter P xs)"

lemma cnt_simps [simp]:
  "cnt P [] = 0" "cnt P (x # xs) = (if P x then 1 else 0) + cnt P xs"
  "cnt P (xs @ ys) = cnt P xs + cnt P ys"
  by (simp_all add: cnt_def)

lemma cnt_update:
  "i < length xs \<Longrightarrow>
     cnt P (xs[i := x]) + (if P (xs ! i) then 1 else 0) = cnt P xs + (if P x then 1 else 0)"
proof (induction xs arbitrary: i)
  case (Cons y ys)
  then show ?case by (cases i) (simp_all add: add.assoc)
qed simp

lemma cnt_le: "cnt P xs \<le> length xs"
  by (simp add: cnt_def)

lemma cnt_less: "cnt P xs < length xs \<Longrightarrow> \<exists>i < length xs. \<not> P (xs ! i)"
  by (metis cnt_def filter_True in_set_conv_nth less_irrefl)

lemma cnt_mono: "(\<And>x. P x \<Longrightarrow> Q x) \<Longrightarrow> cnt P xs \<le> cnt Q xs"
  by (induction xs) auto

lemma map_of_unique:
  assumes "distinct (map fst xs)"
  shows "map_of xs k = Some v \<longleftrightarrow> (k, v) \<in> set xs"
  using assms by (simp add: map_of_eq_Some_iff)

end
