(* ===== verification/Dict.thy ===== *)
theory Dict
  imports Prelude
begin

text \<open>
  The hash dictionaries of \<open>src/dict.c\<close>: open addressing with linear probing in a table whose size
  is a power of two, deleted entries marked \<open>DEAD\<close>, and a counter \<open>remain\<close> of the slots that may
  still be taken before the table is doubled. The variables of the shell, its primitives and its
  list of unexported names are such dictionaries.
\<close>

section \<open>Hashing\<close>

text \<open>
  \<open>ADVANCE\<close>: the next character of the first string or, at its end, of the second one, which is
  forgotten as soon as it is entered. \<^const>\<open>None\<close> is the \<open>break\<close> out of the loop.
\<close>

fun advance :: "string \<Rightarrow> string option \<Rightarrow> (char \<times> string \<times> string option) option" where
  "advance (c # s) str2 = Some (c, s, str2)"
| "advance [] None = None"
| "advance [] (Some []) = None"
| "advance [] (Some (c # s)) = Some (c, s, None)"

text \<open>The four mixing terms: \<open>int\<close> arithmetic on the byte \<open>c\<close>, widened to \<open>unsigned long\<close>.\<close>

definition ibyte :: "char \<Rightarrow> 32 word" where
  "ibyte c = of_nat (uchar c)"

definition mix1 :: "char \<Rightarrow> 64 word" where
  "mix1 ch = (let c = ibyte ch in
     scast (push_bit 17 c XOR push_bit 11 c XOR push_bit 5 c XOR drop_bit 1 c))"

definition mix2 :: "char \<Rightarrow> 64 word" where
  "mix2 ch = (let c = ibyte ch in scast (push_bit 14 c + push_bit 7 c + push_bit 4 c + c))"

definition mix3 :: "char \<Rightarrow> 64 word" where
  "mix3 ch = (let c = ibyte ch in
     scast (push_bit 11 (NOT c) OR (push_bit 3 c XOR drop_bit 1 c)))"

definition mix4 :: "char \<Rightarrow> 64 word" where
  "mix4 ch = (let c = ibyte ch in
     scast (push_bit 16 c OR push_bit 9 c OR push_bit 2 c OR (c AND 3)))"

definition left :: "string \<Rightarrow> string option \<Rightarrow> nat" where
  "left s str2 = length s + (case str2 of None \<Rightarrow> 0 | Some t \<Rightarrow> length t)"

lemma advance_left: "advance s str2 = Some (c, s', str2') \<Longrightarrow> left s' str2' < left s str2"
  by (cases "(s, str2)" rule: advance.cases) (auto simp: left_def)

function strhash_loop :: "64 word \<Rightarrow> string \<Rightarrow> string option \<Rightarrow> 64 word" where
  "strhash_loop n s str2 =
     (case advance s str2 of None \<Rightarrow> n | Some (c, s, str2) \<Rightarrow>
      let n = n + mix1 c in
      case advance s str2 of None \<Rightarrow> n | Some (c, s, str2) \<Rightarrow>
      let n = n XOR mix2 c in
      case advance s str2 of None \<Rightarrow> n | Some (c, s, str2) \<Rightarrow>
      let n = n XOR mix3 c in
      case advance s str2 of None \<Rightarrow> n | Some (c, s, str2) \<Rightarrow>
      strhash_loop (n - mix4 c) s str2)"
  by pat_completeness auto
termination
  by (relation "measure (\<lambda>(n, s, str2). left s str2)") (auto dest!: advance_left)

declare strhash_loop.simps [simp del]

definition strhash2 :: "string \<Rightarrow> string option \<Rightarrow> 64 word" where
  "strhash2 str1 str2 = strhash_loop 0 str1 str2"

definition strhash :: "string \<Rightarrow> 64 word" where
  "strhash str = strhash2 str None"

text \<open>Hashing two strings in sequence is hashing their concatenation.\<close>

definition joined :: "string \<Rightarrow> string option \<Rightarrow> string" where
  "joined s str2 = s @ (case str2 of None \<Rightarrow> [] | Some t \<Rightarrow> t)"

lemma advance_joined:
  "advance (joined s str2) None =
     (case advance s str2 of None \<Rightarrow> None | Some (c, s', str2') \<Rightarrow> Some (c, joined s' str2', None))"
  by (cases "(s, str2)" rule: advance.cases) (auto simp: joined_def)

lemma strhash_loop_joined: "strhash_loop n (joined s str2) None = strhash_loop n s str2"
proof (induction n s str2 rule: strhash_loop.induct)
  case (1 n s str2)
  then show ?case
    unfolding strhash_loop.simps [of n]
    by (auto simp: advance_joined Let_def split: option.splits prod.splits)
qed

lemma strhash2_cat: "strhash2 s (Some t) = strhash (s @ t)"
  using strhash_loop_joined [of 0 s "Some t"] by (simp add: strhash_def strhash2_def joined_def)

section \<open>Tables\<close>

text \<open>
  A slot \<open>Assoc\<close> of the table: its name is NULL (\<open>Free\<close>), the marker \<open>DEAD\<close> (\<open>Dead\<close>), or a string
  with a value that is not NULL (\<open>Entry\<close>).
\<close>

datatype 'v assoc = is_free: Free | is_dead: Dead | is_entry: Entry (aname: string) (avalue: 'v)

record 'v dict =
  dsize :: nat
  remain :: int
  table :: "'v assoc list"

definition mkdict0 :: "nat \<Rightarrow> 'v dict option" where
  "mkdict0 sz = (case c_int (int sz * 2) of
      None \<Rightarrow> None
    | Some m \<Rightarrow> Some \<lparr>dsize = sz, remain = m div 3, table = replicate sz Free\<rparr>)"

text \<open>The slot index \<open>n & mask\<close>, with \<open>mask = size - 1\<close>.\<close>

definition idx :: "nat \<Rightarrow> 64 word \<Rightarrow> nat" where
  "idx sz n = unat (n AND (of_nat sz - 1))"

text \<open>
  The loop the operations share, \<open>for (; \<not> stop (ap = &table[n & mask]); n++) ;\<close>. It need not end:
  \<^const>\<open>None\<close> is the loop that runs forever.
\<close>

partial_function (option) probe ::
  "('v assoc \<Rightarrow> bool) \<Rightarrow> 'v assoc list \<Rightarrow> nat \<Rightarrow> 64 word \<Rightarrow> 64 word option" where
  "probe stop t sz n = (if stop (t ! idx sz n) then Some n else probe stop t sz (n + 1))"

declare probe.simps [code]

definition get_with :: "(string \<Rightarrow> bool) \<Rightarrow> 64 word \<Rightarrow> 'v dict \<Rightarrow> nat option option" where
  "get_with eq h d =
     (case probe (\<lambda>s. is_free s \<or> is_entry s \<and> eq (aname s)) (table d) (dsize d) h of
        None \<Rightarrow> None
      | Some n \<Rightarrow> let i = idx (dsize d) n in Some (if is_free (table d ! i) then None else Some i))"

definition get :: "'v dict \<Rightarrow> string \<Rightarrow> nat option option" where
  "get d name = get_with (\<lambda>s. name = s) (strhash name) d"

text \<open>\<open>put\<close> from the point where the table has room for one more entry.\<close>

definition put0 :: "'v dict \<Rightarrow> string \<Rightarrow> 'v \<Rightarrow> 'v dict option" where
  "put0 d name value =
     (case probe (\<lambda>s. is_dead s \<or> is_free s) (table d) (dsize d) (strhash name) of
        None \<Rightarrow> None
      | Some n \<Rightarrow> let i = idx (dsize d) n in
          Some (d\<lparr>remain := (if is_free (table d ! i) then remain d - 1 else remain d),
                  table := (table d)[i := Entry name value]\<rparr>))"

text \<open>
  \<open>dictforall (old, put, dnew)\<close>: the value \<open>put\<close> returns is thrown away. It updates \<open>dnew\<close> in place
  when \<open>dnew\<close> has room; when it would have to grow \<open>dnew\<close>, the entry goes into a new table that
  nothing refers to, and \<open>dnew\<close> stays as it was.
\<close>

definition rehash1 :: "'v assoc \<Rightarrow> 'v dict \<Rightarrow> 'v dict option" where
  "rehash1 s d = (if is_entry s
     then if remain d \<le> 1 then Some d else put0 d (aname s) (avalue s)
     else Some d)"

fun rehash :: "'v assoc list \<Rightarrow> 'v dict \<Rightarrow> 'v dict option" where
  "rehash [] d = Some d"
| "rehash (s # t) d = (case rehash1 s d of None \<Rightarrow> None | Some d' \<Rightarrow> rehash t d')"

definition grow :: "'v dict \<Rightarrow> 'v dict option" where
  "grow old = (case c_int (int (dsize old) * 2) of None \<Rightarrow> None
     | Some m \<Rightarrow> (case mkdict0 (nat m) of None \<Rightarrow> None | Some dnew \<Rightarrow> rehash (table old) dnew))"

definition put :: "'v dict \<Rightarrow> string \<Rightarrow> 'v \<Rightarrow> 'v dict option" where
  "put d name value =
     (if remain d \<le> 1
      then (case grow d of None \<Rightarrow> None | Some d' \<Rightarrow> put0 d' name value)
      else put0 d name value)"

text \<open>The second loop of \<open>rm\<close>: backwards over the dead slots in front of a free one.\<close>

partial_function (option) free_back ::
  "'v assoc list \<Rightarrow> nat \<Rightarrow> int \<Rightarrow> 64 word \<Rightarrow> ('v assoc list \<times> int) option" where
  "free_back t sz r n =
     (if is_dead (t ! idx sz n) then free_back (t[idx sz n := Free]) sz (r + 1) (n - 1)
      else Some (t, r))"

declare free_back.simps [code]

definition rm :: "'v dict \<Rightarrow> nat \<Rightarrow> 'v dict option" where
  "rm d ap =
     (let t = (table d)[ap := Dead] in
      case probe (\<lambda>s. \<not> is_dead s) t (dsize d) (of_nat ap + 1) of
        None \<Rightarrow> None
      | Some n \<Rightarrow>
          if \<not> is_free (t ! idx (dsize d) n) then Some (d\<lparr>table := t\<rparr>)
          else (case free_back t (dsize d) (remain d) (n - 1) of
                  None \<Rightarrow> None
                | Some (t', r) \<Rightarrow> Some (d\<lparr>table := t', remain := r\<rparr>)))"

section \<open>The exported functions\<close>

definition INIT_DICT_SIZE :: nat where
  "INIT_DICT_SIZE = 2"

definition mkdict :: "'v dict option" where
  "mkdict = mkdict0 INIT_DICT_SIZE"

definition dictget :: "'v dict \<Rightarrow> string \<Rightarrow> 'v option option" where
  "dictget d name = (case get d name of
      None \<Rightarrow> None
    | Some None \<Rightarrow> Some None
    | Some (Some ap) \<Rightarrow> Some (Some (avalue (table d ! ap))))"

text \<open>The value \<^const>\<open>None\<close> is the NULL that removes the name.\<close>

definition dictput :: "'v dict \<Rightarrow> string \<Rightarrow> 'v option \<Rightarrow> 'v dict option" where
  "dictput d name value = (case get d name of
      None \<Rightarrow> None
    | Some ap \<Rightarrow>
       (case value of
          Some v \<Rightarrow> (case ap of
              None \<Rightarrow> put d name v
            | Some i \<Rightarrow> Some (d\<lparr>table := (table d)[i := Entry (aname (table d ! i)) v]\<rparr>))
        | None \<Rightarrow> (case ap of None \<Rightarrow> Some d | Some i \<Rightarrow> rm d i)))"

text \<open>\<open>dictforall\<close> visits the entries in the order of the table.\<close>

definition slot_entry :: "'v assoc \<Rightarrow> (string \<times> 'v) list" where
  "slot_entry s = (if is_entry s then [(aname s, avalue s)] else [])"

definition entries :: "'v assoc list \<Rightarrow> (string \<times> 'v) list" where
  "entries t = concat (map slot_entry t)"

definition dictforall :: "'v dict \<Rightarrow> (string \<Rightarrow> 'v \<Rightarrow> 'a \<Rightarrow> 'a) \<Rightarrow> 'a \<Rightarrow> 'a" where
  "dictforall d proc arg = fold (\<lambda>(k, v). proc k v) (entries (table d)) arg"

definition streq2 :: "string \<Rightarrow> string \<Rightarrow> string \<Rightarrow> bool" where
  "streq2 s t1 t2 \<longleftrightarrow> s = t1 @ t2"

definition dictget2 :: "'v dict \<Rightarrow> string \<Rightarrow> string \<Rightarrow> 'v option option" where
  "dictget2 d name1 name2 =
     (case get_with (\<lambda>s. streq2 s name1 name2) (strhash2 name1 (Some name2)) d of
        None \<Rightarrow> None
      | Some None \<Rightarrow> Some None
      | Some (Some ap) \<Rightarrow> Some (Some (avalue (table d ! ap))))"

section \<open>Probing\<close>

lemma idx_mod:
  assumes "sz = 2 ^ k" "k \<le> 64"
  shows "idx sz n = unat n mod sz"
proof -
  have "n AND (of_nat sz - 1) = take_bit k n"
    by (simp add: assms(1) take_bit_eq_mask mask_eq_exp_minus_1)
  then have "idx sz n = take_bit k (unat n)"
    by (simp add: idx_def unsigned_take_bit_eq)
  then show ?thesis by (simp add: assms(1) take_bit_eq_mod)
qed

lemma idx_add:
  assumes "sz = 2 ^ k" "k \<le> 64"
  shows "idx sz (n + of_nat j) = (idx sz n + j) mod sz"
proof -
  have "sz dvd 2 ^ 64" unfolding assms(1) by (rule le_imp_power_dvd [OF assms(2)])
  moreover have "unat (n + of_nat j) = (unat n + j) mod 2 ^ 64"
    by (simp add: unat_word_ariths unat_of_nat mod_simps)
  ultimately have "unat (n + of_nat j) mod sz = (unat n + j) mod sz"
    by (simp only: mod_mod_cancel)
  then show ?thesis by (simp add: idx_mod [OF assms] mod_simps)
qed

lemma idx_less: "sz = 2 ^ k \<Longrightarrow> k \<le> 64 \<Longrightarrow> idx sz n < sz"
  by (simp add: idx_mod)

lemma idx_onto:
  assumes "sz = 2 ^ k" "k \<le> 64" "i < sz"
  shows "\<exists>j < sz. idx sz (n + of_nat j) = i"
proof -
  let ?h = "idx sz n" and ?j = "(i + sz - idx sz n) mod sz"
  have "?h < sz" using assms idx_less by blast
  then have "(?h + ?j) mod sz = i" using \<open>i < sz\<close> by (simp add: mod_add_right_eq)
  moreover have "?j < sz" using \<open>i < sz\<close> by simp
  ultimately show ?thesis using idx_add [OF assms(1,2)] by metis
qed

lemma probe_steps:
  "(\<And>j. j < m \<Longrightarrow> \<not> stop (t ! idx sz (n + of_nat j))) \<Longrightarrow>
     probe stop t sz n = probe stop t sz (n + of_nat m)"
proof (induction m)
  case (Suc m)
  then have "probe stop t sz n = probe stop t sz (n + of_nat m)" by simp
  also have "\<dots> = probe stop t sz (n + of_nat (Suc m))"
    using Suc.prems [of m] by (subst probe.simps) (simp add: ac_simps)
  finally show ?case .
qed simp

lemma probe_total:
  assumes "sz = 2 ^ k" "k \<le> 64" "i < sz" "stop (t ! i)"
  obtains m where "m < sz" "probe stop t sz n = Some (n + of_nat m)"
    "stop (t ! idx sz (n + of_nat m))" "\<And>j. j < m \<Longrightarrow> \<not> stop (t ! idx sz (n + of_nat j))"
proof -
  let ?P = "\<lambda>m. stop (t ! idx sz (n + of_nat m))"
  define m where "m = (LEAST m. ?P m)"
  obtain j where j: "j < sz" "idx sz (n + of_nat j) = i" using idx_onto [OF assms(1-3)] by blast
  have m: "?P m" and le: "m \<le> j" using j assms(4) by (auto simp: m_def intro: LeastI2 Least_le)
  have least: "\<not> ?P j" if "j < m" for j using that not_less_Least by (auto simp: m_def)
  have "probe stop t sz n = Some (n + of_nat m)"
    using probe_steps [of m stop t sz n] least m by (simp add: probe.simps)
  with m least le j(1) show thesis by (intro that [of m]) auto
qed


section \<open>The invariant\<close>

text \<open>Slot \<open>i\<close> can be reached from hash \<open>h\<close>: no slot in front of it on the probe path is free.\<close>

definition reach :: "'v assoc list \<Rightarrow> 64 word \<Rightarrow> nat \<Rightarrow> bool" where
  "reach t h i \<longleftrightarrow> (\<exists>j < length t. idx (length t) (h + of_nat j) = i \<and>
     (\<forall>j' < j. \<not> is_free (t ! idx (length t) (h + of_nat j'))))"

definition used :: "'v assoc list \<Rightarrow> nat" where
  "used t = cnt (\<lambda>s. \<not> is_free s) t"

definition dict_shape :: "'v dict \<Rightarrow> bool" where
  "dict_shape d \<longleftrightarrow> length (table d) = dsize d \<and> (\<exists>k. 1 \<le> k \<and> k \<le> 29 \<and> dsize d = 2 ^ k) \<and>
     remain d + int (used (table d)) = int (dsize d) * 2 div 3"

definition reach_all :: "'v assoc list \<Rightarrow> bool" where
  "reach_all t \<longleftrightarrow> (\<forall>i < length t. is_entry (t ! i) \<longrightarrow> reach t (strhash (aname (t ! i))) i)"

definition dict_inv :: "'v dict \<Rightarrow> bool" where
  "dict_inv d \<longleftrightarrow> dict_shape d \<and> 1 \<le> remain d \<and> distinct (map fst (entries (table d))) \<and>
     reach_all (table d)"

text \<open>The map a dictionary stands for.\<close>

definition dict_abs :: "'v dict \<Rightarrow> (string \<rightharpoonup> 'v)" where
  "dict_abs d = map_of (entries (table d))"

lemma entries_simps [simp]:
  "entries [] = []" "entries (s # t) = slot_entry s @ entries t"
  "entries (t @ u) = entries t @ entries u"
  by (simp_all add: entries_def)

lemma slot_entry_simps [simp]:
  "slot_entry Free = []" "slot_entry Dead = []" "slot_entry (Entry k v) = [(k, v)]"
  by (simp_all add: slot_entry_def)

lemma entries_update:
  "i < length t \<Longrightarrow> entries (t[i := s]) = entries (take i t) @ slot_entry s @ entries (drop (Suc i) t)"
  by (simp add: upd_conv_take_nth_drop)

lemma entries_split:
  "i < length t \<Longrightarrow> entries t = entries (take i t) @ slot_entry (t ! i) @ entries (drop (Suc i) t)"
  using entries_update [of i t "t ! i"] by simp

lemma entries_set: "(k, v) \<in> set (entries t) \<longleftrightarrow> (\<exists>i < length t. t ! i = Entry k v)"
proof -
  have "(k, v) \<in> set (entries t) \<longleftrightarrow> Entry k v \<in> set t"
  proof (induction t)
    case (Cons s t)
    then show ?case by (cases s) auto
  qed simp
  then show ?thesis by (simp add: in_set_conv_nth)
qed

lemma entries_key: "k \<in> fst ` set (entries t) \<longleftrightarrow> (\<exists>i < length t. is_entry (t ! i) \<and> aname (t ! i) = k)"
proof -
  have "k \<in> fst ` set (entries t) \<longleftrightarrow> (\<exists>v. (k, v) \<in> set (entries t))" by force
  moreover have "is_entry s \<and> aname s = k \<longleftrightarrow> (\<exists>v. s = Entry k v)" for s :: "'a assoc"
    by (cases s) auto
  ultimately show ?thesis by (simp add: entries_set) blast
qed

lemma not_entry: "\<not> is_entry s \<longleftrightarrow> is_free s \<or> is_dead s"
  by (cases s) auto

lemma slot_entry_none: "\<not> is_entry s \<Longrightarrow> slot_entry s = []"
  by (simp add: slot_entry_def)

lemma dict_shapeE:
  assumes "dict_shape d"
  obtains k where "1 \<le> k" "k \<le> 29" "dsize d = 2 ^ k" "length (table d) = dsize d"
    "remain d + int (used (table d)) = int (dsize d) * 2 div 3"
  using assms by (auto simp: dict_shape_def)

text \<open>While \<open>remain\<close> is not negative, one slot is free, so every probe ends.\<close>

lemma shape_free:
  assumes "dict_shape d" "0 \<le> remain d"
  obtains i where "i < dsize d" "is_free (table d ! i)"
proof -
  from assms(1) obtain k where k: "1 \<le> k" "dsize d = 2 ^ k" "length (table d) = dsize d"
    "remain d + int (used (table d)) = int (dsize d) * 2 div 3" by (rule dict_shapeE)
  have "0 < dsize d" using k(2) by simp
  then have "used (table d) < length (table d)" using k(3,4) assms(2) by linarith
  then show thesis using cnt_less [of _ "table d"] that k(3) unfolding used_def by metis
qed

lemma shape_probe:
  assumes "dict_shape d" "0 \<le> remain d" "\<And>s. is_free s \<Longrightarrow> stop s"
  obtains m where "m < dsize d" "probe stop (table d) (dsize d) n = Some (n + of_nat m)"
    "stop (table d ! idx (dsize d) (n + of_nat m))"
    "\<And>j. j < m \<Longrightarrow> \<not> stop (table d ! idx (dsize d) (n + of_nat j))"
    "idx (dsize d) (n + of_nat m) < dsize d"
proof -
  obtain k where k: "k \<le> 29" "dsize d = 2 ^ k" using assms(1) by (rule dict_shapeE)
  obtain i where i: "i < dsize d" "stop (table d ! i)" using shape_free assms by metis
  show thesis
    by (rule probe_total [where stop = stop and t = "table d" and n = n, OF k(2) _ i])
       (use k that idx_less in auto)
qed

section \<open>Looking a name up\<close>

text \<open>A search ends at the entry of the name or, when there is none, at a free slot.\<close>

lemma get_with_cases:
  assumes inv: "dict_inv d" and eq: "eq = (\<lambda>s. name = s)"
  shows "\<exists>r. get_with eq (strhash name) d = Some r \<and>
    (case r of None \<Rightarrow> name \<notin> fst ` set (entries (table d))
     | Some i \<Rightarrow> i < dsize d \<and> is_entry (table d ! i) \<and> aname (table d ! i) = name)"
proof -
  let ?stop = "\<lambda>s :: 'a assoc. is_free s \<or> is_entry s \<and> eq (aname s)"
  let ?at = "\<lambda>j. idx (dsize d) (strhash name + of_nat j)"
  have sh: "dict_shape d" and pos: "0 \<le> remain d" and len: "length (table d) = dsize d"
    using inv by (auto simp: dict_inv_def dict_shape_def)
  obtain m where m: "m < dsize d" "probe ?stop (table d) (dsize d) (strhash name) = Some (strhash name + of_nat m)"
    "?stop (table d ! ?at m)" "\<And>j. j < m \<Longrightarrow> \<not> ?stop (table d ! ?at j)" "?at m < dsize d"
    by (rule shape_probe [OF sh pos, where stop = ?stop and n = "strhash name"]) auto
  show ?thesis
  proof (cases "is_free (table d ! ?at m)")
    case True
    have "name \<notin> fst ` set (entries (table d))"
    proof
      assume "name \<in> fst ` set (entries (table d))"
      then obtain i where i: "i < dsize d" "is_entry (table d ! i)" "aname (table d ! i) = name"
        by (auto simp: entries_key len)
      then obtain j where j: "?at j = i" "\<forall>j' < j. \<not> is_free (table d ! ?at j')"
        using inv by (fastforce simp: dict_inv_def reach_all_def reach_def len)
      have "\<not> j < m"
      proof
        assume "j < m"
        then show False using m(4) [of j] i j(1) eq by simp
      qed
      moreover have "j \<noteq> m" using True j(1) i(2) by (cases "table d ! i") auto
      ultimately show False using j(2) True by auto
    qed
    then show ?thesis using m(2) True by (simp add: get_with_def Let_def)
  next
    case False
    then show ?thesis using m eq by (auto simp: get_with_def Let_def)
  qed
qed

lemma abs_entry:
  assumes "dict_inv d" "i < dsize d" "is_entry (table d ! i)"
  shows "dict_abs d (aname (table d ! i)) = Some (avalue (table d ! i))"
proof -
  have "table d ! i = Entry (aname (table d ! i)) (avalue (table d ! i))"
    using assms(3) by simp
  then show ?thesis using assms
    by (auto simp: dict_abs_def dict_inv_def dict_shape_def entries_set)
qed

lemma dictget_abs:
  assumes "dict_inv d"
  shows "dictget d name = Some (dict_abs d name)"
proof -
  obtain r where r: "get d name = Some r"
    "case r of None \<Rightarrow> name \<notin> fst ` set (entries (table d))
     | Some i \<Rightarrow> i < dsize d \<and> is_entry (table d ! i) \<and> aname (table d ! i) = name"
    using get_with_cases [OF assms refl] by (auto simp: get_def)
  show ?thesis
  proof (cases r)
    case None
    then have "dict_abs d name = None" using r by (simp add: dict_abs_def map_of_eq_None_iff)
    then show ?thesis using r None by (simp add: dictget_def)
  next
    case (Some i)
    then show ?thesis using r abs_entry [OF assms, of i] by (auto simp: dictget_def)
  qed
qed

lemma dictget2_cat: "dictget2 d name1 name2 = dictget d (name1 @ name2)"
proof -
  have "get_with (\<lambda>s. streq2 s name1 name2) h d = get_with (\<lambda>s. name1 @ name2 = s) h d" for h
    by (simp add: streq2_def eq_commute)
  then show ?thesis by (simp add: dictget2_def dictget_def get_def strhash2_cat)
qed


section \<open>Storing an entry\<close>

lemma map_of_insert:
  "k \<notin> fst ` set xs \<Longrightarrow> map_of (xs @ (k, v) # ys) = (map_of (xs @ ys))(k \<mapsto> v)"
  by (induction xs) (auto simp: fun_eq_iff)

lemma map_of_remove:
  "k \<notin> fst ` set xs \<Longrightarrow> k \<notin> fst ` set ys \<Longrightarrow>
     map_of (xs @ ys) = (map_of (xs @ (k, v) # ys))(k := None)"
proof -
  assume k: "k \<notin> fst ` set xs" "k \<notin> fst ` set ys"
  then have "map_of (xs @ ys) k = None" by (simp add: map_of_eq_None_iff image_Un del: map_of_append)
  then show ?thesis using k by (simp add: map_of_insert fun_upd_idem del: map_of_append)
qed

lemma map_of_replace:
  "k \<notin> fst ` set xs \<Longrightarrow> map_of (xs @ (k, w) # ys) = (map_of (xs @ (k, v) # ys))(k \<mapsto> w)"
  by (simp add: map_of_insert del: map_of_append)

lemma reach_update:
  "reach t h i \<Longrightarrow> \<not> is_free s \<Longrightarrow> reach (t[p := s]) h i"
proof -
  have "is_free (t ! q)" if "\<not> is_free s" "is_free (t[p := s] ! q)" for q
    using that by (cases "q = p \<and> p < length t") (auto simp: nth_list_update list_update_beyond not_less)
  then show "reach t h i \<Longrightarrow> \<not> is_free s \<Longrightarrow> reach (t[p := s]) h i"
    unfolding reach_def by auto
qed

lemma put0_inv:
  assumes inv: "dict_inv d" and room: "2 \<le> remain d"
    and new: "name \<notin> fst ` set (entries (table d))"
  shows "\<exists>d'. put0 d name v = Some d' \<and> dict_inv d' \<and> dict_abs d' = (dict_abs d)(name \<mapsto> v) \<and>
    dsize d' = dsize d \<and> remain d - 1 \<le> remain d'"
proof -
  let ?stop = "\<lambda>s :: 'a assoc. is_dead s \<or> is_free s" and ?t = "table d"
  let ?at = "\<lambda>j. idx (dsize d) (strhash name + of_nat j)"
  have sh: "dict_shape d" and len: "length ?t = dsize d" and ra: "reach_all ?t"
    and dist: "distinct (map fst (entries ?t))"
    using inv by (auto simp: dict_inv_def dict_shape_def)
  obtain m where m: "m < dsize d" "probe ?stop ?t (dsize d) (strhash name) = Some (strhash name + of_nat m)"
    "?stop (?t ! ?at m)" "\<And>j. j < m \<Longrightarrow> \<not> ?stop (?t ! ?at j)" "?at m < dsize d"
    by (rule shape_probe [OF sh, where stop = ?stop and n = "strhash name"]) (use room in auto)
  define i where "i = ?at m"
  define t' where "t' = ?t[i := Entry name v]"
  define d' where "d' = d\<lparr>remain := (if is_free (?t ! i) then remain d - 1 else remain d), table := t'\<rparr>"
  have i: "i < length ?t" "\<not> is_entry (?t ! i)" using m(3,5) len by (auto simp: i_def not_entry)
  have put0: "put0 d name v = Some d'" using m(2) by (simp add: put0_def Let_def d'_def t'_def i_def)
  have ents: "entries t' = entries (take i ?t) @ (name, v) # entries (drop (Suc i) ?t)"
    "entries ?t = entries (take i ?t) @ entries (drop (Suc i) ?t)"
    using i entries_update [of i ?t "Entry name v"] entries_split [of i ?t]
    by (simp_all add: t'_def slot_entry_none)
  have "used t' + (if is_free (?t ! i) then 0 else 1) = used ?t + 1"
    using cnt_update [OF i(1), of "\<lambda>s. \<not> is_free s" "Entry name v"] by (simp add: used_def t'_def split: if_splits)
  then have shape': "dict_shape d'"
    using sh by (auto simp: dict_shape_def d'_def t'_def split: if_splits)
  have dist': "distinct (map fst (entries t'))" using dist new by (auto simp: ents)
  have "reach t' (strhash name) i"
    unfolding reach_def t'_def using m i by (auto simp: i_def len nth_list_update intro!: exI [of _ m])
  moreover have "reach t' h q" if "reach ?t h q" for h q using that by (simp add: t'_def reach_update)
  ultimately have "reach_all t'"
    using ra i(1) unfolding reach_all_def t'_def by (metis assoc.sel(1) length_list_update nth_list_update)
  then have "dict_inv d'" using shape' dist' room by (simp add: dict_inv_def d'_def)
  moreover have "dict_abs d' = (dict_abs d)(name \<mapsto> v)"
    using new unfolding dict_abs_def d'_def by (simp add: ents map_of_insert image_Un del: map_of_append)
  ultimately show ?thesis using put0 by (simp add: d'_def)
qed

section \<open>Growing the table\<close>

lemma rehash_inv:
  assumes "dict_inv d" "distinct (map fst (entries t))"
    "fst ` set (entries t) \<inter> fst ` set (entries (table d)) = {}"
    "int (length (entries t)) < remain d"
  shows "\<exists>d'. rehash t d = Some d' \<and> dict_inv d' \<and> dict_abs d' = dict_abs d ++ map_of (entries t) \<and>
    dsize d' = dsize d \<and> remain d - int (length (entries t)) \<le> remain d'"
  using assms
proof (induction t arbitrary: d)
  case (Cons s t)
  show ?case
  proof (cases "is_entry s")
    case False
    with Cons show ?thesis by (simp add: rehash1_def slot_entry_none)
  next
    case True
    then obtain k v where s: "s = Entry k v" by (auto simp: assoc.is_entry_def)
    with Cons.prems obtain d1 where d1: "put0 d k v = Some d1" "dict_inv d1"
      "dict_abs d1 = (dict_abs d)(k \<mapsto> v)" "dsize d1 = dsize d" "remain d - 1 \<le> remain d1"
      using put0_inv [of d k v] by (auto simp: s)
    have "dom (dict_abs d1) = insert k (dom (dict_abs d))" by (simp add: d1(3))
    then have "fst ` set (entries (table d1)) = insert k (fst ` set (entries (table d)))"
      by (simp add: dict_abs_def dom_map_of_conv_image_fst)
    with Cons.prems s obtain d' where d': "rehash t d1 = Some d'" "dict_inv d'"
      "dict_abs d' = dict_abs d1 ++ map_of (entries t)" "dsize d' = dsize d1"
      "remain d1 - int (length (entries t)) \<le> remain d'"
      using Cons.IH [OF d1(2)] d1(5) by (force simp: s)
    have "k \<notin> dom (map_of (entries t))"
      using Cons.prems(2) s by (simp add: dom_map_of_conv_image_fst)
    then have abs: "dict_abs d' = dict_abs d ++ map_of (entries (s # t))"
      by (simp add: d'(3) d1(3) s map_add_upd_left)
    have "rehash (s # t) d = Some d'"
      using Cons.prems(4) d1(1) d'(1) s by (simp add: rehash1_def)
    moreover have "remain d - int (length (entries (s # t))) \<le> remain d'"
      using d'(5) d1(5) s by simp
    ultimately show ?thesis using abs d'(2,4) d1(4) by metis
  qed
qed (simp add: dict_abs_def)

lemma mkdict0_inv:
  assumes "sz = 2 ^ k" "1 \<le> k" "k \<le> 29"
  shows "\<exists>d. mkdict0 sz = Some d \<and> dict_inv d \<and> entries (table d) = [] \<and> dsize d = sz \<and>
    remain d = int sz * 2 div 3"
proof -
  have "(2 :: int) ^ k \<le> 2 ^ 29" using assms(3) by (rule power_increasing) simp
  moreover have "(2 :: int) ^ 1 \<le> 2 ^ k" using assms(2) by (rule power_increasing) simp
  ultimately have m: "mkdict0 sz = Some \<lparr>dsize = sz, remain = int sz * 2 div 3, table = replicate sz Free\<rparr>"
    and "1 \<le> int sz * 2 div 3"
    by (auto simp: assms(1) mkdict0_def c_int_def)
  moreover have "entries (replicate n Free) = ([] :: (string \<times> 'a) list)" "used (replicate n (Free :: 'a assoc)) = 0" for n
    by (induction n) (auto simp: used_def)
  ultimately show ?thesis using assms
    unfolding m by (auto simp: dict_inv_def dict_shape_def reach_all_def)
qed

lemma entries_used: "length (entries t) \<le> used t"
  by (induction t) (auto simp: used_def slot_entry_def assoc.is_entry_def)

lemma grow_inv:
  assumes inv: "dict_inv (d :: 'a dict)" and low: "remain d \<le> 1" and small: "dsize d < 2 ^ 29"
  shows "\<exists>d'. grow d = Some d' \<and> dict_inv d' \<and> dict_abs d' = dict_abs d \<and> 2 \<le> remain d'"
proof -
  obtain k where k: "1 \<le> k" "dsize d = 2 ^ k" "remain d + int (used (table d)) = int (dsize d) * 2 div 3"
    using inv unfolding dict_inv_def by (auto elim: dict_shapeE)
  have "k < 29" using small unfolding k(2) by (rule power_less_imp_less_exp [rotated]) simp
  then obtain d0 :: "'a dict" where d0: "mkdict0 (2 * dsize d) = Some d0" "dict_inv d0" "entries (table d0) = []"
    "remain d0 = int (2 * dsize d) * 2 div 3"
    using mkdict0_inv [of "2 * dsize d" "Suc k"] k(2) by auto
  have "(2 :: nat) ^ 1 \<le> dsize d" unfolding k(2) using k(1) by (rule power_increasing) simp
  moreover have "1 \<le> remain d" using inv by (simp add: dict_inv_def)
  ultimately have room: "int (length (entries (table d))) + 2 \<le> remain d0"
    using entries_used [of "table d"] k(3) unfolding d0(4) by (simp add: zdiv_int)
  obtain d' where d': "rehash (table d) d0 = Some d'" "dict_inv d'"
    "dict_abs d' = dict_abs d0 ++ map_of (entries (table d))"
    "remain d0 - int (length (entries (table d))) \<le> remain d'"
    using rehash_inv [OF d0(2), of "table d"] inv room d0(3) by (auto simp: dict_inv_def)
  have "grow d = Some d'" using small d0(1) d'(1) by (simp add: grow_def c_int_def nat_mult_distrib mult.commute)
  then show ?thesis using d' room by (simp add: dict_abs_def d0(3))
qed


section \<open>Storing and removing names\<close>

lemma put_inv:
  assumes "dict_inv d" "name \<notin> fst ` set (entries (table d))" "remain d \<le> 1 \<Longrightarrow> dsize d < 2 ^ 29"
  shows "\<exists>d'. put d name v = Some d' \<and> dict_inv d' \<and> dict_abs d' = (dict_abs d)(name \<mapsto> v)"
proof (cases "remain d \<le> 1")
  case False
  then show ?thesis using put0_inv [OF assms(1) _ assms(2)] by (auto simp: put_def)
next
  case True
  obtain d1 where d1: "grow d = Some d1" "dict_inv d1" "dict_abs d1 = dict_abs d" "2 \<le> remain d1"
    using grow_inv [OF assms(1) True] assms(3) True by blast
  then have "fst ` set (entries (table d1)) = fst ` set (entries (table d))"
    by (metis dict_abs_def dom_map_of_conv_image_fst)
  then show ?thesis using put0_inv [OF d1(2,4), of name v] assms(2) d1 True by (auto simp: put_def)
qed

lemma reach_free_dead:
  assumes r: "reach t h i" and i: "is_entry (t ! i)" and len: "length t = 2 ^ k" "k \<le> 64"
    and p: "is_dead (t ! idx (length t) n)" "is_free (t ! idx (length t) (n + 1))"
  shows "reach (t[idx (length t) n := Free]) h i"
proof -
  let ?at = "\<lambda>j. idx (length t) (h + of_nat j)" and ?p = "idx (length t) n"
  obtain j where j: "j < length t" "?at j = i" "\<And>j'. j' < j \<Longrightarrow> \<not> is_free (t ! ?at j')"
    using r by (auto simp: reach_def)
  have "?at j' \<noteq> ?p" if "j' < j" for j'
  proof
    assume "?at j' = ?p"
    then have "?at (Suc j') = idx (length t) (n + 1)"
      using idx_add [OF len, of n 1] idx_add [OF len, of h j'] idx_add [OF len, of h "Suc j'"]
      by (simp add: mod_Suc_eq) (metis mod_Suc_eq)
    then have "is_free (t ! ?at (Suc j'))" using p(2) by simp
    then show False using j(2) j(3) [of "Suc j'"] that i
      by (cases "Suc j' = j") (auto simp: assoc.is_entry_def)
  qed
  then have "t[?p := Free] ! ?at j' = t ! ?at j'" if "j' < j" for j'
    using that by (metis nth_list_update_neq)
  then show ?thesis unfolding reach_def using j by (auto intro!: exI [of _ j])
qed

lemma free_back_inv:
  assumes "length t = 2 ^ k" "k \<le> 64" "is_free (t ! idx (length t) (n + 1))" "reach_all t"
  shows "\<exists>t' r'. free_back t (length t) r n = Some (t', r') \<and> length t' = length t \<and>
    entries t' = entries t \<and> r' + int (used t') = r + int (used t) \<and> r \<le> r' \<and> reach_all t'"
  using assms
proof (induction "cnt is_dead t" arbitrary: t r n rule: less_induct)
  case less
  let ?i = "idx (length t) n"
  have i: "?i < length t" using idx_less less.prems(1,2) by metis
  show ?case
  proof (cases "is_dead (t ! ?i)")
    case False
    then show ?thesis using less.prems(4) by (simp add: free_back.simps [of t])
  next
    case True
    let ?t = "t[?i := Free]"
    have "cnt is_dead ?t < cnt is_dead t" "used t = used ?t + 1"
      using cnt_update [OF i, of is_dead Free] cnt_update [OF i, of "\<lambda>s. \<not> is_free s" Free] True
      by (cases "t ! ?i"; simp add: used_def)+
    moreover have "entries ?t = entries t"
      using True entries_update [OF i, of Free] entries_split [OF i] by (simp add: slot_entry_none not_entry)
    moreover have "reach_all ?t"
      using less.prems i True reach_free_dead [OF _ _ less.prems(1,2) True less.prems(3)]
      by (auto simp: reach_all_def nth_list_update)
    moreover have "is_free (?t ! idx (length ?t) (n - 1 + 1))" using i by simp
    ultimately show ?thesis
      using less.hyps [of ?t "n - 1" "r + 1"] less.prems(1,2) True
      by (subst free_back.simps) auto
  qed
qed

lemma rm_inv:
  assumes inv: "dict_inv d" and ap: "ap < dsize d" "is_entry (table d ! ap)"
  shows "\<exists>d'. rm d ap = Some d' \<and> dict_inv d' \<and> dict_abs d' = (dict_abs d)(aname (table d ! ap) := None)"
proof -
  let ?t = "(table d)[ap := Dead]" and ?k = "aname (table d ! ap)"
  obtain k where k: "k \<le> 29" "dsize d = 2 ^ k" "length (table d) = dsize d"
    using inv unfolding dict_inv_def by (auto elim: dict_shapeE)
  have ents: "entries (table d) = entries (take ap (table d)) @ (?k, avalue (table d ! ap)) # entries (drop (Suc ap) (table d))"
    "entries ?t = entries (take ap (table d)) @ entries (drop (Suc ap) (table d))"
    using ap k(3) entries_update [of ap "table d" Dead] entries_split [of ap "table d"]
    by (simp_all add: slot_entry_def)
  have dist: "distinct (map fst (entries ?t))" "?k \<notin> fst ` set (entries (take ap (table d)))"
    "?k \<notin> fst ` set (entries (drop (Suc ap) (table d)))"
    using inv by (auto simp: dict_inv_def ents)
  have abs: "map_of (entries ?t) = (dict_abs d)(?k := None)"
    unfolding dict_abs_def ents by (rule map_of_remove [OF dist(2,3)])
  have "used ?t = used (table d)"
    using cnt_update [of ap "table d" "\<lambda>s. \<not> is_free s" Dead] ap k(3)
    by (cases "table d ! ap") (auto simp: used_def)
  then have sh: "dict_shape (d\<lparr>table := ?t\<rparr>)" using inv by (simp add: dict_inv_def dict_shape_def)
  have ra: "reach_all ?t" unfolding reach_all_def
  proof (intro allI impI)
    fix q assume q: "q < length ?t" "is_entry (?t ! q)"
    then have "q \<noteq> ap" using ap k(3) by auto
    then show "reach ?t (strhash (aname (?t ! q))) q"
      using q inv reach_update [of "table d" _ q Dead ap] by (auto simp: dict_inv_def reach_all_def)
  qed
  have rem: "1 \<le> remain d" using inv by (simp add: dict_inv_def)
  obtain m where m: "probe (\<lambda>s. \<not> is_dead s) ?t (dsize d) (of_nat ap + 1) = Some (of_nat ap + 1 + of_nat m)"
    by (rule shape_probe [OF sh, where stop = "\<lambda>s. \<not> is_dead s" and n = "of_nat ap + 1"])
       (use rem in \<open>auto simp: assoc.is_free_def\<close>)
  define n :: "64 word" where "n = of_nat ap + 1 + of_nat m"
  show ?thesis
  proof (cases "is_free (?t ! idx (dsize d) n)")
    case False
    then show ?thesis using m sh ra dist(1) rem abs
      by (simp add: rm_def Let_def n_def dict_inv_def dict_abs_def)
  next
    case True
    obtain t' r' where t': "free_back ?t (dsize d) (remain d) (n - 1) = Some (t', r')"
      "length t' = length (table d)" "entries t' = entries ?t"
      "r' + int (used t') = remain d + int (used ?t)" "remain d \<le> r'" "reach_all t'"
      using free_back_inv [of ?t k "n - 1" "remain d"] k ra True by auto
    then show ?thesis using m sh ra dist(1) rem abs True
      by (simp add: rm_def Let_def n_def dict_inv_def dict_abs_def dict_shape_def)
  qed
qed


lemma overwrite_inv:
  fixes d :: "'v dict" and v :: 'v
  assumes inv: "dict_inv d" and i: "i < dsize d" "is_entry (table d ! i)"
  defines "d' \<equiv> d\<lparr>table := (table d)[i := Entry (aname (table d ! i)) v]\<rparr>"
  shows "dict_inv d' \<and> dict_abs d' = (dict_abs d)(aname (table d ! i) \<mapsto> v)"
proof -
  let ?k = "aname (table d ! i)" and ?t = "(table d)[i := Entry (aname (table d ! i)) v]"
  have len: "length (table d) = dsize d" using inv by (auto simp: dict_inv_def dict_shape_def)
  have ents: "entries (table d) = entries (take i (table d)) @ (?k, avalue (table d ! i)) # entries (drop (Suc i) (table d))"
    "entries ?t = entries (take i (table d)) @ (?k, v) # entries (drop (Suc i) (table d))"
    using i len entries_update [of i "table d" "Entry ?k v"] entries_split [of i "table d"]
    by (simp_all add: slot_entry_def)
  have dist: "distinct (map fst (entries ?t))" "?k \<notin> fst ` set (entries (take i (table d)))"
    using inv unfolding dict_inv_def ents by auto
  have "used ?t = used (table d)"
    using cnt_update [of i "table d" "\<lambda>s. \<not> is_free s" "Entry ?k v"] i len
    by (cases "table d ! i") (auto simp: used_def)
  moreover have "reach_all ?t"
    unfolding reach_all_def
  proof (intro allI impI)
    fix q assume q: "q < length ?t" "is_entry (?t ! q)"
    then have "is_entry (table d ! q)" "aname (?t ! q) = aname (table d ! q)"
      using i len by (cases "q = i"; simp)+
    then show "reach ?t (strhash (aname (?t ! q))) q"
      using q inv reach_update [of "table d" _ q "Entry ?k v" i] by (auto simp: dict_inv_def reach_all_def)
  qed
  moreover have "map_of (entries ?t) = (dict_abs d)(?k \<mapsto> v)"
    unfolding dict_abs_def ents by (rule map_of_replace [OF dist(2)])
  ultimately show ?thesis using inv dist(1) i by (simp add: d'_def dict_inv_def dict_shape_def dict_abs_def)
qed

text \<open>
  A dictionary that still has a slot to take, or whose table may still be doubled without an
  overflow of the \<open>int\<close> computations of \<open>GROW\<close> and \<open>REMAIN\<close>.
\<close>

definition dict_room :: "'v dict \<Rightarrow> bool" where
  "dict_room d \<longleftrightarrow> 1 < remain d \<or> dsize d < 2 ^ 29"

lemma dictput_abs:
  assumes inv: "dict_inv d" and room: "dict_room d"
  shows "\<exists>d'. dictput d name val = Some d' \<and> dict_inv d' \<and> dict_abs d' = (dict_abs d)(name := val)"
proof -
  obtain r where r: "get d name = Some r"
    "case r of None \<Rightarrow> name \<notin> fst ` set (entries (table d))
     | Some i \<Rightarrow> i < dsize d \<and> is_entry (table d ! i) \<and> aname (table d ! i) = name"
    using get_with_cases [OF inv refl] by (auto simp: get_def)
  show ?thesis
  proof (cases r)
    case None
    then have new: "name \<notin> fst ` set (entries (table d))" using r(2) by simp
    then have "dict_abs d name = None" by (simp add: dict_abs_def map_of_eq_None_iff)
    then show ?thesis
      using put_inv [OF inv new] room r(1) None inv
      by (cases val) (auto simp: dictput_def dict_room_def fun_upd_idem)
  next
    case (Some i)
    then show ?thesis using r overwrite_inv [OF inv, of i] rm_inv [OF inv, of i]
      by (cases val) (auto simp: dictput_def)
  qed
qed

lemma mkdict_abs: "\<exists>d. mkdict = Some d \<and> dict_inv d \<and> dict_abs d = Map.empty"
  using mkdict0_inv [of 2 1] by (auto simp: mkdict_def INIT_DICT_SIZE_def dict_abs_def)

lemma put_full:
  assumes "dict_inv d" "\<not> dict_room d"
  shows "put d name v = None"
proof -
  obtain k where k: "k \<le> 29" "dsize d = 2 ^ k" and low: "remain d \<le> 1" "2 ^ 29 \<le> dsize d"
    using assms unfolding dict_inv_def by (auto elim: dict_shapeE simp: dict_room_def)
  have "(2 :: nat) ^ k \<le> 2 ^ 29" using k(1) by (rule power_increasing) simp
  then have "dsize d = 2 ^ 29" using low(2) k(2) by simp
  then have "grow d = None" by (simp add: grow_def mkdict0_def c_int_def)
  then show ?thesis using low(1) by (simp add: put_def)
qed

lemma dictput_Some:
  assumes "dict_inv d" "dictput d name val = Some d'"
  shows "dict_inv d' \<and> dict_abs d' = (dict_abs d)(name := val)"
proof (cases "dict_room d")
  case True
  then show ?thesis using dictput_abs [OF assms(1), of name val] assms(2) by auto
next
  case False
  obtain r where r: "get d name = Some r"
    "case r of None \<Rightarrow> name \<notin> fst ` set (entries (table d))
     | Some i \<Rightarrow> i < dsize d \<and> is_entry (table d ! i) \<and> aname (table d ! i) = name"
    using get_with_cases [OF assms(1) refl] by (auto simp: get_def)
  show ?thesis
  proof (cases r)
    case None
    then have "dict_abs d name = None" using r(2) by (simp add: dict_abs_def map_of_eq_None_iff)
    then show ?thesis using assms r(1) None put_full [OF assms(1) False]
      by (cases val) (auto simp: dictput_def fun_upd_idem)
  next
    case (Some i)
    then show ?thesis using r assms overwrite_inv [OF assms(1), of i] rm_inv [OF assms(1), of i]
      by (cases val) (auto simp: dictput_def)
  qed
qed

section \<open>The interface\<close>

text \<open>
  What the clients of \<open>dict.c\<close> (\<open>var.c\<close>, \<open>prim.c\<close>) rely on: a new dictionary is the empty map, a
  lookup reads the map and returns, a store that returns updates the map, and a store returns as
  long as there is room.
\<close>

locale dictionary =
  fixes mk :: "'d option"
    and lookup :: "'d \<Rightarrow> string \<Rightarrow> 'v option option"
    and store :: "'d \<Rightarrow> string \<Rightarrow> 'v option \<Rightarrow> 'd option"
    and \<alpha> :: "'d \<Rightarrow> string \<rightharpoonup> 'v"
    and inv :: "'d \<Rightarrow> bool"
    and room :: "'d \<Rightarrow> bool"
  assumes mk: "\<exists>d. mk = Some d \<and> inv d \<and> \<alpha> d = Map.empty"
    and lookup: "inv d \<Longrightarrow> lookup d k = Some (\<alpha> d k)"
    and store: "inv d \<Longrightarrow> store d k v = Some d' \<Longrightarrow> inv d' \<and> \<alpha> d' = (\<alpha> d)(k := v)"
    and store_returns: "inv d \<Longrightarrow> room d \<Longrightarrow> \<exists>d'. store d k v = Some d'"
begin

lemma lookup_store:
  "inv d \<Longrightarrow> store d k v = Some d' \<Longrightarrow> lookup d' j = Some (if j = k then v else \<alpha> d j)"
  using store [of d k v d'] lookup [of d' j] by simp

lemma inv_store: "inv d \<Longrightarrow> store d k v = Some d' \<Longrightarrow> inv d'"
  using store by blast

lemma abs_store: "inv d \<Longrightarrow> store d k v = Some d' \<Longrightarrow> \<alpha> d' = (\<alpha> d)(k := v)"
  using store by blast

lemma store_exact:
  assumes "inv d" "room d"
  obtains d' where "store d k v = Some d'" "inv d'" "\<alpha> d' = (\<alpha> d)(k := v)"
  using store_returns [OF assms, of k v] store [OF assms(1), of k v] by blast

text \<open>A sequence of stores: the last value stored under a name is the one found.\<close>

lemma stores:
  assumes "inv d"
    "fold (\<lambda>(k, v) dd. case dd of None \<Rightarrow> None | Some d \<Rightarrow> store d k v) ops (Some d) = Some d'"
  shows "inv d' \<and> \<alpha> d' = fold (\<lambda>(k, v) m. m(k := v)) ops (\<alpha> d)"
  using assms
proof (induction ops arbitrary: d)
  case (Cons op ops)
  obtain k v where op: "op = (k, v)" by (cases op)
  have none: "fold (\<lambda>(k, v) dd. case dd of None \<Rightarrow> None | Some d \<Rightarrow> store d k v) xs None = None" for xs
    by (induction xs) auto
  show ?case
  proof (cases "store d k v")
    case None
    with Cons.prems op none show ?thesis by simp
  next
    case (Some d1)
    then show ?thesis using Cons.IH [of d1] Cons.prems op store [of d k v d1] by simp
  qed
qed simp

end

interpretation dict: dictionary mkdict dictget dictput dict_abs dict_inv dict_room
  by unfold_locales
     (auto simp: mkdict_abs dictget_abs dest: dictput_Some dictput_abs)

section \<open>Properties\<close>

text \<open>
  C29: the hash table refines a finite map. A \<open>dictput\<close> that returns keeps the invariant of the table
  (probe paths without a gap, unique names, the count of free slots) and changes exactly the entry
  of the name it was given: every later \<open>dictget\<close>, of that name or of any other, ends and returns
  what the updated map holds.
\<close>

theorem dictput_refines_update:
  assumes "dict_inv d" and "dictput d name val = Some d'"
  shows "dict_inv d' \<and> (\<forall>k. dictget d' k = Some (((dict_abs d)(name := val)) k))"
  using dict.inv_store [OF assms] dict.lookup_store [OF assms] by (simp add: fun_upd_def)

text \<open>
  \<open>dictput\<close> ends and returns a dictionary whenever a slot is left or the table can still be
  doubled; in particular its probe loops, the rehash and both loops of \<open>rm\<close> terminate.
\<close>

theorem dictput_terminates:
  assumes "dict_inv d" and "1 < remain d \<or> dsize d < 2 ^ 29"
  shows "\<exists>d'. dictput d name val = Some d'"
  using dict.store_returns [OF assms(1)] assms(2) by (simp add: dict_room_def)

text \<open>
  Doubling the table loses no entry, although \<open>dictforall\<close> throws away the dictionary that
  \<open>put\<close> returns: the new table never has to grow while it is filled, and it has room for the
  entry that caused the doubling.
\<close>

theorem grow_keeps_entries:
  assumes "dict_inv d" and "remain d \<le> 1" and "dsize d < 2 ^ 29"
  shows "\<exists>d'. grow d = Some d' \<and> dict_inv d' \<and> dict_abs d' = dict_abs d \<and> 1 < remain d'"
  using grow_inv [OF assms] by fastforce

text \<open>
  \<open>dictget2\<close>, which hashes and compares two strings without joining them, is \<open>dictget\<close> of their
  concatenation.
\<close>

theorem dictget2_joins: "dictget2 d name1 name2 = dictget d (name1 @ name2)"
  by (rule dictget2_cat)

text \<open>Witnesses.\<close>

theorem dictput_refines_update_witness:
  "\<exists>d0 d. mkdict = Some d0 \<and> dictput d0 ''x'' (Some (7 :: nat)) = Some d \<and>
     dictget d ''x'' = Some (Some 7) \<and> dictget d ''y'' = Some None"
proof -
  obtain d0 :: "nat dict" where d0: "mkdict = Some d0" "dict_inv d0" "dict_abs d0 = Map.empty"
    using mkdict_abs by blast
  have "(case mkdict of Some d \<Rightarrow> dictput d ''x'' (Some (7 :: nat))) \<noteq> None" by code_simp
  then obtain d where d: "dictput d0 ''x'' (Some 7) = Some d" by (auto simp: d0(1))
  have "dictget d ''x'' = Some (Some 7)" "dictget d ''y'' = Some None"
    using dictput_refines_update [OF d0(2) d] d0(3) by simp_all
  then show ?thesis using d0(1) d by blast
qed

theorem dictput_terminates_witness:
  "\<exists>d0 d. mkdict = Some d0 \<and> dictput d0 ''x'' (Some (7 :: nat)) = Some d"
proof -
  obtain d0 :: "nat dict" where d0: "mkdict = Some d0" "dict_inv d0" "dsize d0 = 2"
    using mkdict0_inv [of 2 1] by (auto simp: mkdict_def INIT_DICT_SIZE_def)
  have "1 < remain d0 \<or> dsize d0 < 2 ^ 29" using d0(3) by simp
  then show ?thesis using d0(1) dictput_terminates [OF d0(2), of "''x''" "Some 7"] by blast
qed

theorem grow_keeps_entries_witness:
  "\<exists>d0 d :: nat dict. mkdict = Some d0 \<and> grow d0 = Some d \<and> dict_abs d = Map.empty \<and> 1 < remain d"
proof -
  obtain d0 :: "nat dict" where d0: "mkdict = Some d0" "dict_inv d0" "dsize d0 = 2" "remain d0 = 1"
    "dict_abs d0 = Map.empty"
    using mkdict0_inv [of 2 1] by (auto simp: mkdict_def INIT_DICT_SIZE_def dict_abs_def)
  then show ?thesis using grow_keeps_entries [OF d0(2)] by auto
qed

end
