(* ===== verification/Values.thy ===== *)
theory Values
  imports Prelude "HOL-Library.Multiset"
begin

text \<open>
  The data of the shell and the operations on it that stand alone: terms, lists, bindings, closures
  and parse trees (\<open>include/desh/es.h\<close>, \<open>src/tree.c\<close>), list operations (\<open>src/list.c\<close>), argument
  vectors (\<open>src/vec.c\<close>), statuses (\<open>src/status.c\<close>) and the string predicates of \<open>src/util.c\<close>.

  A \<open>Tree *\<close> is a \<open>tree\<close>, the NULL pointer the constructor \<open>TNull\<close>. A \<open>Binding *\<close> is a reference
  (\<open>None\<close> is NULL), because assignments change the value of a binding that closures share; the cells
  it refers to are in a store. \<open>List\<close> cells that somebody else may hold are never changed by the
  code, so a \<open>List *\<close> is a list.
\<close>

section \<open>Trees, closures, terms\<close>

datatype tree =
    TNull
  | nAssign tree tree | nCall tree | nClosure tree tree | nConcat tree tree | nFor tree tree
  | nLambda tree tree | nLet tree tree | nList tree tree | nLocal tree tree | nMatch tree tree
  | nExtract tree tree | nPrim string | nQword string | nThunk tree | nVar tree
  | nVarsub tree tree | nWord string
  | nRedir tree tree | nPipe int int

type_synonym ref = "nat option"

datatype closure = Closure (binding: ref) (tree: tree)

datatype es_term = Str string | Clos closure

type_synonym terms = "es_term list"

record bindcell =
  bname :: string
  bdefn :: terms
  bnext :: ref

type_synonym store = "bindcell list"

text \<open>The selectors \<open>CAR\<close> and \<open>CDR\<close>, \<open>u[0].p\<close> and \<open>u[1].p\<close>.\<close>

fun CAR :: "tree \<Rightarrow> tree" where
  "CAR (nAssign a b) = a" | "CAR (nCall a) = a" | "CAR (nClosure a b) = a"
| "CAR (nConcat a b) = a" | "CAR (nFor a b) = a" | "CAR (nLambda a b) = a"
| "CAR (nLet a b) = a" | "CAR (nList a b) = a" | "CAR (nLocal a b) = a" | "CAR (nMatch a b) = a"
| "CAR (nExtract a b) = a" | "CAR (nThunk a) = a" | "CAR (nVar a) = a" | "CAR (nVarsub a b) = a"
| "CAR (nRedir a b) = a" | "CAR t = TNull"

fun CDR :: "tree \<Rightarrow> tree" where
  "CDR (nAssign a b) = b" | "CDR (nClosure a b) = b" | "CDR (nConcat a b) = b"
| "CDR (nFor a b) = b" | "CDR (nLambda a b) = b" | "CDR (nLet a b) = b" | "CDR (nList a b) = b"
| "CDR (nLocal a b) = b" | "CDR (nMatch a b) = b" | "CDR (nExtract a b) = b"
| "CDR (nVarsub a b) = b" | "CDR (nRedir a b) = b" | "CDR t = TNull"

fun is_nList :: "tree \<Rightarrow> bool" where
  "is_nList (nList a b) = True" | "is_nList t = False"

fun is_nRedir :: "tree \<Rightarrow> bool" where
  "is_nRedir (nRedir a b) = True" | "is_nRedir t = False"

fun is_nThunk :: "tree \<Rightarrow> bool" where
  "is_nThunk (nThunk a) = True" | "is_nThunk t = False"

section \<open>Terms\<close>

fun isclosure :: "es_term \<Rightarrow> bool" where
  "isclosure (Str s) = False" | "isclosure (Clos c) = True"

fun termeq :: "es_term \<Rightarrow> string \<Rightarrow> bool" where
  "termeq (Str t) s = (t = s)"
| "termeq (Clos c) s = False"

text \<open>
  \<open>getstr\<close> of a closure prints it, which needs the bindings; the operations below take the function
  as an argument \<open>gs\<close>. A NULL argument of \<open>termcat\<close> is \<^const>\<open>None\<close>.
\<close>

definition termcat :: "(es_term \<Rightarrow> string) \<Rightarrow> es_term option \<Rightarrow> es_term option \<Rightarrow> es_term option" where
  "termcat gs t1 t2 =
     (case t1 of None \<Rightarrow> t2 | Some u1 \<Rightarrow>
      case t2 of None \<Rightarrow> t1 | Some u2 \<Rightarrow> Some (Str (gs u1 @ gs u2)))"

section \<open>Outcomes\<close>

text \<open>
  How a C function can end: with a value, with an exception (a list, thrown by \<open>throw_exception\<close>),
  in a failed \<open>assert\<close> (\<open>ASSERTIONS\<close> is on by default) or a \<open>panic\<close>, or by running into undefined behaviour such
  as a read behind the end of a string. \<open>fail\<close> throws the list \<open>error from message\<close>.
\<close>

datatype ('e, 'a) outcome_of = Ok 'a | Throw 'e | Abort | Undef

type_synonym 'a outcome = "(terms, 'a) outcome_of"

fun obind :: "('e, 'a) outcome_of \<Rightarrow> ('a \<Rightarrow> ('e, 'b) outcome_of) \<Rightarrow> ('e, 'b) outcome_of" where
  "obind (Ok x) f = f x"
| "obind (Throw e) f = Throw e"
| "obind Abort f = Abort"
| "obind Undef f = Undef"

lemma obind_Ok: "obind m f = Ok y \<longleftrightarrow> (\<exists>x. m = Ok x \<and> f x = Ok y)"
  by (cases m) auto

lemma obind_assoc: "obind (obind m f) g = obind m (\<lambda>x. obind (f x) g)"
  by (cases m) auto

text \<open>
  Where the state matters that an exception leaves behind, what is thrown carries it. Besides an
  exception, a run can stop with \<open>exit\<close>, and a model of a recursion that may not end can run out of fuel.
\<close>

datatype stop = Exn terms | Exit int | OutOfFuel

type_synonym ('s, 'a) run = "(stop \<times> 's, 'a \<times> 's) outcome_of"
type_synonym 's upd = "(stop \<times> 's, 's) outcome_of"

fun on_throw :: "'s \<Rightarrow> 'a outcome \<Rightarrow> (stop \<times> 's, 'a) outcome_of" where
  "on_throw st (Ok x) = Ok x"
| "on_throw st (Throw e) = Throw (Exn e, st)"
| "on_throw st Abort = Abort"
| "on_throw st Undef = Undef"

lemma on_throw_Ok [simp]: "on_throw st m = Ok x \<longleftrightarrow> m = Ok x"
  by (cases m) auto

definition fail_exn :: "string \<Rightarrow> string \<Rightarrow> terms" where
  "fail_exn from msg = [Str ''error'', Str from, Str msg]"

section \<open>Lists\<close>

text \<open>\<open>reverse\<close>: the loop with \<open>prev\<close> and \<open>next\<close>.\<close>

fun reverse_loop :: "'a list \<Rightarrow> 'a list \<Rightarrow> 'a list" where
  "reverse_loop [] prev = prev"
| "reverse_loop (x # next) prev = reverse_loop next (x # prev)"

definition reverse :: "'a list \<Rightarrow> 'a list" where
  "reverse list = reverse_loop list []"

fun append_list :: "'a list \<Rightarrow> 'a list \<Rightarrow> 'a list" where
  "append_list [] tail = tail"
| "append_list (x # head) tail = x # append_list head tail"

definition listcopy :: "'a list \<Rightarrow> 'a list" where
  "listcopy list = append_list list []"

fun length_loop :: "'a list \<Rightarrow> int \<Rightarrow> int" where
  "length_loop [] len = len"
| "length_loop (x # list) len = length_loop list (len + 1)"

definition list_length :: "'a list \<Rightarrow> int" where
  "list_length list = length_loop list 0"

text \<open>\<open>listify\<close> counts \<open>argc\<close> down and puts each string in front.\<close>

fun listify_loop :: "string list \<Rightarrow> nat \<Rightarrow> terms \<Rightarrow> terms" where
  "listify_loop argv 0 list = list"
| "listify_loop argv (Suc argc) list = listify_loop argv argc (Str (argv ! argc) # list)"

definition listify :: "string list \<Rightarrow> terms" where
  "listify argv = listify_loop argv (length argv) []"

fun nth_loop :: "'a list \<Rightarrow> int \<Rightarrow> 'a option" where
  "nth_loop [] n = None"
| "nth_loop (x # list) n = (if n - 1 = 0 then Some x else nth_loop list (n - 1))"

definition nth_list :: "'a list \<Rightarrow> int \<Rightarrow> 'a option" where
  "nth_list list n = (if n \<le> 0 then None else nth_loop list n)"

definition vectorize :: "(es_term \<Rightarrow> string) \<Rightarrow> terms \<Rightarrow> string list" where
  "vectorize gs list = map gs list"

text \<open>
  \<open>sortvector\<close> is \<open>qsort\<close> with \<open>strcmp\<close>, which compares bytes as \<open>unsigned char\<close>: the order of the
  library on strings. Strings that compare equal are equal, so the sorted vector is unique.
\<close>

definition sortvector :: "string list \<Rightarrow> string list" where
  "sortvector v = sort v"

definition sortlist :: "(es_term \<Rightarrow> string) \<Rightarrow> terms \<Rightarrow> terms" where
  "sortlist gs list =
     (if 1 < list_length list then listify (sortvector (vectorize gs list)) else list)"

lemma reverse_loop_eq: "reverse_loop xs ys = rev xs @ ys"
  by (induction xs arbitrary: ys) auto

lemma reverse_eq [simp]: "reverse xs = rev xs"
  by (simp add: reverse_def reverse_loop_eq)

lemma append_list_eq [simp]: "append_list xs ys = xs @ ys"
  by (induction xs) auto

lemma listcopy_eq [simp]: "listcopy xs = xs"
  by (simp add: listcopy_def)

lemma length_loop_eq: "length_loop xs n = n + int (length xs)"
  by (induction xs arbitrary: n) auto

lemma list_length_eq [simp]: "list_length xs = int (length xs)"
  by (simp add: list_length_def length_loop_eq)

lemma listify_loop_eq:
  "n \<le> length argv \<Longrightarrow> listify_loop argv n list = map Str (take n argv) @ list"
  by (induction n arbitrary: list) (auto simp: take_Suc_conv_app_nth)

lemma listify_eq [simp]: "listify argv = map Str argv"
  by (simp add: listify_def listify_loop_eq)

lemma nth_loop_eq:
  "1 \<le> n \<Longrightarrow> nth_loop xs n = (if nat (n - 1) < length xs then Some (xs ! nat (n - 1)) else None)"
proof (induction xs arbitrary: n)
  case (Cons x xs)
  show ?case
  proof (cases "n = 1")
    case False
    then have "nat (n - 1) = Suc (nat (n - 1 - 1))" using Cons.prems by simp
    then show ?thesis using False Cons.prems Cons.IH [of "n - 1"] by simp
  qed simp
qed simp

lemma nth_list_eq:
  "nth_list xs n = (if 1 \<le> n \<and> n \<le> int (length xs) then Some (xs ! nat (n - 1)) else None)"
  using nth_loop_eq [of n xs] by (auto simp: nth_list_def)

lemma sortlist_strings:
  "map gs (sortlist gs list) = sort (map gs list)" if "\<And>s. gs (Str s) = s"
proof (cases "1 < length list")
  case True
  then show ?thesis using that by (simp add: sortlist_def vectorize_def sortvector_def comp_def)
next
  case False
  then show ?thesis by (cases list) (auto simp: sortlist_def)
qed

section \<open>Strings\<close>

definition isabsolute :: "string \<Rightarrow> bool" where
  "isabsolute path \<longleftrightarrow>
     (case path of [] \<Rightarrow> False
      | c # p \<Rightarrow> c = CHR ''/'' \<or>
          c = CHR ''.'' \<and> (case p of [] \<Rightarrow> False
            | d # q \<Rightarrow> d = CHR ''/'' \<or>
                d = CHR ''.'' \<and> (case q of [] \<Rightarrow> False | e # _ \<Rightarrow> e = CHR ''/'')))"

lemma isabsolute_prefix:
  "isabsolute p \<longleftrightarrow> hasprefix p ''/'' \<or> hasprefix p ''./'' \<or> hasprefix p ''../''"
  by (auto simp: isabsolute_def hasprefix_def split: list.splits)

section \<open>Statuses\<close>

definition ltrue :: terms where
  "ltrue = [Str ''0'']"

definition lfalse :: terms where
  "lfalse = [Str ''1'']"

fun istrue :: "terms \<Rightarrow> bool" where
  "istrue [] = True"
| "istrue (Clos c # status) = False"
| "istrue (Str s # status) = (if s \<noteq> [] \<and> (hd s \<noteq> CHR ''0'' \<or> tl s \<noteq> []) then False else istrue status)"

text \<open>\<open>n\<close> is \<open>unsigned long\<close>, so that a negative number is above 255.\<close>

definition exitstatus :: "terms \<Rightarrow> int" where
  "exitstatus status = (case status of
      [] \<Rightarrow> 0
    | t # u # rest \<Rightarrow> if istrue status then 0 else 1
    | [Clos c] \<Rightarrow> 1
    | [Str s] \<Rightarrow> if s = [] then 0
        else let (m, r) = strtol_auto s; n = uint (word_of_int m :: 64 word)
             in if r \<noteq> [] \<or> 255 < n then 1 else n)"

text \<open>The wait status macros of \<open>include/desh/stdenv.h\<close> on a status that is not negative.\<close>

definition SIFSTOPPED :: "32 word \<Rightarrow> bool" where
  "SIFSTOPPED status \<longleftrightarrow> status AND 0x40 \<noteq> 0"

definition SIFEXITED :: "32 word \<Rightarrow> bool" where
  "SIFEXITED status \<longleftrightarrow> \<not> (status AND 0xff \<noteq> 0)"

definition SIFSIGNALED :: "32 word \<Rightarrow> bool" where
  "SIFSIGNALED status \<longleftrightarrow> \<not> SIFEXITED status \<and> \<not> SIFSTOPPED status"

definition STERMSIG :: "32 word \<Rightarrow> int" where
  "STERMSIG status = uint (status AND 0x7f)"

definition SCOREDUMP :: "32 word \<Rightarrow> bool" where
  "SCOREDUMP status \<longleftrightarrow> status AND 0x80 \<noteq> 0"

definition SEXITSTATUS :: "32 word \<Rightarrow> int" where
  "SEXITSTATUS status = uint (signed_drop_bit 8 status AND 0xff)"

text \<open>The names of the signals are a table generated for the platform: the argument \<open>signame\<close>.\<close>

definition mkstatus :: "(int \<Rightarrow> string) \<Rightarrow> 32 word \<Rightarrow> string" where
  "mkstatus signame status =
     (if SIFSIGNALED status
      then let name = signame (STERMSIG status)
           in if SCOREDUMP status then name @ ''+core'' else name
      else show_nat (nat (SEXITSTATUS status)))"

text \<open>
  \<open>printstatus\<close>: what it writes to the standard error, given whether the shell owns the terminal
  and the message of each signal.
\<close>

definition printstatus :: "(int \<Rightarrow> string) \<Rightarrow> bool \<Rightarrow> nat \<Rightarrow> 32 word \<Rightarrow> string option" where
  "printstatus sigmessage foreground pid status =
     (if \<not> foreground then None
      else if SIFSIGNALED status then
        (let msg = sigmessage (STERMSIG status);
             tail = (if SCOREDUMP status then (if msg = [] then ''core dumped'' else ''--core dumped'') else [])
         in if msg \<noteq> [] \<or> tail \<noteq> []
            then if pid = 0 then Some (msg @ tail @ [CHR 0x0A])
                 else Some (show_nat pid @ '': '' @ msg @ tail @ [CHR 0x0A])
            else None)
      else None)"

lemma istrue_iff: "istrue status \<longleftrightarrow> (\<forall>t \<in> set status. t = Str [] \<or> t = Str ''0'')"
proof (induction status rule: istrue.induct)
  case (3 s status)
  then show ?case by (cases s) auto
qed auto

section \<open>Statuses as numbers\<close>

lemma and_ff: "uint (x AND 0xff) = uint x mod 256" for x :: "32 word"
proof -
  have "x AND 0xff = take_bit 8 x" by (simp add: take_bit_eq_mask mask_eq_exp_minus_1)
  then show ?thesis by (simp only: unsigned_take_bit_eq) (simp add: take_bit_eq_mod)
qed

lemma exit_status_word:
  assumes "n < 256"
  defines "x \<equiv> word_of_nat (n * 256) :: 32 word"
  shows "SIFEXITED x" "SEXITSTATUS x = int n"
proof -
  have u: "uint x = int n * 256"
    using assms(1) by (simp add: x_def unsigned_of_nat take_bit_nat_eq_self del: of_nat_mult)
  then show "SIFEXITED x" by (simp add: SIFEXITED_def flip: uint_0_iff) (simp add: and_ff)
  have "sint x = int n * 256"
    using assms(1) by (simp add: x_def signed_of_nat signed_take_bit_int_eq_self del: of_nat_mult)
  then have "sint (signed_drop_bit 8 x) = int n"
    by (simp add: sint_signed_drop_bit_eq drop_bit_eq_div)
  then have "uint (signed_drop_bit 8 x) = int n"
    using assms(1) by (subst uint_sint) (simp add: take_bit_int_eq_self)
  then show "SEXITSTATUS x = int n"
    using assms(1) by (simp add: SEXITSTATUS_def and_ff)
qed

lemma isdigit_facts: "isdigit c \<Longrightarrow> \<not> isspace c \<and> c \<noteq> CHR ''-'' \<and> c \<noteq> CHR ''+'' \<and> digit_val c < 10"
  by (auto simp: isdigit_def isspace_def digit_val_def uchar_def)

lemma strtol_auto_show_nat:
  assumes "n < 2 ^ 63"
  shows "strtol_auto (show_nat n) = (int n, [])"
proof (cases "n = 0")
  case True
  have "strtol_auto (show_nat 0) = (0, [])" by code_simp
  then show ?thesis using True by simp
next
  case False
  obtain c s where s: "show_nat n = c # s" by (cases "show_nat n") auto
  have d: "isdigit c" "c \<noteq> CHR ''0''" using show_nat_digits [of c n] show_nat_hd [of n] s False by auto
  note f = isdigit_facts [OF d(1)]
  have sg: "strtol_sign (c # s) = (False, c # s)" using f by (simp add: strtol_sign_def)
  have v: "digits_val 10 0 (c # s) = (int n, [])" using digits_val_show_nat [of n] s by simp
  have "sat64 (int n) = int n" using assms by (simp add: sat64_def)
  then have "strtol 10 (c # s) = (int n, [])"
    using f by (simp add: strtol_def sg v del: digits_val.simps)
  moreover have "take 2 (c # s) \<noteq> ''0x''" "take 2 (c # s) \<noteq> ''0X''" "take 1 (c # s) \<noteq> ''0''"
    using d(2) by (cases s; simp)+
  ultimately show ?thesis by (simp only: strtol_auto_def sg s Let_def prod.case simp_thms if_False)
qed

lemma exitstatus_bounds: "0 \<le> exitstatus status \<and> exitstatus status \<le> 255"
  by (auto simp: exitstatus_def Let_def split: list.split es_term.split prod.split)

lemma istrue_exitstatus: "istrue status \<Longrightarrow> exitstatus status = 0"
proof -
  assume t: "istrue status"
  have z: "exitstatus [Str ''0''] = 0" by code_simp
  consider "status = []" | t where "status = [t]" | t u r where "status = t # u # r"
    by (metis list.exhaust)
  then show "exitstatus status = 0"
  proof cases
    case 2
    then show ?thesis using t z by (auto simp: istrue_iff exitstatus_def)
  next
    case (3 t u r)
    then show ?thesis using t by (cases t) (simp_all add: exitstatus_def)
  qed (simp add: exitstatus_def)
qed

section \<open>Properties\<close>

text \<open>
  The exit value of a process survives the two conversions: the status of a process that exited with
  \<open>n\<close>, turned into a string and back into an exit value, is \<open>n\<close>.
\<close>

theorem exit_status_roundtrip:
  assumes "n < 256"
  shows "exitstatus [Str (mkstatus signame (word_of_nat (n * 256)))] = int n"
proof -
  have m: "mkstatus signame (word_of_nat (n * 256)) = show_nat n"
    using exit_status_word [OF assms] by (simp add: mkstatus_def SIFSIGNALED_def)
  have "uint (word_of_int (int n) :: 64 word) = int n" using assms by (simp add: unsigned_of_nat take_bit_nat_eq_self)
  then show ?thesis using assms strtol_auto_show_nat [of n] by (simp add: m exitstatus_def del: of_nat_mult)
qed

theorem exit_status_roundtrip_witness:
  "exitstatus [Str (mkstatus (\<lambda>_. ''sigint'') (word_of_nat (3 * 256)))] = int 3"
  by (rule exit_status_roundtrip) simp

text \<open>
  Exit values are bytes, and a true status exits with 0.
\<close>

theorem exitstatus_range:
  assumes "istrue status"
  shows "exitstatus status = 0 \<and> 0 \<le> exitstatus status' \<and> exitstatus status' \<le> 255"
  using istrue_exitstatus [OF assms] exitstatus_bounds [of status'] by simp

theorem exitstatus_range_witness:
  "exitstatus [Str [], Str ''0''] = 0 \<and> 0 \<le> exitstatus [Str ''7'', Str ''x''] \<and> exitstatus [Str ''7'', Str ''x''] \<le> 255"
  by (rule exitstatus_range) simp

text \<open>
  The reverse does not hold. The status \<open>00\<close> is false for the shell's conditionals but exits with 0.
\<close>

theorem false_status_exits_with_zero: "exitstatus [Str ''00''] = 0 \<and> \<not> istrue [Str ''00'']"
  by code_simp

text \<open>
  A process killed by signal 64 is reported as a process that exited with 0, because the number of
  the signal has the bit that the shell takes for a stopped process; signal 63 is reported by its name.
\<close>

theorem signal_64_reported_as_success:
  "mkstatus signame 64 = ''0'' \<and> mkstatus signame 63 = signame 63"
proof -
  have "SIFEXITED 64 = False" "SIFSTOPPED 64 = True" "SIFEXITED 63 = False" "SIFSTOPPED 63 = False"
    "SCOREDUMP 63 = False" "STERMSIG 63 = 63" "SEXITSTATUS 64 = 0" "show_nat 0 = ''0''" by code_simp+
  then show ?thesis by (simp add: mkstatus_def SIFSIGNALED_def)
qed

text \<open>
  Sorting. The sorted list consists of the strings of the terms of the given list, each as often, in
  the order of their bytes.
\<close>

theorem sortlist_correct:
  assumes "\<forall>s. gs (Str s) = s"
  shows "sorted (map gs (sortlist gs list)) \<and> mset (map gs (sortlist gs list)) = mset (map gs list)"
  using sortlist_strings [of gs list] assms by simp

theorem sortlist_correct_witness:
  "sorted (map (\<lambda>t. case t of Str s \<Rightarrow> s | _ \<Rightarrow> []) (sortlist (\<lambda>t. case t of Str s \<Rightarrow> s | _ \<Rightarrow> []) [Str ''b'', Str ''a''])) \<and>
   mset (map (\<lambda>t. case t of Str s \<Rightarrow> s | _ \<Rightarrow> []) (sortlist (\<lambda>t. case t of Str s \<Rightarrow> s | _ \<Rightarrow> []) [Str ''b'', Str ''a''])) =
   mset (map (\<lambda>t. case t of Str s \<Rightarrow> s | _ \<Rightarrow> []) [Str ''b'', Str ''a''])"
  by (rule sortlist_correct) simp

end
