(* ===== verification/Opt.thy ===== *)
theory Opt
  imports Values
begin

text \<open>
  Option parsing for the primitives (\<open>src/opt.c\<close>): the module's static variables are a record,
  \<open>esoptbegin\<close>, \<open>esopt\<close>, \<open>esoptarg\<close> and \<open>esoptend\<close> its operations. NULL is \<^const>\<open>None\<close> for \<open>usage\<close> and
  \<open>termarg\<close>, and the empty list for \<open>args\<close>.
\<close>

record optstate =
  usage :: "string option"
  invoker :: string
  args :: terms
  termarg :: "es_term option"
  nextchar :: nat

definition esoptbegin :: "terms \<Rightarrow> string \<Rightarrow> string \<Rightarrow> optstate \<Rightarrow> unit outcome \<times> optstate" where
  "esoptbegin list caller usagemsg st =
     (if usage st \<noteq> None then (Abort, st)
      else (Ok (), \<lparr>usage = Some usagemsg, invoker = caller, args = list, termarg = None, nextchar = 0\<rparr>))"

definition usage_msg :: "optstate \<Rightarrow> string" where
  "usage_msg st = (case usage st of None \<Rightarrow> [] | Some u \<Rightarrow> u)"

text \<open>The second half of \<open>esopt\<close>: the option character is \<open>arg[nextchar++]\<close>.\<close>

definition esopt_char ::
  "(es_term \<Rightarrow> string) \<Rightarrow> string \<Rightarrow> string \<Rightarrow> optstate \<Rightarrow> (char option) outcome \<times> optstate" where
  "esopt_char gs options arg st =
    (case char_at arg (nextchar st) of None \<Rightarrow> (Undef, st) | Some c \<Rightarrow>
     let st = st\<lparr>nextchar := nextchar st + 1\<rparr> in
     case strchr_nul options c of
       None \<Rightarrow>
         (Throw (fail_exn (invoker st)
            (''illegal option: -'' @ [c] @ '' -- usage: '' @ usage_msg st)),
          st\<lparr>usage := None, args := [], nextchar := 0\<rparr>)
     | Some opt \<Rightarrow>
        (case char_at arg (nextchar st) of None \<Rightarrow> (Undef, st) | Some d \<Rightarrow>
         let st = (if d = nul then st\<lparr>nextchar := 0, args := tl (args st)\<rparr> else st) in
         case char_at options (opt + 1) of None \<Rightarrow> (Undef, st) | Some e \<Rightarrow>
         if e = CHR '':'' then
           (if args st = [] then
              (Throw (fail_exn (invoker st)
                 (''option -'' @ [c] @ '' expects an argument -- usage: '' @ usage_msg st)), st)
            else (Ok (Some c),
                  st\<lparr>termarg := Some (if nextchar st = 0 then hd (args st) else Str (drop (nextchar st) arg)),
                     nextchar := 0, args := tl (args st)\<rparr>))
         else (Ok (Some c), st)))"

text \<open>\<open>EOF\<close> is \<^term>\<open>Ok None\<close>.\<close>

definition esopt ::
  "(es_term \<Rightarrow> string) \<Rightarrow> string \<Rightarrow> optstate \<Rightarrow> (char option) outcome \<times> optstate" where
  "esopt gs options st =
    (if usage st = None \<or> termarg st \<noteq> None then (Abort, st)
     else if nextchar st = 0 then
       (case args st of [] \<Rightarrow> (Ok None, st) | t # r \<Rightarrow>
          let arg = gs t in
          if arg = [] \<or> hd arg \<noteq> CHR ''-'' then (Ok None, st)
          else if arg = ''--'' then (Ok None, st\<lparr>args := r\<rparr>)
          else esopt_char gs options arg (st\<lparr>nextchar := 1\<rparr>))
     else (case args st of [] \<Rightarrow> (Abort, st) | t # r \<Rightarrow> esopt_char gs options (gs t) st))"

definition esoptarg :: "optstate \<Rightarrow> es_term outcome \<times> optstate" where
  "esoptarg st = (case termarg st of None \<Rightarrow> (Abort, st) | Some t \<Rightarrow> (Ok t, st\<lparr>termarg := None\<rparr>))"

definition esoptend :: "optstate \<Rightarrow> terms \<times> optstate" where
  "esoptend st = (args st, st\<lparr>args := [], usage := None\<rparr>)"

section \<open>The invariant\<close>

text \<open>
  Between two calls of \<open>esopt\<close> the options are being parsed, no argument is pending, and a nonzero
  \<open>nextchar\<close> points at a character of the first argument.
\<close>

definition opt_inv :: "(es_term \<Rightarrow> string) \<Rightarrow> optstate \<Rightarrow> bool" where
  "opt_inv gs st \<longleftrightarrow> usage st \<noteq> None \<and> termarg st = None \<and>
     (nextchar st \<noteq> 0 \<longrightarrow> args st \<noteq> [] \<and> nextchar st < length (gs (hd (args st))))"

text \<open>What is left to scan; it shrinks with every option returned.\<close>

definition opt_left :: "(es_term \<Rightarrow> string) \<Rightarrow> optstate \<Rightarrow> nat" where
  "opt_left gs st = (\<Sum>t\<leftarrow>args st. Suc (length (gs t))) - nextchar st"

text \<open>The only argument that makes the scan leave its string is a lone dash.\<close>

definition no_dash :: "(es_term \<Rightarrow> string) \<Rightarrow> optstate \<Rightarrow> bool" where
  "no_dash gs st \<longleftrightarrow> (\<forall>t \<in> set (args st). gs t \<noteq> ''-'' \<and> cstring (gs t))"

lemma strchr_nul_less: "c \<noteq> nul \<Longrightarrow> strchr_nul options c = Some i \<Longrightarrow> i < length options"
  by (simp add: strchr_nul_def strchr_Some)

lemma esopt_char_ok:
  assumes args: "args st = t # r" and n: "1 \<le> nextchar st" "nextchar st < length (gs t)"
    and cs: "cstring (gs t)" and run: "esopt_char gs options (gs t) st = (out, st')"
    and st: "usage st \<noteq> None" "termarg st = None"
  shows "(\<exists>c. out = Ok (Some c) \<and> c \<in> set options \<and> opt_inv gs (st'\<lparr>termarg := None\<rparr>) \<and>
            opt_left gs st' < opt_left gs st \<and> set (args st') \<subseteq> set (args st))
         \<or> (\<exists>m. out = Throw (fail_exn (invoker st) m))"
proof -
  let ?c = "gs t ! nextchar st"
  have c: "char_at (gs t) (nextchar st) = Some ?c" "?c \<noteq> nul"
    using n cs cstring_nth by (auto simp: char_at_def)
  show ?thesis
  proof (cases "strchr_nul options ?c")
    case None
    then show ?thesis using run c by (auto simp: esopt_char_def Let_def)
  next
    case (Some opt)
    then have opt: "opt < length options" "options ! opt = ?c"
      using c(2) strchr_nul_less by (auto simp: strchr_nul_def strchr_Some)
    then have mem: "?c \<in> set options" by (metis nth_mem)
    have "char_at options (Suc opt) \<noteq> None" using opt by (simp add: char_at_def)
    then obtain e where e: "char_at options (Suc opt) = Some e" by blast
    show ?thesis
    proof (cases "Suc (nextchar st) < length (gs t)")
      case True
      then have d: "char_at (gs t) (Suc (nextchar st)) = Some (gs t ! Suc (nextchar st))"
        "gs t ! Suc (nextchar st) \<noteq> nul"
        using cs cstring_nth by (auto simp: char_at_def)
      show ?thesis using args n run st c Some e d mem True
        by (cases r) (auto simp: esopt_char_def Let_def opt_inv_def opt_left_def split: if_splits)
    next
      case False
      then have d: "char_at (gs t) (Suc (nextchar st)) = Some nul" using n by (simp add: char_at_def)
      show ?thesis using args n run st c Some e d mem False
        by (cases r) (auto simp: esopt_char_def Let_def opt_inv_def opt_left_def split: if_splits)
    qed
  qed
qed

lemma esopt_ok:
  assumes inv: "opt_inv gs st" and nd: "no_dash gs st" and run: "esopt gs options st = (out, st')"
  shows "(out = Ok None \<and> opt_inv gs st')
    \<or> (\<exists>c. out = Ok (Some c) \<and> c \<in> set options \<and> opt_inv gs (st'\<lparr>termarg := None\<rparr>) \<and>
         opt_left gs st' < opt_left gs st \<and> set (args st') \<subseteq> set (args st))
    \<or> (\<exists>m. out = Throw (fail_exn (invoker st) m))"
proof (cases "args st")
  case Nil
  then show ?thesis using inv run by (auto simp: esopt_def opt_inv_def)
next
  case (Cons t r)
  have cs: "cstring (gs t)" "gs t \<noteq> ''-''" using nd Cons by (auto simp: no_dash_def)
  show ?thesis
  proof (cases "nextchar st = 0")
    case False
    then show ?thesis using inv run Cons esopt_char_ok [of st t r gs options out st'] cs(1)
      by (auto simp: esopt_def opt_inv_def)
  next
    case True
    let ?st = "st\<lparr>nextchar := 1\<rparr>"
    consider "gs t = [] \<or> hd (gs t) \<noteq> CHR ''-''" | "gs t = ''--''"
      | "gs t \<noteq> []" "hd (gs t) = CHR ''-''" "gs t \<noteq> ''--''" by blast
    then show ?thesis
    proof cases
      case 3
      then have "1 < length (gs t)" using cs(2) by (cases "gs t") auto
      moreover have "esopt_char gs options (gs t) ?st = (out, st')"
        using 3 run inv Cons True by (auto simp: esopt_def opt_inv_def Let_def split: if_splits)
      moreover have "opt_left gs ?st \<le> opt_left gs st" by (simp add: opt_left_def True)
      ultimately show ?thesis using esopt_char_ok [of ?st t r gs options out st'] inv Cons cs(1)
        by (fastforce simp: opt_inv_def)
    qed (use inv run Cons True in \<open>auto simp: esopt_def opt_inv_def Let_def\<close>)
  qed
qed

section \<open>The loop of the callers\<close>

text \<open>
  \<open>while ((c = esopt(options)) != EOF) switch (c) \<dots>\<close>: the options seen with their arguments; an
  option that has an argument calls \<open>esoptarg\<close>. The number of rounds is bounded by \<open>fuel\<close>.
\<close>

fun opt_loop ::
  "nat \<Rightarrow> (es_term \<Rightarrow> string) \<Rightarrow> string \<Rightarrow> optstate \<Rightarrow> (char \<times> es_term option) list outcome option" where
  "opt_loop 0 gs options st = None"
| "opt_loop (Suc fuel) gs options st =
    (case esopt gs options st of
       (Ok None, st) \<Rightarrow> Some (Ok [])
     | (Ok (Some c), st) \<Rightarrow>
         (case opt_loop fuel gs options (st\<lparr>termarg := None\<rparr>) of
            None \<Rightarrow> None
          | Some (Ok os) \<Rightarrow> Some (Ok ((c, termarg st) # os))
          | Some r \<Rightarrow> Some r)
     | (Throw e, st) \<Rightarrow> Some (Throw e) | (Abort, st) \<Rightarrow> Some Abort | (Undef, st) \<Rightarrow> Some Undef)"

lemma opt_loop_total:
  "opt_inv gs st \<Longrightarrow> no_dash gs st \<Longrightarrow> opt_left gs st < fuel \<Longrightarrow>
     (\<exists>os. opt_loop fuel gs options st = Some (Ok os) \<and> (\<forall>(c, a) \<in> set os. c \<in> set options))
     \<or> (\<exists>e. opt_loop fuel gs options st = Some (Throw e))"
proof (induction fuel arbitrary: st)
  case (Suc fuel)
  obtain out st' where run: "esopt gs options st = (out, st')" by (cases "esopt gs options st")
  from esopt_ok [OF Suc.prems(1,2) run] show ?case
  proof (elim disjE exE conjE)
    fix c
    assume c: "out = Ok (Some c)" "c \<in> set options" "opt_inv gs (st'\<lparr>termarg := None\<rparr>)"
      "opt_left gs st' < opt_left gs st" "set (args st') \<subseteq> set (args st)"
    then have "no_dash gs (st'\<lparr>termarg := None\<rparr>)" "opt_left gs (st'\<lparr>termarg := None\<rparr>) < fuel"
      using Suc.prems(2,3) by (auto simp: no_dash_def opt_left_def)
    from Suc.IH [OF c(3) this] show ?thesis using run c(1,2) by auto
  qed (use run in auto)
qed simp

section \<open>Properties\<close>

text \<open>
  The option loop of a primitive ends. Started on the state \<open>esoptbegin\<close> leaves, with arguments
  that are C strings and not a lone dash, it returns the options it met, each one of the accepted
  letters, or throws an exception; no assertion fails and no character behind the end of an argument
  is read. The fuel, one more than the characters of the arguments with their terminators, is enough.
\<close>

theorem option_loop_total:
  assumes "esoptbegin list caller msg st0 = (Ok (), st)"
    and "\<forall>t \<in> set list. gs t \<noteq> ''-'' \<and> cstring (gs t)"
    and "(\<Sum>t\<leftarrow>list. Suc (length (gs t))) < fuel"
  shows "(\<exists>os. opt_loop fuel gs options st = Some (Ok os) \<and> (\<forall>(c, a) \<in> set os. c \<in> set options))
     \<or> (\<exists>e. opt_loop fuel gs options st = Some (Throw e))"
proof -
  have "opt_inv gs st" "no_dash gs st" "opt_left gs st < fuel"
    using assms by (auto simp: esoptbegin_def opt_inv_def no_dash_def opt_left_def split: if_splits)
  then show ?thesis by (rule opt_loop_total)
qed

definition plain_str :: "es_term \<Rightarrow> string" where
  "plain_str t = (case t of Str s \<Rightarrow> s | Clos c \<Rightarrow> ''{}'')"

definition opt_idle :: optstate where
  "opt_idle = \<lparr>usage = None, invoker = [], args = [], termarg = None, nextchar = 0\<rparr>"

theorem option_loop_total_witness:
  "opt_loop 20 plain_str ''rn:x'' (snd (esoptbegin [Str ''-rn'', Str ''ls'', Str ''x''] ''access'' ''u'' opt_idle))
     \<in> {Some (Ok os) |os. \<forall>(c, a) \<in> set os. c \<in> set ''rn:x''} \<union> {Some (Throw e) |e. True}"
  using option_loop_total [of "[Str ''-rn'', Str ''ls'', Str ''x'']" "''access''" "''u''" opt_idle
      "snd (esoptbegin [Str ''-rn'', Str ''ls'', Str ''x''] ''access'' ''u'' opt_idle)" plain_str 20 "''rn:x''"]
  by (auto simp: esoptbegin_def opt_idle_def plain_str_def nul_def)

text \<open>
  An option that lacks its argument leaves \<open>usage\<close> set when the exception is thrown (the branch
  for an illegal option resets it), so the next primitive that parses options, even in a handler of
  this exception, fails the assertion at the start of \<open>esoptbegin\<close> and aborts the shell. The case
  is \<open>access -n\<close> followed by any \<open>access\<close>.
\<close>

theorem missing_argument_poisons_options:
  "case esoptbegin [Str ''-n''] ''$&access'' ''u'' opt_idle of (_, st1) \<Rightarrow>
   case esopt plain_str ''bcdefln:prswx1'' st1 of (out, st2) \<Rightarrow>
     (\<exists>m. out = Throw (fail_exn ''$&access'' m)) \<and> fst (esoptbegin l c u st2) = Abort"
  by (simp add: esoptbegin_def opt_idle_def esopt_def esopt_char_def plain_str_def char_at_def
      strchr_nul_def nul_def Let_def fail_exn_def)

lemma dash_reads_past_end:
  "case esoptbegin [Str ''-''] ''$&access'' ''u'' opt_idle of (_, st1) \<Rightarrow>
     fst (esopt plain_str ''bcdefln:prswx1'' st1) = Undef"
  by (simp add: esoptbegin_def opt_idle_def esopt_def esopt_char_def plain_str_def char_at_def
      strchr_nul_def nul_def Let_def)

end
