(* ===== verification/Split.thy ===== *)
theory Split
  imports Values
begin

text \<open>
  Splitting strings at separators (\<open>src/split.c\<close>). The static variables of the module are a record:
  the flags of the split under way, its buffer (\<^const>\<open>None\<close> is NULL), the words found so far in
  reverse, and the cached separator table \<open>isifs\<close> with the string \<open>ifs\<close> it was made from.
\<close>

record splitstate =
  coalesce :: bool
  splitchars :: bool
  buffer :: "string option"
  value_rev :: "string list"
  ifsvalid :: bool
  ifs :: string
  isifs :: "char \<Rightarrow> bool"

definition sep_table :: "string \<Rightarrow> char \<Rightarrow> bool" where
  "sep_table sep c \<longleftrightarrow> c = nul \<or> c \<in> set sep"

text \<open>The cache is kept when the new separators equal the old ones; \<open>ifs\<close> has ten bytes.\<close>

definition startsplit :: "string \<Rightarrow> bool \<Rightarrow> splitstate \<Rightarrow> splitstate" where
  "startsplit sep coalescef st =
    (let st = st\<lparr>value_rev := [], buffer := None, coalesce := coalescef,
                splitchars := (\<not> coalescef \<and> sep = [])\<rparr>
     in if \<not> ifsvalid st \<or> sep \<noteq> ifs st
        then (let st = (if length sep + 1 < 10 then st\<lparr>ifs := sep, ifsvalid := True\<rparr>
                        else st\<lparr>ifsvalid := False\<rparr>)
              in st\<lparr>isifs := sep_table sep\<rparr>)
        else st)"

text \<open>The loop over the characters: the buffer and the words found.\<close>

fun split_loop ::
  "bool \<Rightarrow> (char \<Rightarrow> bool) \<Rightarrow> string \<Rightarrow> string option \<Rightarrow> string list \<Rightarrow> string option \<times> string list" where
  "split_loop coal tab [] buf val = (buf, val)"
| "split_loop coal tab (c # s) buf val =
     (case buf of
        Some b \<Rightarrow> if tab c then split_loop coal tab s (if coal then None else Some []) (b # val)
                  else split_loop coal tab s (Some (b @ [c])) val
      | None \<Rightarrow> if \<not> tab c then split_loop coal tab s (Some [c]) val
                else split_loop coal tab s None val)"

definition splitstring :: "string \<Rightarrow> bool \<Rightarrow> splitstate \<Rightarrow> splitstate outcome" where
  "splitstring s endword st =
    (if splitchars st then
       (if buffer st \<noteq> None then Abort
        else Ok (st\<lparr>value_rev := rev (map (\<lambda>c. [c]) s) @ value_rev st\<rparr>))
     else
       (let buf = (if \<not> coalesce st \<and> buffer st = None then Some [] else buffer st);
            (buf, val) = split_loop (coalesce st) (isifs st) s buf (value_rev st)
        in Ok (if endword \<and> buf \<noteq> None then st\<lparr>value_rev := the buf # val, buffer := None\<rparr>
               else st\<lparr>value_rev := val, buffer := buf\<rparr>)))"

definition endsplit :: "splitstate \<Rightarrow> string list \<times> splitstate" where
  "endsplit st =
    (let st = (case buffer st of None \<Rightarrow> st
               | Some b \<Rightarrow> st\<lparr>value_rev := b # value_rev st, buffer := None\<rparr>)
     in (reverse (value_rev st), st\<lparr>value_rev := []\<rparr>))"

fun fsplit_loop :: "(es_term \<Rightarrow> string) \<Rightarrow> terms \<Rightarrow> splitstate \<Rightarrow> splitstate outcome" where
  "fsplit_loop gs [] st = Ok st"
| "fsplit_loop gs (t # lp) st =
     (case splitstring (gs t) True st of
        Ok st' \<Rightarrow> fsplit_loop gs lp st' | Throw e \<Rightarrow> Throw e | Abort \<Rightarrow> Abort | Undef \<Rightarrow> Undef)"

definition fsplit ::
  "(es_term \<Rightarrow> string) \<Rightarrow> string \<Rightarrow> terms \<Rightarrow> bool \<Rightarrow> splitstate \<Rightarrow> (terms \<times> splitstate) outcome" where
  "fsplit gs sep list coalescef st =
     (case fsplit_loop gs list (startsplit sep coalescef st) of
        Ok st' \<Rightarrow> (let (ws, st'') = endsplit st' in Ok (map Str ws, st''))
      | Throw e \<Rightarrow> Throw e | Abort \<Rightarrow> Abort | Undef \<Rightarrow> Undef)"

section \<open>What splitting means\<close>

text \<open>The fields of a string between separators; there is always one more than separators.\<close>

fun fields_of :: "(char \<Rightarrow> bool) \<Rightarrow> string \<Rightarrow> string list" where
  "fields_of P [] = [[]]"
| "fields_of P (c # s) = (if P c then [] # fields_of P s
                       else case fields_of P s of f # fs \<Rightarrow> (c # f) # fs | [] \<Rightarrow> [[c]])"

text \<open>The cached table belongs to the cached separators.\<close>

definition split_inv :: "splitstate \<Rightarrow> bool" where
  "split_inv st \<longleftrightarrow> (ifsvalid st \<longrightarrow> isifs st = sep_table (ifs st))"

lemma fields_of_nonempty [simp]: "fields_of P s \<noteq> []"
  by (induction s) (auto split: list.splits)

lemma fields_of_cons:
  "fields_of P (c # s) = (if P c then [] # fields_of P s else (c # hd (fields_of P s)) # tl (fields_of P s))"
  by (cases "fields_of P s") auto

declare fields_of.simps(2) [simp del]

lemma split_loop_fields:
  "\<exists>b'. split_loop False P s (Some b) val =
     (Some b', rev (butlast ((b @ hd (fields_of P s)) # tl (fields_of P s))) @ val) \<and>
     b' = last ((b @ hd (fields_of P s)) # tl (fields_of P s))"
proof (induction s arbitrary: b val)
  case (Cons c s)
  show ?case
  proof (cases "P c")
    case True
    then show ?thesis using Cons.IH [of "[]" "b # val"]
      by (cases "fields_of P s") (auto simp: fields_of_cons)
  next
    case False
    then show ?thesis using Cons.IH [of "b @ [c]" val] by (auto simp: fields_of_cons)
  qed
qed simp

text \<open>Appending the open buffer, if any, to the words, dropping nothing that is not empty.\<close>

definition buf_words :: "string option \<Rightarrow> string list" where
  "buf_words b = (case b of None \<Rightarrow> [] | Some w \<Rightarrow> [w])"

abbreviation nonempty :: "string list \<Rightarrow> string list" where
  "nonempty \<equiv> filter (\<lambda>w. w \<noteq> [])"

lemma split_loop_coalesce:
  "b \<noteq> Some [] \<Longrightarrow>
   (case split_loop True P s b val of (b', v') \<Rightarrow> rev (buf_words b' @ v') =
      rev val @ nonempty (((case b of None \<Rightarrow> [] | Some w \<Rightarrow> w) @ hd (fields_of P s)) # tl (fields_of P s)))"
proof (induction s arbitrary: b val)
  case Nil
  then show ?case by (cases b) (auto simp: buf_words_def)
next
  case (Cons c s)
  show ?case
  proof (cases b)
    case None
    show ?thesis
    proof (cases "P c")
      case True
      then show ?thesis using Cons.IH [of None val] None by (cases "fields_of P s") (auto simp: fields_of_cons)
    next
      case False
      then show ?thesis using Cons.IH [of "Some [c]" val] None by (auto simp: fields_of_cons)
    qed
  next
    case (Some w)
    show ?thesis
    proof (cases "P c")
      case True
      then show ?thesis using Cons.IH [of None "w # val"] Some Cons.prems
        by (cases "fields_of P s") (auto simp: fields_of_cons)
    next
      case False
      then show ?thesis using Cons.IH [of "Some (w @ [c])" val] Some by (auto simp: fields_of_cons)
    qed
  qed
qed

definition split_spec :: "string \<Rightarrow> bool \<Rightarrow> string \<Rightarrow> string list" where
  "split_spec sep coal s =
     (if coal then nonempty (fields_of (\<lambda>c. c \<in> set sep) s)
      else if sep = [] then map (\<lambda>c. [c]) s
      else fields_of (\<lambda>c. c \<in> set sep) s)"

lemma fields_of_cong: "(\<And>c. c \<in> set s \<Longrightarrow> P c = Q c) \<Longrightarrow> fields_of P s = fields_of Q s"
  by (induction s) (auto simp: fields_of_cons)

lemma splitstring_spec:
  assumes "isifs st = sep_table sep" "splitchars st = (\<not> coalesce st \<and> sep = [])"
    "buffer st = None" "cstring s"
  shows "splitstring s True st =
    Ok (st\<lparr>value_rev := rev (split_spec sep (coalesce st) s) @ value_rev st, buffer := None\<rparr>)"
proof -
  let ?P = "sep_table sep"
  have P: "fields_of ?P s = fields_of (\<lambda>c. c \<in> set sep) s"
    by (rule fields_of_cong) (use assms(4) in \<open>auto simp: sep_table_def cstring_def\<close>)
  have hd_tl: "hd (fields_of ?P s) # tl (fields_of ?P s) = fields_of ?P s" by simp
  consider "splitchars st" | "\<not> splitchars st" "\<not> coalesce st" | "\<not> splitchars st" "coalesce st" by blast
  then show ?thesis
  proof cases
    case 1
    then show ?thesis using assms by (simp add: splitstring_def split_spec_def)
  next
    case 2
    have bl: "last ws # rev (butlast ws) = rev ws" if "ws \<noteq> []" for ws :: "string list"
      using that by (metis append_butlast_last_id rev.simps(2) rev_append rev_rev_ident append_Nil append_Cons singleton_rev_conv)
    show ?thesis using 2 assms split_loop_fields [where P = ?P and s = s and b = "[]" and val = "value_rev st"] P
      by (auto simp: splitstring_def split_spec_def hd_tl bl simp flip: append_Cons)
  next
    case 3
    obtain b' v' where l: "split_loop True ?P s None (value_rev st) = (b', v')" by force
    then have "rev (buf_words b' @ v') = rev (value_rev st) @ nonempty (fields_of ?P s)"
      using split_loop_coalesce [where b = None and P = ?P and s = s and val = "value_rev st"] hd_tl by simp
    then have "buf_words b' @ v' = rev (nonempty (fields_of ?P s)) @ value_rev st"
      by (metis rev_append rev_rev_ident)
    then show ?thesis using 3 assms l P
      by (cases b') (simp_all add: splitstring_def split_spec_def buf_words_def)
  qed
qed

lemma startsplit_table:
  "split_inv st \<Longrightarrow> isifs (startsplit sep coal st) = sep_table sep \<and> split_inv (startsplit sep coal st)"
  by (auto simp: startsplit_def split_inv_def Let_def)

lemma fsplit_loop_spec:
  assumes "isifs st = sep_table sep" "splitchars st = (\<not> coalesce st \<and> sep = [])"
    "buffer st = None" "\<forall>t \<in> set list. cstring (gs t)"
  shows "fsplit_loop gs list st =
    Ok (st\<lparr>value_rev := rev (concat (map (\<lambda>t. split_spec sep (coalesce st) (gs t)) list)) @ value_rev st\<rparr>)"
  using assms
proof (induction list arbitrary: st)
  case (Cons t list)
  then show ?case by (simp add: splitstring_spec)
qed simp

lemma fsplit_split_spec:
  assumes "split_inv st" "\<forall>t \<in> set list. cstring (gs t)"
  shows "\<exists>st'. fsplit gs sep list coal st =
      Ok (map Str (concat (map (\<lambda>t. split_spec sep coal (gs t)) list)), st') \<and> split_inv st'"
proof -
  let ?st = "startsplit sep coal st"
  have "coalesce ?st = coal" "splitchars ?st = (\<not> coal \<and> sep = [])" "buffer ?st = None" "value_rev ?st = []"
    by (simp_all add: startsplit_def Let_def)
  then show ?thesis using assms fsplit_loop_spec [of ?st sep list gs] startsplit_table [of st sep coal]
    by (auto simp: fsplit_def endsplit_def split_inv_def)
qed

lemma join_fields: "join [c] (fields_of (\<lambda>x. x = c) s) = s"
proof (induction s)
  case (Cons x s)
  then show ?case
    by (cases "fields_of (\<lambda>x. x = c) s") (auto simp: fields_of_cons join_Cons, case_tac list, auto)
qed simp

lemma fields_append_sep:
  "c \<notin> set w \<Longrightarrow> fields_of (\<lambda>x. x = c) (w @ c # s) = w # fields_of (\<lambda>x. x = c) s"
  by (induction w) (auto simp: fields_of_cons)

lemma fields_no_sep: "c \<notin> set w \<Longrightarrow> fields_of (\<lambda>x. x = c) w = [w]"
  by (induction w) (auto simp: fields_of_cons)

lemma fields_join:
  "ws \<noteq> [] \<Longrightarrow> \<forall>w \<in> set ws. c \<notin> set w \<Longrightarrow> fields_of (\<lambda>x. x = c) (join [c] ws) = ws"
  by (induction ws rule: list_nonempty_induct) (auto simp: fields_append_sep fields_no_sep join_Cons)

section \<open>Properties\<close>

text \<open>
  C30: what splitting computes. For any separators, with the table cached by an earlier call or not,
  \<open>fsplit\<close> returns for each string of the list, in order, its fields between separators: all of them
  for \<open>%fsplit\<close>, the ones that are not empty for \<open>%split\<close> (\<open>coalesce\<close>), and the single characters
  for \<open>%fsplit\<close> with no separator; no assertion fails, and the cache stays consistent.
\<close>

theorem fsplit_correct:
  assumes "split_inv st" and "\<forall>t \<in> set list. cstring (gs t)"
  shows "\<exists>st'. fsplit gs sep list coal st = Ok (map Str (concat (map (\<lambda>t.
      if coal then filter (\<lambda>w. w \<noteq> []) (fields_of (\<lambda>c. c \<in> set sep) (gs t))
      else if sep = [] then map (\<lambda>c. [c]) (gs t)
      else fields_of (\<lambda>c. c \<in> set sep) (gs t)) list)), st') \<and> split_inv st'"
  using fsplit_split_spec [OF assms, of sep coal] by (simp add: split_spec_def)

text \<open>
  With one separator character, \<open>%fsplit\<close> and joining (\<open>%flatten\<close>) are inverse to each other:
  joining the fields of a string gives the string back, and splitting joined words that do not hold
  the separator gives the words back.
\<close>

theorem fsplit_join_roundtrip:
  assumes "split_inv st" and "cstring s" and "c \<noteq> nul"
    and "ws \<noteq> []" and "\<forall>w \<in> set ws. cstring w \<and> c \<notin> set w"
    and "\<And>x. gs (Str x) = x"
  shows "(\<exists>fs st'. fsplit gs [c] [Str s] False st = Ok (map Str fs, st') \<and> join [c] fs = s) \<and>
    (\<exists>st'. fsplit gs [c] [Str (join [c] ws)] False st = Ok (map Str ws, st'))"
proof
  show "\<exists>fs st'. fsplit gs [c] [Str s] False st = Ok (map Str fs, st') \<and> join [c] fs = s"
    using fsplit_split_spec [of st "[Str s]" gs "[c]" False] assms join_fields [of c s]
    by (auto simp: split_spec_def)
  have "cstring (join [c] ws)" using assms(3,5) by (simp add: cstring_join)
  then show "\<exists>st'. fsplit gs [c] [Str (join [c] ws)] False st = Ok (map Str ws, st')"
    using fsplit_split_spec [of st "[Str (join [c] ws)]" gs "[c]" False] assms fields_join [of ws c]
    by (auto simp: split_spec_def)
qed

definition split_start :: splitstate where
  "split_start = \<lparr>coalesce = False, splitchars = False, buffer = None, value_rev = [],
     ifsvalid = False, ifs = [], isifs = (\<lambda>_. False)\<rparr>"

theorem fsplit_correct_witness:
  "\<exists>st'. fsplit (\<lambda>t. case t of Str s \<Rightarrow> s | _ \<Rightarrow> []) '': '' [Str ''a::b c'', Str '':''] True split_start =
     Ok ([Str ''a'', Str ''b'', Str ''c''], st')"
  using fsplit_correct [of split_start "[Str ''a::b c'', Str '':'']"
      "\<lambda>t. case t of Str s \<Rightarrow> s | _ \<Rightarrow> []" "'': ''" True]
  by (auto simp: split_start_def split_inv_def nul_def fields_of_cons)

theorem fsplit_join_roundtrip_witness:
  "\<exists>st'. fsplit (\<lambda>t. case t of Str s \<Rightarrow> s | _ \<Rightarrow> []) '':'' [Str ''/bin::/usr''] False split_start =
     Ok ([Str ''/bin'', Str [], Str ''/usr''], st')"
  using fsplit_join_roundtrip [of split_start "''x''" "CHR '':''" "[''/bin'', [], ''/usr'']"
      "\<lambda>t. case t of Str s \<Rightarrow> s | _ \<Rightarrow> []"]
  by (simp add: split_start_def split_inv_def nul_def)

end
