(* ===== verification/Match.thy ===== *)
theory Match
  imports Values
begin

text \<open>
  Pattern matching, \<open>src/match.c\<close>: \<open>rangematch\<close>, \<open>match\<close>, \<open>listmatch\<close>, \<open>extractsinglematch\<close> and
  \<open>extractmatches\<close>, with \<open>haswild\<close> of \<open>src/glob.cpp\<close>. A pattern and its quoting flags are read as a
  list of tokens with a language given by rules; the matcher is proved to decide that language, and
  extraction to split a subject along its pattern.
\<close>

section \<open>Quoting\<close>

text \<open>
  The quoting of a pattern: the addresses \<open>QUOTED\<close> and \<open>UNQUOTED\<close>, or a string with a flag \<open>q\<close> or
  \<open>r\<close> (raw) for each character. \<open>TAILQUOTE\<close> steps over \<open>n\<close> characters.
\<close>

datatype quote = QUOTED | UNQUOTED | Flags string

definition TAILQUOTE :: "quote \<Rightarrow> nat \<Rightarrow> quote" where
  "TAILQUOTE q n = (case q of Flags f \<Rightarrow> Flags (drop n f) | _ \<Rightarrow> q)"

definition flag_at :: "string \<Rightarrow> nat \<Rightarrow> char" where
  "flag_at f n = (if n < length f then f ! n else nul)"

text \<open>
  \<open>rangematch\<close> increments its \<open>quote\<close> pointer, and \<open>UNQUOTED + k\<close> is not the address \<open>UNQUOTED\<close> any
  more: the macro then reads the array \<open>char UNQUOTED[] = "RAW"\<close> at \<open>k + n\<close>, and behind its four bytes
  whatever the memory holds there, the argument \<open>mem\<close>. \<open>ISQUOTED mem q k n\<close> is the macro for the
  pointer \<open>q\<close> after \<open>k\<close> increments.
\<close>

definition raw_byte :: "(nat \<Rightarrow> char) \<Rightarrow> nat \<Rightarrow> char" where
  "raw_byte mem i = (if i < 3 then ''RAW'' ! i else if i = 3 then nul else mem (i - 4))"

definition ISQUOTED :: "(nat \<Rightarrow> char) \<Rightarrow> quote \<Rightarrow> nat \<Rightarrow> nat \<Rightarrow> bool" where
  "ISQUOTED mem q k n = (case q of
      QUOTED \<Rightarrow> True
    | UNQUOTED \<Rightarrow> k \<noteq> 0 \<and> raw_byte mem (k + n) = CHR ''q''
    | Flags f \<Rightarrow> flag_at f (k + n) = CHR ''q'')"

definition israw :: "quote \<Rightarrow> bool" where
  "israw q = (case q of QUOTED \<Rightarrow> False | UNQUOTED \<Rightarrow> True | Flags f \<Rightarrow> flag_at f 0 = CHR ''r'')"

section \<open>Character classes\<close>

datatype range = RangeFail | RangeError | RangeOk nat

text \<open>
  The loop of \<open>rangematch\<close> at offset \<open>k\<close>; its pattern is the rest of the string. A range whose end is
  the terminator of the pattern, possible only with a stray flag behind it, makes the code run off the
  string; what it does then is undefined, here it is the error.
\<close>

fun range_loop :: "(nat \<Rightarrow> char) \<Rightarrow> quote \<Rightarrow> char \<Rightarrow> bool \<Rightarrow> string \<Rightarrow> nat \<Rightarrow> bool \<Rightarrow> range" where
  "range_loop mem q c neg [] k matched = RangeError"
| "range_loop mem q c neg (a # p) k matched =
     (if a = CHR '']'' \<and> \<not> ISQUOTED mem q k 0
      then (if matched \<noteq> neg then RangeOk (k + 1) else RangeFail)
      else if p \<noteq> [] \<and> hd p = CHR ''-'' \<and> \<not> ISQUOTED mem q k 1 \<and>
              ((tl p \<noteq> [] \<and> hd (tl p) \<noteq> CHR '']'') \<or> ISQUOTED mem q k 2)
      then (if tl p = [] then RangeError
            else range_loop mem q c neg (drop 2 p) (k + 3)
                   (matched \<or> schar a \<le> schar c \<and> schar c \<le> schar (p ! 1)))
      else range_loop mem q c neg p (k + 1) (matched \<or> a = c))"

definition rangematch :: "(nat \<Rightarrow> char) \<Rightarrow> string \<Rightarrow> quote \<Rightarrow> char \<Rightarrow> range" where
  "rangematch mem p q c =
    (let neg = (p \<noteq> [] \<and> hd p = CHR ''~'' \<and> \<not> ISQUOTED mem q 0 0);
         k = (if neg then 1 else 0); p = drop k p;
         first = (p \<noteq> [] \<and> hd p = CHR '']'' \<and> \<not> ISQUOTED mem q k 0)
     in if first then range_loop mem q c neg (tl p) (k + 1) (c = CHR '']'')
        else range_loop mem q c neg p k False)"

section \<open>Matching\<close>

fun collapse_stars :: "string \<Rightarrow> quote \<Rightarrow> string \<times> quote" where
  "collapse_stars [] q = ([], q)"
| "collapse_stars (a # p) q =
     (if a = CHR ''*'' \<and> israw q then collapse_stars p (TAILQUOTE q 1) else (a # p, q))"

lemma collapse_stars_length: "length (fst (collapse_stars p q)) \<le> length p"
  by (induction p q rule: collapse_stars.induct) auto

function match_loop :: "(nat \<Rightarrow> char) \<Rightarrow> string \<Rightarrow> string \<Rightarrow> quote \<Rightarrow> bool"
  and match_star :: "(nat \<Rightarrow> char) \<Rightarrow> string \<Rightarrow> string \<Rightarrow> quote \<Rightarrow> bool" where
  "match_loop mem s [] q = (s = [])"
| "match_loop mem s (c # p) q =
    (let q' = TAILQUOTE q 1 in
     if israw q then
       (if c = CHR ''?'' then s \<noteq> [] \<and> match_loop mem (tl s) p q'
        else if c = CHR ''*'' then
          (let (p'', q'') = collapse_stars p q'
           in if p'' = [] then True else match_star mem s p'' q'')
        else if c = CHR ''['' then
          s \<noteq> [] \<and>
          (case rangematch mem p q' (hd s) of
             RangeOk j \<Rightarrow> match_loop mem (tl s) (drop j p) (TAILQUOTE q' j)
           | RangeFail \<Rightarrow> False
           | RangeError \<Rightarrow> hd s = CHR ''['' \<and> match_loop mem (tl s) p q')
        else s \<noteq> [] \<and> c = hd s \<and> match_loop mem (tl s) p q')
     else s \<noteq> [] \<and> c = hd s \<and> match_loop mem (tl s) p q')"
| "match_star mem [] p q = False"
| "match_star mem (a # s) p q = (match_loop mem (a # s) p q \<or> match_star mem s p q)"
  by pat_completeness auto
termination
proof (relation "measures [case_sum (\<lambda>(mem, s, p, q). length p) (\<lambda>(mem, s, p, q). length p),
     case_sum (\<lambda>(mem, s, p, q). 2 * length s) (\<lambda>(mem, s, p, q). 2 * length s + 1)]", goal_cases)
  case (3 mem s c p q q' x p'' q'')
  then have "length p'' \<le> length p" using collapse_stars_length [of p q'] by (metis fst_conv)
  then show ?case by simp
qed auto

definition match :: "(nat \<Rightarrow> char) \<Rightarrow> string \<Rightarrow> string \<Rightarrow> quote \<Rightarrow> bool" where
  "match mem s p q = (if q = QUOTED then s = p else match_loop mem s p q)"

section \<open>Lists of patterns\<close>

text \<open>An empty subject list is matched by a pattern of one or more raw stars.\<close>

fun all_stars :: "string \<Rightarrow> quote \<Rightarrow> bool" where
  "all_stars [] q = True"
| "all_stars (c # p) q = (c = CHR ''*'' \<and> israw q \<and> all_stars p (TAILQUOTE q 1))"

fun listmatch_null :: "(string \<times> quote) list \<Rightarrow> bool" where
  "listmatch_null [] = False"
| "listmatch_null ((pw, qw) # pats) =
     (if pw \<noteq> [] \<and> qw \<noteq> QUOTED \<and> all_stars pw qw then True else listmatch_null pats)"

fun listmatch_words :: "(nat \<Rightarrow> char) \<Rightarrow> string list \<Rightarrow> string \<Rightarrow> quote \<Rightarrow> bool" where
  "listmatch_words mem [] pw qw = False"
| "listmatch_words mem (tw # t) pw qw = (if match mem tw pw qw then True else listmatch_words mem t pw qw)"

fun listmatch_pats :: "(nat \<Rightarrow> char) \<Rightarrow> string list \<Rightarrow> (string \<times> quote) list \<Rightarrow> bool" where
  "listmatch_pats mem s [] = False"
| "listmatch_pats mem s ((pw, qw) # pats) =
     (if listmatch_words mem s pw qw then True else listmatch_pats mem s pats)"

definition listmatch :: "(nat \<Rightarrow> char) \<Rightarrow> string list \<Rightarrow> (string \<times> quote) list \<Rightarrow> bool" where
  "listmatch mem subject pats =
     (if subject = [] then (if pats = [] then True else listmatch_null pats)
      else listmatch_pats mem subject pats)"

section \<open>Extracting what the wildcards matched\<close>

fun haswild :: "string \<Rightarrow> quote \<Rightarrow> bool" where
  "haswild [] q = False"
| "haswild (c # s) q =
     ((c = CHR ''*'' \<or> c = CHR ''?'' \<or> c = CHR ''['') \<and> israw q \<or> haswild s (TAILQUOTE q 1))"

text \<open>The first tail that matches, with the part in front of it; \<^const>\<open>None\<close> is the failed assertion.\<close>

fun star_find :: "(nat \<Rightarrow> char) \<Rightarrow> string \<Rightarrow> string \<Rightarrow> quote \<Rightarrow> (string \<times> string) option" where
  "star_find mem [] p q = None"
| "star_find mem (a # s) p q =
     (if match mem (a # s) p q then Some ([], a # s)
      else map_option (\<lambda>(u, v). (a # u, v)) (star_find mem s p q))"

text \<open>
  \<open>extractsinglematch\<close> and its loop, which return the pieces in reverse; \<^const>\<open>None\<close> is a failed
  assertion or a step behind the end of the subject.
\<close>

function extract_single ::
    "(nat \<Rightarrow> char) \<Rightarrow> string \<Rightarrow> string \<Rightarrow> quote \<Rightarrow> string list \<Rightarrow> string list option"
  and extract_loop ::
    "(nat \<Rightarrow> char) \<Rightarrow> string \<Rightarrow> string \<Rightarrow> quote \<Rightarrow> string list \<Rightarrow> string list option" where
  "extract_single mem subject pat q result =
     (if \<not> haswild pat q \<or> \<not> match mem subject pat q then Some []
      else extract_loop mem subject pat q result)"
| "extract_loop mem s [] q result = Some result"
| "extract_loop mem s (c # p) q result =
    (let q' = TAILQUOTE q 1 in
     if ISQUOTED mem q 0 0 then
       (if s = [] then None else extract_loop mem (tl s) p q' result)
     else if c = CHR ''*'' then
       (if p = [] then Some (s # result)
        else (case star_find mem s p q' of
                None \<Rightarrow> None
              | Some (u, v) \<Rightarrow>
                  if haswild p q' then extract_single mem v p q' (u # result)
                  else Some (u # result)))
     else if s = [] then None
     else if c = CHR ''['' then
       (case rangematch mem p q' (hd s) of
          RangeFail \<Rightarrow> None
        | RangeError \<Rightarrow> if hd s = CHR ''['' then extract_loop mem (tl s) p q' result else None
        | RangeOk j \<Rightarrow> extract_loop mem (tl s) (drop j p) (TAILQUOTE q' j) ([hd s] # result))
     else if c = CHR ''?'' then extract_loop mem (tl s) p q' ([hd s] # result)
     else extract_loop mem (tl s) p q' result)"
  by pat_completeness auto
termination
  by (relation "measures [case_sum (\<lambda>(mem, s, p, q, r). length p) (\<lambda>(mem, s, p, q, r). length p),
       case_sum (\<lambda>_. 1) (\<lambda>_. 0)]") auto

definition extractsinglematch :: "(nat \<Rightarrow> char) \<Rightarrow> string \<Rightarrow> string \<Rightarrow> quote \<Rightarrow> string list option" where
  "extractsinglematch mem subject pat q = extract_single mem subject pat q []"

text \<open>For each subject the pieces of the first pattern that yields any.\<close>

fun extract_first :: "(nat \<Rightarrow> char) \<Rightarrow> string \<Rightarrow> (string \<times> quote) list \<Rightarrow> string list option" where
  "extract_first mem subject [] = Some []"
| "extract_first mem subject ((pat, quote) # pats) =
     (case extractsinglematch mem subject pat quote of
        None \<Rightarrow> None
      | Some m \<Rightarrow> if m \<noteq> [] then Some (reverse m) else extract_first mem subject pats)"

fun extractmatches :: "(nat \<Rightarrow> char) \<Rightarrow> string list \<Rightarrow> (string \<times> quote) list \<Rightarrow> string list option" where
  "extractmatches mem [] pats = Some []"
| "extractmatches mem (subject # subjects) pats =
     (case extract_first mem subject pats of None \<Rightarrow> None
      | Some m \<Rightarrow> map_option (\<lambda>r. m @ r) (extractmatches mem subjects pats))"

section \<open>The language of a pattern\<close>

text \<open>A pattern as a sequence of tokens; a class is a list of ranges, possibly negated.\<close>

datatype ptok = Lit char | AnyChar | Star | Class bool "(char \<times> char) list"

definition in_items :: "char \<Rightarrow> (char \<times> char) list \<Rightarrow> bool" where
  "in_items c items \<longleftrightarrow> (\<exists>(a, b) \<in> set items. schar a \<le> schar c \<and> schar c \<le> schar b)"

fun class_items :: "(nat \<Rightarrow> char) \<Rightarrow> quote \<Rightarrow> string \<Rightarrow> nat \<Rightarrow> ((char \<times> char) list \<times> nat) option" where
  "class_items mem q [] k = None"
| "class_items mem q (a # p) k =
     (if a = CHR '']'' \<and> \<not> ISQUOTED mem q k 0 then Some ([], k + 1)
      else if p \<noteq> [] \<and> hd p = CHR ''-'' \<and> \<not> ISQUOTED mem q k 1 \<and>
              ((tl p \<noteq> [] \<and> hd (tl p) \<noteq> CHR '']'') \<or> ISQUOTED mem q k 2)
      then (if tl p = [] then None
            else map_option (\<lambda>(is, n). ((a, p ! 1) # is, n)) (class_items mem q (drop 2 p) (k + 3)))
      else map_option (\<lambda>(is, n). ((a, a) # is, n)) (class_items mem q p (k + 1)))"

definition class_of :: "(nat \<Rightarrow> char) \<Rightarrow> string \<Rightarrow> quote \<Rightarrow> (bool \<times> (char \<times> char) list \<times> nat) option" where
  "class_of mem p q =
    (let neg = (p \<noteq> [] \<and> hd p = CHR ''~'' \<and> \<not> ISQUOTED mem q 0 0);
         k = (if neg then 1 else 0); p = drop k p;
         first = (p \<noteq> [] \<and> hd p = CHR '']'' \<and> \<not> ISQUOTED mem q k 0)
     in map_option (\<lambda>(is, n). (neg, (if first then [(CHR '']'', CHR '']'')] else []) @ is, n))
          (if first then class_items mem q (tl p) (k + 1) else class_items mem q p k))"

function tokens :: "(nat \<Rightarrow> char) \<Rightarrow> string \<Rightarrow> quote \<Rightarrow> ptok list" where
  "tokens mem [] q = []"
| "tokens mem (c # p) q =
    (let q' = TAILQUOTE q 1 in
     if \<not> israw q then Lit c # tokens mem p q'
     else if c = CHR ''?'' then AnyChar # tokens mem p q'
     else if c = CHR ''*'' then Star # tokens mem p q'
     else if c = CHR ''['' then
       (case class_of mem p q' of
          None \<Rightarrow> Lit c # tokens mem p q'
        | Some (neg, items, n) \<Rightarrow> Class neg items # tokens mem (drop n p) (TAILQUOTE q' n))
     else Lit c # tokens mem p q')"
  by pat_completeness auto
termination
  by (relation "measure (\<lambda>(mem, p, q). length p)") auto

inductive lang :: "ptok list \<Rightarrow> string \<Rightarrow> bool" where
  lang_nil: "lang [] []"
| lang_lit: "lang ts s \<Longrightarrow> lang (Lit c # ts) (c # s)"
| lang_any: "lang ts s \<Longrightarrow> lang (AnyChar # ts) (c # s)"
| lang_class: "in_items c items \<noteq> neg \<Longrightarrow> lang ts s \<Longrightarrow> lang (Class neg items # ts) (c # s)"
| lang_star: "lang ts s \<Longrightarrow> lang (Star # ts) (w @ s)"

inductive_simps lang_simps [simp]:
  "lang [] s" "lang (Lit c # ts) s" "lang (AnyChar # ts) s" "lang (Class neg items # ts) s"
  "lang (Star # ts) s"

lemma in_items_Cons:
  "in_items c ((a, b) # items) \<longleftrightarrow> (schar a \<le> schar c \<and> schar c \<le> schar b) \<or> in_items c items"
  by (auto simp: in_items_def)

lemma in_items_Nil [simp]: "\<not> in_items c []"
  by (simp add: in_items_def)

lemma schar_single: "schar a \<le> schar c \<and> schar c \<le> schar a \<longleftrightarrow> a = c"
  by (metis order_antisym_conv order_refl schar_inject)

lemma range_loop_items:
  "range_loop mem q c neg p k matched =
     (case class_items mem q p k of None \<Rightarrow> RangeError
      | Some (items, n) \<Rightarrow> if (matched \<or> in_items c items) \<noteq> neg then RangeOk n else RangeFail)"
proof (induction mem q c neg p k matched rule: range_loop.induct)
  case (2 mem q c neg a p k matched)
  define X where "X \<longleftrightarrow> a = CHR '']'' \<and> \<not> ISQUOTED mem q k 0"
  define Y where "Y \<longleftrightarrow> p \<noteq> [] \<and> hd p = CHR ''-'' \<and> \<not> ISQUOTED mem q k 1 \<and>
              ((tl p \<noteq> [] \<and> hd (tl p) \<noteq> CHR '']'') \<or> ISQUOTED mem q k 2)"
  note simps = range_loop.simps class_items.simps
    X_def [symmetric] Y_def [symmetric]
  note IH = 2 [unfolded X_def [symmetric] Y_def [symmetric]]
  consider "X" | "\<not> X" "Y" "tl p = []" | "\<not> X" "Y" "tl p \<noteq> []" | "\<not> X" "\<not> Y" by blast
  then show ?case
  proof cases
    case 1 then show ?thesis by (simp only: simps if_True option.case prod.case in_items_Nil) simp
  next
    case 2
    note c = this
    show ?thesis
      by (simp only: simps c(1,2) not_False_eq_True if_True if_False) (simp add: c(3))
  next
    case 3
    note c = this
    show ?thesis
      by (cases "class_items mem q (drop 2 p) (k + 3)")
         (simp only: simps c(1,2) not_False_eq_True if_True if_False,
          simp add: c(3) IH(1) [OF c] in_items_Cons disj_assoc case_prod_beta del: One_nat_def)+
  next
    case 4
    note c = this
    show ?thesis
      by (cases "class_items mem q p (k + 1)")
         (simp only: simps c(1,2) not_False_eq_True if_True if_False,
          simp add: IH(2) [OF c] in_items_Cons schar_single disj_assoc case_prod_beta del: One_nat_def add_Suc_right add_0_right Nat.add_0_right)+
  qed
qed simp

lemma rangematch_class:
  "rangematch mem p q c =
     (case class_of mem p q of None \<Rightarrow> RangeError
      | Some (neg, items, n) \<Rightarrow> if in_items c items \<noteq> neg then RangeOk n else RangeFail)"
proof -
  define neg where "neg = (p \<noteq> [] \<and> hd p = CHR ''~'' \<and> \<not> ISQUOTED mem q 0 0)"
  define k :: nat where "k = (if neg then 1 else 0)"
  define p' where "p' = drop k p"
  define first where "first = (p' \<noteq> [] \<and> hd p' = CHR '']'' \<and> \<not> ISQUOTED mem q k 0)"
  note defs = neg_def [symmetric] k_def [symmetric] p'_def [symmetric] first_def [symmetric]
  note eqs = rangematch_def class_of_def Let_def defs range_loop_items
  show ?thesis
    by (cases first; cases "class_items mem q (if first then tl p' else p') (if first then k + 1 else k)")
       (auto simp only: eqs if_True if_False option.case option.map prod.case append.simps
          in_items_Cons schar_single eq_commute [of c] simp_thms split: prod.splits)
qed


lemma collapse_stars_tokens:
  "collapse_stars p q = (p'', q'') \<Longrightarrow>
     \<exists>k. tokens mem p q = replicate k Star @ tokens mem p'' q''"
proof (induction p q rule: collapse_stars.induct)
  case (1 q)
  then show ?case by (intro exI [of _ 0]) simp
next
  case (2 a p q)
  show ?case
  proof (cases "a = CHR ''*'' \<and> israw q")
    case True
    then obtain k where "tokens mem p (TAILQUOTE q 1) = replicate k Star @ tokens mem p'' q''"
      using 2 by fastforce
    then show ?thesis using True by (intro exI [of _ "Suc k"]) simp
  next
    case False
    then have "a # p = p'' \<and> q = q''" using "2.prems" by (simp split: if_splits)
    then show ?thesis by (intro exI [of _ 0]) simp
  qed
qed

lemma lang_Star_iff: "lang (Star # ts) s \<longleftrightarrow> (\<exists>u v. s = u @ v \<and> lang ts v)"
  by auto

lemma lang_stars: "lang (Star # replicate k Star @ ts) s \<longleftrightarrow> lang (Star # ts) s"
proof (induction k arbitrary: s)
  case (Suc k)
  have "lang (Star # replicate (Suc k) Star @ ts) s \<longleftrightarrow> (\<exists>u v. s = u @ v \<and> lang (Star # ts) v)"
    by (simp only: replicate_Suc append_Cons lang_Star_iff [of "Star # replicate k Star @ ts"] Suc.IH)
  also have "\<dots> \<longleftrightarrow> lang (Star # ts) s"
    by (simp only: lang_Star_iff) (metis append.assoc append.left_neutral)
  finally show ?case .
qed simp

lemma tokens_not_nullable:
  assumes "collapse_stars p q = (p'', q'')" "p'' \<noteq> []"
  shows "\<not> lang (tokens mem p'' q'') []"
proof -
  obtain c p3 where p: "p'' = c # p3" using assms(2) by (cases p'') auto
  have "\<not> (c = CHR ''*'' \<and> israw q'')"
    using assms(1) unfolding p by (induction p q rule: collapse_stars.induct) (auto split: if_splits)
  then show ?thesis unfolding p by (auto simp: Let_def split: option.splits)
qed

lemma lang_Star_nonempty:
  assumes "\<not> lang ts []"
  shows "lang (Star # ts) s \<longleftrightarrow> (\<exists>u v. s = u @ v \<and> v \<noteq> [] \<and> lang ts v)"
  using assms by (simp only: lang_Star_iff) metis

lemma ex_suffix_Cons:
  "(\<exists>u v. a # s = u @ v \<and> v \<noteq> [] \<and> P v) \<longleftrightarrow> P (a # s) \<or> (\<exists>u v. s = u @ v \<and> v \<noteq> [] \<and> P v)"
  by (auto simp: Cons_eq_append_conv)

lemma match_loop_lang:
  shows "match_loop mem s p q \<longleftrightarrow> lang (tokens mem p q) s"
    and "match_star mem s p q \<longleftrightarrow> (\<exists>u v. s = u @ v \<and> v \<noteq> [] \<and> lang (tokens mem p q) v)"
proof (induction mem s p q and mem s p q rule: match_loop_match_star.induct)
  case (1 mem s q)
  then show ?case by simp
next
  case (2 mem s c p q)
  define q' where "q' = TAILQUOTE q 1"
  note IH = 2 [unfolded q'_def [symmetric], OF refl]
  show ?case
  proof (cases "israw q")
    case raw: True
    show ?thesis
    proof (cases "c = CHR ''*''")
      case True
      obtain p'' q'' where cs: "collapse_stars p q' = (p'', q'')" by fastforce
      obtain k where tk: "tokens mem p q' = replicate k Star @ tokens mem p'' q''"
        using collapse_stars_tokens [OF cs] by blast
      have l: "lang (tokens mem (c # p) q) s \<longleftrightarrow> lang (Star # tokens mem p'' q'') s"
        using raw True by (simp add: Let_def q'_def [symmetric] tk lang_stars del: lang_simps One_nat_def)
      show ?thesis
      proof (cases "p'' = []")
        case True2: True
        then show ?thesis using raw True cs unfolding l
          by (simp add: Let_def q'_def [symmetric] del: One_nat_def)
      next
        case False
        have "match_loop mem s (c # p) q \<longleftrightarrow> match_star mem s p'' q''"
          using raw True cs False by (simp add: Let_def q'_def [symmetric] del: One_nat_def)
        also have "\<dots> \<longleftrightarrow> lang (Star # tokens mem p'' q'') s"
          using IH(2) [OF raw _ True cs [symmetric] refl False] True
            lang_Star_nonempty [OF tokens_not_nullable [OF cs False]] by simp
        finally show ?thesis unfolding l .
      qed
    next
      case nostar: False
      show ?thesis
      proof (cases "c = CHR ''[''")
        case True
        show ?thesis
        proof (cases s)
          case Nil
          then show ?thesis using raw True
            by (auto simp: Let_def split: option.splits)
        next
          case (Cons a t)
          show ?thesis
          proof (cases "class_of mem p q'")
            case None
            then show ?thesis using raw True Cons IH(3) [OF raw _ _ True]
              by (simp add: Let_def q'_def [symmetric] rangematch_class del: One_nat_def)
          next
            case (Some x)
            obtain neg items n where x: "x = (neg, items, n)" by (cases x) auto
            show ?thesis using raw True Cons Some x IH(4) [OF raw _ _ True]
              by (simp add: Let_def q'_def [symmetric] rangematch_class del: One_nat_def)
          qed
        qed
      next
        case False
        then show ?thesis using raw nostar IH by (cases s) (auto simp: Let_def q'_def [symmetric] simp del: One_nat_def)
      qed
    qed
  next
    case False
    then show ?thesis using IH by (cases s) (auto simp: Let_def q'_def [symmetric] simp del: One_nat_def)
  qed
next
  case (3 mem p q)
  then show ?case by simp
next
  case (4 mem a s p q)
  show ?case by (simp only: match_star.simps 4 ex_suffix_Cons)
qed


lemma match_lang: "match mem s p q \<longleftrightarrow> lang (tokens mem p q) s"
proof (cases "q = QUOTED")
  case True
  have "lang (tokens mem p QUOTED) s \<longleftrightarrow> s = p"
    by (induction p arbitrary: s)
       (auto simp: Let_def israw_def TAILQUOTE_def)
  then show ?thesis using True by (simp add: match_def)
qed (simp add: match_def match_loop_lang)

section \<open>Extraction\<close>

text \<open>A subject split along a pattern: one piece for each wildcard.\<close>

inductive splits :: "ptok list \<Rightarrow> string list \<Rightarrow> string \<Rightarrow> bool" where
  splits_nil: "splits [] [] []"
| splits_lit: "splits ts ps s \<Longrightarrow> splits (Lit c # ts) ps (c # s)"
| splits_any: "splits ts ps s \<Longrightarrow> splits (AnyChar # ts) ([c] # ps) (c # s)"
| splits_class: "in_items c items \<noteq> neg \<Longrightarrow> splits ts ps s \<Longrightarrow> splits (Class neg items # ts) ([c] # ps) (c # s)"
| splits_star: "splits ts ps s \<Longrightarrow> splits (Star # ts) (w # ps) (w @ s)"

lemmas splits_intros = splits_nil splits_lit splits_any splits_class splits_star

definition wf_quote :: "string \<Rightarrow> quote \<Rightarrow> bool" where
  "wf_quote p q = (case q of Flags f \<Rightarrow> length f = length p \<and> set f \<subseteq> {CHR ''q'', CHR ''r''} | _ \<Rightarrow> True)"

lemma wf_quote_drop: "wf_quote p q \<Longrightarrow> wf_quote (drop n p) (TAILQUOTE q n)"
  using set_drop_subset by (fastforce simp: wf_quote_def TAILQUOTE_def split: quote.splits)

lemma wf_quote_tail: "wf_quote (c # p) q \<Longrightarrow> wf_quote p (TAILQUOTE q 1)"
  using wf_quote_drop [of "c # p" q 1] by simp

lemma wf_quote_raw: "wf_quote (c # p) q \<Longrightarrow> ISQUOTED mem q 0 0 \<longleftrightarrow> \<not> israw q"
  by (cases q) (auto simp: wf_quote_def ISQUOTED_def israw_def flag_at_def length_Suc_conv)

fun single_stars :: "ptok list \<Rightarrow> bool" where
  "single_stars (Star # Star # ts) = False"
| "single_stars (t # ts) = single_stars ts"
| "single_stars [] = True"

lemma single_stars_tl: "single_stars (t # ts) \<Longrightarrow> single_stars ts"
  by (induction "t # ts" rule: single_stars.induct) auto

lemma no_wild_tokens: "\<not> haswild p q \<Longrightarrow> tokens mem p q = map Lit p"
  by (induction p arbitrary: q) (auto simp: Let_def)

lemma splits_lits: "splits (map Lit p) [] p"
  by (induction p) (auto intro: splits_intros)

lemma lang_lits: "lang (map Lit p) s \<longleftrightarrow> s = p"
  by (induction p arbitrary: s) auto

lemma star_find_total:
  assumes "lang (Star # tokens mem p q) s" "\<not> lang (tokens mem p q) []"
  shows "\<exists>u v. star_find mem s p q = Some (u, v) \<and> s = u @ v \<and> lang (tokens mem p q) v"
  using assms
proof (induction s rule: list.induct)
  case Nil
  then show ?case by simp
next
  case (Cons a s)
  show ?case
  proof (cases "lang (tokens mem p q) (a # s)")
    case True
    then show ?thesis by (simp add: match_lang)
  next
    case False
    then have "lang (Star # tokens mem p q) s"
      using Cons.prems by (auto simp: lang_Star_iff Cons_eq_append_conv simp del: lang_simps)
    then obtain u v where "star_find mem s p q = Some (u, v)" "s = u @ v" "lang (tokens mem p q) v"
      using Cons.IH [OF _ Cons.prems(2)] by blast
    then show ?thesis using False by (simp add: match_lang)
  qed
qed

lemma tokens_star_next:
  assumes "single_stars (Star # tokens mem p q)" "p \<noteq> []"
  shows "\<not> lang (tokens mem p q) []"
  using assms by (cases p) (auto simp: Let_def split: option.splits if_splits)

lemma extract_loop_splits:
  assumes "wf_quote p q" "single_stars (tokens mem p q)" "lang (tokens mem p q) s"
  shows "\<exists>ps. extract_loop mem s p q r = Some (rev ps @ r) \<and> splits (tokens mem p q) ps s"
  using assms
proof (induction "length p" arbitrary: p q s r rule: less_induct)
  case less
  show ?case
  proof (cases p)
    case Nil
    then show ?thesis using less.prems splits_nil by auto
  next
    case (Cons c p1)
    define q1 where "q1 = TAILQUOTE q 1"
    have IH: "\<exists>ps. extract_loop mem s' (drop n p1) (TAILQUOTE q1 n) r' = Some (rev ps @ r') \<and>
        splits (tokens mem (drop n p1) (TAILQUOTE q1 n)) ps s'"
      if "single_stars (tokens mem (drop n p1) (TAILQUOTE q1 n))"
         "lang (tokens mem (drop n p1) (TAILQUOTE q1 n)) s'" for n s' r'
    proof (rule less.hyps)
      show "length (drop n p1) < length p" using Cons by simp
      show "wf_quote (drop n p1) (TAILQUOTE q1 n)"
        using less.prems(1) unfolding Cons q1_def by (intro wf_quote_drop wf_quote_tail)
    qed (rule that)+
    have q0: "TAILQUOTE q1 0 = q1" by (cases q1) (simp_all add: TAILQUOTE_def)
    note IH0 = IH [of 0, simplified q0 drop0]
    have raw: "ISQUOTED mem q 0 0 \<longleftrightarrow> \<not> israw q"
      using wf_quote_raw less.prems(1) Cons by blast
    note step = raw q1_def [symmetric] Let_def
    note defs = Cons step
    consider (lit) "\<not> israw q \<or> c \<notin> set ''?*[''" | (any) "israw q" "c = CHR ''?''"
      | (star) "israw q" "c = CHR ''*''" | (cls) "israw q" "c = CHR ''[''" by auto
    then show ?thesis
    proof cases
      case lit
      then have t: "tokens mem p q = Lit c # tokens mem p1 q1"
        using Cons by (auto simp: Let_def q1_def)
      obtain s1 where s: "s = c # s1" "lang (tokens mem p1 q1) s1" using less.prems(3) t by auto
      have "extract_loop mem s p q r = extract_loop mem s1 p1 q1 r"
        using lit s(1) by (auto simp: defs simp del: One_nat_def)
      then show ?thesis using IH0 [OF _ s(2), of r] less.prems(2) single_stars_tl
        unfolding t s(1) by (metis splits_lit)
    next
      case any
      then have t: "tokens mem p q = AnyChar # tokens mem p1 q1"
        using Cons by (auto simp: Let_def q1_def)
      obtain a s1 where s: "s = a # s1" "lang (tokens mem p1 q1) s1" using less.prems(3) t by auto
      have "extract_loop mem s p q r = extract_loop mem s1 p1 q1 ([a] # r)"
        using any s(1) by (simp add: defs del: One_nat_def)
      moreover obtain ps where "extract_loop mem s1 p1 q1 ([a] # r) = Some (rev ps @ [a] # r)"
          "splits (tokens mem p1 q1) ps s1"
        using IH0 [OF _ s(2), of "[a] # r"] less.prems(2) single_stars_tl unfolding t by metis
      ultimately show ?thesis unfolding t s(1)
        by (intro exI [of _ "[a] # ps"]) (auto intro: splits_any)
    next
      case star
      then have t: "tokens mem p q = Star # tokens mem p1 q1"
        using Cons by (auto simp: Let_def q1_def)
      show ?thesis
      proof (cases "p1 = []")
        case True
        have "splits (tokens mem p q) [s] s" using splits_star [OF splits_nil, of s] True t by simp
        moreover have "extract_loop mem s p q r = Some (s # r)"
          using star True by (simp add: defs del: One_nat_def)
        ultimately show ?thesis by (intro exI [of _ "[s]"]) simp
      next
        case False
        have nn: "\<not> lang (tokens mem p1 q1) []" and ss: "single_stars (tokens mem p1 q1)"
          using tokens_star_next [OF _ False] less.prems(2) single_stars_tl unfolding t by blast+
        obtain u v where uv: "star_find mem s p1 q1 = Some (u, v)" "s = u @ v"
            "lang (tokens mem p1 q1) v"
          using star_find_total nn less.prems(3) unfolding t by blast
        show ?thesis
        proof (cases "haswild p1 q1")
          case True
          obtain ps where ps: "extract_loop mem v p1 q1 (u # r) = Some (rev ps @ u # r)"
              "splits (tokens mem p1 q1) ps v"
            using IH0 [OF ss uv(3)] by blast
          have "extract_loop mem s p q r = Some (rev ps @ u # r)"
            using star uv True False ps(1)
            by (simp add: defs match_lang del: One_nat_def)
          then show ?thesis using splits_star [OF ps(2), of u] unfolding t uv(2)
            by (intro exI [of _ "u # ps"]) simp
        next
          case nw: False
          then have "splits (tokens mem p1 q1) [] v"
            using uv(3) by (simp add: no_wild_tokens lang_lits splits_lits)
          moreover have "extract_loop mem s p q r = Some (u # r)"
            using star uv False nw by (simp add: defs del: One_nat_def)
          ultimately show ?thesis unfolding t uv(2)
            by (intro exI [of _ "[u]"]) (auto intro: splits_star)
        qed
      qed
    next
      case cls
      show ?thesis
      proof (cases "class_of mem p1 q1")
        case None
        then have t: "tokens mem p q = Lit c # tokens mem p1 q1"
          using Cons cls by (auto simp: Let_def q1_def)
        obtain s1 where s: "s = c # s1" "lang (tokens mem p1 q1) s1" using less.prems(3) t by auto
        have "extract_loop mem s p q r = extract_loop mem s1 p1 q1 r"
          using cls s(1) None by (simp add: defs rangematch_class del: One_nat_def)
        then show ?thesis using IH0 [OF _ s(2), of r] less.prems(2) single_stars_tl
          unfolding t s(1) by (metis splits_lit)
      next
        case (Some x)
        obtain neg items n where x: "x = (neg, items, n)" by (cases x) auto
        have t: "tokens mem p q = Class neg items # tokens mem (drop n p1) (TAILQUOTE q1 n)"
          using Cons cls Some x by (auto simp: Let_def q1_def)
        obtain a s1 where s: "s = a # s1" "in_items a items \<noteq> neg"
            "lang (tokens mem (drop n p1) (TAILQUOTE q1 n)) s1"
          using less.prems(3) t by auto
        have "extract_loop mem s p q r =
            extract_loop mem s1 (drop n p1) (TAILQUOTE q1 n) ([a] # r)"
          using cls s(1,2) Some x by (simp add: defs rangematch_class del: One_nat_def)
        moreover obtain ps where
            "extract_loop mem s1 (drop n p1) (TAILQUOTE q1 n) ([a] # r) = Some (rev ps @ [a] # r)"
            "splits (tokens mem (drop n p1) (TAILQUOTE q1 n)) ps s1"
          using IH [OF _ s(3), of "[a] # r"] less.prems(2) single_stars_tl unfolding t by metis
        ultimately show ?thesis unfolding t s(1) using s(2)
          by (intro exI [of _ "[a] # ps"]) (auto intro: splits_class)
      qed
    qed
  qed
qed


lemma all_stars_lang: "all_stars p q \<longleftrightarrow> lang (tokens mem p q) []"
  by (induction p q rule: all_stars.induct) (auto simp: Let_def split: option.splits)

lemma listmatch_null_iff:
  "listmatch_null pats \<longleftrightarrow> (\<exists>(p, q) \<in> set pats. p \<noteq> [] \<and> match mem [] p q)"
proof (induction pats rule: listmatch_null.induct)
  case (2 pw qw pats)
  have "qw \<noteq> QUOTED" if "pw \<noteq> []" "all_stars pw qw"
    using that by (cases pw) (auto simp: israw_def)
  then show ?case using 2 by (auto simp: all_stars_lang [of _ _ mem] match_lang)
qed simp

lemma listmatch_words_iff: "listmatch_words mem ws p q \<longleftrightarrow> (\<exists>w \<in> set ws. match mem w p q)"
  by (induction ws) auto

lemma listmatch_pats_iff:
  "listmatch_pats mem ws pats \<longleftrightarrow> (\<exists>(p, q) \<in> set pats. \<exists>w \<in> set ws. match mem w p q)"
  by (induction pats) (auto simp: listmatch_words_iff)

text \<open>With no stray \<open>q\<close> behind the array, \<open>UNQUOTED\<close> means what a string of raw flags means.\<close>

lemma ISQUOTED_unquoted:
  assumes "\<forall>i. mem i \<noteq> CHR ''q''"
  shows "\<not> ISQUOTED mem UNQUOTED k n"
proof -
  have "raw_byte mem i \<noteq> CHR ''q''" for i
    using assms by (auto simp: raw_byte_def nul_def nth_Cons split: nat.splits)
  then show ?thesis by (simp add: ISQUOTED_def)
qed

lemma ISQUOTED_raw: "\<not> ISQUOTED mem (Flags (replicate m (CHR ''r''))) k n"
  by (simp add: ISQUOTED_def flag_at_def nul_def)

lemma class_items_unquoted:
  assumes "\<And>k n. \<not> ISQUOTED mem q k n" "\<And>k n. \<not> ISQUOTED mem q' k n"
  shows "class_items mem q p k = class_items mem q' p k"
proof (induction "length p" arbitrary: p k rule: less_induct)
  case less
  show ?case
  proof (cases p)
    case (Cons a p1)
    have "class_items mem q (drop 2 p1) (k + 3) = class_items mem q' (drop 2 p1) (k + 3)"
      "class_items mem q p1 (k + 1) = class_items mem q' p1 (k + 1)"
      using Cons by (intro less; simp)+
    then show ?thesis by (simp only: Cons class_items.simps assms)
  qed simp
qed

lemma tokens_unquoted:
  assumes "\<forall>i. mem i \<noteq> CHR ''q''"
  shows "tokens mem p UNQUOTED = tokens mem p (Flags (replicate (length p) (CHR ''r'')))"
proof (induction "length p" arbitrary: p rule: less_induct)
  case less
  show ?case
  proof (cases p)
    case (Cons c p1)
    define R where "R = (\<lambda>n. Flags (replicate n (CHR ''r'')))"
    have tq: "TAILQUOTE UNQUOTED n = UNQUOTED" "TAILQUOTE (R m) n = R (m - n)" for n m
      by (simp_all add: TAILQUOTE_def R_def)
    have raw: "israw UNQUOTED" "israw (R (Suc m))" for m
      by (simp_all add: israw_def flag_at_def R_def)
    have IH: "tokens mem (drop n p1) UNQUOTED = tokens mem (drop n p1) (R (length p1 - n))" for n
      using less [of "drop n p1"] Cons by (simp add: R_def)
    have cls: "class_of mem p1 UNQUOTED = class_of mem p1 (R (length p1))"
      unfolding class_of_def Let_def
      by (simp only: R_def ISQUOTED_unquoted [OF assms] ISQUOTED_raw
          class_items_unquoted [of mem UNQUOTED "Flags (replicate (length p1) (CHR ''r''))",
            OF ISQUOTED_unquoted [OF assms] ISQUOTED_raw])
    have "tokens mem (c # p1) UNQUOTED = tokens mem (c # p1) (R (Suc (length p1)))"
      unfolding tokens.simps tq raw cls Let_def diff_Suc_1 IH [of 0, unfolded drop0 diff_zero] IH
      by (simp add: raw split del: if_split)
    then show ?thesis by (simp add: Cons R_def)
  qed simp
qed

section \<open>Properties\<close>

text \<open>
  C31: the matcher is correct. \<open>match\<close>, with its collapsing of stars, its early returns and its
  offsets, accepts a string exactly when the language of the pattern contains it, where the pattern is
  read as a sequence of literals, wildcards and character classes and the language is defined by rules.
\<close>

theorem match_accepts_language: "match mem s p q \<longleftrightarrow> lang (tokens mem p q) s"
  by (rule match_lang)

text \<open>
  Lists of patterns. The empty list is matched by the empty list of patterns and by a pattern that
  is not the empty word and matches the empty word; any other list is matched when one of its words
  matches one of the patterns.
\<close>

theorem listmatch_correct:
  "listmatch mem subject pats \<longleftrightarrow>
     subject = [] \<and> pats = [] \<or>
     subject = [] \<and> (\<exists>(p, q) \<in> set pats. p \<noteq> [] \<and> match mem [] p q) \<or>
     (\<exists>(p, q) \<in> set pats. \<exists>w \<in> set subject. match mem w p q)"
  by (auto simp: listmatch_def listmatch_null_iff [of _ mem] listmatch_pats_iff)

text \<open>
  C32: extraction. For a pattern with a wildcard, well-formed quoting flags and no two raw stars in a
  row, extraction from a string that matches never fails an assertion and yields, in reverse, one piece
  for each wildcard; the pieces put in place of the wildcards give the string back, and each is one
  its wildcard admits.
\<close>

theorem extraction_splits_subject:
  assumes "haswild p q" "match mem s p q" "wf_quote p q" "single_stars (tokens mem p q)"
  shows "\<exists>ps. extractsinglematch mem s p q = Some (rev ps) \<and> splits (tokens mem p q) ps s"
  using extract_loop_splits [OF assms(3,4), of s "[]"] assms(1,2)
  by (simp add: extractsinglematch_def match_lang)

theorem extraction_splits_subject_witness:
  "\<exists>ps. extractsinglematch (\<lambda>_. nul) ''main.c'' ''m*.[ch]'' UNQUOTED = Some (rev ps) \<and>
     splits (tokens (\<lambda>_. nul) ''m*.[ch]'' UNQUOTED) ps ''main.c''"
  by (rule extraction_splits_subject; code_simp)

text \<open>
  Two stars in a row. The subject \<open>a\<close> matches the pattern \<open>a**\<close>, because \<open>match\<close> collapses
  the stars, but extraction does not collapse them and fails its assertion \<open>*s != '\0'\<close>.
\<close>

theorem double_star_fails_assertion:
  "match mem ''a'' ''a**'' UNQUOTED \<and> extractsinglematch mem ''a'' ''a**'' UNQUOTED = None"
  by (simp add: match_def israw_def TAILQUOTE_def extractsinglematch_def ISQUOTED_def Let_def)

text \<open>
  A class in an unquoted pattern is matched the way raw flags ask for as long as no byte behind
  the array \<open>UNQUOTED\<close> happens to be the letter \<open>q\<close>.
\<close>

theorem unquoted_is_raw:
  assumes "\<forall>i. mem i \<noteq> CHR ''q''"
  shows "match mem s p UNQUOTED = match mem s p (Flags (replicate (length p) (CHR ''r'')))"
  using tokens_unquoted [OF assms] by (simp add: match_lang)

theorem unquoted_is_raw_witness:
  "match (\<lambda>_. nul) ''x'' ''[a-z]'' UNQUOTED =
   match (\<lambda>_. nul) ''x'' ''[a-z]'' (Flags (replicate (length ''[a-z]'') (CHR ''r'')))"
  by (rule unquoted_is_raw) (simp add: nul_def)

text \<open>
  A byte \<open>q\<close> behind the array changes the result. \<open>f\<close> is matched by \<open>[abcdef]\<close>, but with a
  \<open>q\<close> in the third byte behind the array, read by the macro through the incremented pointer, the closing
  bracket is taken for a quoted one and the class for an unclosed one.
\<close>

theorem stray_byte_changes_match:
  "match (\<lambda>_. nul) ''f'' ''[abcdef]'' UNQUOTED \<and>
   \<not> match ((\<lambda>_. nul)(2 := CHR ''q'')) ''f'' ''[abcdef]'' UNQUOTED"
  by code_simp

end
