(* ===== verification/Print.thy ===== *)
theory Print
  imports Values
begin

text \<open>
  Formatted printing: \<open>src/print.c\<close> with \<open>include/desh/print.h\<close>, the growing buffers of \<open>src/gc.c\<close> and
  the printing entry points of \<open>src/str.c\<close>. A \<open>Format\<close> collects characters in a buffer and calls its
  \<open>grow\<close> function when the buffer is full; there are three such functions, one that writes the buffer
  to a file descriptor and two that enlarge it. What they have in common is the locale \<open>sink\<close>, and what
  printing does with any of them is proved inside it.
\<close>

section \<open>Buffers\<close>

text \<open>A \<open>Buffer\<close> with \<open>len\<close> bytes, of which the first \<open>current\<close> are filled.\<close>

record gcbuffer =
  blen :: nat
  bbytes :: string

definition openbuffer :: "nat \<Rightarrow> gcbuffer" where
  "openbuffer minsize = \<lparr>blen = (if minsize < 500 then 500 else minsize), bbytes = []\<rparr>"

definition expandbuffer :: "gcbuffer \<Rightarrow> nat \<Rightarrow> gcbuffer" where
  "expandbuffer b minsize = b\<lparr>blen := blen b + (if minsize > blen b then minsize else blen b)\<rparr>"

text \<open>The loop of \<open>bufncat\<close> ends because a buffer is never empty; an empty one would loop.\<close>

function bufncat_loop :: "gcbuffer \<Rightarrow> nat \<Rightarrow> gcbuffer" where
  "bufncat_loop b n =
     (if length (bbytes b) + n \<ge> blen b \<and> 0 < blen b
      then bufncat_loop (expandbuffer b (length (bbytes b) + n - blen b)) n else b)"
  by auto
termination
  by (relation "measure (\<lambda>(b, n). length (bbytes b) + n + 1 - blen b)") (auto simp: expandbuffer_def)

declare bufncat_loop.simps [simp del]

definition bufncat :: "gcbuffer \<Rightarrow> string \<Rightarrow> gcbuffer" where
  "bufncat b s = (let b = bufncat_loop b (length s) in b\<lparr>bbytes := bbytes b @ s\<rparr>)"

definition bufputc :: "gcbuffer \<Rightarrow> char \<Rightarrow> gcbuffer" where
  "bufputc b c = bufncat b [c]"

definition sealcountedbuffer :: "gcbuffer \<Rightarrow> string" where
  "sealcountedbuffer b = bbytes b"

section \<open>Formats\<close>

text \<open>
  A \<open>Format\<close>: \<open>fbuf\<close> the characters from \<open>bufbegin\<close> to \<open>buf\<close>, \<open>fsize\<close> the distance from \<open>bufbegin\<close> to
  \<open>bufend\<close>, \<open>fout\<close> what has been written to the descriptor so far.
\<close>

record fmt =
  flags :: "64 word"
  f1 :: int
  f2 :: int
  finvoker :: char
  fbuf :: string
  fsize :: nat
  flushed :: nat
  fout :: string

type_synonym grow = "fmt \<Rightarrow> nat \<Rightarrow> fmt"

definition FMT_long :: "64 word" where "FMT_long = 1"
definition FMT_short :: "64 word" where "FMT_short = 2"
definition FMT_unsigned :: "64 word" where "FMT_unsigned = 4"
definition FMT_zeropad :: "64 word" where "FMT_zeropad = 8"
definition FMT_leftside :: "64 word" where "FMT_leftside = 16"
definition FMT_altform :: "64 word" where "FMT_altform = 32"
definition FMT_f1set :: "64 word" where "FMT_f1set = 64"
definition FMT_f2set :: "64 word" where "FMT_f2set = 128"

lemmas FMT_defs = FMT_long_def FMT_short_def FMT_unsigned_def FMT_zeropad_def FMT_leftside_def
  FMT_altform_def FMT_f1set_def FMT_f2set_def

definition hasflag :: "fmt \<Rightarrow> 64 word \<Rightarrow> bool" where
  "hasflag f x \<longleftrightarrow> flags f AND x \<noteq> 0"

definition fmtputc :: "grow \<Rightarrow> fmt \<Rightarrow> char \<Rightarrow> fmt" where
  "fmtputc g f c =
     (let f = (if length (fbuf f) \<ge> fsize f then g f 1 else f) in f\<lparr>fbuf := fbuf f @ [c]\<rparr>)"

text \<open>\<open>fmtappend\<close>; \<^const>\<open>None\<close> is a loop that does not end.\<close>

partial_function (option) fmtappend :: "grow \<Rightarrow> fmt \<Rightarrow> string \<Rightarrow> fmt option" where
  "fmtappend g f s =
     (if length (fbuf f) + length s > fsize f then
        (let n = fsize f - length (fbuf f) in
         fmtappend g (g (f\<lparr>fbuf := fbuf f @ take n s\<rparr>) (length s - n)) (drop n s))
      else Some (f\<lparr>fbuf := fbuf f @ s\<rparr>))"

declare fmtappend.simps [code]

definition fmtcat :: "grow \<Rightarrow> fmt \<Rightarrow> string \<Rightarrow> fmt option" where
  "fmtcat g f s = fmtappend g f s"

section \<open>The grow functions\<close>

text \<open>\<open>fprint_flush\<close> repeats \<open>write\<close> until all of the buffer is out; writes that fail are not modelled.\<close>

definition fprint_flush :: grow where
  "fprint_flush f need = f\<lparr>flushed := flushed f + length (fbuf f), fout := fout f @ fbuf f, fbuf := []\<rparr>"

text \<open>\<open>str_grow\<close> is \<open>expandbuffer\<close> on the buffer of the format.\<close>

definition str_grow :: grow where
  "str_grow f need = f\<lparr>fsize := blen (expandbuffer \<lparr>blen = fsize f, bbytes = fbuf f\<rparr> need)\<rparr>"

definition PRINT_ALLOCSIZE :: nat where
  "PRINT_ALLOCSIZE = 64"

definition mprint_grow :: grow where
  "mprint_grow f need =
    (let len = fsize f + 1;
         len = (if len \<ge> need then len * 2 else ((len + need) + PRINT_ALLOCSIZE) div 64 * 64)
     in f\<lparr>fsize := len - 1\<rparr>)"

section \<open>What a sink does\<close>

definition sink_ok :: "fmt \<Rightarrow> bool" where
  "sink_ok f \<longleftrightarrow> length (fbuf f) \<le> fsize f \<and> 0 < fsize f"

definition content :: "fmt \<Rightarrow> string" where
  "content f = fout f @ fbuf f"

text \<open>The fields of a format that only the conversions use.\<close>

definition same_conv :: "fmt \<Rightarrow> fmt \<Rightarrow> bool" where
  "same_conv f f' \<longleftrightarrow> flags f' = flags f \<and> f1 f' = f1 f \<and> f2 f' = f2 f \<and> finvoker f' = finvoker f"

lemma same_conv_trans: "same_conv f f' \<Longrightarrow> same_conv f' f'' \<Longrightarrow> same_conv f f''"
  by (simp add: same_conv_def)

locale sink =
  fixes grow :: grow
  assumes grow_ok: "sink_ok f \<Longrightarrow> fsize f \<le> length (fbuf f) \<Longrightarrow>
      sink_ok (grow f need) \<and> length (fbuf (grow f need)) < fsize (grow f need)"
    and grow_content: "content (grow f need) = content f"
    and grow_same: "same_conv f (grow f need)"
begin

lemma fmtputc_ok:
  assumes "sink_ok f"
  shows "sink_ok (fmtputc grow f c)" "content (fmtputc grow f c) = content f @ [c]"
    "same_conv f (fmtputc grow f c)"
  using grow_ok [OF assms, of 1] grow_content [of f 1] grow_same [of f 1] assms
  by (auto simp: fmtputc_def Let_def sink_ok_def content_def same_conv_def)

text \<open>An append returns: each round after the first one stores a character.\<close>

lemma fmtappend_ok:
  assumes "sink_ok f"
  shows "\<exists>f'. fmtappend grow f s = Some f' \<and> sink_ok f' \<and> content f' = content f @ s \<and> same_conv f f'"
  using assms
proof (induction "2 * length s + (if length (fbuf f) < fsize f then 0 else 1)"
    arbitrary: f s rule: less_induct)
  case less
  show ?case
  proof (cases "length (fbuf f) + length s > fsize f")
    case False
    then show ?thesis using less.prems
      by (subst fmtappend.simps) (auto simp: sink_ok_def content_def same_conv_def)
  next
    case True
    define n where "n = fsize f - length (fbuf f)"
    define fa where "fa = f\<lparr>fbuf := fbuf f @ take n s\<rparr>"
    define fb where "fb = grow fa (length s - n)"
    have n: "n < length s" using True less.prems by (auto simp: n_def sink_ok_def)
    have fa: "sink_ok fa" "fsize fa \<le> length (fbuf fa)"
      using n less.prems by (auto simp: fa_def n_def sink_ok_def)
    have fb: "sink_ok fb" "length (fbuf fb) < fsize fb" "content fb = content f @ take n s"
      "same_conv f fb"
      using grow_ok [OF fa] grow_content [of fa] grow_same [of fa]
      by (auto simp: fb_def fa_def content_def same_conv_def)
    have "n = 0 \<or> n < length s \<and> 0 < n" using n by auto
    then have "2 * length (drop n s) + (if length (fbuf fb) < fsize fb then 0 else 1)
        < 2 * length s + (if length (fbuf f) < fsize f then 0 else 1)"
      using fb(2) n by (auto simp: n_def)
    from less.hyps [OF this fb(1)] obtain f' where f':
        "fmtappend grow fb (drop n s) = Some f'" "sink_ok f'" "content f' = content fb @ drop n s"
        "same_conv fb f'"
      by blast
    have "fmtappend grow f s = fmtappend grow fb (drop n s)"
      using True by (subst fmtappend.simps) (simp add: Let_def n_def fa_def fb_def)
    then show ?thesis using f' fb same_conv_trans by auto
  qed
qed

lemma fmtcat_ok:
  "sink_ok f \<Longrightarrow>
     \<exists>f'. fmtcat grow f s = Some f' \<and> sink_ok f' \<and> content f' = content f @ s \<and> same_conv f f'"
  unfolding fmtcat_def by (rule fmtappend_ok)

end

interpretation to_fd: sink fprint_flush
  by unfold_locales (auto simp: fprint_flush_def sink_ok_def content_def same_conv_def)

interpretation to_str: sink str_grow
  by unfold_locales (auto simp: str_grow_def sink_ok_def content_def same_conv_def expandbuffer_def)

interpretation to_mem: sink mprint_grow
proof unfold_locales
  fix f need
  assume f: "sink_ok f" "fsize f \<le> length (fbuf f)"
  show "sink_ok (mprint_grow f need) \<and> length (fbuf (mprint_grow f need)) < fsize (mprint_grow f need)"
  proof (cases "need \<le> fsize f + 1")
    case True then show ?thesis using f by (auto simp: mprint_grow_def sink_ok_def)
  next
    case False
    have "x < (x + 64) div 64 * 64" for x :: nat
      using div_mult_mod_eq [of "x + 64" 64] mod_less_divisor [of 64 "x + 64"] by linarith
    from this [of "fsize f + 1 + need"]
    have "fsize f + 1 < fsize (mprint_grow f need)" "fbuf (mprint_grow f need) = fbuf f"
      using False by (simp_all add: mprint_grow_def PRINT_ALLOCSIZE_def Let_def)
    then show ?thesis using f by (simp add: sink_ok_def)
  qed
qed (auto simp: mprint_grow_def content_def same_conv_def Let_def)

section \<open>Conversions\<close>

text \<open>
  The variable arguments of a format: strings, \<open>int\<close>s and \<open>long\<close>s, and whatever the installed
  conversions take. A conversion is given the format and the arguments left, and its result tells
  whether it only changed flags. Reading an argument of the wrong type is undefined.
\<close>

datatype 'x farg = AStr string | AInt int | ALong int | AObj 'x

type_synonym 'x conv = "fmt \<Rightarrow> 'x farg list \<Rightarrow> (bool \<times> fmt \<times> 'x farg list) outcome"

definition flagconv :: "64 word \<Rightarrow> 'x conv" where
  "flagconv flag f args = Ok (True, f\<lparr>flags := flags f OR flag\<rparr>, args)"

definition c_long :: "int \<Rightarrow> int outcome" where
  "c_long n = (if - (2 ^ 63) \<le> n \<and> n < 2 ^ 63 then Ok n else Undef)"

definition digitconv :: "'x conv" where
  "digitconv f args =
     (let c = int (uchar (finvoker f)) in
      if hasflag f FMT_f2set
      then obind (c_long (10 * f2 f + c - 48)) (\<lambda>n. Ok (True, f\<lparr>f2 := n\<rparr>, args))
      else obind (c_long (10 * f1 f + c - 48))
             (\<lambda>n. Ok (True, f\<lparr>flags := flags f OR FMT_f1set, f1 := n\<rparr>, args)))"

definition zeroconv :: "'x conv" where
  "zeroconv f args =
     (if hasflag f (FMT_f1set OR FMT_f2set) then digitconv f args
      else Ok (True, f\<lparr>flags := flags f OR FMT_zeropad\<rparr>, args))"

text \<open>\<open>pad\<close>: its count is a \<open>long\<close>, and nothing is written for a negative one.\<close>

fun pad_loop :: "grow \<Rightarrow> fmt \<Rightarrow> nat \<Rightarrow> char \<Rightarrow> fmt" where
  "pad_loop g f 0 c = f"
| "pad_loop g f (Suc n) c = pad_loop g (fmtputc g f c) n c"

definition pad :: "grow \<Rightarrow> fmt \<Rightarrow> int \<Rightarrow> char \<Rightarrow> fmt" where
  "pad g f len c = pad_loop g f (nat len) c"

definition fmtput :: "grow \<Rightarrow> fmt \<Rightarrow> string \<Rightarrow> fmt outcome" where
  "fmtput g f s = (case fmtappend g f s of None \<Rightarrow> Undef | Some f' \<Rightarrow> Ok f')"

definition sconv :: "grow \<Rightarrow> 'x conv" where
  "sconv g f args =
     (case args of AStr s # rest \<Rightarrow>
        if \<not> hasflag f FMT_f1set then obind (fmtput g f s) (\<lambda>f. Ok (False, f, rest))
        else (let width = f1 f - int (length s)
              in if hasflag f FMT_leftside
                 then obind (fmtput g f s) (\<lambda>f. Ok (False, pad g f width (CHR '' ''), rest))
                 else obind (fmtput g (pad g f width (CHR '' '')) s) (\<lambda>f. Ok (False, f, rest)))
      | _ \<Rightarrow> Undef)"

text \<open>\<open>utoa\<close>, for a radix of at least 2; the conversions use 8, 10 and 16.\<close>

function utoa :: "nat \<Rightarrow> nat \<Rightarrow> string \<Rightarrow> string" where
  "utoa u radix digit =
     (if u \<ge> radix \<and> 1 < radix then utoa (u div radix) radix digit @ [digit ! (u mod radix)]
      else [digit ! u])"
  by auto
termination by (relation "measure (\<lambda>(u, radix, digit). u)") auto

declare utoa.simps [simp del]

definition digit_table :: "bool \<Rightarrow> string" where
  "digit_table upper =
     (if upper then ''0123456789ABCDEFGHIJKLMNOPQRSTUVWXYZ'' else ''0123456789abcdefghijklmnopqrstuvwxyz'')"

definition int_arg :: "fmt \<Rightarrow> 'x farg list \<Rightarrow> (int \<times> 'x farg list) option" where
  "int_arg f args =
     (case args of
        ALong n # rest \<Rightarrow> if hasflag f FMT_long then Some (n, rest) else None
      | AInt n # rest \<Rightarrow> if hasflag f FMT_long then None else Some (n, rest)
      | _ \<Rightarrow> None)"

text \<open>\<open>u = n\<close> converts to \<open>unsigned long\<close>; \<open>u = -n\<close> overflows for the least \<open>long\<close>.\<close>

definition int_layout ::
    "nat \<Rightarrow> bool \<Rightarrow> string \<Rightarrow> fmt \<Rightarrow> int \<Rightarrow> (string \<times> string \<times> int \<times> int \<times> char) outcome" where
  "int_layout radix upper altform f n =
    (let minus = \<not> (hasflag f FMT_unsigned \<or> 0 \<le> n) in
     if minus \<and> n = - (2 ^ 63) then Undef else
     let u = (if minus then nat (- n) else nat (n mod 2 ^ 64));
         prefix = (if minus then ''-'' else []) @ (if hasflag f FMT_altform then altform else []);
         number = utoa u radix (digit_table upper);
         len = int (length number);
         zeroes = (if hasflag f FMT_f2set \<and> f2 f > len then f2 f - len else 0);
         width = int (length prefix) + zeroes + len;
         padding = (if hasflag f FMT_f1set \<and> f1 f > width then f1 f - width else 0);
         zp = padding > 0 \<and> hasflag f FMT_zeropad;
         padchar = (if zp then CHR ''0'' else CHR '' '');
         left = hasflag f FMT_leftside;
         zeroes = (if zp \<and> \<not> left then zeroes + padding else zeroes);
         padding = (if zp \<and> \<not> left then 0 else padding)
     in Ok (prefix, number, zeroes, padding, padchar))"

definition int_emit :: "grow \<Rightarrow> fmt \<Rightarrow> string \<Rightarrow> string \<Rightarrow> int \<Rightarrow> int \<Rightarrow> char \<Rightarrow> fmt outcome" where
  "int_emit g f prefix number zeroes padding padchar =
    (let left = hasflag f FMT_leftside in
     obind (fmtput g (if \<not> left then pad g f padding padchar else f) prefix) (\<lambda>f.
     obind (fmtput g (pad g f zeroes (CHR ''0'')) number) (\<lambda>f.
     Ok (if left then pad g f padding padchar else f))))"

definition intconv :: "grow \<Rightarrow> nat \<Rightarrow> bool \<Rightarrow> string \<Rightarrow> 'x conv" where
  "intconv g radix upper altform f args =
    (case int_arg f args of None \<Rightarrow> Undef | Some (n, rest) \<Rightarrow>
     obind (int_layout radix upper altform f n) (\<lambda>(prefix, number, zeroes, padding, padchar).
     obind (int_emit g f prefix number zeroes padding padchar) (\<lambda>f. Ok (False, f, rest))))"

definition cconv :: "grow \<Rightarrow> 'x conv" where
  "cconv g f args =
     (case args of AInt n # rest \<Rightarrow> Ok (False, fmtputc g f (char_of (nat (n mod 256))), rest) | _ \<Rightarrow> Undef)"

definition pctconv :: "grow \<Rightarrow> 'x conv" where
  "pctconv g f args = Ok (False, fmtputc g f (CHR ''%''), args)"

definition badconv :: "'x conv" where
  "badconv f args = Abort"

text \<open>The table of conversions, and installing another one in it.\<close>

definition inittab :: "grow \<Rightarrow> char \<Rightarrow> 'x conv" where
  "inittab g c =
     (if c = CHR ''s'' then sconv g
      else if c = CHR ''c'' then cconv g
      else if c = CHR ''d'' then intconv g 10 False []
      else if c = CHR ''o'' then intconv g 8 False ''0''
      else if c = CHR ''x'' then intconv g 16 False ''0x''
      else if c = CHR ''%'' then pctconv g
      else if c = CHR ''u'' then flagconv FMT_unsigned
      else if c = CHR ''h'' then flagconv FMT_short
      else if c = CHR ''l'' then flagconv FMT_long
      else if c = CHR ''#'' then flagconv FMT_altform
      else if c = CHR ''-'' then flagconv FMT_leftside
      else if c = CHR ''.'' then flagconv FMT_f2set
      else if c = CHR ''0'' then zeroconv
      else if isdigit c then digitconv
      else badconv)"

definition fmtinstall :: "char \<Rightarrow> 'x conv \<Rightarrow> (char \<Rightarrow> 'x conv) \<Rightarrow> (char \<Rightarrow> 'x conv)" where
  "fmtinstall c f tab = tab(c := f)"

section \<open>The driver\<close>

text \<open>
  \<open>printfmt\<close> and its loop over the flags. A format string that ends inside a conversion gives its
  terminator to the table, and a conversion for that character would let the loop read on behind it.
\<close>

fun printfmt :: "grow \<Rightarrow> (char \<Rightarrow> 'x conv) \<Rightarrow> string \<Rightarrow> fmt \<Rightarrow> 'x farg list \<Rightarrow> (fmt \<times> 'x farg list) outcome"
  and conv_loop :: "grow \<Rightarrow> (char \<Rightarrow> 'x conv) \<Rightarrow> string \<Rightarrow> fmt \<Rightarrow> 'x farg list \<Rightarrow> (fmt \<times> 'x farg list) outcome"
where
  "printfmt g tab [] f args = Ok (f, args)"
| "printfmt g tab (c # s) f args =
     (if c = CHR ''%'' then conv_loop g tab s (f\<lparr>flags := 0, f1 := 0, f2 := 0\<rparr>) args
      else printfmt g tab s (fmtputc g f c) args)"
| "conv_loop g tab [] f args = obind (tab nul (f\<lparr>finvoker := nul\<rparr>) args) (\<lambda>_. Undef)"
| "conv_loop g tab (c # s) f args =
     obind (tab c (f\<lparr>finvoker := c\<rparr>) args)
       (\<lambda>(again, f, args). if again then conv_loop g tab s f args else printfmt g tab s f args)"

definition printfmt_value :: "fmt \<Rightarrow> nat" where
  "printfmt_value f = length (fbuf f) + flushed f"

text \<open>
  The entry points: \<open>fdprint\<close> with its buffer on the stack, as used by \<open>fprint\<close>, \<open>print\<close> and \<open>eprint\<close>;
  \<open>strv\<close>, whose result ends at the first NUL; \<open>mprint\<close>.
\<close>

definition new_fmt :: "nat \<Rightarrow> fmt" where
  "new_fmt n = \<lparr>flags = 0, f1 = 0, f2 = 0, finvoker = nul, fbuf = [], fsize = n, flushed = 0, fout = []\<rparr>"

definition FPRINT_BUFSIZ :: nat where
  "FPRINT_BUFSIZ = 1024"

definition fdprint :: "(char \<Rightarrow> 'x conv) \<Rightarrow> string \<Rightarrow> 'x farg list \<Rightarrow> (string \<times> nat) outcome" where
  "fdprint tab fmt args =
     obind (printfmt fprint_flush tab fmt (new_fmt FPRINT_BUFSIZ) args)
       (\<lambda>(f, _). let f = fprint_flush f 0 in Ok (fout f, flushed f))"

definition strv :: "(char \<Rightarrow> 'x conv) \<Rightarrow> string \<Rightarrow> 'x farg list \<Rightarrow> string outcome" where
  "strv tab fmt args =
     obind (printfmt str_grow tab fmt (new_fmt (blen (openbuffer 0))) args)
       (\<lambda>(f, _). Ok (takeWhile (\<lambda>c. c \<noteq> nul) (fbuf (fmtputc str_grow f nul))))"

definition mprint :: "(char \<Rightarrow> 'x conv) \<Rightarrow> string \<Rightarrow> 'x farg list \<Rightarrow> string outcome" where
  "mprint tab fmt args =
     obind (printfmt mprint_grow tab fmt (new_fmt (PRINT_ALLOCSIZE - 1)) args)
       (\<lambda>(f, _). Ok (takeWhile (\<lambda>c. c \<noteq> nul) (fbuf f @ [nul])))"

section \<open>Numbers\<close>

lemma digit_table_val: "d < 36 \<Longrightarrow> digit_val (digit_table upper ! d) = int d"
proof -
  have all: "\<forall>d \<in> set [0..<36]. \<forall>up \<in> {True, False}. digit_val (digit_table up ! d) = int d"
    by code_simp
  show "d < 36 \<Longrightarrow> digit_val (digit_table upper ! d) = int d"
    by (rule bspec [OF bspec [OF all]]) simp_all
qed

lemma utoa_val:
  assumes "2 \<le> radix" "radix \<le> 36"
  shows "digits_val (int radix) 0 (utoa u radix (digit_table upper)) = (int u, [])"
proof (induction u rule: less_induct)
  case (less u)
  show ?case
  proof (cases "radix \<le> u")
    case True
    have d: "digit_val (digit_table upper ! (u mod radix)) = int (u mod radix)"
      using assms mod_less_divisor [of radix u] by (intro digit_table_val) linarith
    have "digits_val (int radix) 0 (utoa u radix (digit_table upper)) =
        digits_val (int radix) (int (u div radix)) [digit_table upper ! (u mod radix)]"
      using less [of "u div radix"] True assms
      by (subst utoa.simps) (simp add: digits_val_append)
    also have "\<dots> = (int u, [])"
      using assms by (simp add: d zdiv_int zmod_int)
    finally show ?thesis .
  next
    case False
    then show ?thesis using assms digit_table_val [of u upper] by (subst utoa.simps) simp
  qed
qed

lemma utoa_length_bound:
  assumes "1 < radix" "u < radix ^ k" "1 \<le> k"
  shows "length (utoa u radix digit) \<le> k"
  using assms(2,3)
proof (induction k arbitrary: u)
  case (Suc k)
  show ?case
  proof (cases "radix \<le> u")
    case True
    then have "1 \<le> k" using Suc.prems by (cases k) auto
    moreover have "u div radix < radix ^ k" using Suc.prems assms(1)
      by (simp add: less_mult_imp_div_less mult.commute)
    ultimately have "length (utoa (u div radix) radix digit) \<le> k" by (rule Suc.IH [rotated])
    then show ?thesis using True assms(1) by (subst utoa.simps) simp
  qed (subst utoa.simps, simp)
qed simp

lemma utoa_show_nat: "utoa n 10 (digit_table upper) = show_nat n"
proof (induction n rule: less_induct)
  case (less n)
  have d: "digit_table upper ! d = char_of (48 + d)" if "d < 10" for d
  proof -
    have all: "\<forall>d \<in> set [0..<10]. \<forall>up \<in> {True, False}. digit_table up ! d = char_of (48 + d)"
      by code_simp
    show ?thesis by (rule bspec [OF bspec [OF all]]) (simp_all add: that)
  qed
  then show ?case using less [of "n div 10"]
    by (subst utoa.simps, subst show_nat.simps) simp
qed

section \<open>Printing into any sink\<close>

context sink
begin

lemma pad_ok:
  assumes "sink_ok f"
  shows "sink_ok (pad grow f n c) \<and> content (pad grow f n c) = content f @ replicate (nat n) c \<and>
    same_conv f (pad grow f n c)"
proof -
  have "sink_ok (pad_loop grow f m c) \<and> content (pad_loop grow f m c) = content f @ replicate m c \<and>
    same_conv f (pad_loop grow f m c)" for m
    using assms
  proof (induction m arbitrary: f)
    case (Suc m)
    then show ?case using fmtputc_ok [OF Suc.prems, of c] Suc.IH [OF fmtputc_ok(1) [OF Suc.prems, of c]]
      by (auto intro: same_conv_trans)
  qed (simp add: same_conv_def)
  then show ?thesis by (simp add: pad_def)
qed

lemma fmtput_ok:
  "sink_ok f \<Longrightarrow> \<exists>f'. fmtput grow f s = Ok f' \<and> sink_ok f' \<and> content f' = content f @ s \<and> same_conv f f'"
  using fmtappend_ok [of f s] by (auto simp: fmtput_def)

end

fun orel :: "('a \<Rightarrow> 'b \<Rightarrow> bool) \<Rightarrow> 'a outcome \<Rightarrow> 'b outcome \<Rightarrow> bool" where
  "orel R (Ok x) (Ok y) = R x y"
| "orel R (Throw e) (Throw e') = (e = e')"
| "orel R Abort Abort = True"
| "orel R Undef Undef = True"
| "orel R _ _ = False"

lemma orel_obind:
  "orel R m m' \<Longrightarrow> (\<And>x y. R x y \<Longrightarrow> orel S (k x) (k' y)) \<Longrightarrow> orel S (obind m k) (obind m' k')"
  by (cases m; cases m') auto

lemma orel_refl: "(\<And>x. R x x) \<Longrightarrow> orel R m m"
  by (cases m) auto

text \<open>Two formats that agree but for their buffers.\<close>

definition same_text :: "fmt \<Rightarrow> fmt \<Rightarrow> bool" where
  "same_text f f' \<longleftrightarrow> sink_ok f \<and> sink_ok f' \<and> content f = content f' \<and> same_conv f f'"

definition same_result :: "bool \<times> fmt \<times> 'x farg list \<Rightarrow> bool \<times> fmt \<times> 'x farg list \<Rightarrow> bool" where
  "same_result x y \<longleftrightarrow> fst x = fst y \<and> same_text (fst (snd x)) (fst (snd y)) \<and> snd (snd x) = snd (snd y)"

lemma same_text_update:
  assumes "same_text f f'"
  shows "same_text (f\<lparr>flags := x\<rparr>) (f'\<lparr>flags := x\<rparr>)" "same_text (f\<lparr>f1 := n\<rparr>) (f'\<lparr>f1 := n\<rparr>)"
    "same_text (f\<lparr>f2 := n\<rparr>) (f'\<lparr>f2 := n\<rparr>)" "same_text (f\<lparr>finvoker := c\<rparr>) (f'\<lparr>finvoker := c\<rparr>)"
  using assms by (auto simp: same_text_def sink_ok_def content_def same_conv_def)

lemma same_text_fields:
  assumes "same_text f f'"
  shows "flags f' = flags f" "f1 f' = f1 f" "f2 f' = f2 f" "finvoker f' = finvoker f"
    "hasflag f' x = hasflag f x"
  using assms by (auto simp: same_text_def same_conv_def hasflag_def)

locale two_sinks = a: sink g + b: sink h for g h :: grow
begin

lemma putc_same: "same_text f f' \<Longrightarrow> same_text (fmtputc g f c) (fmtputc h f' c)"
  using a.fmtputc_ok [of f c] b.fmtputc_ok [of f' c]
  by (simp add: same_text_def same_conv_def)

lemma pad_same: "same_text f f' \<Longrightarrow> same_text (pad g f n c) (pad h f' n c)"
  using a.pad_ok [of f n c] b.pad_ok [of f' n c]
  by (simp add: same_text_def same_conv_def)

lemma fmtput_same: "same_text f f' \<Longrightarrow> orel same_text (fmtput g f s) (fmtput h f' s)"
  using a.fmtput_ok [of f s] b.fmtput_ok [of f' s]
  by (auto simp: same_text_def same_conv_def)

lemma sconv_same: "same_text f f' \<Longrightarrow> orel same_result (sconv g f args) (sconv h f' args)"
  by (auto simp: sconv_def same_text_fields Let_def same_result_def
      split: list.split farg.split intro!: orel_obind [where R = same_text] fmtput_same pad_same)

lemma cconv_same: "same_text f f' \<Longrightarrow> orel same_result (cconv g f args) (cconv h f' args)"
  by (auto simp: cconv_def same_result_def putc_same split: list.split farg.split)

lemma int_emit_same:
  assumes "same_text f f'"
  shows "orel same_text (int_emit g f p n z w c) (int_emit h f' p n z w c)"
proof (cases "hasflag f FMT_leftside")
  case True
  then show ?thesis unfolding int_emit_def Let_def same_text_fields [OF assms]
    by (simp only: if_True not_True_eq_False if_False)
       (intro orel_obind [where R = same_text] fmtput_same pad_same assms, assumption,
        simp add: pad_same True)
next
  case False
  then show ?thesis unfolding int_emit_def Let_def same_text_fields [OF assms]
    by (simp only: if_True not_False_eq_True if_False)
       (intro orel_obind [where R = same_text] fmtput_same pad_same assms, assumption, simp add: False)
qed

lemma int_layout_same: "same_text f f' \<Longrightarrow> int_layout r u a f' n = int_layout r u a f n"
  unfolding int_layout_def by (simp only: same_text_fields)

lemma intconv_same:
  assumes "same_text f f'"
  shows "orel same_result (intconv g r u a f args) (intconv h r u a f' args)"
proof -
  have "int_arg f' args = int_arg f args"
    unfolding int_arg_def by (simp only: same_text_fields [OF assms])
  then show ?thesis unfolding intconv_def int_layout_same [OF assms]
    by (auto split: option.split intro!: orel_obind [where R = "(=)"] orel_refl
        orel_obind [where R = same_text] int_emit_same assms simp: same_result_def)
qed

lemma digitconv_same: "same_text f f' \<Longrightarrow> orel same_result (digitconv f args) (digitconv f' args)"
  unfolding digitconv_def Let_def
  by (auto simp: same_text_fields same_result_def same_text_update
      intro!: orel_obind [where R = "(=)"] orel_refl)

lemma zeroconv_same: "same_text f f' \<Longrightarrow> orel same_result (zeroconv f args) (zeroconv f' args)"
  unfolding zeroconv_def
  by (auto simp: same_text_fields same_result_def same_text_update digitconv_same)

lemma flagconv_same: "same_text f f' \<Longrightarrow> orel same_result (flagconv x f args) (flagconv x f' args)"
  unfolding flagconv_def by (auto simp: same_text_fields same_result_def same_text_update)

lemma inittab_same: "same_text f f' \<Longrightarrow> orel same_result (inittab g c f args) (inittab h c f' args)"
  unfolding inittab_def
  by (simp add: sconv_same cconv_same intconv_same digitconv_same zeroconv_same flagconv_same
      pctconv_def badconv_def same_result_def putc_same)

abbreviation same_end :: "fmt \<times> 'x farg list \<Rightarrow> fmt \<times> 'x farg list \<Rightarrow> bool" where
  "same_end x y \<equiv> same_text (fst x) (fst y) \<and> snd x = snd y"

lemma printfmt_same_both:
  fixes args :: "'x farg list"
  shows "\<forall>f f' args. same_text f f' \<longrightarrow>
     orel same_end (printfmt g (inittab g) s f args) (printfmt h (inittab h) s f' args) \<and>
     orel same_end (conv_loop g (inittab g) s f args) (conv_loop h (inittab h) s f' (args :: 'x farg list))"
proof (induction s)
  case Nil
  have "orel same_end (obind (inittab g nul (f\<lparr>finvoker := nul\<rparr>) args) (\<lambda>_. Undef))
      (obind (inittab h nul (f'\<lparr>finvoker := nul\<rparr>) args) (\<lambda>_. Undef))"
    if "same_text f f'" for f f' and args :: "'x farg list"
    by (intro orel_obind [where R = same_result] inittab_same same_text_update that) simp
  note n = this
  show ?case by (simp add: n)
next
  case (Cons c s)
  have l: "orel same_end (conv_loop g (inittab g) (c # s) f args) (conv_loop h (inittab h) (c # s) f' args)"
    if "same_text f f'" for f f' and args :: "'x farg list"
    unfolding conv_loop.simps
    using Cons.IH
    by (intro orel_obind [where R = same_result] inittab_same same_text_update that)
       (auto simp: same_result_def)
  have "orel same_end (printfmt g (inittab g) (c # s) f args) (printfmt h (inittab h) (c # s) f' args)"
    if "same_text f f'" for f f' and args :: "'x farg list"
    using Cons.IH that by (auto simp: putc_same same_text_update)
  then show ?case using l by blast
qed

lemmas printfmt_same = printfmt_same_both [rule_format, THEN conjunct1]

end

interpretation fd_str: two_sinks fprint_flush str_grow
  by unfold_locales

interpretation fd_mem: two_sinks fprint_flush mprint_grow
  by unfold_locales

lemma orel_OkD: "orel R m m' \<Longrightarrow> m = Ok x \<Longrightarrow> \<exists>y. m' = Ok y \<and> R x y"
  by (cases m') auto

lemma new_fmt_same: "0 < n \<Longrightarrow> 0 < m \<Longrightarrow> same_text (new_fmt n) (new_fmt m)"
  by (simp add: same_text_def new_fmt_def sink_ok_def content_def same_conv_def)

lemma content_nul: "takeWhile (\<lambda>c. c \<noteq> nul) (s @ [nul]) = takeWhile (\<lambda>c. c \<noteq> nul) s"
  by (induction s) auto

text \<open>A buffer in memory never writes, so that all of its text is in the buffer.\<close>

locale memory = sink +
  assumes grow_fout: "fout (grow f need) = fout f"
begin

lemma putc_fout: "fout (fmtputc grow f c) = fout f"
  by (simp add: fmtputc_def grow_fout Let_def)

lemma pad_fout: "fout (pad grow f n c) = fout f"
proof -
  have "fout (pad_loop grow f m c) = fout f" for m
    by (induction m arbitrary: f) (simp_all add: putc_fout)
  then show ?thesis by (simp add: pad_def)
qed

lemma append_fout_grow:
  assumes "fmtappend g f s = Some f'"
  shows "g = grow \<longrightarrow> fout f' = fout f"
proof (rule fmtappend.raw_induct [OF _ assms])
  fix app g f s r
  assume 1: "\<And>g f s r. app g f s = Some r \<Longrightarrow> g = grow \<longrightarrow> fout r = fout f"
    "(if length (fbuf f) + length s > fsize f then
        (let n = fsize f - length (fbuf f) in
         app g (g (f\<lparr>fbuf := fbuf f @ take n s\<rparr>) (length s - n)) (drop n s))
      else Some (f\<lparr>fbuf := fbuf f @ s\<rparr>)) = Some r"
  show "g = grow \<longrightarrow> fout r = fout f"
  proof
    assume g: "g = grow"
    show "fout r = fout f"
    proof (cases "length (fbuf f) + length s > fsize f")
      case True
      then show ?thesis using 1 g by (fastforce simp: Let_def grow_fout)
    next
      case False
      then show ?thesis using 1(2) by auto
    qed
  qed
qed

lemma fmtput_fout: "fmtput grow f s = Ok f' \<Longrightarrow> fout f' = fout f"
  using append_fout_grow by (auto simp: fmtput_def split: option.splits)

lemmas fouts = putc_fout pad_fout fmtput_fout

lemma conv_fout:
  "sconv grow f args = Ok (b, f', r) \<Longrightarrow> fout f' = fout f"
  "cconv grow f args = Ok (b, f', r) \<Longrightarrow> fout f' = fout f"
  "digitconv f args = Ok (b, f', r) \<Longrightarrow> fout f' = fout f"
  "zeroconv f args = Ok (b, f', r) \<Longrightarrow> fout f' = fout f"
  "flagconv x f args = Ok (b, f', r) \<Longrightarrow> fout f' = fout f"
  "pctconv grow f args = Ok (b, f', r) \<Longrightarrow> fout f' = fout f"
  by (auto simp: sconv_def cconv_def digitconv_def zeroconv_def flagconv_def pctconv_def Let_def
      obind_Ok fouts dest!: fmtput_fout split: list.splits farg.splits if_splits)

lemma int_emit_fout: "int_emit grow f p n z w c = Ok f' \<Longrightarrow> fout f' = fout f"
  by (auto simp: int_emit_def Let_def obind_Ok fouts dest!: fmtput_fout split: if_splits)

lemma inittab_fout: "inittab grow c f args = Ok (b, f', r) \<Longrightarrow> fout f' = fout f"
  unfolding inittab_def
  by (auto simp: conv_fout intconv_def badconv_def obind_Ok int_emit_fout split: if_splits option.splits)

lemma printfmt_fout_both:
  "\<forall>f args f' r. (printfmt grow (inittab grow) s f args = Ok (f', r) \<longrightarrow> fout f' = fout f) \<and>
     (conv_loop grow (inittab grow) s f args = Ok (f', r) \<longrightarrow> fout f' = fout f)"
proof (induction s)
  case Nil
  then show ?case by (auto simp: obind_Ok)
next
  case (Cons c s)
  show ?case
    using Cons.IH by (auto simp: obind_Ok putc_fout dest!: inittab_fout split: if_splits)
qed

lemmas printfmt_fout = printfmt_fout_both [rule_format, THEN conjunct1, rule_format]

end

interpretation str_memory: memory str_grow
  by unfold_locales (simp add: str_grow_def)

interpretation mem_memory: memory mprint_grow
  by unfold_locales (simp add: mprint_grow_def Let_def)

section \<open>Properties\<close>

text \<open>
  Appending to a format whose buffer is flushed to a file descriptor. \<open>fmtappend\<close> returns however
  long the string is, and the text written together with the text in the buffer grows by the string.
\<close>

theorem append_reaches_descriptor:
  assumes "sink_ok f"
  shows "\<exists>f'. fmtappend fprint_flush f s = Some f' \<and> sink_ok f' \<and> fout f' @ fbuf f' = fout f @ fbuf f @ s"
  using to_fd.fmtappend_ok [OF assms, of s] by (auto simp: content_def)

theorem append_reaches_descriptor_witness:
  "\<exists>f'. fmtappend fprint_flush (new_fmt 2) ''hello'' = Some f' \<and> sink_ok f' \<and>
     fout f' @ fbuf f' = fout (new_fmt 2) @ fbuf (new_fmt 2) @ ''hello''"
  by (rule append_reaches_descriptor) (simp add: sink_ok_def new_fmt_def)

text \<open>
  C33: the three ways to print agree. What \<open>fprint\<close> writes for a format string and arguments is, up to
  the first NUL, the string that \<open>str\<close> and \<open>mprint\<close> make, however often the buffers were flushed or
  enlarged on the way.
\<close>

theorem print_independent_of_sink:
  assumes "fdprint (inittab fprint_flush) fmt args = Ok (t, n)"
  shows "strv (inittab str_grow) fmt args = Ok (takeWhile (\<lambda>c. c \<noteq> nul) t) \<and>
    mprint (inittab mprint_grow) fmt args = Ok (takeWhile (\<lambda>c. c \<noteq> nul) t)"
proof -
  obtain f r where f: "printfmt fprint_flush (inittab fprint_flush) fmt (new_fmt FPRINT_BUFSIZ) args = Ok (f, r)"
      and t: "t = content f"
    using assms by (auto simp: fdprint_def obind_Ok Let_def fprint_flush_def content_def)
  have pos: "0 < FPRINT_BUFSIZ" "0 < blen (openbuffer 0)" "0 < PRINT_ALLOCSIZE - 1"
    by (simp_all add: FPRINT_BUFSIZ_def openbuffer_def PRINT_ALLOCSIZE_def)
  obtain fs where s: "printfmt str_grow (inittab str_grow) fmt (new_fmt (blen (openbuffer 0))) args = Ok (fs, r)"
      and cs: "content fs = t"
    using orel_OkD [OF fd_str.printfmt_same [OF new_fmt_same [OF pos(1,2)]] f] t
    by (auto simp: same_text_def)
  obtain fm where m: "printfmt mprint_grow (inittab mprint_grow) fmt (new_fmt (PRINT_ALLOCSIZE - 1)) args = Ok (fm, r)"
      and cm: "content fm = t"
    using orel_OkD [OF fd_mem.printfmt_same [OF new_fmt_same [OF pos(1,3)]] f] t
    by (auto simp: same_text_def)
  have "fout fs = []" "fout fm = []"
    using str_memory.printfmt_fout [OF s] mem_memory.printfmt_fout [OF m] by (simp_all add: new_fmt_def)
  then have "fbuf fs = t" "fbuf fm = t" using cs cm by (simp_all add: content_def)
  moreover have "fbuf (fmtputc str_grow fs nul) = fbuf fs @ [nul]"
    by (simp add: fmtputc_def str_grow_def Let_def)
  ultimately show ?thesis using s m by (simp add: strv_def mprint_def content_nul)
qed

theorem print_independent_of_sink_witness:
  "strv (inittab str_grow) ''%d: %s'' [AInt 7, AStr ''go'' :: unit farg] =
     Ok (takeWhile (\<lambda>c. c \<noteq> nul) ''7: go'') \<and>
   mprint (inittab mprint_grow) ''%d: %s'' [AInt 7, AStr ''go'' :: unit farg] =
     Ok (takeWhile (\<lambda>c. c \<noteq> nul) ''7: go'')"
proof (rule print_independent_of_sink)
  show "fdprint (inittab fprint_flush) ''%d: %s'' [AInt 7, AStr ''go'' :: unit farg] = Ok (''7: go'', 5)"
    by code_simp
qed

text \<open>
  \<open>%d\<close> prints an \<open>int\<close> in decimal, with a minus sign when it is negative, also the least one.
\<close>

theorem percent_d_decimal:
  assumes "- (2 ^ 31) \<le> n" "n < 2 ^ 31"
  shows "\<exists>m. fdprint (inittab fprint_flush) ''%d'' [AInt n :: 'x farg] =
    Ok ((if n < 0 then CHR ''-'' # show_nat (nat (- n)) else show_nat (nat n)), m)"
proof -
  define f where "f = (new_fmt FPRINT_BUFSIZ)\<lparr>flags := 0, f1 := 0, f2 := 0, finvoker := CHR ''d''\<rparr>"
  define p where "p = (if n < 0 then ''-'' else [])"
  define k where "k = nat (if n < 0 then - n else n)"
  have f: "sink_ok f" "content f = []" "flags f = 0"
    by (simp_all add: f_def new_fmt_def sink_ok_def content_def FPRINT_BUFSIZ_def)
  have flag: "\<not> hasflag f x" for x by (simp add: hasflag_def f(3))
  have lay: "int_layout 10 False [] f n = Ok (p, show_nat k, 0, 0, CHR '' '')"
    using assms by (simp add: int_layout_def flag Let_def utoa_show_nat p_def k_def)
  obtain g where g: "fmtput fprint_flush f p = Ok g" "sink_ok g" "content g = p"
    using to_fd.fmtput_ok [OF f(1)] f(2) by force
  obtain h where h: "fmtput fprint_flush g (show_nat k) = Ok h" "content h = p @ show_nat k"
    using to_fd.fmtput_ok [OF g(2)] g(3) by force
  have "int_emit fprint_flush f p (show_nat k) 0 0 (CHR '' '') = Ok h"
    by (simp add: int_emit_def flag pad_def g(1) h(1))
  then have "intconv fprint_flush 10 False [] f [AInt n :: 'x farg] = Ok (False, h, [])"
    by (simp add: intconv_def int_arg_def flag lay)
  then have "fdprint (inittab fprint_flush) ''%d'' [AInt n :: 'x farg] = Ok (content h, length (fbuf h) + flushed h)"
    by (simp add: fdprint_def inittab_def f_def [symmetric] content_def fprint_flush_def Let_def add.commute)
  then show ?thesis using h(2) by (auto simp: p_def k_def)
qed

theorem percent_d_decimal_witness:
  "\<exists>m. fdprint (inittab fprint_flush) ''%d'' [AInt (- 7) :: unit farg] =
    Ok ((if (- 7 :: int) < 0 then CHR ''-'' # show_nat (nat (- (- 7))) else show_nat (nat (- 7))), m)"
  by (rule percent_d_decimal) simp_all

text \<open>
  The digits. \<open>utoa\<close> writes a number so that reading the digits in the same radix gives the number
  back, and an \<open>unsigned long\<close> in a radix of 8 or more takes at most 22 of the 64 bytes of the array
  that \<open>intconv\<close> gives it.
\<close>

theorem utoa_roundtrip_and_bound:
  assumes "8 \<le> radix" "radix \<le> 36" "u < 2 ^ 64"
  shows "digits_val (int radix) 0 (utoa u radix (digit_table upper)) = (int u, []) \<and>
    length (utoa u radix (digit_table upper)) \<le> 22"
proof -
  have "(2::nat) ^ 64 < 8 ^ 22" by simp
  also have "(8::nat) ^ 22 \<le> radix ^ 22" using assms(1) by (rule power_mono) simp
  finally show ?thesis
    using utoa_val [of radix u upper] utoa_length_bound [of radix u 22] assms by simp
qed

theorem utoa_roundtrip_and_bound_witness:
  "digits_val (int 16) 0 (utoa 48879 16 (digit_table False)) = (int 48879, []) \<and>
    length (utoa 48879 16 (digit_table False)) \<le> 22"
  by (rule utoa_roundtrip_and_bound) simp_all

end
