(* ===== verification/Conv.thy ===== *)
theory Conv
  imports Print
begin

text \<open>
  Conversions of the shell's values to text and back, \<open>src/conv.c\<close>: \<open>%S\<close> (quoted strings), \<open>%L\<close> and
  \<open>%Z\<close> (lists), \<open>%T\<close> (trees), \<open>%C\<close> (closures), \<open>%F\<close> and \<open>%N\<close> (names for the environment) and \<open>%W\<close>
  (values for the environment). A conversion that prints with \<open>fmtprint\<close> and a constant format is
  here the text it adds; what adds text to a \<open>Format\<close> is the subject of \<open>Print\<close>.
\<close>

section \<open>Names in the environment\<close>

definition hexchar :: string where
  "hexchar = ''0123456789abcdef''"

text \<open>\<open>%02x\<close> of a byte.\<close>

definition hex2 :: "char \<Rightarrow> string" where
  "hex2 c = [hexchar ! (uchar c div 16), hexchar ! (uchar c mod 16)]"

fun Fconv_loop :: "bool \<Rightarrow> string \<Rightarrow> string" where
  "Fconv_loop first [] = []"
| "Fconv_loop first (c # s) =
     (if (if first then isalpha c else isalnum c) \<or> c = CHR ''_'' \<and> (s = [] \<or> hd s \<noteq> CHR ''_'')
      then [c] else ''__'' @ hex2 c) @ Fconv_loop False s"

definition Fconv :: "string \<Rightarrow> string" where
  "Fconv name = Fconv_loop True name"

text \<open>
  \<open>%N\<close> reads two characters behind each double underscore, and \<open>strchr\<close> finds the terminating NUL in
  \<open>hexchar\<close>; \<^const>\<open>None\<close> is a read behind the end of the string.
\<close>

function Nconv :: "string \<Rightarrow> string option" where
  "Nconv [] = Some []"
| "Nconv (c # s) =
     (if c = CHR ''_'' \<and> s \<noteq> [] \<and> hd s = CHR ''_'' then
        (case char_at s 1 of None \<Rightarrow> None | Some s1 \<Rightarrow>
         case char_at s 2 of None \<Rightarrow> None | Some s2 \<Rightarrow>
         case (strchr_nul hexchar s1, strchr_nul hexchar s2) of
           (Some h1, Some h2) \<Rightarrow>
             if length s < 3 then None
             else map_option (\<lambda>r. char_of ((h1 * 16) OR h2) # r) (Nconv (drop 3 s))
         | _ \<Rightarrow> map_option (\<lambda>r. c # r) (Nconv s))
      else map_option (\<lambda>r. c # r) (Nconv s))"
  by pat_completeness auto
termination by (relation "measure length") auto

section \<open>Values in the environment\<close>

definition ENV_SEPARATOR :: char where "ENV_SEPARATOR = CHR 0x01"
definition ENV_ESCAPE :: char where "ENV_ESCAPE = CHR 0x02"

fun env_escape :: "string \<Rightarrow> string" where
  "env_escape [] = []"
| "env_escape (c # s) =
     (if c = ENV_ESCAPE \<or> c = ENV_SEPARATOR then [ENV_ESCAPE, c] else [c]) @ env_escape s"

fun Wconv :: "(es_term \<Rightarrow> string) \<Rightarrow> terms \<Rightarrow> string" where
  "Wconv gs [] = []"
| "Wconv gs (t # next) = env_escape (gs t) @ (if next \<noteq> [] then [ENV_SEPARATOR] else []) @ Wconv gs next"

section \<open>Quoted strings\<close>

text \<open>The table \<open>non_word\<close> of \<open>src/token.c\<close>.\<close>

definition non_word :: "char \<Rightarrow> bool" where
  "non_word c \<longleftrightarrow> c = nul \<or> c = CHR 0x09 \<or> c = CHR 0x0A \<or> c = CHR '' '' \<or> c = CHR ''!'' \<or>
     c = CHR 0x22 \<or> c = CHR ''#'' \<or> c = CHR ''$'' \<or> c = CHR ''&'' \<or> c = CHR 0x27 \<or>
     c = CHR ''('' \<or> c = CHR '')'' \<or> c = CHR '';'' \<or> c = CHR ''<'' \<or> c = CHR ''='' \<or> c = CHR ''>'' \<or>
     c = CHR 0x5C \<or> c = CHR ''^'' \<or> c = CHR 0x60 \<or> c = CHR ''{'' \<or> c = CHR ''|'' \<or> c = CHR ''}''"

datatype quoting = Begin | Quoted | Unquoted

definition unprintable :: "char \<Rightarrow> string" where
  "unprintable c =
     (if c = CHR 0x07 then [CHR 0x5C, CHR ''a''] else if c = CHR 0x08 then [CHR 0x5C, CHR ''b''] else if c = CHR 0x0C then [CHR 0x5C, CHR ''f'']
      else if c = CHR 0x0A then [CHR 0x5C, CHR ''n''] else if c = CHR 0x0D then [CHR 0x5C, CHR ''r''] else if c = CHR 0x09 then [CHR 0x5C, CHR ''t'']
      else if c = CHR 0x1B then [CHR 0x5C, CHR ''e''] else CHR 0x5C # utoa (uchar c) 8 (digit_table False))"

fun Sconv_loop :: "quoting \<Rightarrow> string \<Rightarrow> string" where
  "Sconv_loop state [] = (case state of Begin \<Rightarrow> [CHR 0x27, CHR 0x27] | Quoted \<Rightarrow> [CHR 0x27] | Unquoted \<Rightarrow> [])"
| "Sconv_loop state (c # s) =
     (if \<not> isprint c
      then (if state = Quoted then [CHR 0x27] else []) @ (if state \<noteq> Begin then ''^'' else []) @
           unprintable c @ Sconv_loop Unquoted s
      else (if state = Unquoted then ''^'' else []) @ (if state \<noteq> Quoted then [CHR 0x27] else []) @
           (if c = CHR 0x27 then [CHR 0x27] else []) @ c # Sconv_loop Quoted s)"

definition Sconv :: "bool \<Rightarrow> string \<Rightarrow> string" where
  "Sconv altform s =
     (if altform \<or> s = [] \<or> list_ex (\<lambda>c. non_word c \<or> c = CHR ''@'') s then Sconv_loop Begin s else s)"

section \<open>Lists\<close>

fun Lconv :: "(es_term \<Rightarrow> string) \<Rightarrow> bool \<Rightarrow> terms \<Rightarrow> string \<Rightarrow> string" where
  "Lconv gs altform [] sep = []"
| "Lconv gs altform (t # next) sep =
     (if altform then Sconv False (gs t) else gs t) @ (if next = [] then [] else sep) @ Lconv gs altform next sep"

fun Zconv :: "string list \<Rightarrow> string \<Rightarrow> string" where
  "Zconv [] sep = []"
| "Zconv (s # next) sep = s @ (if next = [] then [] else sep) @ Zconv next sep"

section \<open>Trees\<close>

fun treecount :: "tree \<Rightarrow> nat" where
  "treecount TNull = 0"
| "treecount (nList a b) = treecount a + treecount b"
| "treecount t = 1"

text \<open>The nodes with two subtrees, whose \<open>u[1].p\<close> may be read.\<close>

definition two_subtrees :: "tree \<Rightarrow> bool" where
  "two_subtrees t = (case t of
     nAssign a b \<Rightarrow> True | nClosure a b \<Rightarrow> True | nConcat a b \<Rightarrow> True | nFor a b \<Rightarrow> True
   | nLambda a b \<Rightarrow> True | nLet a b \<Rightarrow> True | nList a b \<Rightarrow> True | nLocal a b \<Rightarrow> True | nMatch a b \<Rightarrow> True
   | nExtract a b \<Rightarrow> True | nVarsub a b \<Rightarrow> True | nRedir a b \<Rightarrow> True | _ \<Rightarrow> False)"

lemma two_subtrees_size:
  "two_subtrees t \<Longrightarrow> size (CAR t) < size t" "two_subtrees t \<Longrightarrow> size (CDR t) < size t"
  by (cases t; simp add: two_subtrees_def)+

lemma two_subtrees_less:
  "two_subtrees t \<Longrightarrow> Suc (2 * size (CAR t)) < 2 * size t" "two_subtrees t \<Longrightarrow> 2 * size (CDR t) < 2 * size t"
  using two_subtrees_size [of t] by auto

text \<open>
  \<open>%T\<close>: \<open>Tconv\<close>; \<open>Tlist\<close> its loop over a list without parentheses, \<open>Trest\<close> the one with parentheses,
  \<open>Tbind\<close> the loop of \<open>binding\<close>. A failed assertion and the panic for a bad node are \<^const>\<open>Abort\<close>.
\<close>

function Tconv :: "bool \<Rightarrow> tree \<Rightarrow> string outcome"
  and Tlist :: "tree \<Rightarrow> string outcome"
  and Trest :: "tree \<Rightarrow> string outcome"
  and Tbind :: "string \<Rightarrow> tree \<Rightarrow> string outcome"
where
  "Tconv grp TNull = Ok (if grp then ''()'' else [])"
| "Tconv grp (nWord s) = Ok s"
| "Tconv grp (nQword s) = Ok (Sconv True s)"
| "Tconv grp (nPrim s) = Ok (''$&'' @ s)"
| "Tconv grp (nAssign a b) =
     obind (Tconv True a) (\<lambda>x. obind (Tconv False b) (\<lambda>y. Ok (x @ ''='' @ y)))"
| "Tconv grp (nConcat a b) =
     obind (Tconv True a) (\<lambda>x. obind (Tconv True b) (\<lambda>y. Ok (x @ ''^'' @ y)))"
| "Tconv grp (nMatch a b) =
     obind (Tconv True a) (\<lambda>x. obind (Tconv False b) (\<lambda>y. Ok (''~ '' @ x @ '' '' @ y)))"
| "Tconv grp (nExtract a b) =
     obind (Tconv True a) (\<lambda>x. obind (Tconv False b) (\<lambda>y. Ok (''~~ '' @ x @ '' '' @ y)))"
| "Tconv grp (nThunk a) = obind (Tconv False a) (\<lambda>x. Ok (''{'' @ x @ ''}''))"
| "Tconv grp (nVarsub a b) =
     obind (Tconv True a) (\<lambda>x. obind (Tconv False b) (\<lambda>y. Ok (''$'' @ x @ ''('' @ y @ '')'')))"
| "Tconv grp (nLocal a b) =
     obind (Tbind [] a) (\<lambda>x. obind (Tconv False b) (\<lambda>y. Ok (''local('' @ x @ '')'' @ y)))"
| "Tconv grp (nLet a b) =
     obind (Tbind [] a) (\<lambda>x. obind (Tconv False b) (\<lambda>y. Ok (''let('' @ x @ '')'' @ y)))"
| "Tconv grp (nFor a b) =
     obind (Tbind [] a) (\<lambda>x. obind (Tconv False b) (\<lambda>y. Ok (''for('' @ x @ '')'' @ y)))"
| "Tconv grp (nClosure a b) =
     obind (Tbind [] a) (\<lambda>x. obind (Tconv False b) (\<lambda>y. Ok (''%closure('' @ x @ '')'' @ y)))"
| "Tconv grp (nCall t) =
     (case t of nThunk a \<Rightarrow> obind (Tconv False t) (\<lambda>x. Ok (''<='' @ x))
      | nPrim s \<Rightarrow> obind (Tconv False t) (\<lambda>x. Ok (''<='' @ x))
      | _ \<Rightarrow> obind (Tconv False t) (\<lambda>x. Ok (''<={'' @ x @ ''}'')))"
| "Tconv grp (nVar n) =
     (case n of TNull \<Rightarrow> obind (Tconv grp n) (\<lambda>x. Ok (''$'' @ x))
      | nWord s \<Rightarrow> obind (Tconv grp n) (\<lambda>x. Ok (''$'' @ x))
      | nQword s \<Rightarrow> obind (Tconv grp n) (\<lambda>x. Ok (''$'' @ x))
      | _ \<Rightarrow> obind (Tconv True n) (\<lambda>x. Ok (''$('' @ x @ '')'')))"
| "Tconv grp (nLambda a b) =
     obind (if a = TNull then Ok ''* '' else Tconv False a) (\<lambda>x.
     obind (Tconv False b) (\<lambda>y. Ok (''@ '' @ x @ ''{'' @ y @ ''}'')))"
| "Tconv grp (nList a b) =
     (if \<not> grp then Tlist (nList a b)
      else if treecount (nList a b) = 0 then Ok ''()''
      else if treecount (nList a b) = 1 then
        obind (Tconv False a) (\<lambda>x. obind (Tconv False b) (\<lambda>y. Ok (x @ y)))
      else obind (Tconv False a) (\<lambda>x. obind (Trest b) (\<lambda>y. Ok (''('' @ x @ y @ '')''))))"
| "Tconv grp (nRedir a b) = Abort"
| "Tconv grp (nPipe i j) = Abort"
| "Tlist n =
     (if \<not> two_subtrees n then Undef
      else if CDR n = TNull then Tconv False (CAR n)
      else obind (Tconv False (CAR n)) (\<lambda>x. obind (Tlist (CDR n)) (\<lambda>y. Ok (x @ '' '' @ y))))"
| "Trest n =
     (case n of TNull \<Rightarrow> Ok []
      | nList a b \<Rightarrow> obind (Tconv False a) (\<lambda>x. obind (Trest b) (\<lambda>y. Ok ('' '' @ x @ y)))
      | _ \<Rightarrow> Abort)"
| "Tbind sep n =
     (case n of TNull \<Rightarrow> Ok []
      | nList (nAssign a b) rest \<Rightarrow>
          obind (Tconv True a) (\<lambda>x. obind (Tconv False b) (\<lambda>y. obind (Tbind '';'' rest) (\<lambda>z.
            Ok (sep @ x @ ''='' @ y @ z))))
      | _ \<Rightarrow> Abort)"
  by pat_completeness auto
termination
  by (relation "measure (\<lambda>x. case x of
        Inl (Inl (g, t)) \<Rightarrow> 2 * size t + 1 | Inl (Inr t) \<Rightarrow> 2 * size t
      | Inr (Inl t) \<Rightarrow> 2 * size t | Inr (Inr (s, t)) \<Rightarrow> 2 * size t)")
     (auto simp: two_subtrees_less two_subtrees_size)

declare Tlist.simps [simp del] Trest.simps [simp del] Tbind.simps [simp del]

section \<open>Closures and terms\<close>

text \<open>
  \<open>%C\<close> prints the bindings of a closure, innermost last, and the values in them, which may hold
  closures again; a closure reached from its own bindings has no end. The argument is the depth of the
  C stack: what happens below the last frame is undefined.
\<close>

fun closure_str :: "nat \<Rightarrow> store \<Rightarrow> closure \<Rightarrow> string outcome"
  and enclose :: "nat \<Rightarrow> store \<Rightarrow> ref \<Rightarrow> string \<Rightarrow> string outcome"
  and terms_str :: "nat \<Rightarrow> store \<Rightarrow> terms \<Rightarrow> string outcome"
  and getstr :: "nat \<Rightarrow> store \<Rightarrow> es_term \<Rightarrow> string outcome"
where
  "closure_str 0 st c = Undef"
| "closure_str (Suc n) st (Closure b t) =
     obind (if b = None then Ok []
            else obind (enclose n st b []) (\<lambda>s. Ok (''%closure('' @ s @ '')''))) (\<lambda>s.
     obind (Tconv False t) (\<lambda>u. Ok (s @ u)))"
| "enclose 0 st b sep = Undef"
| "enclose (Suc n) st None sep = Ok []"
| "enclose (Suc n) st (Some r) sep =
     (if length st \<le> r then Undef
      else obind (enclose n st (bnext (st ! r)) '';'') (\<lambda>s.
           obind (terms_str n st (bdefn (st ! r))) (\<lambda>l.
           Ok (s @ Sconv False (bname (st ! r)) @ ''='' @ l @ sep))))"
| "terms_str 0 st ts = Undef"
| "terms_str (Suc n) st [] = Ok []"
| "terms_str (Suc n) st (t # next) =
     obind (getstr n st t) (\<lambda>s. obind (terms_str n st next) (\<lambda>r.
       Ok (Sconv False s @ (if next = [] then [] else '' '') @ r)))"
| "getstr 0 st t = Undef"
| "getstr (Suc n) st (Str s) = Ok s"
| "getstr (Suc n) st (Clos c) = closure_str n st c"

definition Cconv :: "nat \<Rightarrow> store \<Rightarrow> bool \<Rightarrow> closure \<Rightarrow> string outcome" where
  "Cconv n st altform c =
     (if altform then obind (closure_str n st c) (\<lambda>s. Ok (Sconv False s)) else closure_str n st c)"

text \<open>\<open>%E\<close>, where \<open>getclosure\<close> is given: it may parse the string of the term.\<close>

definition Econv ::
    "nat \<Rightarrow> store \<Rightarrow> (es_term \<Rightarrow> closure option outcome) \<Rightarrow> bool \<Rightarrow> es_term \<Rightarrow> string outcome" where
  "Econv n st getclosure altform t =
     obind (getclosure t) (\<lambda>c. case c of
       Some c \<Rightarrow> Cconv n st altform c
     | None \<Rightarrow> obind (getstr n st t) (\<lambda>s. Ok (if altform then Sconv False s else s)))"

section \<open>The round trip of names\<close>

lemma hexchar_nth: "n < 16 \<Longrightarrow> strchr hexchar (hexchar ! n) = Some n \<and> hexchar ! n \<noteq> nul \<and>
    hexchar ! n \<noteq> CHR ''_'' \<and> isalnum (hexchar ! n)"
proof -
  have all: "\<forall>n \<in> set [0..<16]. strchr hexchar (hexchar ! n) = Some n \<and> hexchar ! n \<noteq> nul \<and>
      hexchar ! n \<noteq> CHR ''_'' \<and> isalnum (hexchar ! n)" by code_simp
  show "n < 16 \<Longrightarrow> ?thesis" by (rule bspec [OF all]) simp
qed

lemma hex_digits_or: "char_of ((uchar c div 16 * 16) OR (uchar c mod 16)) = (c :: char)"
proof -
  have "push_bit 4 (drop_bit 4 n) OR take_bit 4 n = n" for n :: nat
    by (rule bit_eqI) (auto simp: bit_or_iff bit_push_bit_iff bit_drop_bit_eq bit_take_bit_iff)
  from this [of "uchar c"] have "(uchar c div 16 * 16) OR (uchar c mod 16) = uchar c"
    by (simp add: push_bit_eq_mult drop_bit_eq_div take_bit_eq_mod)
  then show ?thesis by simp
qed

lemma Nconv_hex2:
  assumes "c \<noteq> nul"
  shows "Nconv (''__'' @ hex2 c @ s) = map_option (\<lambda>r. c # r) (Nconv s)"
proof -
  have h: "uchar c div 16 < 16" "uchar c mod 16 < 16"
    using uchar_less [of c] by (simp_all add: less_mult_imp_div_less)
  note d = hexchar_nth [OF h(1)] hexchar_nth [OF h(2)]
  show ?thesis
    using d hex_digits_or [of c] by (simp add: hex2_def char_at_def strchr_nul_def numeral_2_eq_2 del: uchar_less)
qed

lemma Fconv_loop_hd: "s \<noteq> [] \<Longrightarrow> Fconv_loop f s \<noteq> []"
  by (cases s) auto

lemma Nconv_Fconv_loop: "cstring s \<Longrightarrow> Nconv (Fconv_loop f s) = Some s"
proof (induction f s rule: Fconv_loop.induct)
  case (2 first c s)
  have IH: "Nconv (Fconv_loop False s) = Some s" and c: "c \<noteq> nul" using 2 by auto
  have nua: "\<not> (if first then isalpha (CHR ''_'') else isalnum (CHR ''_''))"
    by (auto simp: isalpha_def isalnum_def isupper_def islower_def isdigit_def uchar_def)
  consider (lit) "(if first then isalpha c else isalnum c)" "c \<noteq> CHR ''_''"
    | (under) "c = CHR ''_''" "s = [] \<or> hd s \<noteq> CHR ''_''"
    | (hex) "\<not> ((if first then isalpha c else isalnum c) \<or> c = CHR ''_'' \<and> (s = [] \<or> hd s \<noteq> CHR ''_''))"
    using nua by (cases "c = CHR ''_''") auto
  then show ?case
  proof cases
    case lit
    then show ?thesis using IH by simp
  next
    case under
    show ?thesis
    proof (cases "Fconv_loop False s = [] \<or> hd (Fconv_loop False s) \<noteq> CHR ''_''")
      case True
      then show ?thesis using under IH by auto
    next
      case False
      then obtain d s' where s: "s = d # s'" by (cases s) auto
      then have "\<not> isalnum d" "d \<noteq> CHR ''_''" using False under by (auto split: if_splits)
      then have t: "Fconv_loop False s = ''__'' @ hex2 d @ Fconv_loop False s'" using s by simp
      have "strchr_nul hexchar (CHR ''_'') = None" by code_simp
      then show ?thesis using under IH by (simp add: t char_at_def hex2_def numeral_2_eq_2)
    qed
  next
    case hex
    then have "Fconv_loop first (c # s) = ''__'' @ hex2 c @ Fconv_loop False s"
      by (simp only: Fconv_loop.simps if_False append_assoc)
    then show ?thesis by (simp only: Nconv_hex2 [OF c] IH option.map)
  qed
qed simp

text \<open>What \<open>%F\<close> makes is a name that any shell accepts.\<close>

lemma hexchar_alnum: "c \<in> set (hex2 d) \<Longrightarrow> isalnum c"
proof -
  have "uchar d div 16 < 16" "uchar d mod 16 < 16"
    using uchar_less [of d] by (simp_all add: less_mult_imp_div_less)
  then show "c \<in> set (hex2 d) \<Longrightarrow> isalnum c"
    using hexchar_nth [of "uchar d div 16"] hexchar_nth [of "uchar d mod 16"]
    by (auto simp: hex2_def)
qed

lemma Fconv_loop_chars: "c \<in> set (Fconv_loop f s) \<Longrightarrow> isalnum c \<or> c = CHR ''_''"
proof (induction f s rule: Fconv_loop.induct)
  case (2 first d s)
  then show ?case using hexchar_alnum [of c d] by (auto simp: isalnum_def split: if_splits)
qed simp

lemma Fconv_hd: "s \<noteq> [] \<Longrightarrow> \<not> isdigit (hd (Fconv s))"
proof (cases s)
  case (Cons c t)
  have "\<not> isdigit (CHR ''_'')" "isalpha c \<Longrightarrow> \<not> isdigit c"
    by (auto simp: isdigit_def isalpha_def isupper_def islower_def uchar_def)
  then show ?thesis using Cons by (auto simp: Fconv_def)
qed simp

text \<open>The escapes of a value can be undone, and separators inside words are escaped.\<close>

fun env_unescape :: "string \<Rightarrow> string list" where
  "env_unescape [] = [[]]"
| "env_unescape (c # s) =
     (if c = ENV_ESCAPE \<and> s \<noteq> [] then (case env_unescape (tl s) of w # ws \<Rightarrow> (hd s # w) # ws | [] \<Rightarrow> [])
      else if c = ENV_SEPARATOR then [] # env_unescape s
      else (case env_unescape s of w # ws \<Rightarrow> (c # w) # ws | [] \<Rightarrow> []))"

lemma env_unescape_escape:
  "env_unescape (env_escape w @ s) = (case env_unescape s of v # ws \<Rightarrow> (w @ v) # ws | [] \<Rightarrow> [])"
  by (induction w) (auto simp: ENV_ESCAPE_def ENV_SEPARATOR_def split: list.split)

lemma env_unescape_nonempty: "env_unescape s \<noteq> []"
  by (induction s rule: env_unescape.induct) (auto split: list.splits)

lemma env_unescape_Wconv: "list \<noteq> [] \<Longrightarrow> env_unescape (Wconv gs list) = map gs list"
proof (induction gs list rule: Wconv.induct)
  case (2 gs t ts)
  have sep: "env_unescape (ENV_SEPARATOR # s) = [] # env_unescape s" for s
    by (simp add: ENV_SEPARATOR_def ENV_ESCAPE_def)
  have last: "env_unescape (env_escape w) = [w]" for w
    using env_unescape_escape [of w "[]"] by simp
  show ?case using 2
    by (cases "ts = []") (simp_all add: last env_unescape_escape sep del: env_unescape.simps(2))
qed simp

section \<open>Properties\<close>

text \<open>
  Names survive the environment. Importing the exported form of a variable name gives the name back
  and reads nothing behind the end of the string; the exported form consists of letters, digits and
  underscores and does not begin with a digit.
\<close>

theorem env_name_roundtrip:
  assumes "cstring name"
  shows "Nconv (Fconv name) = Some name \<and> (\<forall>c \<in> set (Fconv name). isalnum c \<or> c = CHR ''_'') \<and>
    (name \<noteq> [] \<longrightarrow> \<not> isdigit (hd (Fconv name)))"
  using Nconv_Fconv_loop [OF assms, of True] Fconv_loop_chars [of _ True name] Fconv_hd [of name]
  by (auto simp: Fconv_def)

theorem env_name_roundtrip_witness: "Nconv (Fconv ''fn-a__b_'') = Some ''fn-a__b_''"
  using env_name_roundtrip [of "''fn-a__b_''"] by (simp add: nul_def)

text \<open>
  A name that ends in two underscores, alone or with one hexadecimal digit behind them, makes the
  import of the environment read behind the end of the string, because \<open>strchr\<close> finds the NUL.
\<close>

theorem env_name_overread: "Nconv ''a__'' = None \<and> Nconv ''a__5'' = None \<and> Nconv ''a__5f'' = Some ''a_''"
  by code_simp

text \<open>
  Lists survive the environment encoding. The exported form of a list, read with its escapes undone
  and split at the separators that are not escaped, is the list.
\<close>

theorem env_value_decodable:
  assumes "list \<noteq> []"
  shows "env_unescape (Wconv gs list) = map gs list"
  by (rule env_unescape_Wconv [OF assms])

theorem env_value_decodable_witness:
  "env_unescape (Wconv (\<lambda>t. case t of Str s \<Rightarrow> s | _ \<Rightarrow> []) [Str ''a'', Str [CHR 0x01]]) =
     map (\<lambda>t. case t of Str s \<Rightarrow> s | _ \<Rightarrow> []) [Str ''a'', Str [CHR 0x01]]"
  by (rule env_value_decodable) simp

end
