(* ===== verification/Syntax.thy ===== *)
theory Syntax
  imports Conv
begin

text \<open>
  Building syntax trees, \<open>src/syntax.c\<close>, and the queue of here documents that it fills
  (\<open>queueheredoc\<close> of \<open>src/heredoc.c\<close>). Nodes that the code changes in place are reachable only through
  the tree that is being built, so the functions return the new tree; the nodes of the queue are in
  the order of the queue. A failed assertion is \<^const>\<open>Abort\<close>, a NULL pointer that is followed \<^const>\<open>Undef\<close>.
\<close>

section \<open>The state of the parser\<close>

text \<open>
  \<open>hereq\<close>, the counter of \<open>mkredir\<close> and the first message of \<open>yyerror\<close>. \<open>locate\<close>, which puts the name
  and the line of the input in front of the message, is not modelled.
\<close>

record parser =
  hereq :: "tree list"
  devfd_id :: nat
  perror :: "string option"

definition yyerror :: "string \<Rightarrow> parser \<Rightarrow> parser" where
  "yyerror s ps = (if perror ps = None then ps\<lparr>perror := Some s\<rparr> else ps)"

text \<open>
  The static nodes: \<open>placeholder\<close>, a redirection with no command, which \<open>mk\<close> never makes, and
  \<open>errornode\<close>, all zero.
\<close>

definition placeholder :: tree where
  "placeholder = nRedir TNull TNull"

definition errornode :: tree where
  "errornode = nAssign TNull TNull"

section \<open>Lists of trees\<close>

definition treecons :: "tree \<Rightarrow> tree \<Rightarrow> tree outcome" where
  "treecons car cdr = (if cdr = TNull \<or> is_nList cdr then Ok (nList car cdr) else Abort)"

definition treecons2 :: "tree \<Rightarrow> tree \<Rightarrow> tree outcome" where
  "treecons2 car cdr =
     (if cdr = TNull \<or> is_nList cdr then Ok (if car = TNull then cdr else nList car cdr) else Abort)"

fun treeappend :: "tree \<Rightarrow> tree \<Rightarrow> tree outcome" where
  "treeappend TNull tail = Ok tail"
| "treeappend (nList a b) tail = obind (treeappend b tail) (\<lambda>b. Ok (nList a b))"
| "treeappend (nRedir a b) tail = obind (treeappend b tail) (\<lambda>b. Ok (nRedir a b))"
| "treeappend _ tail = Abort"

definition treeconsend :: "tree \<Rightarrow> tree \<Rightarrow> tree outcome" where
  "treeconsend head tail = obind (treecons tail TNull) (treeappend head)"

definition treeconsend2 :: "tree \<Rightarrow> tree \<Rightarrow> tree outcome" where
  "treeconsend2 head tail =
     (if tail = TNull then
        if head = TNull \<or> is_nList head \<or> is_nRedir head then Ok head else Abort
      else obind (treecons tail TNull) (treeappend head))"

definition thunkify :: "tree \<Rightarrow> tree outcome" where
  "thunkify t =
     (case t of
        nThunk a \<Rightarrow> Ok t
      | nList TNull b \<Rightarrow> Undef
      | nList a b \<Rightarrow> Ok (if is_nThunk a \<and> b = TNull then t else nThunk t)
      | _ \<Rightarrow> Ok (nThunk t))"

definition firstis :: "tree \<Rightarrow> string \<Rightarrow> bool" where
  "firstis t s = (case t of nList (nWord w) b \<Rightarrow> w = s | _ \<Rightarrow> False)"

definition prefix :: "string \<Rightarrow> tree \<Rightarrow> tree outcome" where
  "prefix s t = treecons (nWord s) t"

definition flatten :: "tree \<Rightarrow> string \<Rightarrow> tree outcome" where
  "flatten t sep =
     obind (treecons t TNull) (\<lambda>l. obind (treecons (nQword sep) l) (\<lambda>l.
     obind (prefix ''%flatten'' l) (\<lambda>l. Ok (nCall l))))"

definition backquote :: "tree \<Rightarrow> tree \<Rightarrow> tree outcome" where
  "backquote ifs body =
     obind (flatten ifs []) (\<lambda>f. obind (treecons body TNull) (\<lambda>l. obind (treecons f l) (\<lambda>l.
     obind (prefix ''%backquote'' l) (\<lambda>l. Ok (nCall l)))))"

definition fnassign :: "tree \<Rightarrow> tree \<Rightarrow> tree" where
  "fnassign name defn = nAssign (nConcat (nWord ''fn-'') name) defn"

definition mklambda :: "tree \<Rightarrow> tree \<Rightarrow> tree" where
  "mklambda params body = nLambda params body"

section \<open>Sequences and pipes\<close>

definition mkseq :: "string \<Rightarrow> tree \<Rightarrow> tree \<Rightarrow> tree outcome" where
  "mkseq op t1 t2 =
     (if op = ''%seq'' \<and> t1 = TNull then Ok t2
      else if op = ''%seq'' \<and> t2 = TNull then Ok t1
      else
       let sametail = firstis t2 op in
       obind (if sametail then Ok (CDR t2) else obind (thunkify t2) (\<lambda>u. treecons u TNull)) (\<lambda>tail.
       if firstis t1 op then treeappend t1 tail
       else obind (thunkify t1) (\<lambda>t1.
         if sametail then obind (treecons t1 tail) (\<lambda>l. Ok (nList (CAR t2) l))
         else obind (treecons t1 tail) (prefix op))))"

text \<open>The descriptors of a pipe are not negative.\<close>

definition mkpipe :: "tree \<Rightarrow> int \<Rightarrow> int \<Rightarrow> tree \<Rightarrow> tree outcome" where
  "mkpipe t1 outfd infd t2 =
     (let pipetail = firstis t2 ''%pipe'' in
      obind (if pipetail then Ok (CDR t2) else obind (thunkify t2) (\<lambda>u. treecons u TNull)) (\<lambda>r.
      obind (prefix (show_nat (nat infd)) r) (\<lambda>r. obind (prefix (show_nat (nat outfd)) r) (\<lambda>tail.
      if firstis t1 ''%pipe'' then treeappend t1 tail
      else obind (thunkify t1) (\<lambda>t1.
        if pipetail then obind (treecons t1 tail) (\<lambda>l. Ok (nList (CAR t2) l))
        else obind (treecons t1 tail) (prefix ''%pipe''))))))"

section \<open>Redirections\<close>

text \<open>
  \<open>queueheredoc\<close>: it renames the command, which is the tree that is returned, and puts the cell of the
  marker in front of the queue.
\<close>

definition queueheredoc :: "tree \<Rightarrow> parser \<Rightarrow> (bool \<times> tree \<times> parser) outcome" where
  "queueheredoc t ps =
     (if hereq ps \<noteq> [] \<and> \<not> is_nList (hd (hereq ps)) then Abort else
      case t of
        nList (nWord w) rest \<Rightarrow>
          if w \<noteq> ''%heredoc'' then Abort else
          (case rest of
             nList fd eof \<Rightarrow>
              (case eof of
                 nList m rest2 \<Rightarrow>
                   let t' = nList (nWord ''%here'') rest in
                   if m = TNull then Undef
                   else if (case m of nWord s \<Rightarrow> False | nQword s \<Rightarrow> False | _ \<Rightarrow> True)
                   then Ok (False, t', yyerror ''here document eof-marker not a single literal word'' ps)
                   else Ok (True, t', ps\<lparr>hereq := eof # hereq ps\<rparr>)
               | TNull \<Rightarrow> Undef
               | _ \<Rightarrow> Abort)
           | TNull \<Rightarrow> Undef
           | _ \<Rightarrow> Abort)
      | nList TNull rest \<Rightarrow> Undef
      | TNull \<Rightarrow> Undef
      | _ \<Rightarrow> Abort)"

text \<open>The loop of \<open>redirect\<close> that finds the cell of the placeholder, and the assignment to that cell.\<close>

fun find_place :: "tree \<Rightarrow> unit outcome" where
  "find_place TNull = Undef"
| "find_place (nList a b) = (if a = placeholder then Ok () else find_place b)"
| "find_place _ = Abort"

fun set_place :: "tree \<Rightarrow> tree \<Rightarrow> tree" where
  "set_place (nList a b) u = (if a = placeholder then nList u b else nList a (set_place b u))"
| "set_place t u = t"

text \<open>The loop over the words queued with the redirection: what is left, and the tree with the words.\<close>

fun redirect_words :: "tree \<Rightarrow> tree \<Rightarrow> (tree \<times> tree) outcome" where
  "redirect_words TNull t = Undef"
| "redirect_words (nRedir a r) t = obind (treeappend t a) (\<lambda>t. redirect_words r t)"
| "redirect_words r t = Ok (r, t)"

lemma treeappend_size: "treeappend a b = Ok c \<Longrightarrow> size c = size a + size b"
  by (induction a b arbitrary: c rule: treeappend.induct) (auto simp: obind_Ok)

lemma redirect_words_size: "redirect_words r t = Ok (r', t') \<Longrightarrow> size t' \<le> size r + size t"
proof (induction r t rule: redirect_words.induct)
  case (2 a r t)
  then obtain t1 where t1: "treeappend t a = Ok t1" "redirect_words r t1 = Ok (r', t')"
    by (auto simp: obind_Ok)
  then show ?case using 2 treeappend_size [OF t1(1)] by fastforce
qed auto

function redirect :: "tree \<Rightarrow> parser \<Rightarrow> (tree \<times> parser) outcome" where
  "redirect (nRedir r t) ps =
     (case redirect_words r t of Throw e \<Rightarrow> Throw e | Abort \<Rightarrow> Abort | Undef \<Rightarrow> Undef
      | Ok (r, t) \<Rightarrow>
        obind (find_place r) (\<lambda>_.
        obind (if firstis r ''%heredoc'' then queueheredoc r ps else Ok (True, r, ps)) (\<lambda>(ok, r, ps).
        if \<not> ok then Ok (errornode, ps)
        else obind (redirect t ps) (\<lambda>(u, ps). obind (thunkify u) (\<lambda>u. Ok (set_place r u, ps))))))"
| "redirect TNull ps = Ok (TNull, ps)"
| "\<not> is_nRedir t \<Longrightarrow> t \<noteq> TNull \<Longrightarrow> redirect t ps = Ok (t, ps)"
  by (auto, metis is_nRedir.elims(2))
termination
  by (relation "measure (\<lambda>(t, ps). size t)") (auto dest: redirect_words_size)

definition mkredircmd :: "string \<Rightarrow> int \<Rightarrow> tree outcome" where
  "mkredircmd cmd fd = obind (prefix (show_nat (nat fd)) TNull) (prefix cmd)"

definition mkredir :: "tree \<Rightarrow> tree \<Rightarrow> parser \<Rightarrow> (tree \<times> parser) outcome" where
  "mkredir cmd file ps =
     obind
       (if is_nThunk file then
         (let (op, ps) = (if firstis cmd ''%open'' then (''%readfrom'', ps)
                          else if firstis cmd ''%create'' then (''%writeto'', ps)
                          else ([], yyerror ''bad /dev/fd redirection'' ps));
              var = nWord (''_devfd'' @ show_nat (devfd_id ps));
              ps = ps\<lparr>devfd_id := devfd_id ps + 1\<rparr>
          in obind (treecons var TNull) (\<lambda>l. obind (treecons (nWord op) l) (\<lambda>cmd.
             obind (treecons (nVar var) TNull) (\<lambda>word. Ok (cmd, file, Some word, ps)))))
        else if \<not> firstis cmd ''%heredoc'' \<and> \<not> firstis cmd ''%here'' then
          obind (treecons file TNull) (\<lambda>l. obind (prefix ''%one'' l) (\<lambda>l. Ok (cmd, nCall l, None, ps)))
        else Ok (cmd, file, None, ps))
       (\<lambda>(cmd, file, word, ps).
         obind (treecons placeholder TNull) (\<lambda>l. obind (treecons file l) (\<lambda>l.
         obind (treeappend cmd l) (\<lambda>cmd.
         Ok ((case word of Some w \<Rightarrow> nRedir w cmd | None \<Rightarrow> cmd), ps)))))"

definition mkclose :: "int \<Rightarrow> tree outcome" where
  "mkclose fd =
     obind (treecons placeholder TNull) (\<lambda>l. obind (prefix (show_nat (nat fd)) l) (prefix ''%close''))"

definition mkdup :: "int \<Rightarrow> int \<Rightarrow> tree outcome" where
  "mkdup fd0 fd1 =
     obind (treecons placeholder TNull) (\<lambda>l. obind (prefix (show_nat (nat fd1)) l) (\<lambda>l.
     obind (prefix (show_nat (nat fd0)) l) (prefix ''%dup'')))"

text \<open>The second loop of \<open>redirappend\<close>: the new node goes behind the redirections that are there.\<close>

fun after_redirs :: "tree \<Rightarrow> tree \<Rightarrow> tree outcome" where
  "after_redirs (nRedir a b) r = obind (after_redirs b r) (\<lambda>b. Ok (nRedir a b))"
| "after_redirs (nList a b) r = Ok (nRedir r (nList a b))"
| "after_redirs TNull r = Ok (nRedir r TNull)"
| "after_redirs t r = Abort"

definition redirappend :: "tree \<Rightarrow> tree \<Rightarrow> tree outcome" where
  "redirappend t r =
     obind (redirect_words r t) (\<lambda>(r, t). if is_nList r then after_redirs t r else Abort)"

section \<open>Relations\<close>

datatype relation = Less | LessEqual | Greater | GreaterEqual | EqualTo | NotEqual

definition relop_match :: "relation \<Rightarrow> tree outcome" where
  "relop_match rel =
     (case rel of
        Less \<Rightarrow> Ok (nWord ''-1'')
      | LessEqual \<Rightarrow> obind (treecons (nWord ''0'') TNull) (treecons (nWord ''-1''))
      | Greater \<Rightarrow> Ok (nWord ''1'')
      | GreaterEqual \<Rightarrow> obind (treecons (nWord ''0'') TNull) (treecons (nWord ''1''))
      | EqualTo \<Rightarrow> Ok (nWord ''0'')
      | NotEqual \<Rightarrow> obind (treecons (nWord ''1'') TNull) (treecons (nWord ''-1'')))"

definition relop :: "tree \<Rightarrow> tree \<Rightarrow> relation \<Rightarrow> tree outcome" where
  "relop left right rel =
     obind (relop_match rel) (\<lambda>match.
     obind (treecons right TNull) (\<lambda>l. obind (treecons left l) (\<lambda>l.
     obind (treecons (nWord ''%cmp'') l) (\<lambda>l. Ok (nMatch (nCall l) match)))))"

section \<open>Lists and operands\<close>

fun is_list :: "tree \<Rightarrow> bool" where
  "is_list TNull = True"
| "is_list (nList a b) = is_list b"
| "is_list t = False"

fun elems :: "tree \<Rightarrow> tree list" where
  "elems (nList a b) = a # elems b"
| "elems t = []"

lemma treeappend_list:
  "is_list t \<Longrightarrow> is_list u \<Longrightarrow> \<exists>v. treeappend t u = Ok v \<and> is_list v \<and> elems v = elems t @ elems u"
  by (induction t u rule: treeappend.induct) auto

lemma is_list_shape: "is_list t \<Longrightarrow> t = TNull \<or> is_nList t"
  by (cases t) auto

lemma treecons_list: "is_list t \<Longrightarrow> treecons a t = Ok (nList a t)"
  using is_list_shape [of t] by (auto simp: treecons_def)

text \<open>What \<open>thunkify\<close> makes of a tree: only a list that begins with NULL is not accepted.\<close>

definition thunkable :: "tree \<Rightarrow> bool" where
  "thunkable t \<longleftrightarrow> (\<forall>b. t \<noteq> nList TNull b) \<and> (is_nList t \<longrightarrow> is_list t)"

definition thunk :: "tree \<Rightarrow> tree" where
  "thunk t = (if is_nThunk t \<or> (is_nList t \<and> is_nThunk (CAR t) \<and> CDR t = TNull) then t else nThunk t)"

lemma thunkify_thunk: "thunkable t \<Longrightarrow> thunkify t = Ok (thunk t)"
  by (cases t) (auto simp: thunkable_def thunkify_def thunk_def split: tree.splits)

definition operands :: "string \<Rightarrow> tree \<Rightarrow> tree list" where
  "operands op t = (if firstis t op then elems (CDR t) else [thunk t])"

lemma firstis_iff: "firstis t op \<longleftrightarrow> (\<exists>b. t = nList (nWord op) b)"
  by (auto simp: firstis_def split: tree.splits)

lemma mkseq_operands:
  assumes "thunkable t1" "thunkable t2" "op = ''%seq'' \<Longrightarrow> t1 \<noteq> TNull \<and> t2 \<noteq> TNull"
  shows "\<exists>l. mkseq op t1 t2 = Ok (nList (nWord op) l) \<and> is_list l \<and>
    elems l = operands op t1 @ operands op t2"
proof -
  note th = thunkify_thunk [OF assms(1)] thunkify_thunk [OF assms(2)]
  define tail where "tail = (if firstis t2 op then CDR t2 else nList (thunk t2) TNull)"
  have tail: "is_list tail" "elems tail = operands op t2"
    using assms(2) by (auto simp: tail_def operands_def firstis_iff thunkable_def)
  have first: "mkseq op t1 t2 =
      (if firstis t1 op then treeappend t1 tail
       else if firstis t2 op then Ok (nList (CAR t2) (nList (thunk t1) tail))
       else Ok (nList (nWord op) (nList (thunk t1) tail)))"
    using assms(3) tail(1) by (auto simp: mkseq_def tail_def th treecons_def prefix_def dest: is_list_shape)
  show ?thesis
  proof (cases "firstis t1 op")
    case True
    then obtain b where b: "t1 = nList (nWord op) b" "is_list b"
      using assms(1) by (auto simp: firstis_iff thunkable_def)
    obtain v where "treeappend b tail = Ok v" "is_list v" "elems v = elems b @ elems tail"
      using treeappend_list [OF b(2) tail(1)] by blast
    then show ?thesis using first tail b by (simp add: operands_def firstis_iff)
  next
    case False
    then have "operands op t1 = [thunk t1]" by (simp add: operands_def)
    moreover have "CAR t2 = nWord op" if "firstis t2 op" using that by (auto simp: firstis_iff)
    ultimately show ?thesis using first tail False by auto
  qed
qed

section \<open>Chains of redirections\<close>

definition redir_ok :: "tree \<Rightarrow> bool" where
  "redir_ok r \<longleftrightarrow> is_list r \<and> placeholder \<in> set (elems r) \<and> \<not> firstis r ''%heredoc'' \<and>
     (\<forall>b. r \<noteq> nList TNull b)"

fun wrap :: "tree list \<Rightarrow> tree \<Rightarrow> tree" where
  "wrap [] cmd = cmd"
| "wrap (r # rs) cmd = set_place r (thunk (wrap rs cmd))"

definition chain :: "tree list \<Rightarrow> tree \<Rightarrow> tree" where
  "chain rs cmd = foldr nRedir rs cmd"

lemma find_place_ok: "is_list r \<Longrightarrow> placeholder \<in> set (elems r) \<Longrightarrow> find_place r = Ok ()"
  by (induction r rule: find_place.induct) auto

lemma set_place_list: "is_list r \<Longrightarrow> is_list (set_place r u)"
  by (induction r rule: is_list.induct) auto

lemma thunkable_wrap: "thunkable cmd \<Longrightarrow> \<forall>r \<in> set rs. redir_ok r \<Longrightarrow> thunkable (wrap rs cmd)"
proof (cases rs)
  case (Cons r rs')
  assume "\<forall>r \<in> set rs. redir_ok r"
  then have r: "redir_ok r" using Cons by simp
  then obtain a b where ab: "r = nList a b" by (cases r) (auto simp: redir_ok_def)
  have "thunk t \<noteq> TNull" for t by (cases t) (auto simp: thunk_def)
  then show ?thesis using r ab set_place_list [of b]
    by (auto simp: Cons thunkable_def redir_ok_def)
qed simp

lemma redirect_words_list: "is_nList r \<Longrightarrow> redirect_words r t = Ok (r, t)"
  by (cases r) auto

lemma redirect_chain:
  assumes "\<forall>r \<in> set rs. redir_ok r" "\<not> is_nRedir cmd" "thunkable cmd"
  shows "redirect (chain rs cmd) ps = Ok (wrap rs cmd, ps)"
  using assms(1)
proof (induction rs arbitrary: ps)
  case Nil
  then show ?case using assms(2) by (cases "cmd = TNull") (simp_all add: chain_def redirect.simps(3))
next
  case (Cons r rs)
  then have r: "redir_ok r" and IH: "redirect (chain rs cmd) ps = Ok (wrap rs cmd, ps)" by auto
  have l: "is_nList r" using r by (cases r) (auto simp: redir_ok_def)
  have th: "thunkify (wrap rs cmd) = Ok (thunk (wrap rs cmd))"
    using thunkify_thunk [OF thunkable_wrap [OF assms(3)]] Cons.prems by simp
  have "chain (r # rs) cmd = nRedir r (chain rs cmd)" by (simp add: chain_def)
  then show ?case using r IH th find_place_ok [of r]
    by (simp add: redirect_words_list [OF l] redir_ok_def)
qed

lemma redirappend_chain:
  assumes "cmd = TNull \<or> is_nList cmd" "is_nList r"
  shows "redirappend (chain rs cmd) r = Ok (chain (rs @ [r]) cmd)"
proof -
  have "after_redirs (chain rs cmd) r = Ok (chain (rs @ [r]) cmd)"
  proof (induction rs)
    case Nil
    then show ?case using assms(1) by (cases cmd) (auto simp: chain_def)
  qed (simp add: chain_def)
  then show ?thesis using assms(2) by (simp add: redirappend_def redirect_words_list)
qed

fun redirappend_all :: "tree \<Rightarrow> tree list \<Rightarrow> tree outcome" where
  "redirappend_all t [] = Ok t"
| "redirappend_all t (r # rs) = obind (redirappend t r) (\<lambda>t. redirappend_all t rs)"

lemma redirappend_all_chain:
  assumes "cmd = TNull \<or> is_nList cmd" "\<forall>r \<in> set rs. redir_ok r"
  shows "redirappend_all (chain rs' cmd) rs = Ok (chain (rs' @ rs) cmd)"
  using assms(2)
proof (induction rs arbitrary: rs')
  case (Cons r rs)
  then have "is_nList r" by (cases r) (auto simp: redir_ok_def)
  then show ?case using Cons redirappend_chain [OF assms(1), of r rs'] by simp
qed simp

section \<open>Properties\<close>

text \<open>
  Sequences are flat. Joining two commands with an operator gives one list that begins with the
  operator and holds the operands of both in order, where a command that is a list for that operator
  already contributes its operands and any other command a thunk. So both ways to nest three commands
  give the same list. (With \<open>%seq\<close>, a NULL command is left out.)
\<close>

theorem mkseq_appends_operands:
  assumes "thunkable t1" "thunkable t2" "op = ''%seq'' \<longrightarrow> t1 \<noteq> TNull \<and> t2 \<noteq> TNull"
  shows "\<exists>l. mkseq op t1 t2 = Ok (nList (nWord op) l) \<and> is_list l \<and>
    elems l = operands op t1 @ operands op t2"
  using mkseq_operands [OF assms(1,2)] assms(3) by blast

theorem mkseq_appends_operands_witness:
  "\<exists>l. mkseq ''%and'' (nList (nWord ''a'') TNull) (nList (nWord ''b'') TNull) =
      Ok (nList (nWord ''%and'') l) \<and> is_list l \<and>
    elems l = operands ''%and'' (nList (nWord ''a'') TNull) @ operands ''%and'' (nList (nWord ''b'') TNull)"
  by (rule mkseq_appends_operands) (simp_all add: thunkable_def)

text \<open>
  Redirections nest in the order in which they are written. Queueing the redirections of a command
  one by one and rewriting the tree gives the first redirection around the second and so on, with the
  command in the innermost placeholder; no assertion fails and the parser's state does not change.
\<close>

theorem redirections_nest_in_order:
  assumes "is_nList cmd" "thunkable cmd" "\<forall>r \<in> set rs. redir_ok r"
  shows "obind (redirappend_all cmd rs) (\<lambda>t. redirect t ps) = Ok (wrap rs cmd, ps)"
proof -
  have "redirappend_all cmd rs = Ok (chain rs cmd)"
    using redirappend_all_chain [of cmd rs "[]"] assms(1,3) by (simp add: chain_def)
  moreover have "\<not> is_nRedir cmd" using assms(1) by (cases cmd) auto
  ultimately show ?thesis using redirect_chain [OF assms(3) _ assms(2)] by simp
qed

theorem redirections_nest_in_order_witness:
  "obind (redirappend_all (nList (nWord ''ls'') TNull)
      [nList (nWord ''%close'') (nList (nWord ''2'') (nList placeholder TNull)),
       nList (nWord ''%dup'') (nList (nWord ''1'') (nList (nWord ''3'') (nList placeholder TNull)))])
     (\<lambda>t. redirect t \<lparr>hereq = [], devfd_id = 0, perror = None\<rparr>) =
   Ok (wrap [nList (nWord ''%close'') (nList (nWord ''2'') (nList placeholder TNull)),
       nList (nWord ''%dup'') (nList (nWord ''1'') (nList (nWord ''3'') (nList placeholder TNull)))]
      (nList (nWord ''ls'') TNull), \<lparr>hereq = [], devfd_id = 0, perror = None\<rparr>)"
  by (rule redirections_nest_in_order) (simp_all add: thunkable_def redir_ok_def firstis_def)

text \<open>The redirection \<open><<a\<close> of descriptor 0.\<close>

definition heredoc_redir :: "string \<Rightarrow> tree" where
  "heredoc_redir a =
     nList (nWord ''%heredoc'') (nList (nWord ''0'') (nList (nWord a) (nList placeholder TNull)))"

lemma mkredir_heredoc: "obind (mkredircmd ''%heredoc'' 0) (\<lambda>r. mkredir r (nWord a) ps) = Ok (heredoc_redir a, ps)"
proof -
  have "show_nat 0 = ''0''" by code_simp
  then show ?thesis
    by (simp add: mkredircmd_def prefix_def treecons_def mkredir_def firstis_def heredoc_redir_def)
qed

text \<open>
  With two here documents on one command the queue ends up with the second one in front, so that
  the text of the second is read first.
\<close>

lemma redirect_queue:
  assumes "is_nList cmd" "thunkable cmd" "hereq ps = []"
  shows "\<exists>t ps'. obind (redirappend_all cmd [heredoc_redir a, heredoc_redir b]) (\<lambda>t. redirect t ps) =
      Ok (t, ps') \<and> map CAR (hereq ps') = [nWord b, nWord a]"
proof -
  have "\<not> is_nRedir cmd" "cmd \<noteq> TNull" using assms(1) by (cases cmd; simp)+
  moreover have "redirappend_all cmd [heredoc_redir a, heredoc_redir b] =
      Ok (nRedir (heredoc_redir a) (nRedir (heredoc_redir b) cmd))"
    using redirappend_chain [of cmd "heredoc_redir a" "[]"]
      redirappend_chain [of cmd "heredoc_redir b" "[heredoc_redir a]"] assms(1)
    by (simp add: chain_def heredoc_redir_def)
  ultimately show ?thesis using assms
    by (simp add: heredoc_redir_def redirect.simps(3) firstis_def queueheredoc_def Let_def
        placeholder_def thunkify_thunk) (simp add: thunkify_def)
qed

end
