(* ===== verification/Token.thy ===== *)
theory Token
  imports Syntax
begin

text \<open>
  The lexical analyser, \<open>src/token.c\<close>. The input is the list of the characters that \<open>GETC\<close> still
  returns, where a NUL is the interrupt character of an interactive input; at its end \<open>GETC\<close> returns
  EOF again and again, so that an EOF pushed back leaves it as it is. The static variables of the
  analyser are a record, and the word buffer, which grows on demand, is a local list. The messages of
  \<open>scanerror\<close> are written without the quotation marks around the characters they name.
\<close>

section \<open>Character tables\<close>

definition dollar_non_word :: "char \<Rightarrow> bool" where
  "dollar_non_word c \<longleftrightarrow> \<not> (isalnum c \<or> c = CHR ''_'' \<or> c = CHR ''%'' \<or> c = CHR ''*'' \<or> c = CHR ''-'')"

definition argument_non_word :: "char \<Rightarrow> bool" where
  "argument_non_word c \<longleftrightarrow> non_word c \<and> c \<noteq> CHR ''=''"

datatype meta = NonWord | DollarNonWord | ArgumentNonWord

fun metachar :: "meta \<Rightarrow> char \<Rightarrow> bool" where
  "metachar NonWord c = non_word c"
| "metachar DollarNonWord c = dollar_non_word c"
| "metachar ArgumentNonWord c = argument_non_word c"

section \<open>Tokens and state\<close>

datatype token =
    TChar char | WORD string | QWORD string
  | LOCAL | LET | FOR | CLOSURE | FN
  | ANDAND | BACKBACK | EXTRACT | CALL | COUNT | FLAT | OROR | PRIM | SUB
  | DUP tree | REDIR tree | PIPE int int
  | NL | ENDFILE | ERROR
  | LT | LE | GT | GE | EQ | NE

datatype wstate = STATE_NON_WORD | STATE_REAL_WORD | STATE_KEY_WORD

record lexer =
  inp :: string
  w :: wstate
  newline :: bool
  goterror :: bool
  dollar :: bool
  lineno :: int
  is_prompt2 :: bool
  lexerr :: "string option"

definition print_prompt2 :: "lexer \<Rightarrow> lexer" where
  "print_prompt2 lx = lx\<lparr>lineno := lineno lx + 1, is_prompt2 := True\<rparr>"

definition nl_char :: char where "nl_char = CHR 0x0A"
definition tab_char :: char where "tab_char = CHR 0x09"
definition backslash :: char where "backslash = CHR 0x5C"
definition squote :: char where "squote = CHR 0x27"
definition dquote :: char where "dquote = CHR 0x22"
definition bquote :: char where "bquote = CHR 0x60"

lemmas char_defs = nl_char_def tab_char_def backslash_def squote_def dquote_def bquote_def nul_def

text \<open>\<open>scanerror\<close> skips the rest of the line and records the error.\<close>

definition skip_line :: "string \<Rightarrow> string" where
  "skip_line s = tl (dropWhile (\<lambda>c. c \<noteq> nl_char) s)"

definition scanerror :: "string \<Rightarrow> lexer \<Rightarrow> lexer" where
  "scanerror msg lx = lx\<lparr>inp := skip_line (inp lx), goterror := True,
     lexerr := (if lexerr lx = None then Some msg else lexerr lx)\<rparr>"

section \<open>Descriptors of redirections\<close>

definition CLOSED :: int where "CLOSED = -1"
definition DEFAULT :: int where "DEFAULT = -2"

text \<open>Digits read into an \<open>int\<close>: the value, or \<^const>\<open>None\<close> when it overflows, and the rest.\<close>

fun int_digits :: "int \<Rightarrow> string \<Rightarrow> int option \<times> string" where
  "int_digits n [] = (Some n, [])"
| "int_digits n (c # s) =
     (if isdigit c then
        (case c_int (n * 10 + (int (uchar c) - 48)) of None \<Rightarrow> (None, s) | Some m \<Rightarrow> int_digits m s)
      else (Some n, c # s))"

text \<open>
  \<open>getfds\<close>: it is called with the character read last, so that with \<open>c = '['\<close> the digits are next.
  The result is the two descriptors, or \<^const>\<open>None\<close> after a \<open>scanerror\<close>.
\<close>

definition getfds_second :: "int \<Rightarrow> lexer \<Rightarrow> ((int \<times> int) option \<times> lexer) outcome" where
  "getfds_second fd0 lx =
     (case inp lx of
        [] \<Rightarrow> Ok (None, scanerror ''expected digit or ] after ='' lx)
      | c # s \<Rightarrow>
         if \<not> isdigit c then
           if c \<noteq> CHR '']'' then Ok (None, scanerror ''expected digit or ] after ='' (lx\<lparr>inp := s\<rparr>))
           else Ok (Some (fd0, CLOSED), lx\<lparr>inp := s\<rparr>)
         else
           (case int_digits (int (uchar c) - 48) s of
              (None, _) \<Rightarrow> Undef
            | (Some n, []) \<Rightarrow> Ok (None, scanerror ''expected ] after digit'' (lx\<lparr>inp := []\<rparr>))
            | (Some n, d # s') \<Rightarrow>
                if d \<noteq> CHR '']'' then Ok (None, scanerror ''expected ] after digit'' (lx\<lparr>inp := s'\<rparr>))
                else Ok (Some (fd0, n), lx\<lparr>inp := s'\<rparr>)))"

definition getfds :: "char option \<Rightarrow> int \<Rightarrow> int \<Rightarrow> lexer \<Rightarrow> ((int \<times> int) option \<times> lexer) outcome" where
  "getfds c default0 default1 lx =
     (case c of None \<Rightarrow> Ok (Some (default0, default1), lx) | Some c \<Rightarrow>
      if c \<noteq> CHR ''['' then Ok (Some (default0, default1), lx\<lparr>inp := c # inp lx\<rparr>)
      else
       (case inp lx of
          [] \<Rightarrow> Ok (None, scanerror ''expected digit after ['' lx)
        | c # s \<Rightarrow>
            if \<not> isdigit c then Ok (None, scanerror ''expected digit after ['' (lx\<lparr>inp := s\<rparr>))
            else
              (case int_digits (int (uchar c) - 48) s of
                 (None, _) \<Rightarrow> Undef
               | (Some n, []) \<Rightarrow> Ok (None, scanerror ''expected = or ] after digit'' (lx\<lparr>inp := []\<rparr>))
               | (Some n, d # s') \<Rightarrow>
                   if d = CHR ''='' then getfds_second n (lx\<lparr>inp := s'\<rparr>)
                   else if d = CHR '']'' then Ok (Some (n, default1), lx\<lparr>inp := s'\<rparr>)
                   else Ok (None, scanerror ''expected = or ] after digit'' (lx\<lparr>inp := s'\<rparr>)))))"

section \<open>Words\<close>

text \<open>The loop that collects a word: the word and the rest of the input.\<close>

fun word_chars :: "meta \<Rightarrow> string \<Rightarrow> string \<times> string" where
  "word_chars m [] = ([], [])"
| "word_chars m (c # s) =
     (if metachar m c then ([], c # s) else (let (u, r) = word_chars m s in (c # u, r)))"

text \<open>The keywords; \<open>next\<close> is the character behind the word.\<close>

definition keyword_token :: "string \<Rightarrow> char option \<Rightarrow> token option" where
  "keyword_token buf next =
     (if length buf = 1 then
        if buf = ''@'' \<or> buf = ''~'' then Some (TChar (hd buf))
        else if next = Some (CHR ''{'') then Some CALL else None
      else if buf = ''fn'' then Some FN
      else if buf = ''for'' then Some FOR
      else if buf = ''local'' then Some LOCAL
      else if buf = ''let'' then Some LET
      else if buf = ''~~'' then Some EXTRACT
      else if buf = ''%closure'' then Some CLOSURE
      else if buf = '':lt'' then Some LT
      else if buf = '':le'' then Some LE
      else if buf = '':gt'' then Some GT
      else if buf = '':ge'' then Some GE
      else if buf = '':eq'' then Some EQ
      else if buf = '':ne'' then Some NE
      else None)"

text \<open>\<open>InsertFreeCaret\<close> in front of the character \<open>c\<close>.\<close>

definition free_caret :: "char \<Rightarrow> lexer \<Rightarrow> (lexer \<Rightarrow> (token \<times> lexer) outcome) \<Rightarrow> (token \<times> lexer) outcome" where
  "free_caret c lx k =
     (if w lx \<noteq> STATE_NON_WORD
      then Ok (TChar (CHR ''^''), lx\<lparr>w := STATE_NON_WORD, inp := c # inp lx\<rparr>)
      else k lx)"

definition lex_word :: "meta \<Rightarrow> char \<Rightarrow> lexer \<Rightarrow> (token \<times> lexer) outcome" where
  "lex_word m c lx =
     (let m = (if m = NonWord \<and> c = CHR ''-'' then ArgumentNonWord else m) in
      free_caret c lx (\<lambda>lx.
        let (u, r) = word_chars m (inp lx); buf = c # u; lx = lx\<lparr>inp := r\<rparr>
        in case keyword_token buf (case r of [] \<Rightarrow> None | d # _ \<Rightarrow> Some d) of
             Some t \<Rightarrow> Ok (t, lx\<lparr>w := STATE_KEY_WORD\<rparr>)
           | None \<Rightarrow> Ok (WORD buf, lx\<lparr>w := STATE_REAL_WORD\<rparr>)))"

definition interactive_ctrl_c :: "lexer \<Rightarrow> (token \<times> lexer) outcome" where
  "interactive_ctrl_c lx = Ok (ERROR, scanerror [] (lx\<lparr>w := STATE_NON_WORD\<rparr>))"

section \<open>Quoted words\<close>

datatype quoted = QEnd string string nat | QIntr string nat | QEof nat

text \<open>
  The loop inside quotes: the text collected in reverse, and how often \<open>print_prompt2\<close> was called.
\<close>

fun lex_quoted :: "char \<Rightarrow> string \<Rightarrow> string \<Rightarrow> nat \<Rightarrow> quoted" where
  "lex_quoted q [] acc n = QEof n"
| "lex_quoted q (c # s) acc n =
     (if c = q then
        (if s \<noteq> [] \<and> hd s = q then lex_quoted q (tl s) (q # acc) n else QEnd (rev acc) s n)
      else if c = backslash then
        (if s \<noteq> [] \<and> hd s = nl_char then lex_quoted q (tl s) acc (n + 1)
         else if s \<noteq> [] \<and> hd s = q then lex_quoted q (tl s) (q # acc) n
         else lex_quoted q s (backslash # acc) n)
      else if c = nul then QIntr s n
      else lex_quoted q s (c # acc) (if c = nl_char then n + 1 else n))"

fun prompts :: "nat \<Rightarrow> lexer \<Rightarrow> lexer" where
  "prompts 0 lx = lx"
| "prompts (Suc n) lx = prompts n (print_prompt2 lx)"

definition lex_qword :: "char \<Rightarrow> lexer \<Rightarrow> (token \<times> lexer) outcome" where
  "lex_qword q lx =
     (case lex_quoted q (inp lx) [] 0 of
        QEnd s r n \<Rightarrow> Ok (QWORD s, prompts n (lx\<lparr>inp := r, w := STATE_REAL_WORD\<rparr>))
      | QIntr r n \<Rightarrow> interactive_ctrl_c (prompts n (lx\<lparr>inp := r\<rparr>))
      | QEof n \<Rightarrow> Ok (ERROR, scanerror ''eof in quoted string''
                            (prompts n (lx\<lparr>inp := [], w := STATE_NON_WORD\<rparr>))))"

section \<open>Backslash escapes\<close>

definition badescape :: "lexer \<Rightarrow> (token \<times> lexer) outcome" where
  "badescape lx = Ok (ERROR, scanerror ''bad backslash escape'' lx)"

text \<open>
  The digits of an escape, shifted into an \<open>int\<close>; a shift out of its range is undefined, the value
  \<^const>\<open>None\<close>.
\<close>

fun escape_digits :: "(char \<Rightarrow> bool) \<Rightarrow> int \<Rightarrow> int \<Rightarrow> string \<Rightarrow> int option \<times> string" where
  "escape_digits P base n [] = (Some n, [])"
| "escape_digits P base n (c # s) =
     (if P c then (case c_int (n * base + digit_val c) of None \<Rightarrow> (None, s) | Some m \<Rightarrow> escape_digits P base m s)
      else (Some n, c # s))"

definition escape_value :: "char \<Rightarrow> lexer \<Rightarrow> (token \<times> lexer) outcome" where
  "escape_value c lx =
     (let qword = (\<lambda>d. Ok (QWORD [d], lx));
          number = (\<lambda>(v, r). case v of None \<Rightarrow> Undef
            | Some n \<Rightarrow> if n = 0 then badescape (lx\<lparr>inp := tl r\<rparr>)
                else Ok (QWORD (if n mod 256 = 0 then [] else [char_of (nat (n mod 256))]), lx\<lparr>inp := r\<rparr>))
      in if c = nul then interactive_ctrl_c lx
      else if c = CHR ''a'' then qword (CHR 0x07)
      else if c = CHR ''b'' then qword (CHR 0x08)
      else if c = CHR ''e'' then qword (CHR 0x1B)
      else if c = CHR ''f'' then qword (CHR 0x0C)
      else if c = CHR ''n'' then qword nl_char
      else if c = CHR ''r'' then qword (CHR 0x0D)
      else if c = CHR ''t'' then qword tab_char
      else if c = CHR ''x'' \<or> c = CHR ''X'' then number (escape_digits isxdigit 16 0 (inp lx))
      else if isodigit c then number (escape_digits isodigit 8 (digit_val c) (inp lx))
      else if isalnum c then badescape lx
      else qword c)"

section \<open>Redirection operators\<close>

text \<open>The first character of the list, as \<open>GETC\<close> returns it.\<close>

definition getc :: "string \<Rightarrow> char option \<times> string" where
  "getc s = (case s of [] \<Rightarrow> (None, []) | c # r \<Rightarrow> (Some c, r))"

text \<open>What follows \<open><\<close> and \<open>></\<close>: the command, the character read last and the rest; \<open>None\<close> is \<open><=\<close>.\<close>

definition less_command :: "string \<Rightarrow> string option \<times> char option \<times> string" where
  "less_command s =
     (let (c, s) = getc s in
      if c = Some (CHR ''>'') then
        (let (c, s) = getc s in
         if c = Some (CHR ''>'') then (let (c, s) = getc s in (Some ''%open-append'', c, s))
         else (Some ''%open-write'', c, s))
      else if c = Some (CHR ''<'') then
        (let (c, s) = getc s in
         if c = Some (CHR ''<'') then (let (c, s) = getc s in (Some ''%here'', c, s))
         else (Some ''%heredoc'', c, s))
      else if c = Some (CHR ''='') then (None, c, s)
      else (Some ''%open'', c, s))"

definition greater_command :: "string \<Rightarrow> string option \<times> char option \<times> string" where
  "greater_command s =
     (let (c, s) = getc s in
      if c = Some (CHR ''>'') then
        (let (c, s) = getc s in
         if c = Some (CHR ''<'') then (let (c, s) = getc s in (Some ''%open-append'', c, s))
         else (Some ''%append'', c, s))
      else if c = Some (CHR ''<'') then (let (c, s) = getc s in (Some ''%open-create'', c, s))
      else (Some ''%create'', c, s))"

definition redirection :: "string \<Rightarrow> char option \<Rightarrow> int \<Rightarrow> lexer \<Rightarrow> (token \<times> lexer) outcome" where
  "redirection cmd c fd lx =
     obind (getfds c fd DEFAULT (lx\<lparr>w := STATE_NON_WORD\<rparr>)) (\<lambda>(fds, lx).
     case fds of None \<Rightarrow> Ok (ERROR, lx)
     | Some (fd0, fd1) \<Rightarrow>
         if fd1 \<noteq> DEFAULT then
           obind (if fd1 = CLOSED then mkclose fd0 else mkdup fd0 fd1) (\<lambda>t. Ok (DUP t, lx))
         else obind (mkredircmd cmd fd0) (\<lambda>t. Ok (REDIR t, lx)))"

definition lex_pipe :: "char option \<Rightarrow> lexer \<Rightarrow> (token \<times> lexer) outcome" where
  "lex_pipe c lx =
     (if c = Some (CHR ''|'') then Ok (OROR, lx)
      else obind (getfds c 1 0 lx) (\<lambda>(fds, lx).
        case fds of None \<Rightarrow> Ok (ERROR, lx)
        | Some (p0, p1) \<Rightarrow>
            if p1 = CLOSED then Ok (ERROR, scanerror ''expected digit after ='' lx)
            else Ok (PIPE p0 p1, lx)))"

section \<open>The analyser\<close>

definition lex_newline :: "lexer \<Rightarrow> (token \<times> lexer) outcome" where
  "lex_newline lx = Ok (NL, lx\<lparr>lineno := lineno lx + 1, newline := True, w := STATE_NON_WORD\<rparr>)"

text \<open>The loop of a comment.\<close>

fun lex_comment :: "string \<Rightarrow> lexer \<Rightarrow> (token \<times> lexer) outcome" where
  "lex_comment [] lx = Ok (ENDFILE, lx\<lparr>inp := []\<rparr>)"
| "lex_comment (c # s) lx =
     (if c = nl_char then lex_newline (lx\<lparr>inp := s\<rparr>)
      else if c = nul then interactive_ctrl_c (lx\<lparr>inp := s\<rparr>)
      else lex_comment s lx)"

fun skip_blanks :: "lexer \<Rightarrow> string \<Rightarrow> lexer" where
  "skip_blanks lx [] = lx\<lparr>inp := []\<rparr>"
| "skip_blanks lx (c # s) =
     (if c = CHR '' '' \<or> c = tab_char then skip_blanks (lx\<lparr>w := STATE_NON_WORD\<rparr>) s
      else lx\<lparr>inp := c # s\<rparr>)"

lemma skip_blanks_length: "length (inp (skip_blanks lx s)) \<le> length s"
  by (induction s arbitrary: lx) (auto intro: le_SucI)

text \<open>The \<open>switch\<close> on a character that is not part of a word, without the backslash.\<close>

definition lex_special :: "char \<Rightarrow> lexer \<Rightarrow> (token \<times> lexer) outcome" where
  "lex_special c lx =
     (if c = CHR ''!'' then Ok (TChar c, lx)
      else if c = bquote then
        (let (d, s) = getc (inp lx)
         in if d = Some bquote then Ok (BACKBACK, lx\<lparr>inp := s\<rparr>) else Ok (TChar bquote, lx))
      else if c = CHR ''$'' then
        (let (d, s) = getc (inp lx); lx = lx\<lparr>dollar := True\<rparr>
         in if d = Some (CHR ''#'') then Ok (COUNT, lx\<lparr>inp := s\<rparr>)
            else if d = Some (CHR ''^'') then Ok (FLAT, lx\<lparr>inp := s\<rparr>)
            else if d = Some (CHR ''&'') then Ok (PRIM, lx\<lparr>inp := s\<rparr>)
            else Ok (TChar (CHR ''$''), lx))
      else if c = squote \<or> c = dquote then lex_qword c lx
      else if c = CHR ''#'' then lex_comment (inp lx) lx
      else if c = nl_char then lex_newline lx
      else if c = CHR ''('' then
        Ok (if w lx = STATE_REAL_WORD then SUB else TChar c, lx\<lparr>w := STATE_NON_WORD\<rparr>)
      else if c \<in> set '';^)={}'' then Ok (TChar c, lx\<lparr>w := STATE_NON_WORD\<rparr>)
      else if c = CHR ''&'' then
        (let (d, s) = getc (inp lx); lx = lx\<lparr>w := STATE_NON_WORD\<rparr>
         in if d = Some (CHR ''&'') then Ok (ANDAND, lx\<lparr>inp := s\<rparr>) else Ok (TChar c, lx))
      else if c = CHR ''|'' then
        (let (d, s) = getc (inp lx) in lex_pipe d (lx\<lparr>w := STATE_NON_WORD, inp := s\<rparr>))
      else if c = CHR ''<'' then
        (case less_command (inp lx) of
           (None, _, s) \<Rightarrow> Ok (CALL, lx\<lparr>inp := s\<rparr>)
         | (Some cmd, d, s) \<Rightarrow> redirection cmd d 0 (lx\<lparr>inp := s\<rparr>))
      else if c = CHR ''>'' then
        (case greater_command (inp lx) of
           (None, _, s) \<Rightarrow> Ok (CALL, lx\<lparr>inp := s\<rparr>)
         | (Some cmd, d, s) \<Rightarrow> redirection cmd d 1 (lx\<lparr>inp := s\<rparr>))
      else Ok (TChar c, lx\<lparr>w := STATE_NON_WORD\<rparr>))"

function lex_top :: "meta \<Rightarrow> lexer \<Rightarrow> (token \<times> lexer) outcome" where
  "lex_top m lx =
     (let lx = skip_blanks lx (inp lx) in
      case inp lx of
        [] \<Rightarrow> Ok (ENDFILE, lx)
      | c # s \<Rightarrow>
         let lx = lx\<lparr>inp := s\<rparr> in
         if c = nul then interactive_ctrl_c lx
         else if \<not> metachar m c then lex_word m c lx
         else if c = bquote \<or> c = CHR ''!'' \<or> c = CHR ''$'' \<or> c = squote \<or> c = dquote then
           free_caret c lx (\<lambda>lx. lex_special c (if c = CHR ''!'' then lx\<lparr>w := STATE_KEY_WORD\<rparr> else lx))
         else if c = backslash then
           (case s of
              [] \<Rightarrow> badescape lx
            | d # r \<Rightarrow>
                if d = nl_char then lex_top m ((print_prompt2 lx)\<lparr>inp := CHR '' '' # r\<rparr>)
                else free_caret backslash lx (\<lambda>lx. escape_value d (lx\<lparr>inp := r, w := STATE_REAL_WORD\<rparr>)))
         else lex_special c lx)"
  by auto
termination
proof (relation "measure (\<lambda>(m, lx). length (inp lx))", goal_cases)
  case (2 m lx lx' c s lx'' d r)
  then show ?case using skip_blanks_length [of lx "inp lx"] by simp
qed simp

declare lex_top.simps [simp del]

definition yylex :: "lexer \<Rightarrow> (token \<times> lexer) outcome" where
  "yylex lx =
     (if goterror lx then Ok (NL, lx\<lparr>goterror := False\<rparr>)
      else
       let m = (if dollar lx then DollarNonWord else NonWord);
           lx = lx\<lparr>dollar := False\<rparr>;
           lx = (if newline lx then (print_prompt2 (lx\<lparr>lineno := lineno lx - 1\<rparr>))\<lparr>newline := False\<rparr> else lx)
       in lex_top m lx)"

definition inityy :: "lexer \<Rightarrow> lexer" where
  "inityy lx = lx\<lparr>newline := False, w := STATE_NON_WORD, dollar := False\<rparr>"

section \<open>Every token consumes input\<close>

definition shorter :: "nat \<Rightarrow> (token \<times> lexer) outcome \<Rightarrow> bool" where
  "shorter n r \<longleftrightarrow> (case r of Ok (t, lx) \<Rightarrow> length (inp lx) \<le> n | Abort \<Rightarrow> False | Throw e \<Rightarrow> False | Undef \<Rightarrow> True)"

lemma shorter_simps [simp]:
  "shorter n (Ok (t, lx)) \<longleftrightarrow> length (inp lx) \<le> n" "shorter n Undef" "\<not> shorter n Abort" "\<not> shorter n (Throw e)"
  by (simp_all add: shorter_def)

lemma shorter_mono: "shorter n r \<Longrightarrow> n \<le> m \<Longrightarrow> shorter m r"
  by (cases r) auto

lemma skip_line_length: "length (skip_line s) \<le> length s"
  using length_dropWhile_le [of "\<lambda>c. c \<noteq> nl_char" s] by (simp add: skip_line_def)

lemma scanerror_length: "length (inp (scanerror m lx)) \<le> length (inp lx)"
  using skip_line_length by (simp add: scanerror_def)

lemma scanerror_le: "length (inp lx) \<le> n \<Longrightarrow> length (inp (scanerror m lx)) \<le> n"
  using scanerror_length [of m lx] by simp

lemma scanerror_nil: "inp lx = [] \<Longrightarrow> inp (scanerror m lx) = []"
  using scanerror_length [of m lx] by simp

lemma shorter_ifI:
  "(b \<Longrightarrow> shorter n x) \<Longrightarrow> (\<not> b \<Longrightarrow> shorter n y) \<Longrightarrow> shorter n (if b then x else y)"
  by simp

lemma ctrl_c_shorter: "length (inp lx) \<le> n \<Longrightarrow> shorter n (interactive_ctrl_c lx)"
  by (simp add: interactive_ctrl_c_def scanerror_le)

lemma int_digits_length: "int_digits n s = (v, r) \<Longrightarrow> length r \<le> length s"
  by (induction n s rule: int_digits.induct) (auto split: if_splits option.splits)

lemma escape_digits_length: "escape_digits P b n s = (v, r) \<Longrightarrow> length r \<le> length s"
  by (induction P b n s rule: escape_digits.induct) (auto split: if_splits option.splits)

lemma getfds_second_length:
  "getfds_second fd lx = Ok (x, lx') \<Longrightarrow> length (inp lx') \<le> length (inp lx)"
  by (auto simp: getfds_second_def scanerror_nil split: list.splits if_splits option.splits prod.splits
      intro!: scanerror_le dest!: int_digits_length)

lemma getfds_length:
  "getfds c d0 d1 lx = Ok (x, lx') \<Longrightarrow> length (inp lx') \<le> length (inp lx) + (if c = None then 0 else 1)"
  by (auto simp: getfds_def scanerror_nil split: list.splits if_splits option.splits prod.splits
      intro!: scanerror_le dest!: int_digits_length getfds_second_length)

lemma getfds_cases: "(\<exists>y. getfds c d0 d1 lx = Ok y) \<or> getfds c d0 d1 lx = Undef"
  by (auto simp: getfds_def getfds_second_def split: list.splits option.splits prod.splits)

lemma mk_redirs_Ok: "\<exists>t. mkclose fd = Ok t" "\<exists>t. mkdup fd fd' = Ok t" "\<exists>t. mkredircmd cmd fd = Ok t"
  by (simp_all add: mkclose_def mkdup_def mkredircmd_def prefix_def treecons_def)

lemma redirection_shorter:
  assumes "length (inp lx) + (if c = None then 0 else 1) \<le> n"
  shows "shorter n (redirection cmd c fd lx)"
proof -
  let ?g = "getfds c fd DEFAULT (lx\<lparr>w := STATE_NON_WORD\<rparr>)"
  consider (u) "?g = Undef" | (ok) x lx' where "?g = Ok (x, lx')"
    using getfds_cases [of c fd DEFAULT "lx\<lparr>w := STATE_NON_WORD\<rparr>"] by (metis surj_pair)
  then show ?thesis
  proof cases
    case ok
    have "length (inp lx') \<le> n" using getfds_length [OF ok] assms by simp
    then show ?thesis using ok mk_redirs_Ok(1) [of "fst (the x)"] mk_redirs_Ok(2) [of "fst (the x)" "snd (the x)"]
        mk_redirs_Ok(3) [of cmd "fst (the x)"]
      by (auto simp: redirection_def split: option.split)
  qed (simp add: redirection_def)
qed

lemma lex_pipe_shorter:
  assumes "length (inp lx) + (if c = None then 0 else 1) \<le> n"
  shows "shorter n (lex_pipe c lx)"
proof (cases "c = Some (CHR ''|'')")
  case False
  consider (u) "getfds c 1 0 lx = Undef" | (ok) x lx' where "getfds c 1 0 lx = Ok (x, lx')"
    using getfds_cases [of c 1 0 lx] by (metis surj_pair)
  then show ?thesis
  proof cases
    case ok
    have "length (inp lx') \<le> n" using getfds_length [OF ok] assms by simp
    then show ?thesis using ok False
      by (auto simp: lex_pipe_def intro: scanerror_le split: option.split)
  qed (simp add: lex_pipe_def False)
qed (use assms in \<open>simp add: lex_pipe_def\<close>)

definition rest_le :: "nat \<Rightarrow> quoted \<Rightarrow> bool" where
  "rest_le n x = (case x of QEnd t r m \<Rightarrow> length r \<le> n | QIntr r m \<Rightarrow> length r \<le> n | QEof m \<Rightarrow> True)"

lemma rest_le_ifI: "(b \<Longrightarrow> rest_le n x) \<Longrightarrow> (\<not> b \<Longrightarrow> rest_le n y) \<Longrightarrow> rest_le n (if b then x else y)"
  by simp

lemma rest_le_mono: "rest_le n x \<Longrightarrow> n \<le> m \<Longrightarrow> rest_le m x"
  by (auto simp: rest_le_def split: quoted.splits)

lemma lex_quoted_length: "rest_le (length s) (lex_quoted q s acc n)"
proof (induction "length s" arbitrary: s acc n rule: less_induct)
  case less
  show ?case
  proof (cases s)
    case (Cons c s')
    have l: "length s' < length s" "length (tl s') < length s" using Cons by auto
    have IH: "rest_le (length s) (lex_quoted q s' acc n)" "rest_le (length s) (lex_quoted q (tl s') acc n)"
      for acc n
      using rest_le_mono [OF less [OF l(1)]] rest_le_mono [OF less [OF l(2)]] l by simp_all
    show ?thesis unfolding Cons lex_quoted.simps(2) unfolding Cons [symmetric]
      by (intro rest_le_ifI IH) (simp_all add: rest_le_def Cons)
  qed (simp add: rest_le_def)
qed

lemma prompts_inp [simp]: "inp (prompts n lx) = inp lx"
  by (induction n arbitrary: lx) (simp_all add: print_prompt2_def)

lemma lex_qword_shorter: "length (inp lx) \<le> n \<Longrightarrow> shorter n (lex_qword q lx)"
  using lex_quoted_length [of "inp lx" q "[]" 0]
  by (auto simp: lex_qword_def rest_le_def split: quoted.splits intro!: ctrl_c_shorter scanerror_le)

lemma getc_length: "getc s = (c, r) \<Longrightarrow> length r + (if c = None then 0 else 1) = length s"
  by (cases s) (auto simp: getc_def)

lemma less_command_length:
  "less_command s = (cmd, c, r) \<Longrightarrow> length r + (if c = None then 0 else 1) \<le> length s"
  by (auto simp: less_command_def Let_def split: prod.splits if_splits dest!: getc_length)

lemma greater_command_length:
  "greater_command s = (cmd, c, r) \<Longrightarrow> length r + (if c = None then 0 else 1) \<le> length s"
  by (auto simp: greater_command_def Let_def split: prod.splits if_splits dest!: getc_length)

lemma lex_comment_shorter: "length s \<le> n \<Longrightarrow> shorter n (lex_comment s lx)"
  by (induction s lx rule: lex_comment.induct) (auto simp: lex_newline_def intro: ctrl_c_shorter)

lemma lex_special_shorter: "shorter (length (inp lx)) (lex_special c lx)"
proof -
  have g: "length (snd (getc (inp lx))) \<le> length (inp lx)"
    using getc_length [of "inp lx"] by (cases "getc (inp lx)") (auto split: if_splits)
  have a: "shorter (length (inp lx)) (case less_command (inp lx) of
           (None, _, s) \<Rightarrow> Ok (CALL, lx\<lparr>inp := s\<rparr>)
         | (Some cmd, d, s) \<Rightarrow> redirection cmd d 0 (lx\<lparr>inp := s\<rparr>))"
    by (auto split: prod.splits option.splits intro!: redirection_shorter dest!: less_command_length)
  have b: "shorter (length (inp lx)) (case greater_command (inp lx) of
           (None, _, s) \<Rightarrow> Ok (CALL, lx\<lparr>inp := s\<rparr>)
         | (Some cmd, d, s) \<Rightarrow> redirection cmd d 1 (lx\<lparr>inp := s\<rparr>))"
    by (auto split: prod.splits option.splits intro!: redirection_shorter dest!: greater_command_length)
  have p: "shorter (length (inp lx))
      (let (d, s) = getc (inp lx) in lex_pipe d (lx\<lparr>w := STATE_NON_WORD, inp := s\<rparr>))"
    using getc_length [of "inp lx"] by (auto split: prod.splits intro!: lex_pipe_shorter)
  show ?thesis
    unfolding lex_special_def
    by (intro shorter_ifI a b p lex_qword_shorter lex_comment_shorter)
       (simp_all add: lex_newline_def Let_def case_prod_beta g)
qed

lemma escape_value_shorter: "shorter (length (inp lx)) (escape_value c lx)"
proof -
  have d: "length (snd (escape_digits P b n (inp lx))) \<le> length (inp lx)" for P b n
    using escape_digits_length [of P b n "inp lx"] by (cases "escape_digits P b n (inp lx)") simp
  have "length (tl (snd (escape_digits P b n (inp lx)))) \<le> length (inp lx)" for P b n
    using d [of P b n] by (simp add: le_diff_conv)
  then show ?thesis
    using d unfolding escape_value_def Let_def
    by (auto simp: case_prod_beta badescape_def intro!: ctrl_c_shorter scanerror_le split: option.split)
qed

lemma word_chars_length: "length (snd (word_chars m s)) \<le> length s"
  by (induction m s rule: word_chars.induct) (auto simp: Let_def case_prod_beta)

text \<open>What a call may leave: less input, or the same with the free caret inserted.\<close>

definition lexmeasure :: "lexer \<Rightarrow> nat" where
  "lexmeasure lx = 3 * length (inp lx) + (if w lx \<noteq> STATE_NON_WORD then 1 else 0) + (if goterror lx then 1 else 0)"

definition progress :: "nat \<Rightarrow> (token \<times> lexer) outcome \<Rightarrow> bool" where
  "progress n r \<longleftrightarrow> (case r of Ok (t, lx) \<Rightarrow> t \<noteq> ENDFILE \<longrightarrow> lexmeasure lx < n
     | Abort \<Rightarrow> False | Throw e \<Rightarrow> False | Undef \<Rightarrow> True)"

lemma progress_simps [simp]:
  "progress n (Ok (t, lx)) \<longleftrightarrow> (t \<noteq> ENDFILE \<longrightarrow> lexmeasure lx < n)" "progress n Undef"
  by (simp_all add: progress_def)

lemma shorter_progress: "shorter n r \<Longrightarrow> 3 * n + 2 < m \<Longrightarrow> progress m r"
  by (auto simp: shorter_def progress_def lexmeasure_def split: outcome_of.splits)

lemma progress_mono: "progress n r \<Longrightarrow> n \<le> m \<Longrightarrow> progress m r"
  by (auto simp: progress_def split: outcome_of.splits)

lemma free_caret_progress:
  assumes "\<not> goterror lx" "shorter (length (inp lx)) (k lx)"
  shows "progress (3 * (length (inp lx) + 1) + (if w lx \<noteq> STATE_NON_WORD then 1 else 0)) (free_caret c lx k)"
  using assms shorter_progress [OF assms(2)]
  by (auto simp: free_caret_def lexmeasure_def)

lemma lex_word_shorter: 
  "shorter (length (inp lx)) (let (u, r) = word_chars m (inp lx); buf = c # u; lx = lx\<lparr>inp := r\<rparr>
        in case keyword_token buf (case r of [] \<Rightarrow> None | d # _ \<Rightarrow> Some d) of
             Some t \<Rightarrow> Ok (t, lx\<lparr>w := STATE_KEY_WORD\<rparr>)
           | None \<Rightarrow> Ok (WORD buf, lx\<lparr>w := STATE_REAL_WORD\<rparr>))"
  using word_chars_length [of m "inp lx"] by (auto simp: Let_def case_prod_beta split: option.split)

lemma skip_blanks_state:
  "goterror (skip_blanks lx s) = goterror lx"
  "3 * length (inp (skip_blanks lx s)) + (if w (skip_blanks lx s) \<noteq> STATE_NON_WORD then 1 else 0) \<le>
     3 * length s + (if w lx \<noteq> STATE_NON_WORD then 1 else 0)"
proof -
  show "goterror (skip_blanks lx s) = goterror lx" by (induction s arbitrary: lx) auto
  show "3 * length (inp (skip_blanks lx s)) + (if w (skip_blanks lx s) \<noteq> STATE_NON_WORD then 1 else 0) \<le>
     3 * length s + (if w lx \<noteq> STATE_NON_WORD then 1 else 0)"
  proof (induction s arbitrary: lx)
    case (Cons c s)
    then show ?case using Cons.IH [of "lx\<lparr>w := STATE_NON_WORD\<rparr>"] by auto
  qed simp
qed

lemma lex_top_progress: "\<not> goterror lx \<Longrightarrow> progress (lexmeasure lx) (lex_top m lx)"
proof (induction m lx rule: lex_top.induct)
  case (1 m lx)
  define lx1 where "lx1 = skip_blanks lx (inp lx)"
  have g: "\<not> goterror lx1" using 1(2) by (simp add: lx1_def skip_blanks_state)
  have le: "3 * length (inp lx1) + (if w lx1 \<noteq> STATE_NON_WORD then 1 else 0) \<le> lexmeasure lx"
    using skip_blanks_state(2) [of lx "inp lx"] by (simp add: lx1_def lexmeasure_def)
  show ?case
  proof (cases "inp lx1")
    case Nil
    then show ?thesis by (subst lex_top.simps) (simp add: lx1_def [symmetric] Let_def)
  next
    case (Cons c s)
    define lx2 where "lx2 = lx1\<lparr>inp := s\<rparr>"
    define n where "n = 3 * (length s + 1) + (if w lx1 \<noteq> STATE_NON_WORD then 1 else 0)"
    have n: "n \<le> lexmeasure lx" using le Cons by (simp add: n_def)
    have l2: "inp lx2 = s" "w lx2 = w lx1" "\<not> goterror lx2" using g by (simp_all add: lx2_def)
    have leaf: "progress n r" if "shorter (length s) r" for r
      using shorter_progress [OF that, of n] by (simp add: n_def)
    have caret: "progress n (free_caret d lx2 k)" if "shorter (length s) (k lx2)" for d k
      using free_caret_progress [of lx2 k d] that l2 by (simp add: n_def)
    have esc: "shorter (length s) (escape_value d (lx2\<lparr>inp := r, w := STATE_REAL_WORD\<rparr>))" if "s = d # r" for d r
      using shorter_mono [OF escape_value_shorter [of "lx2\<lparr>inp := r, w := STATE_REAL_WORD\<rparr>" d]] that by simp
    have special: "shorter (length s) (lex_special c lx2)"
      "shorter (length s) (lex_special c (lx2\<lparr>w := STATE_KEY_WORD\<rparr>))"
      using lex_special_shorter [of lx2 c] lex_special_shorter [of "lx2\<lparr>w := STATE_KEY_WORD\<rparr>" c] l2
      by simp_all
    have word: "progress n (lex_word m c lx2)"
      unfolding lex_word_def using caret lex_word_shorter [of lx2] l2 by (simp add: Let_def)
    have nest: "progress (lexmeasure lx) (lex_top m ((print_prompt2 lx2)\<lparr>inp := CHR '' '' # r\<rparr>))"
      if "c \<noteq> nul" "metachar m c" "\<not> (c = bquote \<or> c = CHR ''!'' \<or> c = CHR ''$'' \<or> c = squote \<or> c = dquote)"
        "c = backslash" "s = nl_char # r" for r
    proof -
      have gp: "\<not> goterror ((print_prompt2 lx2)\<lparr>inp := CHR '' '' # r\<rparr>)"
        using l2 by (simp add: print_prompt2_def)
      have "progress (lexmeasure ((print_prompt2 lx2)\<lparr>inp := CHR '' '' # r\<rparr>))
          (lex_top m ((print_prompt2 lx2)\<lparr>inp := CHR '' '' # r\<rparr>))"
        using 1(1) [OF lx1_def Cons lx2_def _ _ _ _ that(5) refl gp] that by simp
      moreover have "lexmeasure ((print_prompt2 lx2)\<lparr>inp := CHR '' '' # r\<rparr>) \<le> n"
        using l2 that(5) g by (simp add: n_def lexmeasure_def print_prompt2_def)
      ultimately show ?thesis using n progress_mono by (meson le_trans)
    qed
    have case_s: "progress (lexmeasure lx) (case s of [] \<Rightarrow> badescape lx2
        | d # r \<Rightarrow> if d = nl_char then lex_top m ((print_prompt2 lx2)\<lparr>inp := CHR '' '' # r\<rparr>)
            else free_caret backslash lx2 (\<lambda>lx. escape_value d (lx\<lparr>inp := r, w := STATE_REAL_WORD\<rparr>)))"
      if "c \<noteq> nul" "metachar m c" "\<not> (c = bquote \<or> c = CHR ''!'' \<or> c = CHR ''$'' \<or> c = squote \<or> c = dquote)"
        "c = backslash"
    proof (cases s)
      case Nil
      have "shorter (length s) (badescape lx2)" by (simp add: badescape_def scanerror_le l2)
      then show ?thesis using progress_mono [OF leaf n] Nil by simp
    next
      case (Cons d r)
      then show ?thesis using nest [OF that] progress_mono [OF caret n] esc by auto
    qed
    have leafs: "progress (lexmeasure lx) r" if "shorter (length s) r" for r
      using progress_mono [OF leaf [OF that] n] .
    have sp: "progress (lexmeasure lx) (free_caret c lx2 (\<lambda>lx. lex_special c
        (if c = CHR ''!'' then lx\<lparr>w := STATE_KEY_WORD\<rparr> else lx)))"
      using special by (intro progress_mono [OF caret n]) auto
    have top: "lex_top m lx = (if c = nul then interactive_ctrl_c lx2
         else if \<not> metachar m c then lex_word m c lx2
         else if c = bquote \<or> c = CHR ''!'' \<or> c = CHR ''$'' \<or> c = squote \<or> c = dquote then
           free_caret c lx2 (\<lambda>lx. lex_special c (if c = CHR ''!'' then lx\<lparr>w := STATE_KEY_WORD\<rparr> else lx))
         else if c = backslash then
           (case s of [] \<Rightarrow> badescape lx2
            | d # r \<Rightarrow> if d = nl_char then lex_top m ((print_prompt2 lx2)\<lparr>inp := CHR '' '' # r\<rparr>)
                else free_caret backslash lx2 (\<lambda>lx. escape_value d (lx\<lparr>inp := r, w := STATE_REAL_WORD\<rparr>)))
         else lex_special c lx2)"
      by (subst lex_top.simps) (simp only: Let_def lx1_def [symmetric] Cons list.case lx2_def [symmetric])
    have pif: "(b \<Longrightarrow> progress k x) \<Longrightarrow> (\<not> b \<Longrightarrow> progress k y) \<Longrightarrow> progress k (if b then x else y)" for b k x y
      by simp
    have ctrl: "progress (lexmeasure lx) (interactive_ctrl_c lx2)"
      by (intro leafs ctrl_c_shorter) (simp add: l2)
    show ?thesis unfolding top
      by (intro pif ctrl sp leafs [OF special(1)] progress_mono [OF word n]) (rule case_s; blast)
  qed
qed

lemma yylex_progress: "progress (lexmeasure lx) (yylex lx)"
proof (cases "goterror lx")
  case True
  then show ?thesis by (simp add: yylex_def lexmeasure_def)
next
  case False
  define m where "m = (if dollar lx then DollarNonWord else NonWord)"
  define lx' where "lx' = (if newline lx then (print_prompt2 (lx\<lparr>dollar := False, lineno := lineno lx - 1\<rparr>))\<lparr>newline := False\<rparr>
    else lx\<lparr>dollar := False\<rparr>)"
  have "yylex lx = lex_top m lx'" using False by (simp add: yylex_def Let_def m_def lx'_def)
  moreover have "lexmeasure lx' = lexmeasure lx" "\<not> goterror lx'"
    using False by (simp_all add: lx'_def lexmeasure_def print_prompt2_def)
  ultimately show ?thesis using lex_top_progress [of lx' m] by simp
qed

section \<open>Scanning an input\<close>

text \<open>All tokens of an input up to its end; \<^const>\<open>None\<close> is a lack of fuel.\<close>

fun scan :: "nat \<Rightarrow> lexer \<Rightarrow> (token list \<times> lexer) outcome option" where
  "scan 0 lx = None"
| "scan (Suc n) lx =
     (case yylex lx of
        Ok (t, lx') \<Rightarrow>
          if t = ENDFILE then Some (Ok ([], lx'))
          else map_option (\<lambda>r. obind r (\<lambda>(ts, lx). Ok (t # ts, lx))) (scan n lx')
      | Throw e \<Rightarrow> Some (Throw e) | Abort \<Rightarrow> Some Abort | Undef \<Rightarrow> Some Undef)"

lemma scan_total: "lexmeasure lx < n \<Longrightarrow> \<exists>r. scan n lx = Some r \<and> r \<noteq> Abort \<and> (\<forall>e. r \<noteq> Throw e)"
proof (induction n arbitrary: lx)
  case (Suc n)
  have p: "progress (lexmeasure lx) (yylex lx)" by (rule yylex_progress)
  show ?case
  proof (cases "yylex lx")
    case (Ok x)
    obtain t lx' where x: "x = (t, lx')" by fastforce
    show ?thesis
    proof (cases "t = ENDFILE")
      case False
      then have "lexmeasure lx' < n" using p Ok x Suc.prems by simp
      then obtain r where "scan n lx' = Some r" "r \<noteq> Abort" "\<forall>e. r \<noteq> Throw e" using Suc.IH by blast
      then show ?thesis using Ok x False by (cases r) (auto split: prod.splits)
    qed (simp add: Ok x)
  qed (use p in \<open>simp_all add: progress_def\<close>)
qed simp

section \<open>Quoting and the analyser\<close>

lemma lex_quoted_Sconv:
  assumes "\<forall>c \<in> set s. isprint c \<and> c \<noteq> backslash" "rest = [] \<or> hd rest \<noteq> squote"
  shows "lex_quoted squote (Sconv_loop Quoted s @ rest) acc n = QEnd (rev acc @ s) rest n"
  using assms(1)
proof (induction s arbitrary: acc)
  case Nil
  then show ?case using assms(2) by (auto simp: squote_def)
next
  case (Cons c s)
  have "\<not> isprint nul" "\<not> isprint nl_char" by (simp_all add: isprint_def char_defs uchar_def)
  then have c: "isprint c" "c \<noteq> backslash" "c \<noteq> nul" "c \<noteq> nl_char" using Cons.prems by auto
  have IH: "lex_quoted squote (Sconv_loop Quoted s @ rest) acc n = QEnd (rev acc @ s) rest n" for acc
    using Cons by simp
  show ?case
  proof (cases "c = squote")
    case True
    then show ?thesis using c IH [of "squote # acc"] by (simp add: squote_def)
  next
    case False
    then show ?thesis using c IH [of "c # acc"] by (simp add: squote_def)
  qed
qed

lemma Sconv_quoted:
  assumes "\<forall>c \<in> set s. isprint c"
  shows "Sconv True s = squote # Sconv_loop Quoted s"
  using assms by (cases s) (auto simp: Sconv_def squote_def)

section \<open>Properties\<close>

text \<open>
  C39: the lexical analysis of an input ends. However the input looks, calling \<open>yylex\<close> until it returns
  the end of the file takes at most three calls for each character and two more, and no call fails an
  assertion or throws an exception; the only other end is the overflow of a number.
\<close>

theorem scanning_ends:
  "\<exists>r. scan (3 * length (inp lx) + 3) lx = Some r \<and> r \<noteq> Abort \<and> (\<forall>e. r \<noteq> Throw e)"
  by (rule scan_total) (simp add: lexmeasure_def)

text \<open>
  C40: what \<open>%#S\<close> quotes is read back. For a text of printable characters without backslash, the
  analyser reads the quoted form as one quoted word with that text, up to whatever follows, unless
  that begins with another quote.
\<close>

theorem quoted_word_roundtrip:
  assumes "\<forall>c \<in> set s. isprint c \<and> c \<noteq> backslash" "rest = [] \<or> hd rest \<noteq> squote"
    "inp lx = Sconv True s @ rest" "w lx = STATE_NON_WORD" "\<not> goterror lx"
  shows "\<exists>lx'. yylex lx = Ok (QWORD s, lx') \<and> inp lx' = rest \<and> w lx' = STATE_REAL_WORD"
proof -
  define m where "m = (if dollar lx then DollarNonWord else NonWord)"
  define lx1 where "lx1 = (if newline lx then (print_prompt2 (lx\<lparr>dollar := False, lineno := lineno lx - 1\<rparr>))\<lparr>newline := False\<rparr>
    else lx\<lparr>dollar := False\<rparr>)"
  have lx1: "inp lx1 = squote # Sconv_loop Quoted s @ rest" "w lx1 = STATE_NON_WORD"
    using assms(1,3,4) Sconv_quoted [of s] by (auto simp: lx1_def print_prompt2_def)
  have q: "squote \<noteq> nul" "squote \<noteq> CHR '' ''" "squote \<noteq> tab_char" "squote \<noteq> CHR ''!''"
    "squote \<noteq> bquote" "squote \<noteq> CHR ''$''" "metachar m squote"
    by (auto simp: m_def char_defs non_word_def dollar_non_word_def isalnum_def isalpha_def isupper_def
        islower_def isdigit_def uchar_def)
  have "yylex lx = lex_top m lx1" using assms(5) by (simp add: yylex_def Let_def m_def lx1_def)
  also have "\<dots> = lex_qword squote (lx1\<lparr>inp := Sconv_loop Quoted s @ rest\<rparr>)"
    using lx1 q by (subst lex_top.simps) (simp add: Let_def free_caret_def lex_special_def)
  also have "\<dots> = Ok (QWORD s, lx1\<lparr>inp := rest, w := STATE_REAL_WORD\<rparr>)"
    using lex_quoted_Sconv [OF assms(1,2), of "[]" 0] by (simp add: lex_qword_def)
  finally show ?thesis by simp
qed

definition lex_start :: "string \<Rightarrow> lexer" where
  "lex_start s = \<lparr>inp = s, w = STATE_NON_WORD, newline = False, goterror = False, dollar = False,
     lineno = 1, is_prompt2 = False, lexerr = None\<rparr>"

theorem quoted_word_roundtrip_witness:
  "\<exists>lx'. yylex (lex_start (Sconv True ''a b'' @ '' c'')) = Ok (QWORD ''a b'', lx') \<and> inp lx' = '' c'' \<and>
     w lx' = STATE_REAL_WORD"
  by (rule quoted_word_roundtrip) (simp_all add: lex_start_def isprint_def uchar_def char_defs)

text \<open>
  With a backslash it is not. \<open>%S\<close> prints a text that ends in a backslash as a quoted word whose
  last backslash the analyser takes for an escape of the closing quote: it finds the end of the input
  inside the word.
\<close>

theorem backslash_breaks_quoting:
  "Sconv False [CHR ''a'', backslash] = [squote, CHR ''a'', backslash, squote] \<and>
   (\<exists>lx. yylex (lex_start (Sconv False [CHR ''a'', backslash])) = Ok (ERROR, lx) \<and>
      lexerr lx = Some ''eof in quoted string'')"
proof (intro conjI exI)
  show "Sconv False [CHR ''a'', backslash] = [squote, CHR ''a'', backslash, squote]" by code_simp
  show "yylex (lex_start (Sconv False [CHR ''a'', backslash])) =
      Ok (ERROR, \<lparr>inp = [], w = STATE_NON_WORD, newline = False, goterror = True, dollar = False,
        lineno = 1, is_prompt2 = False, lexerr = Some ''eof in quoted string''\<rparr>)" by code_simp
qed simp

end
