(* ===== verification/Vars.thy ===== *)
theory Vars
  imports Dict Split Conv
begin

text \<open>
  Variables, \<open>src/var.c\<close>: the table of variables on the dictionary of \<open>Dict\<close>, lexical bindings in the
  store, settor functions, \<open>local\<close> bindings (\<open>varpush\<close> and \<open>varpop\<close>), and the environment in both
  directions. The evaluator, which settor functions run in, and the text of terms are arguments.
\<close>

section \<open>State\<close>

text \<open>The two bits of the \<open>flags\<close> of a variable are the fields \<open>hasb\<close> and \<open>internal\<close>.\<close>

record var =
  vdefn :: terms
  venv :: "string option"
  hasb :: bool
  internal :: bool

record push =
  pname :: string
  pdefn :: terms
  phasb :: bool
  pinternal :: bool

text \<open>A \<open>Vector\<close> of strings: its \<open>alloclen\<close> and the entries in use.\<close>

record svector =
  alloclen :: nat
  svec :: "string list"

record vstate =
  vars :: "var dict"
  noexport :: "unit dict option"
  env :: svector
  sortenv :: "svector option"
  envmin :: nat
  isdirty :: bool
  rebound :: bool
  pushlist :: "push list"
  heap :: store
  splitst :: splitstate

text \<open>A dictionary operation that does not return, or overflows, is \<^const>\<open>Undef\<close>.\<close>

definition odict :: "'a option \<Rightarrow> ('e, 'a) outcome_of" where
  "odict r = (case r of None \<Rightarrow> Undef | Some x \<Rightarrow> Ok x)"

section \<open>Names\<close>

definition specialvar :: "string \<Rightarrow> bool" where
  "specialvar name \<longleftrightarrow> name = ''*'' \<or> name = ''0''"

definition hasbindings :: "terms \<Rightarrow> bool" where
  "hasbindings list = list_ex (\<lambda>t. case t of Clos c \<Rightarrow> binding c \<noteq> None | Str s \<Rightarrow> False) list"

definition mkvar :: "terms \<Rightarrow> var" where
  "mkvar defn = \<lparr>vdefn = defn, venv = None, hasb = hasbindings defn, internal = False\<rparr>"

definition iscounting :: "string \<Rightarrow> bool" where
  "iscounting name = (let s = dropWhile (\<lambda>c. c = CHR ''0'') name in s \<noteq> [] \<and> list_all isdigit s)"

definition validatevar :: "string \<Rightarrow> unit outcome" where
  "validatevar var =
     (if var = [] then Throw (fail_exn ''desh:var'' ''zero-length variable name'')
      else if iscounting var
      then Throw (fail_exn ''desh:var'' (''illegal variable name: '' @ Sconv False var))
      else Ok ())"

definition isexported :: "'z vstate_scheme \<Rightarrow> string \<Rightarrow> (stop \<times> 'z vstate_scheme, bool) outcome_of" where
  "isexported st name =
     (if specialvar name then Ok False
      else case noexport st of
        None \<Rightarrow> Ok True
      | Some d \<Rightarrow> obind (odict (dictget d name)) (\<lambda>v. Ok (v = None)))"

fun noexport_loop :: "(es_term \<Rightarrow> string) \<Rightarrow> terms \<Rightarrow> unit dict \<Rightarrow> unit dict option" where
  "noexport_loop gs [] d = Some d"
| "noexport_loop gs (t # list) d =
     (case dictput d (gs t) (Some ()) of None \<Rightarrow> None | Some d \<Rightarrow> noexport_loop gs list d)"

definition setnoexport :: "(es_term \<Rightarrow> string) \<Rightarrow> terms \<Rightarrow> 'z vstate_scheme \<Rightarrow> 'z vstate_scheme upd" where
  "setnoexport gs list st =
     (let st = st\<lparr>isdirty := True\<rparr> in
      if list = [] then Ok (st\<lparr>noexport := None\<rparr>)
      else obind (odict mkdict) (\<lambda>d. obind (odict (noexport_loop gs list d)) (\<lambda>d. Ok (st\<lparr>noexport := Some d\<rparr>))))"

section \<open>Lookup\<close>

text \<open>
  Walking a chain of bindings. In a store whose cells refer only to older cells a chain has at most as
  many cells as the store; a longer one is a cycle.
\<close>

fun find_binding :: "nat \<Rightarrow> (string \<Rightarrow> bool) \<Rightarrow> store \<Rightarrow> ref \<Rightarrow> ref option" where
  "find_binding 0 P h b = None"
| "find_binding (Suc n) P h None = Some None"
| "find_binding (Suc n) P h (Some r) =
     (if length h \<le> r then None
      else if P (bname (h ! r)) then Some (Some r) else find_binding n P h (bnext (h ! r)))"

definition lookup_chain :: "(string \<Rightarrow> bool) \<Rightarrow> store \<Rightarrow> ref \<Rightarrow> ref option" where
  "lookup_chain P h b = find_binding (length h + 1) P h b"

definition varlookup_name :: "'z vstate_scheme \<Rightarrow> string \<Rightarrow> ref \<Rightarrow> (stop \<times> 'z vstate_scheme, terms) outcome_of" where
  "varlookup_name st name bp =
     obind (on_throw st (validatevar name)) (\<lambda>_. obind (odict (lookup_chain (\<lambda>b. name = b) (heap st) bp)) (\<lambda>r. case r of
       Some r \<Rightarrow> Ok (bdefn (heap st ! r))
     | None \<Rightarrow> obind (odict (dictget (vars st) name)) (\<lambda>v. Ok (case v of None \<Rightarrow> [] | Some v \<Rightarrow> vdefn v))))"

definition varlookup :: "'z vstate_scheme \<Rightarrow> string \<Rightarrow> ref \<Rightarrow> (stop \<times> 'z vstate_scheme, terms) outcome_of" where
  "varlookup st name bp =
     (if iscounting name then
        obind (varlookup_name st ''*'' bp) (\<lambda>args.
          Ok (case nth_list args (int_of_long (fst (strtol10 name))) of None \<Rightarrow> [] | Some t \<Rightarrow> [t]))
      else varlookup_name st name bp)"

definition varlookup2 :: "'z vstate_scheme \<Rightarrow> string \<Rightarrow> string \<Rightarrow> ref \<Rightarrow> (stop \<times> 'z vstate_scheme, terms) outcome_of" where
  "varlookup2 st name1 name2 bp =
     obind (odict (lookup_chain (\<lambda>b. streq2 b name1 name2) (heap st) bp)) (\<lambda>r. case r of
       Some r \<Rightarrow> Ok (bdefn (heap st ! r))
     | None \<Rightarrow> obind (odict (dictget2 (vars st) name1 name2))
                 (\<lambda>v. Ok (case v of None \<Rightarrow> [] | Some v \<Rightarrow> vdefn v)))"

section \<open>Definitions and local bindings\<close>

text \<open>
  The second half of \<open>vardef\<close>, \<open>varpush\<close> and \<open>varpop\<close>: the change of the table, with the value that
  the settor function returned.
\<close>

definition define_global :: "string \<Rightarrow> terms \<Rightarrow> 'z vstate_scheme \<Rightarrow> 'z vstate_scheme upd" where
  "define_global name defn st =
     obind (isexported st name) (\<lambda>ex.
     let st = (if ex then st\<lparr>isdirty := True\<rparr> else st) in
     obind (odict (dictget (vars st) name)) (\<lambda>v. case v of
       Some v \<Rightarrow>
         if defn \<noteq> [] then
           obind (odict (dictput (vars st) name
               (Some (v\<lparr>vdefn := defn, venv := None, hasb := hasbindings defn, internal := False\<rparr>))))
             (\<lambda>d. Ok (st\<lparr>vars := d\<rparr>))
         else obind (odict (dictput (vars st) name None)) (\<lambda>d. Ok (st\<lparr>vars := d\<rparr>))
     | None \<Rightarrow>
         if defn \<noteq> [] then
           obind (odict (dictput (vars st) name (Some (mkvar defn)))) (\<lambda>d. Ok (st\<lparr>vars := d\<rparr>))
         else Ok st))"

definition push_global :: "string \<Rightarrow> terms \<Rightarrow> 'z vstate_scheme \<Rightarrow> 'z vstate_scheme upd" where
  "push_global name defn st =
     obind (odict (dictget (vars st) name)) (\<lambda>v. case v of
       None \<Rightarrow>
         obind (odict (dictput (vars st) name (Some (mkvar defn)))) (\<lambda>d.
         Ok (st\<lparr>vars := d, pushlist :=
           \<lparr>pname = name, pdefn = [], phasb = False, pinternal = False\<rparr> # pushlist st\<rparr>))
     | Some v \<Rightarrow>
         obind (odict (dictput (vars st) name
             (Some (v\<lparr>vdefn := defn, venv := None, hasb := hasbindings defn, internal := False\<rparr>)))) (\<lambda>d.
         Ok (st\<lparr>vars := d, pushlist :=
           \<lparr>pname = name, pdefn = vdefn v, phasb = hasb v, pinternal = internal v\<rparr> # pushlist st\<rparr>)))"

definition pop_global :: "push \<Rightarrow> terms \<Rightarrow> 'z vstate_scheme \<Rightarrow> 'z vstate_scheme upd" where
  "pop_global p defn st =
     obind (odict (dictget (vars st) (pname p))) (\<lambda>v.
     obind (case v of
         Some v \<Rightarrow>
           if defn \<noteq> [] then
             odict (dictput (vars st) (pname p)
               (Some (v\<lparr>vdefn := defn, hasb := phasb p, internal := pinternal p, venv := None\<rparr>)))
           else odict (dictput (vars st) (pname p) None)
       | None \<Rightarrow>
           if defn \<noteq> [] then
             odict (dictput (vars st) (pname p)
               (Some \<lparr>vdefn = defn, venv = None, hasb = phasb p, internal = pinternal p\<rparr>))
           else Ok (vars st)) (\<lambda>d.
     Ok (st\<lparr>vars := d, pushlist := tl (pushlist st)\<rparr>)))"

text \<open>
  \<open>callsettor\<close>: \<open>ev\<close> is the evaluation of a list. It binds the variable \<open>0\<close>, which has no settor
  itself and is not exported, by \<open>varpush\<close> and \<open>varpop\<close>. \<open>varpop\<close> asserts that what it pops is on top.
\<close>

type_synonym 's evaluator = "terms \<Rightarrow> 's \<Rightarrow> ('s, terms) run"

definition varpush0 :: "string \<Rightarrow> terms \<Rightarrow> 'z vstate_scheme \<Rightarrow> 'z vstate_scheme upd" where
  "varpush0 name defn st = obind (on_throw st (validatevar name)) (\<lambda>_. push_global name defn st)"

definition varpop0 :: "nat \<Rightarrow> 'z vstate_scheme \<Rightarrow> 'z vstate_scheme upd" where
  "varpop0 n st =
     (if length (pushlist st) \<noteq> n \<or> n = 0 then Abort
      else let p = hd (pushlist st) in pop_global p (pdefn p) st)"

definition callsettor :: "'z vstate_scheme evaluator \<Rightarrow> string \<Rightarrow> terms \<Rightarrow> 'z vstate_scheme \<Rightarrow> ('z vstate_scheme, terms) run" where
  "callsettor ev name defn st =
     (if specialvar name then Ok (defn, st)
      else obind (varlookup2 st ''set-'' name None) (\<lambda>settor.
        if settor = [] then Ok (defn, st)
        else obind (varpush0 ''0'' [Str name] st) (\<lambda>st.
          let n = length (pushlist st) in
          obind (ev (settor @ defn) st) (\<lambda>(lp, st).
          obind (varpop0 n st) (\<lambda>st. Ok (listcopy lp, st))))))"

definition vardef :: "'z vstate_scheme evaluator \<Rightarrow> string \<Rightarrow> ref \<Rightarrow> terms \<Rightarrow> 'z vstate_scheme \<Rightarrow> 'z vstate_scheme upd" where
  "vardef ev name b defn st =
     obind (on_throw st (validatevar name)) (\<lambda>_.
     obind (odict (lookup_chain (\<lambda>x. name = x) (heap st) b)) (\<lambda>r. case r of
       Some r \<Rightarrow> Ok (st\<lparr>heap := (heap st)[r := (heap st ! r)\<lparr>bdefn := defn\<rparr>], rebound := True\<rparr>)
     | None \<Rightarrow> obind (callsettor ev name defn st) (\<lambda>(defn, st). define_global name defn st)))"

definition mark_dirty :: "string \<Rightarrow> 'z vstate_scheme \<Rightarrow> 'z vstate_scheme upd" where
  "mark_dirty name st = obind (isexported st name) (\<lambda>ex. Ok (if ex then st\<lparr>isdirty := True\<rparr> else st))"

definition varpush :: "'z vstate_scheme evaluator \<Rightarrow> string \<Rightarrow> terms \<Rightarrow> 'z vstate_scheme \<Rightarrow> 'z vstate_scheme upd" where
  "varpush ev name defn st =
     obind (on_throw st (validatevar name)) (\<lambda>_.
     obind (mark_dirty name st) (\<lambda>st.
     obind (callsettor ev name defn st) (\<lambda>(defn, st). push_global name defn st)))"

text \<open>\<open>n\<close> is the depth of the push that is popped: \<open>assert (pushlist == push)\<close>.\<close>

definition varpop :: "'z vstate_scheme evaluator \<Rightarrow> nat \<Rightarrow> 'z vstate_scheme \<Rightarrow> 'z vstate_scheme upd" where
  "varpop ev n st =
     (if length (pushlist st) \<noteq> n \<or> n = 0 then Abort
      else let p = hd (pushlist st) in
        obind (mark_dirty (pname p) st) (\<lambda>st.
        obind (callsettor ev (pname p) (pdefn p) st) (\<lambda>(defn, st). pop_global p defn st)))"

section \<open>The environment of commands\<close>

definition env_string :: "(es_term \<Rightarrow> string) \<Rightarrow> string \<Rightarrow> terms \<Rightarrow> string" where
  "env_string gs key defn = Fconv key @ ''='' @ Wconv gs defn"

definition vector_add :: "string \<Rightarrow> svector \<Rightarrow> svector option" where
  "vector_add s v =
     (if \<not> length (svec v) < alloclen v then None
      else let v = v\<lparr>svec := svec v @ [s]\<rparr>
           in Some (if length (svec v) = alloclen v then v\<lparr>alloclen := alloclen v * 2\<rparr> else v))"

text \<open>\<open>mkenv0\<close> for one slot of the table: the slot, whose variable caches its string, and the vector.\<close>

definition mkenv0 :: "(es_term \<Rightarrow> string) \<Rightarrow> 'z vstate_scheme \<Rightarrow> var assoc \<Rightarrow> svector \<Rightarrow> (stop \<times> 'z vstate_scheme, var assoc \<times> svector) outcome_of" where
  "mkenv0 gs st s e =
     (case s of
        Entry key var \<Rightarrow>
          if vdefn var = [] \<or> internal var then Ok (s, e)
          else obind (isexported st key) (\<lambda>ex.
            if \<not> ex then Ok (s, e)
            else let str = (case venv var of
                       None \<Rightarrow> env_string gs key (vdefn var)
                     | Some x \<Rightarrow> if rebound st \<and> hasb var then env_string gs key (vdefn var) else x)
                 in case vector_add str e of None \<Rightarrow> Abort
                    | Some e \<Rightarrow> Ok (Entry key (var\<lparr>venv := Some str\<rparr>), e))
      | _ \<Rightarrow> Ok (s, e))"

fun mkenv_loop :: "(es_term \<Rightarrow> string) \<Rightarrow> 'z vstate_scheme \<Rightarrow> var assoc list \<Rightarrow> svector \<Rightarrow> (stop \<times> 'z vstate_scheme, var assoc list \<times> svector) outcome_of" where
  "mkenv_loop gs st [] e = Ok ([], e)"
| "mkenv_loop gs st (s # t) e =
     obind (mkenv0 gs st s e) (\<lambda>(s, e). obind (mkenv_loop gs st t e) (\<lambda>(t, e). Ok (s # t, e)))"

definition mkvector :: "nat \<Rightarrow> svector" where
  "mkvector n = \<lparr>alloclen = n, svec = []\<rparr>"

definition mkenv :: "(es_term \<Rightarrow> string) \<Rightarrow> 'z vstate_scheme \<Rightarrow> ('z vstate_scheme, string list) run" where
  "mkenv gs st =
     obind (if isdirty st \<or> rebound st then
         let e = (env st)\<lparr>svec := take (envmin st) (svec (env st))\<rparr> in
         obind (mkenv_loop gs st (table (vars st)) e) (\<lambda>(t, e).
         let n = length (svec e);
             sorted = (case sortenv st of
                 None \<Rightarrow> mkvector (n * 2)
               | Some v \<Rightarrow> if n > alloclen v then mkvector (n * 2) else v)
         in Ok (st\<lparr>vars := (vars st)\<lparr>table := t\<rparr>, env := e, isdirty := False, rebound := False,
                  sortenv := Some (sorted\<lparr>svec := sortvector (svec e)\<rparr>)\<rparr>))
       else Ok st) (\<lambda>st.
     case sortenv st of None \<Rightarrow> Undef | Some v \<Rightarrow> Ok (svec v, st))"

section \<open>Listing and hiding\<close>

definition listvars :: "(es_term \<Rightarrow> string) \<Rightarrow> bool \<Rightarrow> 'z vstate_scheme \<Rightarrow> terms" where
  "listvars gs int_only st =
     sortlist gs (dictforall (vars st)
       (\<lambda>key v l. if (if int_only then internal v else \<not> internal v \<and> \<not> specialvar key)
                  then Str key # l else l) [])"

definition hide :: "var assoc \<Rightarrow> var assoc" where
  "hide s = (case s of Entry k v \<Rightarrow> Entry k (v\<lparr>internal := True\<rparr>) | _ \<Rightarrow> s)"

definition hidevariables :: "'z vstate_scheme \<Rightarrow> 'z vstate_scheme" where
  "hidevariables st = st\<lparr>vars := (vars st)\<lparr>table := map hide (table (vars st))\<rparr>\<rparr>"

definition initvars :: "'z vstate_scheme \<Rightarrow> 'z vstate_scheme upd" where
  "initvars st = obind (odict mkdict) (\<lambda>d. Ok (st\<lparr>vars := d, noexport := None, env := mkvector 10\<rparr>))"

section \<open>Importing the environment\<close>

text \<open>
  The loop over the escapes of one word: \<open>word\<close> is the string that is searched, \<open>cur\<close> the one the cell
  holds, \<open>next\<close> the words behind it.
\<close>

function import_word :: "string \<Rightarrow> nat \<Rightarrow> string \<Rightarrow> string list \<Rightarrow> string \<times> string list" where
  "import_word word offset cur next =
     (case strchr (drop offset word) ENV_ESCAPE of
        None \<Rightarrow> (cur, next)
      | Some i \<Rightarrow>
          let off = offset + i + 1 in
          if off = length word then
            (case next of
               [] \<Rightarrow> import_word word off cur next
             | str2 # rest \<Rightarrow> import_word word off (take (off - 1) word @ [ENV_SEPARATOR] @ str2) rest)
          else if word ! off = ENV_ESCAPE then
            import_word word (off + 1) (take off word @ drop (off + 1) word) next
          else import_word word off cur next)"
  by auto
termination
  by (relation "measure (\<lambda>(word, offset, cur, next). length word - offset)")
     (auto simp: strchr_Some)

declare import_word.simps [simp del]

text \<open>The loop over the list is as long as the list, which only gets shorter.\<close>

fun import_list :: "nat \<Rightarrow> string list \<Rightarrow> string list" where
  "import_list (Suc n) (word # next) = (let (s, next) = import_word word 0 word next in s # import_list n next)"
| "import_list n list = list"

definition imported :: "string \<Rightarrow> string list \<Rightarrow> string list" where
  "imported value words = (if ENV_ESCAPE \<in> set value then import_list (length words) words else words)"

definition importvar :: "'z vstate_scheme evaluator \<Rightarrow> string \<Rightarrow> string \<Rightarrow> 'z vstate_scheme \<Rightarrow> 'z vstate_scheme upd" where
  "importvar ev name value st =
     obind (on_throw st (fsplit (\<lambda>t. case t of Str s \<Rightarrow> s | Clos c \<Rightarrow> []) [ENV_SEPARATOR] [Str value] False (splitst st)))
       (\<lambda>(words, sp).
         vardef ev name None
           (map Str (imported value (map (\<lambda>t. case t of Str s \<Rightarrow> s | Clos c \<Rightarrow> []) words))) (st\<lparr>splitst := sp\<rparr>))"

text \<open>
  The buffer for the name: the bytes allocated and \<open>bufsize\<close>. The loop passes the old size to
  \<open>erealloc\<close>. Copying a name that does not fit is undefined.
\<close>

function grow_namebuf :: "nat \<Rightarrow> nat \<Rightarrow> nat \<Rightarrow> nat \<times> nat" where
  "grow_namebuf nlen alloc bufsize =
     (if nlen \<ge> bufsize \<and> 0 < bufsize then grow_namebuf nlen bufsize (bufsize * 2) else (alloc, bufsize))"
  by auto
termination by (relation "measure (\<lambda>(nlen, alloc, bufsize). nlen + 1 - bufsize)") auto

declare grow_namebuf.simps [simp del]

fun initenv_loop :: "'z vstate_scheme evaluator \<Rightarrow> bool \<Rightarrow> string list \<Rightarrow> nat \<Rightarrow> nat \<Rightarrow> 'z vstate_scheme \<Rightarrow> 'z vstate_scheme upd" where
  "initenv_loop ev protect [] alloc bufsize st = Ok (st\<lparr>envmin := length (svec (env st))\<rparr>)"
| "initenv_loop ev protect (envstr # envp) alloc bufsize st =
     (case strchr envstr (CHR ''='') of
        None \<Rightarrow>
          (case vector_add envstr (env st) of None \<Rightarrow> Undef
           | Some e \<Rightarrow> initenv_loop ev protect envp alloc bufsize (st\<lparr>env := e\<rparr>))
      | Some nlen \<Rightarrow>
          let (alloc, bufsize) = grow_namebuf nlen alloc bufsize in
          if nlen + 1 > alloc then Undef
          else (case Nconv (take nlen envstr) of
              None \<Rightarrow> Undef
            | Some name \<Rightarrow>
                obind (if \<not> protect \<or> \<not> hasprefix name ''fn-'' \<and> \<not> hasprefix name ''set-''
                       then importvar ev name (drop (nlen + 1) envstr) st else Ok st)
                  (initenv_loop ev protect envp alloc bufsize)))"

definition initenv :: "'z vstate_scheme evaluator \<Rightarrow> bool \<Rightarrow> string list \<Rightarrow> 'z vstate_scheme \<Rightarrow> 'z vstate_scheme upd" where
  "initenv ev protect envp st = initenv_loop ev protect envp 1024 1024 st"

section \<open>The table as a map\<close>

text \<open>What a lookup without bindings finds: the empty list for an undefined variable.\<close>

definition view :: "'z vstate_scheme \<Rightarrow> string \<Rightarrow> terms" where
  "view st k = (case dict_abs (vars st) k of None \<Rightarrow> [] | Some v \<Rightarrow> vdefn v)"

definition vars_ok :: "'z vstate_scheme \<Rightarrow> bool" where
  "vars_ok st \<longleftrightarrow> dict_inv (vars st) \<and> (\<forall>d. noexport st = Some d \<longrightarrow> dict_inv d)"

lemma odict_Ok [simp]: "odict r = Ok x \<longleftrightarrow> r = Some x"
  by (simp add: odict_def split: option.split)

lemma odict_simps [simp]: "odict (Some x) = Ok x" "odict None = Undef"
  by (simp_all add: odict_def)

lemma odict_put:
  "dict_inv d \<Longrightarrow> dictput d k v = Some d' \<Longrightarrow> dict_inv d' \<and> dict_abs d' = (dict_abs d)(k := v)"
  by (rule dict.store)

definition visible :: "'z vstate_scheme \<Rightarrow> string \<Rightarrow> bool" where
  "visible st k \<longleftrightarrow> \<not> specialvar k \<and> (case noexport st of None \<Rightarrow> True | Some d \<Rightarrow> dict_abs d k = None)"

lemma isexported_ok: "vars_ok st \<Longrightarrow> isexported st k = Ok (visible st k)"
  by (auto simp: isexported_def visible_def vars_ok_def dict.lookup split: option.split)

lemma dictget_vars: "vars_ok st \<Longrightarrow> dictget (vars st) k = Some (dict_abs (vars st) k)"
  by (simp add: vars_ok_def dict.lookup)

lemma put_view:
  assumes "vars_ok st" "dictput (vars st) name val = Some d"
  shows "vars_ok (st\<lparr>vars := d\<rparr>)"
    "view (st\<lparr>vars := d\<rparr>) = (view st)(name := (case val of None \<Rightarrow> [] | Some v \<Rightarrow> vdefn v))"
  using assms odict_put [of "vars st" name val d]
  by (auto simp: vars_ok_def view_def fun_eq_iff)

lemma view_cong: "vars st' = vars st \<Longrightarrow> view st' = view st"
  by (simp add: view_def fun_eq_iff)

lemma vars_ok_cong: "vars st' = vars st \<Longrightarrow> noexport st' = noexport st \<Longrightarrow> vars_ok st' = vars_ok st"
  by (simp add: vars_ok_def)

lemma mark_dirty_ok:
  "vars_ok st \<Longrightarrow> mark_dirty name st = Ok (if visible st name then st\<lparr>isdirty := True\<rparr> else st)"
  by (simp add: mark_dirty_def isexported_ok)

lemma mark_dirty_view:
  assumes "vars_ok st" "mark_dirty name st = Ok st'"
  shows "vars st' = vars st \<and> pushlist st' = pushlist st \<and> vars_ok st' \<and> heap st' = heap st"
proof -
  obtain b where "st' = (if b then st\<lparr>isdirty := True\<rparr> else st)"
    using assms(2) by (auto simp: mark_dirty_def obind_Ok)
  then show ?thesis using assms(1) by (simp add: vars_ok_def)
qed

lemma define_global_view:
  assumes "vars_ok st" "define_global name defn st = Ok st'"
  shows "vars_ok st' \<and> view st' = (view st)(name := defn)"
proof -
  note b = isexported_ok [OF assms(1), of name]
  define s1 where "s1 = (if visible st name then st\<lparr>isdirty := True\<rparr> else st)"
  have s1: "vars_ok s1" "vars s1 = vars st" "view s1 = view st"
    using assms(1) by (simp_all add: s1_def vars_ok_def view_def fun_eq_iff)
  have same: "(view st)(name := []) = view st" if "dict_abs (vars st) name = None"
    using that by (simp add: view_def fun_eq_iff)
  obtain v where v: "dictget (vars s1) name = Some v" "v = dict_abs (vars st) name"
    using dictget_vars [OF s1(1)] s1(2) by simp
  show ?thesis
  proof (cases "v = None \<and> defn = []")
    case True
    then have "st' = s1" using assms(2) v by (simp add: b define_global_def s1_def [symmetric] Let_def)
    then show ?thesis using s1 same v True by simp
  next
    case False
    define u where "u = (if defn = [] then None else Some (case v of None \<Rightarrow> mkvar defn
        | Some v \<Rightarrow> v\<lparr>vdefn := defn, venv := None, hasb := hasbindings defn, internal := False\<rparr>))"
    have eq: "define_global name defn st = obind (odict (dictput (vars s1) name u)) (\<lambda>d. Ok (s1\<lparr>vars := d\<rparr>))"
      using v(1) False
      by (cases v) (simp_all add: b define_global_def s1_def [symmetric] Let_def u_def)
    obtain d where d: "dictput (vars s1) name u = Some d" "st' = s1\<lparr>vars := d\<rparr>"
      using assms(2) unfolding eq by (auto simp: obind_Ok)
    have "(case u of None \<Rightarrow> [] | Some v \<Rightarrow> vdefn v) = defn"
      by (auto simp: u_def mkvar_def split: option.splits)
    note d = d this
    show ?thesis using put_view [OF s1(1) d(1)] d s1 by simp
  qed
qed

lemma push_global_view:
  assumes "vars_ok st" "push_global name defn st = Ok st'"
  shows "vars_ok st' \<and> view st' = (view st)(name := defn) \<and>
    (\<exists>p. pushlist st' = p # pushlist st \<and> pname p = name \<and> pdefn p = view st name)"
proof -
  obtain v where v: "dictget (vars st) name = Some v" "v = dict_abs (vars st) name"
    using dictget_vars [OF assms(1)] by simp
  obtain d u p where d: "dictput (vars st) name (Some u) = Some d"
      "st' = st\<lparr>vars := d, pushlist := p # pushlist st\<rparr>" "vdefn u = defn" "pname p = name"
      "pdefn p = view st name"
    using assms(2) v(1) unfolding v(2)
    by (cases v) (auto simp: push_global_def obind_Ok mkvar_def view_def v(2))
  have "vars_ok st' = vars_ok (st\<lparr>vars := d\<rparr>)" "view st' = view (st\<lparr>vars := d\<rparr>)"
    using d(2) by (simp_all add: vars_ok_def view_def fun_eq_iff)
  then show ?thesis using put_view [OF assms(1) d(1)] d by simp
qed

lemma pop_global_view:
  assumes "vars_ok st" "pop_global p defn st = Ok st'"
  shows "vars_ok st' \<and> view st' = (view st)(pname p := defn) \<and> pushlist st' = tl (pushlist st)"
proof -
  have same: "(view st)(pname p := []) = view st" if "dict_abs (vars st) (pname p) = None"
    using that by (simp add: view_def fun_eq_iff)
  obtain v where v: "dictget (vars st) (pname p) = Some v" "v = dict_abs (vars st) (pname p)"
    using dictget_vars [OF assms(1)] by simp
  obtain d where d: "st' = st\<lparr>vars := d, pushlist := tl (pushlist st)\<rparr>"
      "vars_ok (st\<lparr>vars := d\<rparr>) \<and> view (st\<lparr>vars := d\<rparr>) = (view st)(pname p := defn)"
  proof (cases "v = None \<and> defn = []")
    case True
    then have "st' = st\<lparr>vars := vars st, pushlist := tl (pushlist st)\<rparr>"
      using assms(2) v(1) by (simp add: pop_global_def)
    moreover have "vars_ok (st\<lparr>vars := vars st\<rparr>) \<and> view (st\<lparr>vars := vars st\<rparr>) = (view st)(pname p := defn)"
      using True v(2) same assms(1) by simp
    ultimately show ?thesis by (rule that)
  next
    case False
    then obtain d u where d: "dictput (vars st) (pname p) u = Some d"
        "st' = st\<lparr>vars := d, pushlist := tl (pushlist st)\<rparr>" "(case u of None \<Rightarrow> [] | Some v \<Rightarrow> vdefn v) = defn"
      using assms(2) v(1)
      by (cases v; cases "defn = []") (auto simp: pop_global_def obind_Ok)
    show ?thesis by (rule that [OF d(2)]) (use put_view [OF assms(1) d(1)] d(3) in simp)
  qed
  have "vars_ok st' = vars_ok (st\<lparr>vars := d\<rparr>)" "view st' = view (st\<lparr>vars := d\<rparr>)"
    using d(1) by (simp_all add: vars_ok_def view_def fun_eq_iff)
  then show ?thesis using d by simp
qed

lemma callsettor_none:
  assumes "vars_ok st" "specialvar name \<or> view st (''set-'' @ name) = []"
  shows "callsettor ev name defn st = Ok (defn, st)"
  using assms
  by (auto simp: callsettor_def varlookup2_def lookup_chain_def dictget2_cat dictget_vars view_def)

lemma varlookup_view:
  assumes "vars_ok st" "validatevar name = Ok ()"
  shows "varlookup st name None = Ok (view st name)"
proof -
  have "\<not> iscounting name" using assms(2) by (auto simp: validatevar_def split: if_splits)
  then show ?thesis using assms
    by (simp add: varlookup_def varlookup_name_def lookup_chain_def dictget_vars view_def)
qed

lemma varpush_0: "varpush ev ''0'' defn st = varpush0 ''0'' defn st"
  by (simp add: varpush_def varpush0_def callsettor_def specialvar_def mark_dirty_def isexported_def)

section \<open>Values changed in place\<close>

text \<open>Changing values but no names in the slots of a table keeps the invariant of the dictionary.\<close>

definition same_slot :: "'a assoc \<Rightarrow> 'a assoc \<Rightarrow> bool" where
  "same_slot s s' \<longleftrightarrow> is_free s' = is_free s \<and> is_entry s' = is_entry s \<and> (is_entry s \<longrightarrow> aname s' = aname s)"

lemma same_slots_names:
  "list_all2 same_slot t t' \<Longrightarrow> map fst (entries t') = map fst (entries t) \<and> used t' = used t"
proof (induction t t' rule: list_all2_induct)
  case (Cons s t s' t')
  then show ?case by (cases s; cases s') (auto simp: same_slot_def used_def)
qed (simp add: used_def)

lemma dict_inv_same_slots:
  assumes "dict_inv d" "list_all2 same_slot (table d) t'"
  shows "dict_inv (d\<lparr>table := t'\<rparr>)"
proof -
  obtain k where k: "1 \<le> k" "k \<le> 29" "dsize d = 2 ^ k" "length (table d) = dsize d"
    using assms(1) dict_shapeE unfolding dict_inv_def by metis
  have len: "length t' = length (table d)" using assms(2) by (simp add: list_all2_lengthD)
  have slot: "same_slot (table d ! i) (t' ! i)" if "i < length t'" for i
    using assms(2) that len by (simp add: list_all2_nthD2)
  have idx: "idx (length t') n < length t'" for n
    using idx_less [of "length t'" k n] k len by simp
  have "reach t' h i = reach (table d) h i" for h i
    using slot [OF idx] len by (simp add: reach_def same_slot_def)
  then have "reach_all t' = reach_all (table d)"
    using slot len by (simp add: reach_all_def same_slot_def)
  then show ?thesis using assms(1) same_slots_names [OF assms(2)] len
    by (simp add: dict_inv_def dict_shape_def)
qed

section \<open>The vector of the environment\<close>

definition exported :: "'z vstate_scheme \<Rightarrow> string \<Rightarrow> var \<Rightarrow> bool" where
  "exported st k v \<longleftrightarrow> vdefn v \<noteq> [] \<and> \<not> internal v \<and> visible st k"

text \<open>A cached string that \<open>mkenv\<close> will use is the one it would make.\<close>

definition cache_ok :: "(es_term \<Rightarrow> string) \<Rightarrow> 'z vstate_scheme \<Rightarrow> bool" where
  "cache_ok gs st \<longleftrightarrow> (\<forall>(k, v) \<in> set (entries (table (vars st))). \<forall>x. venv v = Some x \<longrightarrow>
     \<not> (rebound st \<and> hasb v) \<longrightarrow> x = env_string gs k (vdefn v))"

definition svec_ok :: "svector \<Rightarrow> bool" where
  "svec_ok e \<longleftrightarrow> length (svec e) < alloclen e"

lemma vector_add_ok:
  assumes "svec_ok e"
  shows "\<exists>e'. vector_add s e = Some e' \<and> svec_ok e' \<and> svec e' = svec e @ [s]"
  using assms by (simp add: vector_add_def svec_ok_def Let_def)

text \<open>What \<open>mkenv\<close> makes of a slot.\<close>

definition env_slot :: "(es_term \<Rightarrow> string) \<Rightarrow> 'z vstate_scheme \<Rightarrow> var assoc \<Rightarrow> var assoc" where
  "env_slot gs st s = (case s of
     Entry k v \<Rightarrow> if exported st k v then Entry k (v\<lparr>venv := Some (env_string gs k (vdefn v))\<rparr>) else s
   | _ \<Rightarrow> s)"

definition env_entries :: "(es_term \<Rightarrow> string) \<Rightarrow> 'z vstate_scheme \<Rightarrow> (string \<times> var) list \<Rightarrow> string list" where
  "env_entries gs st es = map (\<lambda>(k, v). env_string gs k (vdefn v)) (filter (\<lambda>(k, v). exported st k v) es)"

lemma mkenv_loop_ok:
  assumes "vars_ok st" "svec_ok e"
    "\<forall>(k, v) \<in> set (entries t). \<forall>x. venv v = Some x \<longrightarrow> \<not> (rebound st \<and> hasb v) \<longrightarrow> x = env_string gs k (vdefn v)"
  shows "\<exists>e'. mkenv_loop gs st t e = Ok (map (env_slot gs st) t, e') \<and> svec_ok e' \<and>
    svec e' = svec e @ env_entries gs st (entries t)"
  using assms(2,3)
proof (induction t arbitrary: e)
  case Nil
  then show ?case by (simp add: env_entries_def)
next
  case (Cons s t)
  have IH: "\<exists>e'. mkenv_loop gs st t e = Ok (map (env_slot gs st) t, e') \<and> svec_ok e' \<and>
      svec e' = svec e @ env_entries gs st (entries t)" if "svec_ok e" for e
    using Cons.IH [OF that] Cons.prems(2) by auto
  show ?case
  proof (cases "\<exists>k v. s = Entry k v \<and> exported st k v")
    case True
    then obtain k v where s: "s = Entry k v" "exported st k v" by blast
    let ?x = "env_string gs k (vdefn v)"
    obtain e1 where e1: "vector_add ?x e = Some e1" "svec_ok e1" "svec e1 = svec e @ [?x]"
      using vector_add_ok [OF Cons.prems(1)] by blast
    obtain e2 where e2: "mkenv_loop gs st t e1 = Ok (map (env_slot gs st) t, e2)" "svec_ok e2"
        "svec e2 = svec e1 @ env_entries gs st (entries t)"
      using IH [OF e1(2)] by blast
    have c: "venv v = Some x \<Longrightarrow> \<not> (rebound st \<and> hasb v) \<Longrightarrow> x = ?x" for x
      using Cons.prems(2) s by auto
    have "(case venv v of None \<Rightarrow> ?x | Some x \<Rightarrow> if rebound st \<and> hasb v then ?x else x) = ?x"
      using c by (auto split: option.split)
    then have "mkenv0 gs st s e = Ok (env_slot gs st s, e1)"
      using s e1(1) by (simp add: mkenv0_def env_slot_def exported_def isexported_ok [OF assms(1)])
    then show ?thesis using e2 e1(3) s by (simp add: env_entries_def)
  next
    case False
    have "mkenv0 gs st s e = Ok (env_slot gs st s, e)"
      using False isexported_ok [OF assms(1)]
      by (cases s) (auto simp: mkenv0_def env_slot_def exported_def)
    moreover have "env_entries gs st (entries (s # t)) = env_entries gs st (entries t)"
      using False by (cases s) (auto simp: env_entries_def)
    ultimately show ?thesis using IH [OF Cons.prems(1)] by auto
  qed
qed

lemma env_slots_entries:
  "entries (map (env_slot gs st) t) =
     map (\<lambda>(k, v). (k, if exported st k v then v\<lparr>venv := Some (env_string gs k (vdefn v))\<rparr> else v)) (entries t)"
proof (induction t)
  case (Cons s t)
  then show ?case by (cases s) (simp_all add: env_slot_def)
qed simp

lemma env_slots_same: "list_all2 same_slot t (map (env_slot gs st) t)"
proof (induction t)
  case (Cons s t)
  then show ?case by (cases s) (simp_all add: env_slot_def same_slot_def)
qed simp

lemma map_of_map_value: "map_of (map (\<lambda>(k, v). (k, f k v)) xs) k = map_option (f k) (map_of xs k)"
  by (induction xs) auto

section \<open>Escapes in the environment\<close>

definition special :: "char \<Rightarrow> bool" where
  "special c \<longleftrightarrow> c = ENV_ESCAPE \<or> c = ENV_SEPARATOR"

lemma env_escape_clean: "\<forall>c \<in> set w. \<not> special c \<Longrightarrow> env_escape w = w"
  by (induction w) (auto simp: special_def)

lemma env_escape_append: "env_escape (u @ v) = env_escape u @ env_escape v"
  by (induction u) auto

lemma Wconv_join: "Wconv gs list = join [ENV_SEPARATOR] (map (\<lambda>t. env_escape (gs t)) list)"
proof (induction gs list rule: Wconv.induct)
  case (2 gs t ts)
  then show ?case by (cases ts) simp_all
qed simp

lemma import_word_clean: "ENV_ESCAPE \<notin> set (drop k w) \<Longrightarrow> import_word w k cur next = (cur, next)"
  by (subst import_word.simps) (simp add: iffD2 [OF strchr_None])

lemma import_word_escape:
  assumes "ENV_ESCAPE \<notin> set u" "ENV_ESCAPE \<notin> set v"
  shows "import_word (u @ ENV_ESCAPE # ENV_ESCAPE # v) 0 cur next = (u @ ENV_ESCAPE # v, next)"
proof -
  have "strchr (u @ ENV_ESCAPE # ENV_ESCAPE # v) ENV_ESCAPE = Some (length u)"
    using assms(1) by (simp add: strchr_Some)
  then show ?thesis using assms(2)
    by (subst import_word.simps) (simp add: Let_def nth_append import_word_clean)
qed

lemma import_word_merge:
  assumes "ENV_ESCAPE \<notin> set u"
  shows "import_word (u @ [ENV_ESCAPE]) 0 cur (v # next) = (u @ ENV_SEPARATOR # v, next)"
proof -
  have "strchr (u @ [ENV_ESCAPE]) ENV_ESCAPE = Some (length u)"
    using assms by (simp add: strchr_Some)
  then show ?thesis
    by (subst import_word.simps) (simp add: Let_def import_word_clean)
qed

lemma import_list_clean:
  "\<forall>w \<in> set ws. ENV_ESCAPE \<notin> set w \<Longrightarrow> length ws + length rest \<le> n \<Longrightarrow>
     import_list n (ws @ rest) = ws @ import_list (n - length ws) rest"
proof (induction ws arbitrary: n)
  case (Cons w ws)
  then show ?case by (cases n) (auto simp: import_word_clean)
qed simp

lemma import_list_clean_all:
  "\<forall>w \<in> set ws. ENV_ESCAPE \<notin> set w \<Longrightarrow> length ws \<le> n \<Longrightarrow> import_list n ws = ws"
  using import_list_clean [of ws "[]" n] by (cases "n - length ws") auto

lemma one_special_split:
  assumes "length (filter special (concat ws)) = 1"
  obtains as u c v bs where "ws = as @ (u @ c # v) # bs" "special c"
    "\<forall>w \<in> set as \<union> set bs \<union> {u, v}. \<forall>c \<in> set w. \<not> special c"
  using assms
proof (induction ws arbitrary: thesis)
  case (Cons w ws)
  show ?case
  proof (cases "filter special w = []")
    case True
    then have "length (filter special (concat ws)) = 1" using Cons.prems(2) by simp
    then obtain as u c v bs where "ws = as @ (u @ c # v) # bs" "special c"
        "\<forall>w \<in> set as \<union> set bs \<union> {u, v}. \<forall>c \<in> set w. \<not> special c"
      using Cons.IH by blast
    then show ?thesis using Cons.prems(1) [of "w # as" u c v bs] True by (auto simp: filter_empty_conv)
  next
    case False
    then obtain u c v where w: "w = u @ c # v" "special c" "filter special u = []"
      by (metis (no_types, lifting) filter_empty_conv split_list_first_prop)
    then have "filter special v = []" "filter special (concat ws) = []" using Cons.prems(2) by auto
    then show ?thesis using Cons.prems(1) [of "[]" u c v ws] w by (auto simp: filter_empty_conv)
  qed
qed simp

lemma imported_one_special:
  assumes "ws \<noteq> []" "length (filter special (concat ws)) \<le> 1"
  shows "imported (join [ENV_SEPARATOR] (map env_escape ws))
     (fields_of (\<lambda>c. c = ENV_SEPARATOR) (join [ENV_SEPARATOR] (map env_escape ws))) = ws"
proof -
  have ne: "ENV_ESCAPE \<noteq> ENV_SEPARATOR" by (simp add: ENV_ESCAPE_def ENV_SEPARATOR_def)
  have sp: "special ENV_ESCAPE" "special ENV_SEPARATOR" by (simp_all add: special_def)
  have clean: "map env_escape xs = xs" if "\<forall>w \<in> set xs. \<forall>c \<in> set w. \<not> special c" for xs
    using that by (induction xs) (simp_all add: env_escape_clean)
  have nosp: "ENV_ESCAPE \<notin> set w" "ENV_SEPARATOR \<notin> set w" if "\<forall>c \<in> set w. \<not> special c" for w
    using that sp by blast+
  consider "length (filter special (concat ws)) = 0" | "length (filter special (concat ws)) = 1"
    using assms(2) by linarith
  then show ?thesis
  proof cases
    case 1
    then have c: "\<forall>w \<in> set ws. \<forall>c \<in> set w. \<not> special c" by (auto simp: filter_empty_conv)
    have f: "fields_of (\<lambda>c. c = ENV_SEPARATOR) (join [ENV_SEPARATOR] ws) = ws"
      using fields_join [OF assms(1)] nosp(2) c by blast
    then show ?thesis using import_list_clean_all [of ws] nosp(1) c
      by (auto simp: clean [OF c] imported_def)
  next
    case 2
    then obtain as u c v bs where ws: "ws = as @ (u @ c # v) # bs" and c: "special c"
        and cl: "\<forall>w \<in> set as \<union> set bs \<union> {u, v}. \<forall>c \<in> set w. \<not> special c"
      by (rule one_special_split)
    have m: "map env_escape ws = as @ (u @ ENV_ESCAPE # c # v) # bs"
    proof -
      have "env_escape u = u" "env_escape v = v" using cl by (simp_all add: env_escape_clean)
      moreover have "env_escape (c # v) = ENV_ESCAPE # c # env_escape v" using c by (auto simp: special_def)
      ultimately have "env_escape (u @ c # v) = u @ ENV_ESCAPE # c # v" by (simp add: env_escape_append)
      moreover have "map env_escape as = as" "map env_escape bs = bs" using cl by (auto intro!: clean)
      ultimately show ?thesis by (simp add: ws)
    qed
    have memj: "ENV_ESCAPE \<in> set (join [ENV_SEPARATOR] (xs @ (u @ ENV_ESCAPE # y) # ys))" for xs y ys
    proof (induction xs)
      case Nil
      show ?case by (cases ys) auto
    next
      case (Cons x xs)
      then show ?case by (cases xs) auto
    qed
    have ca: "\<forall>w \<in> set as. ENV_ESCAPE \<notin> set w" and cb: "\<forall>w \<in> set bs. ENV_ESCAPE \<notin> set w"
      and cu: "ENV_ESCAPE \<notin> set u" and cv: "ENV_ESCAPE \<notin> set v"
      using cl nosp(1) by blast+
    note tail = import_list_clean_all [OF cb order_refl]
    have tail_le: "import_list (Suc (length bs)) bs = bs" by (rule import_list_clean_all [OF cb]) simp
    show ?thesis
    proof (cases "c = ENV_ESCAPE")
      case True
      have f: "fields_of (\<lambda>c. c = ENV_SEPARATOR) (join [ENV_SEPARATOR] (as @ (u @ ENV_ESCAPE # c # v) # bs)) =
          as @ (u @ ENV_ESCAPE # c # v) # bs"
        using cl nosp(2) ne True by (intro fields_join) auto
      have "import_list (length (as @ (u @ ENV_ESCAPE # c # v) # bs)) (as @ (u @ ENV_ESCAPE # c # v) # bs) = ws"
        using True by (simp add: import_list_clean [OF ca] import_word_escape [OF cu cv] tail ws)
      then show ?thesis unfolding m f imported_def using memj by simp
    next
      case False
      then have c: "c = ENV_SEPARATOR" using c by (simp add: special_def)
      let ?f = "as @ (u @ [ENV_ESCAPE]) # v # bs"
      have j: "join [ENV_SEPARATOR] (as @ (u @ ENV_ESCAPE # c # v) # bs) = join [ENV_SEPARATOR] ?f"
      proof (induction as)
        case Nil
        show ?case unfolding c by (cases bs) auto
      next
        case (Cons a as)
        then show ?case by (cases as) auto
      qed
      have f: "fields_of (\<lambda>c. c = ENV_SEPARATOR) (join [ENV_SEPARATOR] ?f) = ?f"
        using cl nosp(2) ne by (intro fields_join) auto
      have "import_list (length ?f) ?f = ws"
        using c tail_le by (simp add: import_list_clean [OF ca] import_word_merge [OF cu] ws)
      then show ?thesis unfolding m j f imported_def using memj [of as "[]"] by simp
    qed
  qed
qed


lemma cstring_env_escape: "cstring w \<Longrightarrow> cstring (env_escape w)"
  by (induction w) (auto simp: cstring_def ENV_ESCAPE_def ENV_SEPARATOR_def nul_def)

lemma cstring_Wconv: "\<forall>t \<in> set list. cstring (gs t) \<Longrightarrow> cstring (Wconv gs list)"
  unfolding Wconv_join
  by (intro cstring_join) (auto simp: cstring_env_escape ENV_SEPARATOR_def nul_def)

text \<open>A name that does not fit into the buffer makes the loop of \<open>initenv\<close> allocate too little.\<close>

lemma grow_namebuf_short: "0 < bufsize \<Longrightarrow> bufsize \<le> nlen \<Longrightarrow> fst (grow_namebuf nlen alloc bufsize) \<le> nlen"
proof (induction nlen alloc bufsize rule: grow_namebuf.induct)
  case (1 nlen alloc bufsize)
  show ?case
  proof (cases "bufsize * 2 \<le> nlen")
    case True
    then show ?thesis using 1 by (subst grow_namebuf.simps) simp
  next
    case False
    then have "grow_namebuf nlen bufsize (bufsize * 2) = (bufsize, bufsize * 2)"
      by (subst grow_namebuf.simps) simp
    then show ?thesis using 1 by (subst grow_namebuf.simps) simp
  qed
qed

lemma varlookup_counting_wraps: "varlookup st ''4294967297'' b = varlookup st ''1'' b"
proof -
  have "iscounting ''4294967297''" "iscounting ''1''" by code_simp+
  moreover have "int_of_long (fst (strtol10 ''4294967297'')) = int_of_long (fst (strtol10 ''1''))" by code_simp
  ultimately show ?thesis by (simp add: varlookup_def)
qed

section \<open>Properties\<close>

text \<open>
  C26: definition of a variable. Without a settor function, a definition that returns changes the value of
  this name alone, the empty list included, which undefines it; the invariants of the tables stay.
\<close>

theorem vardef_updates:
  assumes "vars_ok st" and "validatevar name = Ok ()"
    and "specialvar name \<or> view st (''set-'' @ name) = []"
    and "vardef ev name None defn st = Ok st'"
  shows "vars_ok st' \<and> varlookup st' name None = Ok defn \<and>
    (\<forall>k. k \<noteq> name \<and> validatevar k = Ok () \<longrightarrow> varlookup st' k None = varlookup st k None)"
proof -
  have "define_global name defn st = Ok st'"
    using assms callsettor_none [OF assms(1,3), of ev defn] by (simp add: vardef_def lookup_chain_def)
  then have "vars_ok st' \<and> view st' = (view st)(name := defn)"
    by (rule define_global_view [OF assms(1)])
  then show ?thesis using assms(1,2) by (simp add: varlookup_view)
qed

text \<open>
  Dynamic scope. When what runs between \<open>varpush\<close> and \<open>varpop\<close> leaves the push list as it found it,
  the value before \<open>varpush\<close> is back after \<open>varpop\<close>, whatever has been assigned in between; every other
  variable keeps the value it then has, and the assertions of \<open>varpop\<close> hold.
\<close>

theorem local_restores:
  assumes "vars_ok st" and "validatevar name = Ok ()"
    and "specialvar name \<or> view st (''set-'' @ name) = [] \<and> view st2 (''set-'' @ name) = []"
    and "varpush ev name defn st = Ok st1"
    and "vars_ok st2" and "pushlist st2 = pushlist st1"
  shows "varlookup st1 name None = Ok defn \<and>
    varpop ev (length (pushlist st1)) st2 \<noteq> Abort \<and>
    (\<forall>st3. varpop ev (length (pushlist st1)) st2 = Ok st3 \<longrightarrow>
      vars_ok st3 \<and> pushlist st3 = pushlist st \<and> varlookup st3 name None = varlookup st name None \<and>
      (\<forall>k. k \<noteq> name \<and> validatevar k = Ok () \<longrightarrow> varlookup st3 k None = varlookup st2 k None))"
proof -
  obtain s0 where s0: "mark_dirty name st = Ok s0"
      "obind (callsettor ev name defn s0) (\<lambda>(defn, st). push_global name defn st) = Ok st1"
    using assms(2,4) by (auto simp: varpush_def obind_Ok)
  have md: "vars s0 = vars st" "pushlist s0 = pushlist st" "vars_ok s0"
    using mark_dirty_view [OF assms(1) s0(1)] by simp_all
  have v0: "view s0 = view st" using view_cong [OF md(1)] .
  have "push_global name defn s0 = Ok st1"
    using s0(2) callsettor_none [OF md(3), of name ev defn] assms(3) v0 by auto
  note push = push_global_view [OF md(3) this]
  obtain p where p: "pushlist st1 = p # pushlist st" "pname p = name" "pdefn p = view st name"
    using push md(2) v0 by auto
  have top: "varlookup st1 name None = Ok defn" using push assms(2) by (simp add: varlookup_view)
  define s2 where "s2 = (if visible st2 name then st2\<lparr>isdirty := True\<rparr> else st2)"
  note s2 = mark_dirty_ok [OF assms(5), of name, folded s2_def]
  have md2: "vars s2 = vars st2" "pushlist s2 = pushlist st2" "vars_ok s2"
    using mark_dirty_view [OF assms(5) s2] by simp_all
  have pop: "varpop ev (length (pushlist st1)) st2 = pop_global p (view st name) s2"
    using assms(3,6) p s2 callsettor_none [OF md2(3), of name ev "view st name"] view_cong [OF md2(1)]
    by (auto simp: varpop_def Let_def)
  have "vars_ok st3 \<and> pushlist st3 = pushlist st \<and> varlookup st3 name None = varlookup st name None \<and>
      (\<forall>k. k \<noteq> name \<and> validatevar k = Ok () \<longrightarrow> varlookup st3 k None = varlookup st2 k None)"
    if "pop_global p (view st name) s2 = Ok st3" for st3
    using pop_global_view [OF md2(3) that] p md2(2) view_cong [OF md2(1)] assms(1,2,5,6)
    by (simp add: varlookup_view)
  moreover have "pop_global p (view st name) s2 \<noteq> Abort"
    by (auto simp: pop_global_def odict_def split: option.split)
  ultimately show ?thesis using top pop by simp
qed


text \<open>
  A value with at most one separator or escape character in its words survives the environment: what
  \<open>importvar\<close> defines for an exported value is the list of the strings of its terms.
\<close>

theorem import_export_one_special:
  assumes "split_inv (splitst st)" and "list \<noteq> []" and "\<forall>t \<in> set list. cstring (gs t)"
    and "length (filter special (concat (map gs list))) \<le> 1"
  shows "\<exists>sp. split_inv sp \<and>
    importvar ev name (Wconv gs list) st = vardef ev name None (map (Str \<circ> gs) list) (st\<lparr>splitst := sp\<rparr>)"
proof -
  let ?gs = "\<lambda>t. case t of Str s \<Rightarrow> s | Clos c \<Rightarrow> []" and ?w = "Wconv gs list"
  have w: "?w = join [ENV_SEPARATOR] (map env_escape (map gs list))" by (simp add: Wconv_join comp_def)
  obtain sp where sp: "fsplit ?gs [ENV_SEPARATOR] [Str ?w] False (splitst st) =
      Ok (map Str (fields_of (\<lambda>c. c = ENV_SEPARATOR) ?w), sp)" "split_inv sp"
    using fsplit_split_spec [OF assms(1), of "[Str ?w]" ?gs "[ENV_SEPARATOR]" False] cstring_Wconv [OF assms(3)]
    by (auto simp: split_spec_def)
  have "imported ?w (fields_of (\<lambda>c. c = ENV_SEPARATOR) ?w) = map gs list"
    unfolding w by (rule imported_one_special) (use assms in simp_all)
  then have "importvar ev name ?w st = vardef ev name None (map (Str \<circ> gs) list) (st\<lparr>splitst := sp\<rparr>)"
    using sp(1) by (simp add: importvar_def comp_def)
  then show ?thesis using sp(2) by blast
qed

definition blank :: "var dict \<Rightarrow> vstate" where
  "blank d = \<lparr>vars = d, noexport = None, env = mkvector 10, sortenv = None, envmin = 0, isdirty = False,
     rebound = False, pushlist = [], heap = [],
     splitst = \<lparr>coalesce = False, splitchars = False, buffer = None, value_rev = [],
       ifsvalid = False, ifs = [], isifs = (\<lambda>_. False)\<rparr>\<rparr>"

definition text_of :: "es_term \<Rightarrow> string" where
  "text_of t = (case t of Str s \<Rightarrow> s | Clos c \<Rightarrow> [])"

definition no_eval :: "vstate evaluator" where
  "no_eval l st = Ok ([], st)"

text \<open>An evaluator whose command runs a program and then returns one word.\<close>

definition run_command :: "vstate evaluator" where
  "run_command l st = obind (mkenv text_of st) (\<lambda>(r, st). Ok ([Str ''new''], st))"

text \<open>
  Values with two special characters do not survive the environment, although the exported form can
  be decoded: \<open>importvar\<close> goes on with the string it started from after it has replaced it, so a second
  escape restores the first, and what is appended behind a separator is not searched at all.
\<close>

theorem two_escapes_not_imported:
  "obind (odict mkdict) (\<lambda>d. obind (importvar no_eval ''x''
       (Wconv text_of [Str [ENV_ESCAPE, CHR ''a'', ENV_ESCAPE]]) (blank d)) (\<lambda>st. varlookup st ''x'' None)) =
     Ok [Str [ENV_ESCAPE, ENV_ESCAPE, CHR ''a'', ENV_ESCAPE]] \<and>
   obind (odict mkdict) (\<lambda>d. obind (importvar no_eval ''x''
       (Wconv text_of [Str [ENV_SEPARATOR, ENV_SEPARATOR]]) (blank d)) (\<lambda>st. varlookup st ''x'' None)) \<noteq>
     Ok [Str [ENV_SEPARATOR, ENV_SEPARATOR]]"
  by code_simp

text \<open>
  A name of 1024 or more characters in the environment overflows the buffer of \<open>initenv\<close>: the loop
  that enlarges the buffer passes the size that it already has.
\<close>

theorem long_name_overflows:
  assumes "strchr envstr (CHR ''='') = Some n" and "1024 \<le> n"
  shows "initenv ev protect (envstr # envp) st = Undef"
proof -
  obtain a b where ab: "grow_namebuf n 1024 1024 = (a, b)" by force
  then have "a \<le> n" using grow_namebuf_short [of 1024 n 1024] assms(2) by simp
  then show ?thesis using assms(1) ab by (simp add: initenv_def)
qed

text \<open>
  A command that runs inside the settor function of a variable leaves the environment out of date.
  \<open>varpush\<close> marks the environment as changed before it calls the settor and does not do so after it has
  bound the variable, so the variable has its new value and commands still see the old one.
\<close>

theorem settor_leaves_stale_environment:
  "obind (odict mkdict) (\<lambda>d.
     obind (vardef run_command ''x'' None [Str ''old''] (blank d)) (\<lambda>st.
     obind (vardef run_command ''set-x'' None [Str ''f''] st) (\<lambda>st.
     obind (varpush run_command ''x'' [Str ''1''] st) (\<lambda>st.
     obind (mkenv text_of st) (\<lambda>(r, _).
     obind (varlookup st ''x'' None) (\<lambda>v. Ok (v, r))))))) =
   Ok ([Str ''new''], [''set__2dx=f'', ''x=old''])"
  by code_simp

lemma blank_ok: "mkdict = Some d \<Longrightarrow> vars_ok (blank d) \<and> dict_abs d = Map.empty"
proof -
  assume d: "mkdict = Some d"
  obtain d0 :: "var dict" where "mkdict = Some d0" "dict_inv d0" "dict_abs d0 = Map.empty"
    using mkdict_abs by blast
  moreover have "d0 = d" using d \<open>mkdict = Some d0\<close> by (metis option.inject)
  ultimately show "vars_ok (blank d) \<and> dict_abs d = Map.empty" by (simp add: vars_ok_def blank_def)
qed

lemma blank_view: "mkdict = Some d \<Longrightarrow> view (blank d) k = []"
  using blank_ok [of d] by (simp add: view_def blank_def)

lemma validate_x: "validatevar ''x'' = Ok ()"
  by code_simp

lemma blank_run: "\<exists>d st st2 st3. mkdict = Some d \<and> varpush no_eval ''x'' [Str ''1''] (blank d) = Ok st \<and>
    vardef no_eval ''x'' None [Str ''2''] st = Ok st2 \<and> varpop no_eval 1 st2 = Ok st3 \<and> pushlist st2 = pushlist st \<and>
    length (pushlist st) = 1"
proof -
  have "(case mkdict of None \<Rightarrow> False | Some d \<Rightarrow> (case varpush no_eval ''x'' [Str ''1''] (blank d) of
      Ok st \<Rightarrow> (case vardef no_eval ''x'' None [Str ''2''] st of
        Ok st2 \<Rightarrow> (case varpop no_eval 1 st2 of Ok st3 \<Rightarrow> pushlist st2 = pushlist st \<and> length (pushlist st) = 1
          | _ \<Rightarrow> False) | _ \<Rightarrow> False) | _ \<Rightarrow> False))"
    by code_simp
  then show ?thesis by (auto split: option.splits outcome_of.splits)
qed

theorem vardef_updates_witness:
  "\<exists>d st st2. mkdict = Some d \<and> varpush no_eval ''x'' [Str ''1''] (blank d) = Ok st \<and>
    vardef no_eval ''x'' None [Str ''2''] st = Ok st2 \<and> varlookup st2 ''x'' None = Ok [Str ''2'']"
proof -
  obtain d st st2 where d: "mkdict = Some d" "varpush no_eval ''x'' [Str ''1''] (blank d) = Ok st"
      "vardef no_eval ''x'' None [Str ''2''] st = Ok st2"
    using blank_run by blast
  have "mark_dirty ''x'' (blank d) = Ok ((blank d)\<lparr>isdirty := True\<rparr>)"
    by (simp add: mark_dirty_def isexported_def blank_def specialvar_def)
  moreover have v: "vars_ok ((blank d)\<lparr>isdirty := True\<rparr>)" "view ((blank d)\<lparr>isdirty := True\<rparr>) k = []" for k
    using blank_ok [OF d(1)] blank_view [OF d(1)] by (simp_all add: vars_ok_def view_def)
  ultimately have "push_global ''x'' [Str ''1''] ((blank d)\<lparr>isdirty := True\<rparr>) = Ok st"
    using d(2) callsettor_none [OF v(1)] by (simp add: varpush_def validate_x)
  then have "vars_ok st" "view st ''set-x'' = []" using push_global_view [OF v(1)] v(2) by simp_all
  then have "varlookup st2 ''x'' None = Ok [Str ''2'']"
    using vardef_updates [OF _ validate_x _ d(3)] by simp
  then show ?thesis using d by blast
qed

theorem local_restores_witness:
  "\<exists>d st st2 st3. mkdict = Some d \<and> varpush no_eval ''x'' [Str ''1''] (blank d) = Ok st \<and>
    vardef no_eval ''x'' None [Str ''2''] st = Ok st2 \<and> varpop no_eval 1 st2 = Ok st3 \<and>
    varlookup st3 ''x'' None = varlookup (blank d) ''x'' None"
proof -
  obtain d st st2 st3 where d: "mkdict = Some d" "varpush no_eval ''x'' [Str ''1''] (blank d) = Ok st"
      "vardef no_eval ''x'' None [Str ''2''] st = Ok st2" "varpop no_eval 1 st2 = Ok st3"
      "pushlist st2 = pushlist st" "length (pushlist st) = 1"
    using blank_run by blast
  have b: "vars_ok (blank d)" "view (blank d) ''set-x'' = []"
    using blank_ok [OF d(1)] blank_view [OF d(1)] by simp_all
  have "mark_dirty ''x'' (blank d) = Ok ((blank d)\<lparr>isdirty := True\<rparr>)"
    by (simp add: mark_dirty_def isexported_def blank_def specialvar_def)
  moreover have v: "vars_ok ((blank d)\<lparr>isdirty := True\<rparr>)" "view ((blank d)\<lparr>isdirty := True\<rparr>) k = []" for k
    using b(1) blank_view [OF d(1)] by (simp_all add: vars_ok_def view_def)
  ultimately have "push_global ''x'' [Str ''1''] ((blank d)\<lparr>isdirty := True\<rparr>) = Ok st"
    using d(2) callsettor_none [OF v(1)] by (simp add: varpush_def validate_x)
  then have st: "vars_ok st" "view st ''set-x'' = []" using push_global_view [OF v(1)] v(2) by simp_all
  have "define_global ''x'' [Str ''2''] st = Ok st2"
    using d(3) callsettor_none [OF st(1), of "''x''"] st(2) by (simp add: vardef_def validate_x lookup_chain_def)
  then have st2: "vars_ok st2" "view st2 ''set-x'' = []" using define_global_view [OF st(1)] st(2) by auto
  have "varlookup st3 ''x'' None = varlookup (blank d) ''x'' None"
    using local_restores [OF b(1) validate_x _ d(2) st2(1) d(5)] b(2) st2(2) d(4,6) by simp
  then show ?thesis using d by blast
qed


theorem import_export_one_special_witness:
  "\<exists>d sp. mkdict = Some d \<and> importvar no_eval ''x'' (Wconv text_of [Str ''a'', Str [CHR ''b'', ENV_SEPARATOR]]) (blank d) =
     vardef no_eval ''x'' None [Str ''a'', Str [CHR ''b'', ENV_SEPARATOR]] ((blank d)\<lparr>splitst := sp\<rparr>)"
proof -
  obtain d :: "var dict" where d: "mkdict = Some d" using mkdict_abs by blast
  have "\<exists>sp. split_inv sp \<and> importvar no_eval ''x'' (Wconv text_of [Str ''a'', Str [CHR ''b'', ENV_SEPARATOR]]) (blank d) =
      vardef no_eval ''x'' None (map (Str \<circ> text_of) [Str ''a'', Str [CHR ''b'', ENV_SEPARATOR]]) ((blank d)\<lparr>splitst := sp\<rparr>)"
    by (rule import_export_one_special)
      (auto simp: blank_def split_inv_def text_of_def cstring_def nul_def special_def ENV_ESCAPE_def ENV_SEPARATOR_def)
  moreover have "map (Str \<circ> text_of) [Str ''a'', Str [CHR ''b'', ENV_SEPARATOR]] = [Str ''a'', Str [CHR ''b'', ENV_SEPARATOR]]"
    by (simp add: text_of_def)
  ultimately show ?thesis using d by metis
qed

theorem long_name_overflows_witness:
  "\<exists>d. mkdict = Some d \<and> initenv no_eval False [replicate 1024 (CHR ''a'') @ ''=1''] (blank d) = Undef"
proof -
  obtain d :: "var dict" where d: "mkdict = Some d" using mkdict_abs by blast
  have "strchr (replicate 1024 (CHR ''a'') @ CHR ''='' # ''1'') (CHR ''='') = Some 1024"
    by (subst strchr_Some) (auto simp: nth_append)
  then show ?thesis using d long_name_overflows [of _ 1024] by force
qed
end
