(* ===== verification/Fd.thy ===== *)
theory Fd
  imports Values
begin

text \<open>
  File descriptors, \<open>src/fd.c\<close>, and the redirections of \<open>src/prim-io.c\<close>. In a parent shell a redirection
  is put on a table of deferred operations, which a child applies after \<open>fork\<close>. A list of reserved
  descriptors holds pointers to the variables in which the shell keeps descriptors, so that they can be
  moved out of the way.

  The system calls work on the table of open files of the process, a list with one entry for each
  descriptor there can be: \<open>dup\<close> and \<open>open\<close> take the lowest free one. When an operation throws, the model
  does not say what state is left behind.
\<close>

section \<open>System calls\<close>

datatype os_error = EBADF | EMFILE

definition strerror :: "os_error \<Rightarrow> string" where
  "strerror e = (case e of EBADF \<Rightarrow> ''Bad file descriptor'' | EMFILE \<Rightarrow> ''Too many open files'')"

definition file_at :: "'f option list \<Rightarrow> int \<Rightarrow> 'f option" where
  "file_at fs fd = (if 0 \<le> fd \<and> nat fd < length fs then fs ! nat fd else None)"

fun first_free :: "'f option list \<Rightarrow> nat option" where
  "first_free [] = None"
| "first_free (f # fs) = (if f = None then Some 0 else map_option Suc (first_free fs))"

definition os_close :: "'f option list \<Rightarrow> int \<Rightarrow> 'f option list" where
  "os_close fs fd = (if 0 \<le> fd then fs[nat fd := None] else fs)"

definition os_open :: "'f option list \<Rightarrow> 'f \<Rightarrow> os_error + int \<times> 'f option list" where
  "os_open fs f = (case first_free fs of None \<Rightarrow> Inl EMFILE | Some k \<Rightarrow> Inr (int k, fs[k := Some f]))"

definition os_dup :: "'f option list \<Rightarrow> int \<Rightarrow> os_error + int \<times> 'f option list" where
  "os_dup fs fd = (case file_at fs fd of None \<Rightarrow> Inl EBADF | Some f \<Rightarrow> os_open fs f)"

definition os_dup2 :: "'f option list \<Rightarrow> int \<Rightarrow> int \<Rightarrow> os_error + int \<times> 'f option list" where
  "os_dup2 fs oldfd newfd = (case file_at fs oldfd of
     None \<Rightarrow> Inl EBADF
   | Some f \<Rightarrow> if newfd < 0 \<or> length fs \<le> nat newfd then Inl EBADF
               else Inr (newfd, fs[nat newfd := Some f]))"

section \<open>State\<close>

text \<open>
  Pointers to descriptors: to the \<open>realfd\<close> of a slot of the table of deferred operations, or to another
  variable of the shell. In \<open>deftab\<close> the pairs are \<open>realfd\<close> and \<open>userfd\<close>; its length is \<open>defcount\<close>.
\<close>

datatype fdptr = DeferSlot nat | FdVar nat

record 'f fdstate =
  files :: "'f option list"
  deftab :: "(int \<times> int) list"
  defmax :: nat
  reserved :: "(fdptr \<times> bool) list"
  fdvars :: "nat \<Rightarrow> int"

definition getfd :: "'f fdstate \<Rightarrow> fdptr \<Rightarrow> int option" where
  "getfd st p = (case p of
     DeferSlot i \<Rightarrow> if i < length (deftab st) then Some (fst (deftab st ! i)) else None
   | FdVar n \<Rightarrow> Some (fdvars st n))"

definition setfd :: "fdptr \<Rightarrow> int \<Rightarrow> 'f fdstate \<Rightarrow> 'f fdstate" where
  "setfd p fd st = (case p of
     DeferSlot i \<Rightarrow> st\<lparr>deftab := (deftab st)[i := (fd, snd (deftab st ! i))]\<rparr>
   | FdVar n \<Rightarrow> st\<lparr>fdvars := (fdvars st)(n := fd)\<rparr>)"

definition UNREGISTERED :: int where
  "UNREGISTERED = - 999"

section \<open>Operations\<close>

definition mvfd :: "int \<Rightarrow> int \<Rightarrow> 'f fdstate \<Rightarrow> 'f fdstate outcome" where
  "mvfd oldfd newfd st =
     (if oldfd \<noteq> newfd then
        (case os_dup2 (files st) oldfd newfd of
           Inl e \<Rightarrow> Throw (fail_exn ''es:mvfd'' (''dup2: '' @ strerror e))
         | Inr (fd, fs) \<Rightarrow> if fd \<noteq> newfd then Abort else Ok (st\<lparr>files := os_close fs oldfd\<rparr>))
      else Ok st)"

text \<open>\<open>resmax\<close>, the room in the list of reserved descriptors, grows with it and is not modelled.\<close>

definition registerfd :: "fdptr \<Rightarrow> bool \<Rightarrow> 'f fdstate \<Rightarrow> 'f fdstate outcome" where
  "registerfd p closeonfork st =
     (if list_ex (\<lambda>(q, c). p = q) (reserved st) then Abort
      else Ok (st\<lparr>reserved := reserved st @ [(p, closeonfork)]\<rparr>))"

fun find_reserved :: "fdptr \<Rightarrow> (fdptr \<times> bool) list \<Rightarrow> nat option" where
  "find_reserved p [] = None"
| "find_reserved p ((q, c) # rs) = (if q = p then Some 0 else map_option Suc (find_reserved p rs))"

definition unregisterfd :: "fdptr \<Rightarrow> 'f fdstate \<Rightarrow> 'f fdstate outcome" where
  "unregisterfd p st =
     (if reserved st = [] then Abort
      else case find_reserved p (reserved st) of
        Some i \<Rightarrow> Ok (st\<lparr>reserved := butlast ((reserved st)[i := last (reserved st)])\<rparr>)
      | None \<Rightarrow> Abort)"

fun releasefd_loop :: "int \<Rightarrow> (fdptr \<times> bool) list \<Rightarrow> 'f fdstate \<Rightarrow> 'f fdstate outcome" where
  "releasefd_loop n [] st = Ok st"
| "releasefd_loop n ((p, c) # rs) st =
     (case getfd st p of
        None \<Rightarrow> Undef
      | Some fd \<Rightarrow>
          if fd = n then
            (case os_dup (files st) fd of
               Inl e \<Rightarrow> if e = EBADF then Abort else Throw (fail_exn ''es:releasefd'' (strerror e))
             | Inr (k, fs) \<Rightarrow> releasefd_loop n rs (setfd p k (st\<lparr>files := os_close fs fd\<rparr>)))
          else releasefd_loop n rs st)"

definition releasefd :: "int \<Rightarrow> 'f fdstate \<Rightarrow> 'f fdstate outcome" where
  "releasefd n st = (if n < 0 then Abort else releasefd_loop n (reserved st) st)"

definition dodeferred :: "int \<Rightarrow> int \<Rightarrow> 'f fdstate \<Rightarrow> 'f fdstate outcome" where
  "dodeferred realfd userfd st =
     (if userfd < 0 then Abort
      else obind (releasefd userfd st) (\<lambda>st.
        if realfd = - 1 then Ok (st\<lparr>files := os_close (files st) userfd\<rparr>)
        else if realfd < 0 then Abort else mvfd realfd userfd st))"

fun unregister_slots :: "nat list \<Rightarrow> 'f fdstate \<Rightarrow> 'f fdstate outcome" where
  "unregister_slots [] st = Ok st"
| "unregister_slots (i # is) st = obind (unregisterfd (DeferSlot i) st) (unregister_slots is)"

fun register_slots :: "nat list \<Rightarrow> 'f fdstate \<Rightarrow> 'f fdstate outcome" where
  "register_slots [] st = Ok st"
| "register_slots (i # is) st = obind (registerfd (DeferSlot i) True st) (register_slots is)"

definition pushdefer :: "bool \<Rightarrow> int \<Rightarrow> int \<Rightarrow> 'f fdstate \<Rightarrow> (int \<times> 'f fdstate) outcome" where
  "pushdefer parent realfd userfd st =
     (if parent then
        (let n = length (deftab st) in
         obind (if defmax st \<le> n
                then obind (unregister_slots [0..<n] st) (\<lambda>st. register_slots [0..<n] (st\<lparr>defmax := defmax st + 10\<rparr>))
                else Ok st) (\<lambda>st.
         obind (registerfd (DeferSlot n) True (st\<lparr>deftab := deftab st @ [(realfd, userfd)]\<rparr>)) (\<lambda>st.
         Ok (int n, st))))
      else obind (dodeferred realfd userfd st) (\<lambda>st. Ok (UNREGISTERED, st)))"

definition defer_mvfd :: "bool \<Rightarrow> int \<Rightarrow> int \<Rightarrow> 'f fdstate \<Rightarrow> (int \<times> 'f fdstate) outcome" where
  "defer_mvfd parent oldfd newfd st =
     (if oldfd < 0 \<or> newfd < 0 then Abort else pushdefer parent oldfd newfd st)"

definition defer_close :: "bool \<Rightarrow> int \<Rightarrow> 'f fdstate \<Rightarrow> (int \<times> 'f fdstate) outcome" where
  "defer_close parent fd st = (if fd < 0 then Abort else pushdefer parent (- 1) fd st)"

definition undefer :: "int \<Rightarrow> 'f fdstate \<Rightarrow> 'f fdstate outcome" where
  "undefer ticket st =
     (if ticket \<noteq> UNREGISTERED then
        (if ticket < 0 \<or> deftab st = [] \<or> ticket \<noteq> int (length (deftab st) - 1) then Abort
         else
           let i = length (deftab st) - 1; realfd = fst (deftab st ! i) in
           obind (unregisterfd (DeferSlot i) (st\<lparr>deftab := butlast (deftab st)\<rparr>)) (\<lambda>st.
           Ok (if realfd \<noteq> - 1 then st\<lparr>files := os_close (files st) realfd\<rparr> else st)))
      else Ok st)"

fun fdmap_loop :: "(int \<times> int) list \<Rightarrow> int \<Rightarrow> int" where
  "fdmap_loop [] fd = fd"
| "fdmap_loop ((realfd, userfd) # ds) fd =
     (if fd = userfd then (if realfd = - 1 then - 1 else fdmap_loop ds realfd) else fdmap_loop ds fd)"

definition fdmap :: "'f fdstate \<Rightarrow> int \<Rightarrow> int" where
  "fdmap st fd = fdmap_loop (rev (deftab st)) fd"

fun remap_loop :: "nat list \<Rightarrow> 'f fdstate \<Rightarrow> 'f fdstate outcome" where
  "remap_loop [] st = Ok st"
| "remap_loop (i # is) st =
     obind (unregisterfd (DeferSlot i) st) (\<lambda>st.
     obind (dodeferred (fst (deftab st ! i)) (snd (deftab st ! i)) st) (remap_loop is))"

definition remapfds :: "'f fdstate \<Rightarrow> 'f fdstate outcome" where
  "remapfds st = obind (remap_loop [0..<length (deftab st)] st) (\<lambda>st. Ok (st\<lparr>deftab := []\<rparr>))"

fun closefds_loop :: "(fdptr \<times> bool) list \<Rightarrow> 'f fdstate \<Rightarrow> 'f fdstate outcome" where
  "closefds_loop [] st = Ok st"
| "closefds_loop ((p, closeonfork) # rs) st =
     (if closeonfork then
        (case getfd st p of
           None \<Rightarrow> Undef
         | Some fd \<Rightarrow> closefds_loop rs
             (setfd p (- 1) (if 3 \<le> fd then st\<lparr>files := os_close (files st) fd\<rparr> else st)))
      else closefds_loop rs st)"

definition closefds :: "'f fdstate \<Rightarrow> 'f fdstate outcome" where
  "closefds st = obind (remapfds st) (\<lambda>st. closefds_loop (reserved st) st)"

definition isdeferred :: "(int \<times> int) list \<Rightarrow> int \<Rightarrow> bool" where
  "isdeferred ds fd = list_ex (\<lambda>(realfd, userfd). userfd = fd) ds"

section \<open>New descriptors\<close>

text \<open>The loop of \<open>newfd\<close> over the descriptors from 3 on: the first one that is not deferred.\<close>

function skip_deferred :: "(int \<times> int) list \<Rightarrow> int \<Rightarrow> int" where
  "skip_deferred ds i = (if isdeferred ds i then skip_deferred ds (i + 1) else i)"
  by auto
termination
proof (relation "measure (\<lambda>(ds, i). length (filter (\<lambda>(r, u). i \<le> u) ds))")
  fix ds :: "(int \<times> int) list" and i
  assume "isdeferred ds i"
  then obtain r where r: "(r, i) \<in> set ds" by (auto simp: isdeferred_def list_ex_iff)
  have "length (filter (\<lambda>(r, u). i + 1 \<le> u) ds) < length (filter (\<lambda>(r, u). i \<le> u) ds)"
    using r
  proof (induction ds)
    case (Cons d ds)
    have "length (filter (\<lambda>(r, u). i + 1 \<le> u) ds) \<le> length (filter (\<lambda>(r, u). i \<le> u) ds)" for ds :: "(int \<times> int) list"
      by (induction ds) auto
    from this [of ds] show ?case using Cons by (cases d) auto
  qed simp
  then show "((ds, i + 1), ds, i) \<in> measure (\<lambda>(ds, i). length (filter (\<lambda>(r, u). i \<le> u) ds))" by simp
qed simp

declare skip_deferred.simps [simp del]

definition free_count :: "'f option list \<Rightarrow> nat" where
  "free_count fs = length (filter (\<lambda>f. f = None) fs)"

lemma first_free_Some:
  "first_free fs = Some k \<Longrightarrow> k < length fs \<and> fs ! k = None \<and> free_count (fs[k := Some f]) < free_count fs"
proof (induction fs arbitrary: k)
  case (Cons g fs)
  then show ?case by (auto simp: free_count_def split: if_splits)
qed simp

lemma first_free_None: "first_free fs = None \<longleftrightarrow> None \<notin> set fs"
  by (induction fs) auto

lemma os_dup_Inr:
  "os_dup fs fd = Inr (k, fs') \<longleftrightarrow> (\<exists>j f. first_free fs = Some j \<and> k = int j \<and> file_at fs fd = Some f \<and> fs' = fs[j := Some f])"
  by (auto simp: os_dup_def os_open_def split: option.split)

function newfd_files :: "(int \<times> int) list \<Rightarrow> 'f option list \<Rightarrow> (int \<times> 'f option list) outcome" where
  "newfd_files ds fs =
     (let i = skip_deferred ds 3 in
      case os_dup fs i of
        Inl e \<Rightarrow> if e \<noteq> EBADF then Throw (fail_exn ''$&newfd'' (''newfd: '' @ strerror e)) else Ok (i, fs)
      | Inr (fd, fs) \<Rightarrow>
          if isdeferred ds fd
          then obind (newfd_files ds fs) (\<lambda>(n, fs). Ok (n, os_close fs fd))
          else Ok (fd, os_close fs fd))"
  by auto
termination
  by (relation "measure (\<lambda>(ds, fs). free_count fs)") (auto simp: os_dup_Inr first_free_Some)

declare newfd_files.simps [simp del]

definition newfd :: "'f fdstate \<Rightarrow> (int \<times> 'f fdstate) outcome" where
  "newfd st = obind (newfd_files (deftab st) (files st)) (\<lambda>(n, fs). Ok (n, st\<lparr>files := fs\<rparr>))"

section \<open>Redirections\<close>

text \<open>
  \<open>redir\<close> of \<open>prim-io.c\<close>: \<open>rop\<close> opens the source and returns its descriptor and the rest of the list,
  the command. \<open>body\<close> is the evaluation of the command, \<open>Inl\<close> an exception. The deferred operation is
  undone on both ways out.
\<close>

definition getnumber :: "string \<Rightarrow> string \<Rightarrow> int outcome" where
  "getnumber caller s =
     (let (n, end) = strtol_auto s; result = int_of_long n in
      if end \<noteq> [] \<or> result < 0 then Throw (fail_exn caller (''bad number: '' @ s)) else Ok result)"

type_synonym 'f rop = "terms \<Rightarrow> 'f fdstate \<Rightarrow> (int \<times> terms \<times> 'f fdstate) outcome"
type_synonym 'f body = "terms \<Rightarrow> 'f fdstate \<Rightarrow> ((terms + terms) \<times> 'f fdstate) outcome"

definition redir :: "string \<Rightarrow> (es_term \<Rightarrow> string) \<Rightarrow> 'f rop \<Rightarrow> bool \<Rightarrow> 'f body \<Rightarrow> terms \<Rightarrow> 'f fdstate \<Rightarrow>
    ((terms + terms) \<times> 'f fdstate) outcome" where
  "redir caller gs rop inparent body list st =
     (case list of
        [] \<Rightarrow> Abort
      | t # rest \<Rightarrow>
          obind (getnumber caller (gs t)) (\<lambda>destfd.
          obind (rop rest st) (\<lambda>(srcfd, lp, st).
          obind (if srcfd = - 1 then defer_close inparent destfd st
                 else defer_mvfd inparent srcfd destfd st) (\<lambda>(ticket, st).
          obind (body lp st) (\<lambda>(r, st).
          obind (undefer ticket st) (\<lambda>st. Ok (r, st)))))))"

definition argcount :: "string \<Rightarrow> string \<Rightarrow> 'a outcome" where
  "argcount caller s = Throw (fail_exn caller (''argument count: usage: '' @ s))"

text \<open>\<open>openf\<close> opens a file by its name and mode: its open file description or the error text.\<close>

datatype openkind = oOpen | oCreate | oAppend | oReadWrite | oReadCreate | oReadAppend

definition modes :: "(string \<times> openkind) list" where
  "modes = [(''r'', oOpen), (''w'', oCreate), (''a'', oAppend), (''r+'', oReadWrite), (''w+'', oReadCreate),
     (''a+'', oReadAppend)]"

definition redir_openfile :: "(es_term \<Rightarrow> string) \<Rightarrow> (string \<Rightarrow> openkind \<Rightarrow> string + 'f) \<Rightarrow> 'f rop" where
  "redir_openfile gs openf list st =
     (case list of
        [m, n, cmd] \<Rightarrow>
          (case map_of modes (gs m) of
             None \<Rightarrow> Throw (fail_exn ''$&openfile'' (''bad %openfile mode: '' @ gs m))
           | Some kind \<Rightarrow>
               (case openf (gs n) kind of
                  Inl err \<Rightarrow> Throw (fail_exn ''$&openfile'' (gs n @ '': '' @ err))
                | Inr f \<Rightarrow> (case os_open (files st) f of
                      Inl e \<Rightarrow> Throw (fail_exn ''$&openfile'' (gs n @ '': '' @ strerror e))
                    | Inr (fd, fs) \<Rightarrow> Ok (fd, [cmd], st\<lparr>files := fs\<rparr>))))
      | _ \<Rightarrow> Abort)"

definition prim_openfile ::
  "(es_term \<Rightarrow> string) \<Rightarrow> (string \<Rightarrow> openkind \<Rightarrow> string + 'f) \<Rightarrow> bool \<Rightarrow> 'f body \<Rightarrow> terms \<Rightarrow> 'f fdstate \<Rightarrow>
    ((terms + terms) \<times> 'f fdstate) outcome" where
  "prim_openfile gs openf inparent body list st =
     (case list of
        [mode, fd, file, cmd] \<Rightarrow>
          redir ''$&openfile'' gs (redir_openfile gs openf) inparent body [fd, mode, file, cmd] st
      | _ \<Rightarrow> argcount ''$&openfile'' ''%openfile mode fd file cmd'')"

definition redir_dup :: "(es_term \<Rightarrow> string) \<Rightarrow> 'f rop" where
  "redir_dup gs list st =
     (case list of
        [t, cmd] \<Rightarrow>
          obind (getnumber ''$&dup'' (gs t)) (\<lambda>n.
          case os_dup (files st) (fdmap st n) of
            Inl e \<Rightarrow> Throw (fail_exn ''$&dup'' (''dup: '' @ strerror e))
          | Inr (fd, fs) \<Rightarrow> Ok (fd, [cmd], st\<lparr>files := fs\<rparr>))
      | _ \<Rightarrow> Abort)"

definition prim_dup ::
  "(es_term \<Rightarrow> string) \<Rightarrow> bool \<Rightarrow> 'f body \<Rightarrow> terms \<Rightarrow> 'f fdstate \<Rightarrow> ((terms + terms) \<times> 'f fdstate) outcome" where
  "prim_dup gs inparent body list st =
     (if length list \<noteq> 3 then argcount ''$&dup'' ''%dup newfd oldfd cmd''
      else redir ''$&dup'' gs (redir_dup gs) inparent body list st)"

definition redir_close :: "'f rop" where
  "redir_close list st = Ok (- 1, list, st)"

definition prim_close ::
  "(es_term \<Rightarrow> string) \<Rightarrow> bool \<Rightarrow> 'f body \<Rightarrow> terms \<Rightarrow> 'f fdstate \<Rightarrow> ((terms + terms) \<times> 'f fdstate) outcome" where
  "prim_close gs inparent body list st =
     (if length list \<noteq> 2 then argcount ''$&close'' ''%close fd cmd''
      else redir ''$&close'' gs redir_close inparent body list st)"

section \<open>Descriptors that refer to files\<close>

definition ptrs :: "'f fdstate \<Rightarrow> fdptr set" where
  "ptrs st = fst ` set (reserved st)"

text \<open>Reserved variables hold different open descriptors, or \<open>-1\<close>.\<close>

definition values_ok :: "'f fdstate \<Rightarrow> bool" where
  "values_ok st \<longleftrightarrow> distinct (map fst (reserved st)) \<and>
     (\<forall>p \<in> ptrs st. \<exists>v. getfd st p = Some v \<and> (v = - 1 \<or> file_at (files st) v \<noteq> None)) \<and>
     (\<forall>p \<in> ptrs st. \<forall>q \<in> ptrs st. p \<noteq> q \<longrightarrow> getfd st p = getfd st q \<longrightarrow> getfd st p = Some (- 1))"

text \<open>
  The invariant when the operations from slot \<open>k\<close> on are still deferred: exactly their slots are
  reserved, to be closed on \<open>fork\<close>.
\<close>

definition fd_inv_from :: "nat \<Rightarrow> 'f fdstate \<Rightarrow> bool" where
  "fd_inv_from k st \<longleftrightarrow> values_ok st \<and>
     (\<forall>i. DeferSlot i \<in> ptrs st \<longleftrightarrow> k \<le> i \<and> i < length (deftab st)) \<and>
     (\<forall>i. (DeferSlot i, False) \<notin> set (reserved st)) \<and>
     (\<forall>(r, u) \<in> set (deftab st). 0 \<le> u)"

abbreviation fd_inv :: "'f fdstate \<Rightarrow> bool" where
  "fd_inv \<equiv> fd_inv_from 0"

text \<open>What a program sees at a descriptor: nothing where the shell keeps a reserved one.\<close>

definition user_file :: "'f fdstate \<Rightarrow> int \<Rightarrow> 'f option" where
  "user_file st n = (if \<exists>p \<in> ptrs st. getfd st p = Some n then None else file_at (files st) n)"

definition ptr_file :: "'f fdstate \<Rightarrow> fdptr \<Rightarrow> 'f option" where
  "ptr_file st p = (case getfd st p of None \<Rightarrow> None | Some v \<Rightarrow> file_at (files st) v)"

lemma file_at_minus [simp]: "file_at fs (- 1) = None"
  by (simp add: file_at_def)

lemma file_at_update: "file_at (fs[k := f]) n = (if n = int k \<and> k < length fs then f else file_at fs n)"
  by (auto simp: file_at_def nth_list_update)

lemma file_at_close: "file_at (os_close fs fd) n = (if n = fd then None else file_at fs n)"
  by (auto simp: os_close_def file_at_def nth_list_update)

lemma length_os_close [simp]: "length (os_close fs fd) = length fs"
  by (simp add: os_close_def)

lemma getfd_files [simp]: "getfd (st\<lparr>files := fs\<rparr>) = getfd st" "getfd (st\<lparr>reserved := rs\<rparr>) = getfd st"
  by (simp_all add: getfd_def fun_eq_iff split: fdptr.split)

lemma getfd_setfd: "getfd st q \<noteq> None \<Longrightarrow> getfd (setfd q v st) p = (if p = q then Some v else getfd st p)"
  by (auto simp: getfd_def setfd_def nth_list_update split: fdptr.splits if_splits)

lemma setfd_simps [simp]:
  "files (setfd p v st) = files st" "reserved (setfd p v st) = reserved st" "ptrs (setfd p v st) = ptrs st"
  "map snd (deftab (setfd p v st)) = map snd (deftab st)" "length (deftab (setfd p v st)) = length (deftab st)"
  "defmax (setfd p v st) = defmax st"
  by (auto simp: setfd_def ptrs_def map_update split: fdptr.split)
    (metis list_update_beyond list_update_id map_update not_le nth_map snd_conv)

lemma dup_free:
  assumes "file_at fs fd = Some f" "None \<in> set fs"
  obtains k where "os_dup fs fd = Inr (int k, fs[k := Some f])" "k < length fs" "fs ! k = None"
  using assms first_free_None [of fs] first_free_Some [of fs]
  by (cases "first_free fs") (auto simp: os_dup_def os_open_def)

subsection \<open>Moving a descriptor out of the way\<close>

lemma releasefd_loop_none:
  "\<forall>(p, c) \<in> set rs. \<exists>v. getfd st p = Some v \<and> v \<noteq> n \<Longrightarrow> releasefd_loop n rs st = Ok st"
  by (induction rs) auto

lemma releasefd_loop_append:
  "releasefd_loop n (as @ bs) st = obind (releasefd_loop n as st) (releasefd_loop n bs)"
  by (induction n as st rule: releasefd_loop.induct) (auto split: option.split sum.split)

text \<open>What stays when the shell moves its own descriptors.\<close>

definition same_view :: "'f fdstate \<Rightarrow> 'f fdstate \<Rightarrow> bool" where
  "same_view st st' \<longleftrightarrow> reserved st' = reserved st \<and> map snd (deftab st') = map snd (deftab st) \<and>
     length (files st') = length (files st) \<and> (None \<in> set (files st) \<longrightarrow> None \<in> set (files st')) \<and>
     (\<forall>m. user_file st' m = user_file st m) \<and> (\<forall>p \<in> ptrs st. ptr_file st' p = ptr_file st p) \<and>
     (\<forall>p. p \<notin> ptrs st \<longrightarrow> getfd st' p = getfd st p)"

lemma releasefd_ok:
  assumes "values_ok st" "0 \<le> n" "None \<in> set (files st)"
  shows "\<exists>st'. releasefd n st = Ok st' \<and> values_ok st' \<and> same_view st st' \<and> (\<forall>p \<in> ptrs st. getfd st' p \<noteq> Some n)"
proof (cases "\<exists>p \<in> ptrs st. getfd st p = Some n")
  case False
  then have "releasefd_loop n (reserved st) st = Ok st"
    using assms(1) by (intro releasefd_loop_none) (force simp: values_ok_def ptrs_def)
  then show ?thesis using False assms by (auto simp: releasefd_def same_view_def)
next
  case True
  then obtain p where p: "p \<in> ptrs st" "getfd st p = Some n" by blast
  then obtain c as bs where rs: "reserved st = as @ (p, c) # bs"
    by (auto simp: ptrs_def dest: split_list)
  have np: "p \<notin> fst ` set as" "p \<notin> fst ` set bs" using assms(1) rs by (auto simp: values_ok_def)
  have other: "\<exists>v. getfd st q = Some v \<and> v \<noteq> n" if "q \<in> ptrs st" "q \<noteq> p" for q
    using assms(1,2) that p unfolding values_ok_def by (metis option.inject neg_0_le_iff_le not_one_le_zero)
  obtain f where f: "file_at (files st) n = Some f"
    using assms(1,2) p by (force simp: values_ok_def)
  obtain k where k: "os_dup (files st) n = Inr (int k, (files st)[k := Some f])" "k < length (files st)"
      "files st ! k = None"
    using dup_free [OF f assms(3)] .
  have kn: "int k \<noteq> n" using f k(3) by (auto simp: file_at_def split: if_splits)
  define st' where "st' = setfd p (int k) (st\<lparr>files := os_close ((files st)[k := Some f]) n\<rparr>)"
  have get: "getfd st' q = (if q = p then Some (int k) else getfd st q)" for q
    using p(2) by (simp add: st'_def getfd_setfd)
  have fa: "file_at (files st') m = (if m = n then None else if m = int k then Some f else file_at (files st) m)" for m
    using k(2) by (simp add: st'_def file_at_close file_at_update)
  have res: "reserved st' = reserved st" and pt: "ptrs st' = ptrs st" by (simp_all add: st'_def ptrs_def)
  have "releasefd_loop n as st = Ok st"
    using other rs np by (intro releasefd_loop_none) (force simp: ptrs_def)
  moreover have "releasefd_loop n bs st' = Ok st'"
    using other rs np kn by (intro releasefd_loop_none) (force simp: ptrs_def get)
  ultimately have run: "releasefd n st = Ok st'"
    using assms(2) k(1) p(2) by (simp add: releasefd_def rs releasefd_loop_append st'_def [symmetric])
  have nk: "getfd st q \<noteq> Some (int k)" if "q \<in> ptrs st" for q
    using assms(1) that k(2,3) by (fastforce simp: values_ok_def file_at_def)
  have "values_ok st'" unfolding values_ok_def pt res
  proof (intro conjI ballI impI)
    show "distinct (map fst (reserved st))" using assms(1) by (simp add: values_ok_def)
  next
    fix q assume q: "q \<in> ptrs st"
    show "\<exists>v. getfd st' q = Some v \<and> (v = - 1 \<or> file_at (files st') v \<noteq> None)"
    proof (cases "q = p")
      case True
      then show ?thesis using kn by (simp add: get fa)
    next
      case False
      then obtain v where "getfd st q = Some v" "v \<noteq> n" "v = - 1 \<or> file_at (files st) v \<noteq> None"
        using other [OF q False] assms(1) q by (force simp: values_ok_def)
      then show ?thesis using False by (auto simp: get fa)
    qed
  next
    fix q r assume qr: "q \<in> ptrs st" "r \<in> ptrs st" "q \<noteq> r" "getfd st' q = getfd st' r"
    then show "getfd st' q = Some (- 1)"
      using assms(1) nk [OF qr(1)] nk [OF qr(2)] by (auto simp: get values_ok_def split: if_splits)
  qed
  moreover have "same_view st st'"
  proof -
    have "user_file st' m = user_file st m" for m
    proof (cases "m = n \<or> m = int k")
      case True
      then show ?thesis using p nk k(2,3) kn fa [of n] unfolding user_file_def pt
        by (auto simp: get file_at_def)
    next
      case False
      then have "(\<exists>q \<in> ptrs st. getfd st' q = Some m) = (\<exists>q \<in> ptrs st. getfd st q = Some m)"
        using p by (metis get option.inject)
      then show ?thesis using False unfolding user_file_def pt by (simp add: fa)
    qed
    moreover have "ptr_file st' q = ptr_file st q" if q: "q \<in> ptrs st" for q
    proof (cases "q = p")
      case True
      then show ?thesis using kn p(2) f by (simp add: ptr_file_def get fa)
    next
      case False
      then show ?thesis using other [OF q False] nk [OF q] by (auto simp: ptr_file_def get fa)
    qed
    moreover have "None \<in> set (files st')"
    proof -
      have "nat n < length (files st')" "files st' ! nat n = None"
        using fa [of n] f assms(2) by (auto simp: file_at_def st'_def split: if_splits)
      then show ?thesis by (metis nth_mem)
    qed
    ultimately show ?thesis using p(1) by (auto simp: same_view_def res get) (auto simp: st'_def)
  qed
  moreover have "getfd st' q \<noteq> Some n" if "q \<in> ptrs st" for q
    using other [OF that] kn by (cases "q = p") (auto simp: get)
  ultimately show ?thesis using run by blast
qed

subsection \<open>The list of reserved descriptors\<close>

lemma find_reserved_Some: "find_reserved p rs = Some i \<Longrightarrow> i < length rs \<and> fst (rs ! i) = p"
  by (induction rs arbitrary: i) (auto split: if_splits)

lemma find_reserved_None: "find_reserved p rs = None \<longleftrightarrow> p \<notin> fst ` set rs"
  by (induction rs) (auto split: if_splits)

lemma mset_move_last:
  assumes "i < length xs"
  shows "mset (butlast (xs[i := last xs])) + {#xs ! i#} = mset xs"
proof (cases xs rule: rev_cases)
  case (snoc ys y)
  show ?thesis
  proof (cases "i < length ys")
    case True
    then show ?thesis using snoc
      by (simp add: list_update_append mset_update nth_append nth_mem_mset)
  next
    case False
    then have "i = length ys" using assms snoc by simp
    then show ?thesis using snoc by simp
  qed
qed (use assms in simp)

lemma unregisterfd_ok:
  assumes "distinct (map fst (reserved st))" "p \<in> ptrs st"
  shows "\<exists>rs. unregisterfd p st = Ok (st\<lparr>reserved := rs\<rparr>) \<and> distinct (map fst rs) \<and>
    fst ` set rs = ptrs st - {p} \<and> set rs \<subseteq> set (reserved st)"
proof -
  obtain i where i: "find_reserved p (reserved st) = Some i"
    using assms(2) find_reserved_None [of p "reserved st"] by (cases "find_reserved p (reserved st)") (auto simp: ptrs_def)
  note ip = find_reserved_Some [OF i]
  let ?rs = "butlast ((reserved st)[i := last (reserved st)])"
  have m: "mset ?rs + {#reserved st ! i#} = mset (reserved st)" using mset_move_last ip by blast
  then have "image_mset fst (mset ?rs + {#reserved st ! i#}) = image_mset fst (mset (reserved st))" by simp
  then have "mset (map fst ?rs) + {#p#} = mset (map fst (reserved st))" using ip by simp
  moreover have "p \<in># mset (map fst (reserved st))" using assms(2) by (auto simp: ptrs_def)
  ultimately have m2: "mset (map fst ?rs) = mset (remove1 p (map fst (reserved st)))"
    by (metis add_diff_cancel_right' mset_remove1)
  then have "distinct (map fst ?rs)" using assms(1) mset_eq_imp_distinct_iff distinct_remove1 by metis
  moreover have "fst ` set ?rs = ptrs st - {p}"
    using m2 assms(1) by (metis mset_eq_setD ptrs_def set_map set_remove1_eq)
  moreover have "set ?rs \<subseteq> set (reserved st)" using m by (metis mset_subset_eq_add_left set_mset_mono set_mset_mset)
  moreover have "reserved st \<noteq> []" using ip by auto
  ultimately show ?thesis using i by (auto simp: unregisterfd_def)
qed

lemma values_ok_sub:
  assumes "values_ok st" "distinct (map fst rs)" "fst ` set rs \<subseteq> ptrs st"
  shows "values_ok (st\<lparr>reserved := rs\<rparr>)"
proof -
  have "ptrs (st\<lparr>reserved := rs\<rparr>) \<subseteq> ptrs st" using assms(3) by (simp add: ptrs_def)
  then show ?thesis using assms(1,2) unfolding values_ok_def by (simp add: subset_iff) blast
qed

subsection \<open>Applying a deferred operation\<close>

lemma mvfd_ok:
  assumes "old \<noteq> new" "file_at (files st) old = Some f" "0 \<le> new" "nat new < length (files st)"
  shows "mvfd old new st = Ok (st\<lparr>files := os_close ((files st)[nat new := Some f]) old\<rparr>)"
  using assms by (simp add: mvfd_def os_dup2_def)

lemma free_after_close: "0 \<le> fd \<Longrightarrow> nat fd < length fs \<Longrightarrow> None \<in> set (os_close fs fd)"
  by (simp add: os_close_def set_update_memI)

lemma file_at_range: "file_at fs fd = Some f \<Longrightarrow> 0 \<le> fd \<and> nat fd < length fs"
  by (simp add: file_at_def split: if_splits)

lemma dodeferred_ok:
  assumes ok: "values_ok st" and free: "None \<in> set (files st)" and user: "0 \<le> user" "nat user < length (files st)"
    and real: "real = - 1 \<or> file_at (files st) real \<noteq> None" "\<forall>p \<in> ptrs st. getfd st p = Some real \<longrightarrow> real = - 1"
  shows "\<exists>st'. dodeferred real user st = Ok st' \<and> values_ok st' \<and> reserved st' = reserved st \<and>
    map snd (deftab st') = map snd (deftab st) \<and> length (files st') = length (files st) \<and> None \<in> set (files st') \<and>
    (\<forall>m. user_file st' m = (if m = user then file_at (files st) real else if m = real then None else user_file st m)) \<and>
    (\<forall>p \<in> ptrs st. ptr_file st' p = ptr_file st p) \<and> (\<forall>p. p \<notin> ptrs st \<longrightarrow> getfd st' p = getfd st p)"
proof -
  obtain s where s: "releasefd user st = Ok s" "values_ok s" "same_view st s" "\<forall>p \<in> ptrs st. getfd s p \<noteq> Some user"
    using releasefd_ok [OF ok user(1) free] by blast
  have pt: "ptrs s = ptrs st" using s(3) by (simp add: same_view_def ptrs_def)
  have len: "length (files s) = length (files st)" using s(3) by (simp add: same_view_def)
  have real_s: "file_at (files s) real = file_at (files st) real \<and> (\<forall>p \<in> ptrs s. getfd s p \<noteq> Some real)"
    if "real \<noteq> - 1"
  proof -
    have u: "user_file st real = file_at (files st) real" using real(2) that by (auto simp: user_file_def)
    then have us: "user_file s real = file_at (files st) real" using s(3) by (simp add: same_view_def)
    then show ?thesis using real(1) that by (auto simp: user_file_def split: if_splits)
  qed
  have "\<exists>fs. dodeferred real user st = Ok (s\<lparr>files := fs\<rparr>) \<and> length fs = length (files st) \<and> None \<in> set fs \<and>
      (\<forall>m. file_at fs m = (if m = user then file_at (files st) real else if m = real then None else file_at (files s) m))"
  proof (cases "real = - 1")
    case True
    then show ?thesis using user s(1) len
      by (intro exI [of _ "os_close (files s) user"])
        (auto simp: dodeferred_def file_at_close free_after_close)
  next
    case False
    then obtain f where f: "file_at (files s) real = Some f" "file_at (files st) real = Some f"
      using real(1) real_s by auto
    show ?thesis
    proof (cases "real = user")
      case True
      then show ?thesis using f s len file_at_range [OF f(1)] user(1) free
        by (intro exI [of _ "files s"]) (auto simp: dodeferred_def mvfd_def same_view_def)
    next
      case neq: False
      then show ?thesis using f s(1) len user file_at_range [OF f(1)] False
        by (intro exI [of _ "os_close ((files s)[nat user := Some f]) real"])
          (auto simp: dodeferred_def mvfd_ok file_at_close file_at_update free_after_close)
    qed
  qed
  then obtain fs where fs: "dodeferred real user st = Ok (s\<lparr>files := fs\<rparr>)" "length fs = length (files st)"
      "None \<in> set fs"
      "\<And>m. file_at fs m = (if m = user then file_at (files st) real else if m = real then None else file_at (files s) m)"
    by blast
  have keep: "file_at fs v = file_at (files s) v" if "p \<in> ptrs st" "getfd s p = Some v" for p v
  proof (cases "v = real")
    case True
    then have "real = - 1" using real_s that pt by blast
    then show ?thesis using True by simp
  next
    case False
    have "v \<noteq> user" using s(4) that by blast
    then show ?thesis using False fs(4) [of v] by simp
  qed
  have "values_ok (s\<lparr>files := fs\<rparr>)"
  proof -
    have "ptrs (s\<lparr>files := fs\<rparr>) = ptrs s" by (simp add: ptrs_def)
    moreover have "\<exists>v. getfd s p = Some v \<and> (v = - 1 \<or> file_at fs v \<noteq> None)" if p: "p \<in> ptrs s" for p
    proof -
      obtain v where v: "getfd s p = Some v" "v = - 1 \<or> file_at (files s) v \<noteq> None"
        using s(2) p unfolding values_ok_def by blast
      then show ?thesis using keep [of p v] p pt by simp
    qed
    ultimately show ?thesis using s(2) unfolding values_ok_def by simp
  qed
  moreover have "user_file (s\<lparr>files := fs\<rparr>) m =
      (if m = user then file_at (files st) real else if m = real then None else user_file st m)" for m
  proof -
    have "ptrs (s\<lparr>files := fs\<rparr>) = ptrs st" using pt by (simp add: ptrs_def)
    moreover have "user_file s m = user_file st m" using s(3) by (simp add: same_view_def)
    moreover have "user_file (s\<lparr>files := fs\<rparr>) m =
        (if m = user then file_at (files st) real else if m = real then None else user_file s m)"
    proof (cases "m = user")
      case True
      then show ?thesis using s(4) pt fs(4) [of m] by (simp add: user_file_def ptrs_def)
    next
      case False
      then show ?thesis using fs(4) [of m] by (cases "m = real") (simp_all add: user_file_def ptrs_def)
    qed
    ultimately show ?thesis by simp
  qed
  moreover have "ptr_file (s\<lparr>files := fs\<rparr>) p = ptr_file st p" if "p \<in> ptrs st" for p
    using s(3) that keep by (auto simp: same_view_def ptr_file_def split: option.split)
  ultimately show ?thesis using fs s(3) by (auto simp: same_view_def)
qed

text \<open>The deferred operations, applied in order to what a program sees.\<close>

fun apply_deferred :: "(int \<times> int) list \<Rightarrow> (int \<Rightarrow> 'f option) \<Rightarrow> (int \<Rightarrow> 'f option) \<Rightarrow> int \<Rightarrow> 'f option" where
  "apply_deferred [] file u = u"
| "apply_deferred ((realfd, userfd) # ds) file u = apply_deferred ds file (u(userfd := file realfd))"

lemma apply_deferred_append:
  "apply_deferred (as @ bs) file u = apply_deferred bs file (apply_deferred as file u)"
proof (induction as arbitrary: u)
  case (Cons d as)
  then show ?case by (cases d) (simp add: fun_upd_def)
qed simp

lemma same_snd: "map snd xs = map snd ys \<Longrightarrow> i < length ys \<Longrightarrow> snd (xs ! i) = snd (ys ! i)"
  by (metis length_map nth_map)

lemma slot_file: "i < length (deftab st) \<Longrightarrow> ptr_file st (DeferSlot i) = file_at (files st) (fst (deftab st ! i))"
  by (simp add: ptr_file_def getfd_def)

lemma remap_step:
  assumes inv: "fd_inv_from i st" and i: "i < length (deftab st)" and free: "None \<in> set (files st)"
    and range: "\<forall>(r, u) \<in> set (deftab st). nat u < length (files st)"
  shows "\<exists>st'. obind (unregisterfd (DeferSlot i) st) (\<lambda>st.
        dodeferred (fst (deftab st ! i)) (snd (deftab st ! i)) st) = Ok st' \<and>
      fd_inv_from (Suc i) st' \<and> None \<in> set (files st') \<and> length (files st') = length (files st) \<and>
      map snd (deftab st') = map snd (deftab st) \<and>
      (\<forall>m. user_file st' m = ((user_file st)(snd (deftab st ! i) := ptr_file st (DeferSlot i))) m) \<and>
      (\<forall>j > i. j < length (deftab st) \<longrightarrow> ptr_file st' (DeferSlot j) = ptr_file st (DeferSlot j))"
proof -
  let ?p = "DeferSlot i" and ?r = "fst (deftab st ! i)" and ?u = "snd (deftab st ! i)"
  have ok: "values_ok st" and slots: "\<And>j. DeferSlot j \<in> ptrs st \<longleftrightarrow> i \<le> j \<and> j < length (deftab st)"
    and cl: "\<And>j. (DeferSlot j, False) \<notin> set (reserved st)"
    using inv by (auto simp: fd_inv_from_def)
  have p: "?p \<in> ptrs st" using slots i by simp
  have get: "getfd st ?p = Some ?r" using i by (simp add: getfd_def)
  have mem: "(?r, ?u) \<in> set (deftab st)" using i by simp
  have u: "0 \<le> ?u" "nat ?u < length (files st)" using inv range mem by (force simp: fd_inv_from_def)+
  obtain rs where rs: "unregisterfd ?p st = Ok (st\<lparr>reserved := rs\<rparr>)" "distinct (map fst rs)"
      "fst ` set rs = ptrs st - {?p}" "set rs \<subseteq> set (reserved st)"
    using unregisterfd_ok [of st ?p] p ok unfolding values_ok_def by blast
  let ?s = "st\<lparr>reserved := rs\<rparr>"
  have ps: "ptrs ?s = ptrs st - {?p}" using rs(3) by (simp add: ptrs_def)
  have oks: "values_ok ?s" using values_ok_sub [OF ok rs(2)] rs(3) by blast
  have real: "?r = - 1 \<or> file_at (files ?s) ?r \<noteq> None" "\<forall>q \<in> ptrs ?s. getfd ?s q = Some ?r \<longrightarrow> ?r = - 1"
    using ok p get unfolding values_ok_def ps by (force, metis DiffD1 DiffD2 getfd_files(2) insertI1 option.inject)
  obtain st' where st': "dodeferred ?r ?u ?s = Ok st'" "values_ok st'" "reserved st' = rs"
      "map snd (deftab st') = map snd (deftab st)" "length (files st') = length (files st)" "None \<in> set (files st')"
      "\<And>m. user_file st' m = (if m = ?u then file_at (files st) ?r else if m = ?r then None else user_file ?s m)"
      "\<And>q. q \<in> ptrs ?s \<Longrightarrow> ptr_file st' q = ptr_file ?s q"
    using dodeferred_ok [OF oks _ u(1) _ real] free u(2) by auto
  have ps': "ptrs st' = ptrs st - {?p}" using st'(3) rs(3) by (simp add: ptrs_def)
  have len: "length (deftab st') = length (deftab st)" using st'(4) by (metis length_map)
  have us: "snd ` set (deftab st') = snd ` set (deftab st)" using st'(4) by (metis set_map)
  have "fd_inv_from (Suc i) st'" unfolding fd_inv_from_def
  proof (intro conjI allI impI)
    show "\<forall>(r, u) \<in> set (deftab st'). 0 \<le> u"
      using inv us unfolding fd_inv_from_def by (force simp: image_iff)
  qed (use st'(2,3) rs(4) cl slots in \<open>auto simp: ps' len\<close>)
  moreover have "user_file st' m = ((user_file st)(?u := ptr_file st ?p)) m" for m
  proof -
    have "user_file ?s m = user_file st m" if "m \<noteq> ?r"
    proof -
      have "(\<exists>q \<in> ptrs ?s. getfd ?s q = Some m) = (\<exists>q \<in> ptrs st. getfd st q = Some m)"
        using that get by (auto simp: ps)
      then show ?thesis by (simp add: user_file_def)
    qed
    moreover have "user_file st ?r = None" using p get by (auto simp: user_file_def)
    ultimately show ?thesis using st'(7) [of m] slot_file [OF i] by auto
  qed
  moreover have "ptr_file st' (DeferSlot j) = ptr_file st (DeferSlot j)" if "i < j" "j < length (deftab st)" for j
  proof -
    have "DeferSlot j \<in> ptrs ?s" using slots that by (simp add: ps)
    moreover have "ptr_file ?s q = ptr_file st q" for q by (simp add: ptr_file_def split: option.split)
    ultimately show ?thesis using st'(8) by simp
  qed
  ultimately show ?thesis using rs(1) st' by auto
qed

lemma remap_loop_ok:
  assumes "fd_inv_from i st" "i + n = length (deftab st)" "None \<in> set (files st)"
    "\<forall>(r, u) \<in> set (deftab st). nat u < length (files st)"
  shows "\<exists>st'. remap_loop [i..<i + n] st = Ok st' \<and> fd_inv_from (i + n) st' \<and> None \<in> set (files st') \<and>
    length (files st') = length (files st) \<and> length (deftab st') = length (deftab st) \<and>
    (\<forall>m. user_file st' m = apply_deferred (drop i (deftab st)) (file_at (files st)) (user_file st) m)"
  using assms
proof (induction n arbitrary: i st)
  case (Suc n)
  let ?d = "deftab st"
  have i: "i < length ?d" using Suc.prems(2) by simp
  obtain s where s: "obind (unregisterfd (DeferSlot i) st) (\<lambda>st.
        dodeferred (fst (deftab st ! i)) (snd (deftab st ! i)) st) = Ok s"
      "fd_inv_from (Suc i) s" "None \<in> set (files s)" "length (files s) = length (files st)"
      "map snd (deftab s) = map snd ?d"
      "\<forall>m. user_file s m = ((user_file st)(snd (?d ! i) := ptr_file st (DeferSlot i))) m"
      "\<forall>j > i. j < length ?d \<longrightarrow> ptr_file s (DeferSlot j) = ptr_file st (DeferSlot j)"
    using remap_step [OF Suc.prems(1) i Suc.prems(3,4)] by blast
  have len: "length (deftab s) = length ?d" using s(5) by (metis length_map)
  have us: "snd ` set (deftab s) = snd ` set ?d" using s(5) by (metis set_map)
  have range: "\<forall>(r, u) \<in> set (deftab s). nat u < length (files s)"
    using Suc.prems(4) us s(4) by (force simp: image_iff)
  obtain st' where st': "remap_loop [Suc i..<Suc i + n] s = Ok st'" "fd_inv_from (Suc i + n) st'"
      "None \<in> set (files st')" "length (files st') = length (files s)" "length (deftab st') = length (deftab s)"
      "\<forall>m. user_file st' m = apply_deferred (drop (Suc i) (deftab s)) (file_at (files s)) (user_file s) m"
    using Suc.IH [OF s(2) _ s(3) range] Suc.prems(2) len by auto
  have drops: "apply_deferred (drop j (deftab s)) (file_at (files s)) u =
      apply_deferred (drop j ?d) (file_at (files st)) u" if "i < j" for j u
    using that
  proof (induction "length ?d - j" arbitrary: j u)
    case 0
    then show ?case using len by simp
  next
    case (Suc k)
    then have j: "j < length ?d" by simp
    have "file_at (files s) (fst (deftab s ! j)) = file_at (files st) (fst (?d ! j))"
      using s(7) Suc.prems j len by (metis slot_file)
    moreover have "snd (deftab s ! j) = snd (?d ! j)" using same_snd [OF s(5) j] .
    moreover have "apply_deferred (drop (Suc j) (deftab s)) (file_at (files s)) u =
      apply_deferred (drop (Suc j) ?d) (file_at (files st)) u" for u
      using Suc by simp
    ultimately show ?case using j len
      by (cases "deftab s ! j"; cases "?d ! j") (simp add: Cons_nth_drop_Suc [symmetric])
  qed
  have "user_file s = (user_file st)(snd (?d ! i) := file_at (files st) (fst (?d ! i)))"
    using s(6) slot_file [OF i] by (simp add: fun_eq_iff)
  then have "apply_deferred (drop (Suc i) (deftab s)) (file_at (files s)) (user_file s) =
      apply_deferred (drop i ?d) (file_at (files st)) (user_file st)"
    using i drops [of "Suc i"] by (cases "?d ! i") (simp add: Cons_nth_drop_Suc [symmetric])
  moreover have "remap_loop [i..<i + Suc n] st = remap_loop [Suc i..<Suc i + n] s"
  proof -
    have "[i..<i + Suc n] = i # [Suc i..<Suc i + n]" by (simp add: upt_conv_Cons)
    moreover have "obind (obind m f) g = obind m (\<lambda>x. obind (f x) g)" for m :: "'a fdstate outcome"
        and f :: "'a fdstate \<Rightarrow> 'a fdstate outcome" and g :: "'a fdstate \<Rightarrow> 'a fdstate outcome"
      by (cases m) auto
    ultimately show ?thesis using arg_cong [OF s(1), of "\<lambda>m. obind m (remap_loop [Suc i..<Suc i + n])"] by simp
  qed
  ultimately show ?case using st' s len by auto
qed simp

lemma remapfds_ok:
  assumes "fd_inv st" "None \<in> set (files st)" "\<forall>(r, u) \<in> set (deftab st). nat u < length (files st)"
  shows "\<exists>st'. remapfds st = Ok st' \<and> fd_inv st' \<and> deftab st' = [] \<and> None \<in> set (files st') \<and>
    user_file st' = apply_deferred (deftab st) (file_at (files st)) (user_file st)"
proof -
  obtain s where s: "remap_loop [0..<length (deftab st)] st = Ok s" "fd_inv_from (length (deftab st)) s"
      "None \<in> set (files s)" "length (deftab s) = length (deftab st)"
      "\<forall>m. user_file s m = apply_deferred (deftab st) (file_at (files st)) (user_file st) m"
    using remap_loop_ok [of 0 st "length (deftab st)"] assms by auto
  let ?s = "s\<lparr>deftab := []\<rparr>"
  have no: "DeferSlot i \<notin> ptrs s" for i using s(2,4) by (auto simp: fd_inv_from_def)
  have pt: "ptrs ?s = ptrs s" by (simp add: ptrs_def)
  have get: "getfd ?s p = getfd s p" if "p \<in> ptrs s" for p
    using that no by (cases p) (auto simp: getfd_def)
  have "values_ok ?s" using s(2) get unfolding fd_inv_from_def values_ok_def pt by simp
  moreover have "(DeferSlot i, False) \<notin> set (reserved s)" for i using no [of i] by (force simp: ptrs_def)
  ultimately have "fd_inv ?s" using no unfolding fd_inv_from_def pt by simp
  moreover have "user_file ?s = user_file s" using get by (simp add: user_file_def fun_eq_iff pt cong: bex_cong)
  ultimately show ?thesis using s by (auto simp: remapfds_def fun_eq_iff)
qed

subsection \<open>Deferring and undoing\<close>

lemma unregister_slots_ok:
  assumes "distinct is" "distinct (map fst (reserved st))" "DeferSlot ` set is \<subseteq> ptrs st"
  shows "\<exists>rs. unregister_slots is st = Ok (st\<lparr>reserved := rs\<rparr>) \<and> distinct (map fst rs) \<and>
    fst ` set rs = ptrs st - DeferSlot ` set is \<and> set rs \<subseteq> set (reserved st)"
  using assms
proof (induction "is" arbitrary: st)
  case Nil
  have "st = st\<lparr>reserved := reserved st\<rparr>" by simp
  then show ?case using Nil by (auto simp: ptrs_def intro!: exI [of _ "reserved st"])
next
  case (Cons i "is")
  obtain rs where rs: "unregisterfd (DeferSlot i) st = Ok (st\<lparr>reserved := rs\<rparr>)" "distinct (map fst rs)"
      "fst ` set rs = ptrs st - {DeferSlot i}" "set rs \<subseteq> set (reserved st)"
    using unregisterfd_ok [of st "DeferSlot i"] Cons.prems by auto
  let ?s = "st\<lparr>reserved := rs\<rparr>"
  have p: "ptrs ?s = ptrs st - {DeferSlot i}" using rs(3) by (simp add: ptrs_def)
  have "DeferSlot ` set is \<subseteq> ptrs ?s" using Cons.prems(1,3) by (auto simp: p)
  then obtain rs' where "unregister_slots is ?s = Ok (?s\<lparr>reserved := rs'\<rparr>)" "distinct (map fst rs')"
      "fst ` set rs' = ptrs ?s - DeferSlot ` set is" "set rs' \<subseteq> set (reserved ?s)"
    using Cons.IH [of ?s] Cons.prems(1) rs(2) by auto
  then show ?case using rs(1,4) by (intro exI [of _ rs']) (auto simp: p)
qed

lemma register_slots_ok:
  "distinct is \<Longrightarrow> DeferSlot ` set is \<inter> ptrs st = {} \<Longrightarrow>
     register_slots is st = Ok (st\<lparr>reserved := reserved st @ map (\<lambda>i. (DeferSlot i, True)) is\<rparr>)"
proof (induction "is" arbitrary: st)
  case (Cons i "is")
  have "registerfd (DeferSlot i) True st = Ok (st\<lparr>reserved := reserved st @ [(DeferSlot i, True)]\<rparr>)"
    using Cons.prems(2) by (force simp: registerfd_def list_ex_iff ptrs_def)
  then show ?case using Cons.prems Cons.IH [of "st\<lparr>reserved := reserved st @ [(DeferSlot i, True)]\<rparr>"]
    by (auto simp: ptrs_def)
qed simp

lemma fd_inv_reserved:
  assumes "fd_inv st" "distinct (map fst rs)" "fst ` set rs = ptrs st" "\<forall>i. (DeferSlot i, False) \<notin> set rs"
  shows "fd_inv (st\<lparr>reserved := rs, defmax := m\<rparr>)"
proof -
  have "ptrs (st\<lparr>reserved := rs, defmax := m\<rparr>) = ptrs st" using assms(3) by (simp add: ptrs_def)
  moreover have "getfd (st\<lparr>reserved := rs, defmax := m\<rparr>) = getfd st"
    by (simp add: getfd_def fun_eq_iff split: fdptr.split)
  ultimately show ?thesis using assms(1,2,4) unfolding fd_inv_from_def values_ok_def by simp
qed

lemma realloc_ok:
  assumes "fd_inv st"
  shows "\<exists>rs. obind (unregister_slots [0..<length (deftab st)] st)
      (\<lambda>s. register_slots [0..<length (deftab st)] (s\<lparr>defmax := defmax s + 10\<rparr>)) =
      Ok (st\<lparr>reserved := rs, defmax := defmax st + 10\<rparr>) \<and> fd_inv (st\<lparr>reserved := rs, defmax := defmax st + 10\<rparr>) \<and>
    fst ` set rs = ptrs st"
proof -
  let ?is = "[0..<length (deftab st)]"
  have sl: "DeferSlot ` set ?is \<subseteq> ptrs st" and di: "distinct (map fst (reserved st))"
    using assms by (auto simp: fd_inv_from_def values_ok_def)
  obtain rs where rs: "unregister_slots ?is st = Ok (st\<lparr>reserved := rs\<rparr>)" "distinct (map fst rs)"
      "fst ` set rs = ptrs st - DeferSlot ` set ?is" "set rs \<subseteq> set (reserved st)"
    using unregister_slots_ok [OF _ di sl] by auto
  let ?s = "st\<lparr>reserved := rs, defmax := defmax st + 10\<rparr>"
  let ?rs = "rs @ map (\<lambda>i. (DeferSlot i, True)) ?is"
  have p: "ptrs ?s = ptrs st - DeferSlot ` set ?is" using rs(3) by (simp add: ptrs_def)
  have "register_slots ?is ?s = Ok (?s\<lparr>reserved := ?rs\<rparr>)"
    using register_slots_ok [of ?is ?s] p by auto
  moreover have range: "fst ` set ?rs = ptrs st" using rs(3) sl by (auto simp: image_Un image_image)
  moreover have "fd_inv (st\<lparr>reserved := ?rs, defmax := defmax st + 10\<rparr>)"
  proof (rule fd_inv_reserved [OF assms])
    show "distinct (map fst ?rs)" using rs(2,3) by (auto simp: comp_def distinct_map inj_on_def)
    show "fst ` set ?rs = ptrs st" by (rule range)
    show "\<forall>i. (DeferSlot i, False) \<notin> set ?rs" using assms rs(4) by (auto simp: fd_inv_from_def)
  qed
  ultimately show ?thesis using rs(1) by (intro exI [of _ ?rs]) auto
qed

definition fresh_fd :: "'f fdstate \<Rightarrow> int \<Rightarrow> bool" where
  "fresh_fd st fd \<longleftrightarrow> fd = - 1 \<or> file_at (files st) fd \<noteq> None \<and> (\<forall>p \<in> ptrs st. getfd st p \<noteq> Some fd)"

lemma pushdefer_ok:
  assumes "fd_inv st" "fresh_fd st real" "0 \<le> user"
  shows "\<exists>st'. pushdefer True real user st = Ok (int (length (deftab st)), st') \<and> fd_inv st' \<and>
    deftab st' = deftab st @ [(real, user)] \<and> files st' = files st \<and> fdvars st' = fdvars st"
proof -
  let ?n = "length (deftab st)"
  obtain rs m where s: "(if defmax st \<le> ?n
      then obind (unregister_slots [0..<?n] st) (\<lambda>st. register_slots [0..<?n] (st\<lparr>defmax := defmax st + 10\<rparr>))
      else Ok st) = Ok (st\<lparr>reserved := rs, defmax := m\<rparr>)" "fd_inv (st\<lparr>reserved := rs, defmax := m\<rparr>)"
      "fst ` set rs = ptrs st"
  proof (cases "defmax st \<le> ?n")
    case True
    obtain rs where rs: "obind (unregister_slots [0..<?n] st) (\<lambda>s. register_slots [0..<?n] (s\<lparr>defmax := defmax s + 10\<rparr>)) =
        Ok (st\<lparr>reserved := rs, defmax := defmax st + 10\<rparr>)" "fd_inv (st\<lparr>reserved := rs, defmax := defmax st + 10\<rparr>)"
        "fst ` set rs = ptrs st"
      using realloc_ok [OF assms(1)] by blast
    then show ?thesis using True that by simp
  next
    case False
    have st: "st\<lparr>reserved := reserved st, defmax := defmax st\<rparr> = st" by simp
    show ?thesis by (rule that [where rs = "reserved st" and m = "defmax st"])
      (use False assms(1) st in \<open>simp_all add: ptrs_def\<close>)
  qed
  let ?s = "st\<lparr>reserved := rs, defmax := m, deftab := deftab st @ [(real, user)]\<rparr>"
  let ?t = "?s\<lparr>reserved := rs @ [(DeferSlot ?n, True)]\<rparr>"
  have slots: "DeferSlot i \<in> ptrs st \<longleftrightarrow> i < ?n" for i using assms(1) by (simp add: fd_inv_from_def)
  have reg: "registerfd (DeferSlot ?n) True ?s = Ok ?t"
    using slots [of ?n] s(3) by (force simp: registerfd_def list_ex_iff)
  have pt: "ptrs ?t = insert (DeferSlot ?n) (ptrs st)" using s(3) by (simp add: ptrs_def)
  have get: "getfd ?t p = (if p = DeferSlot ?n then Some real else getfd st p)" if "p \<in> ptrs ?t" for p
    using that slots by (cases p) (auto simp: getfd_def nth_append pt)
  have v: "\<forall>p \<in> ptrs st. \<exists>v. getfd st p = Some v \<and> (v = - 1 \<or> file_at (files st) v \<noteq> None)"
      "\<forall>p \<in> ptrs st. \<forall>q \<in> ptrs st. p \<noteq> q \<longrightarrow> getfd st p = getfd st q \<longrightarrow> getfd st p = Some (- 1)"
    using assms(1) by (simp_all add: fd_inv_from_def values_ok_def)
  obtain t where t: "t = ?t" by simp
  have f: "files t = files st" "deftab t = deftab st @ [(real, user)]" "fdvars t = fdvars st"
      "reserved t = rs @ [(DeferSlot ?n, True)]"
    by (simp_all add: t)
  note pt = pt [folded t] and get = get [folded t]
  have "fd_inv t" unfolding fd_inv_from_def values_ok_def
  proof (intro conjI)
    show "distinct (map fst (reserved t))"
      using s(2,3) slots [of ?n] by (auto simp: fd_inv_from_def values_ok_def f)
    show "\<forall>p \<in> ptrs t. \<exists>v. getfd t p = Some v \<and> (v = - 1 \<or> file_at (files t) v \<noteq> None)"
      using v(1) assms(2) get by (auto simp: pt fresh_fd_def f)
    show "\<forall>p \<in> ptrs t. \<forall>q \<in> ptrs t. p \<noteq> q \<longrightarrow> getfd t p = getfd t q \<longrightarrow> getfd t p = Some (- 1)"
    proof (intro ballI impI)
      fix p q assume pq: "p \<in> ptrs t" "q \<in> ptrs t" "p \<noteq> q" "getfd t p = getfd t q"
      show "getfd t p = Some (- 1)"
      proof (cases "p = DeferSlot ?n \<or> q = DeferSlot ?n")
        case True
        then have "\<exists>r \<in> ptrs st. getfd st r = Some real" using pq get by (auto simp: pt split: if_splits)
        then have "real = - 1" using assms(2) by (auto simp: fresh_fd_def)
        then show ?thesis using True pq get by (metis (full_types))
      next
        case False
        then show ?thesis using pq get v(2) by (auto simp: pt)
      qed
    qed
    show "\<forall>i. (DeferSlot i \<in> ptrs t) = (0 \<le> i \<and> i < length (deftab t))"
      using slots by (auto simp: pt less_Suc_eq f)
    show "\<forall>i. (DeferSlot i, False) \<notin> set (reserved t)" using s(2) by (auto simp: fd_inv_from_def f)
    show "\<forall>(r, u) \<in> set (deftab t). 0 \<le> u" using assms(1,3) by (auto simp: fd_inv_from_def f)
  qed
  moreover have "pushdefer True real user st = Ok (int ?n, t)"
    using s(1) reg by (simp add: pushdefer_def Let_def t)
  ultimately show ?thesis using f by blast
qed

lemma undefer_ok:
  assumes "fd_inv st" "deftab st \<noteq> []"
  shows "\<exists>st'. undefer (int (length (deftab st)) - 1) st = Ok st' \<and> fd_inv st' \<and> deftab st' = butlast (deftab st) \<and>
    files st' = os_close (files st) (fst (last (deftab st))) \<and> fdvars st' = fdvars st"
proof -
  let ?n = "length (deftab st) - 1" and ?r = "fst (last (deftab st))"
  let ?p = "DeferSlot ?n"
  have n: "?n < length (deftab st)" "deftab st ! ?n = last (deftab st)" using assms(2) by (auto simp: last_conv_nth)
  have slots: "DeferSlot i \<in> ptrs st \<longleftrightarrow> i < length (deftab st)" for i using assms(1) by (simp add: fd_inv_from_def)
  have ok: "values_ok st" using assms(1) by (simp add: fd_inv_from_def)
  let ?b = "st\<lparr>deftab := butlast (deftab st)\<rparr>"
  have pb: "ptrs ?b = ptrs st" by (simp add: ptrs_def)
  obtain rs where rs: "unregisterfd ?p ?b = Ok (?b\<lparr>reserved := rs\<rparr>)" "distinct (map fst rs)"
      "fst ` set rs = ptrs st - {?p}" "set rs \<subseteq> set (reserved st)"
  proof -
    have "distinct (map fst (reserved ?b))" using ok by (simp add: values_ok_def)
    moreover have "?p \<in> ptrs ?b" using slots n(1) unfolding pb by blast
    ultimately show ?thesis using unregisterfd_ok [of ?b ?p] that unfolding pb by auto
  qed
  obtain t where t: "t = ?b\<lparr>reserved := rs, files := os_close (files st) ?r\<rparr>" by simp
  have f: "files t = os_close (files st) ?r" "deftab t = butlast (deftab st)" "fdvars t = fdvars st" "reserved t = rs"
    by (simp_all add: t)
  have pt: "ptrs t = ptrs st - {?p}" using rs(3) by (simp add: ptrs_def f)
  have get: "getfd t p = getfd st p" if "p \<in> ptrs t" for p
  proof (cases p)
    case (DeferSlot i)
    then have "i < length (deftab st)" "i \<noteq> ?n" using that slots [of i] unfolding pt by blast+
    then have "i < length (butlast (deftab st))" by simp
    then show ?thesis by (simp add: getfd_def DeferSlot f nth_butlast)
  qed (simp add: getfd_def f)
  have gp: "getfd st ?p = Some ?r" using n by (simp add: getfd_def)
  have c1: "\<exists>v. getfd t p = Some v \<and> (v = - 1 \<or> file_at (files t) v \<noteq> None)" if p: "p \<in> ptrs t" for p
  proof -
    obtain v where v: "getfd st p = Some v" "v = - 1 \<or> file_at (files st) v \<noteq> None"
      using ok p unfolding values_ok_def pt by blast
    have "v = ?r \<longrightarrow> v = - 1" using ok p gp v(1) slots n(1) unfolding values_ok_def pt
      by (metis DiffD1 DiffD2 insertI1 option.inject)
    then show ?thesis using v get [OF p] by (auto simp: f file_at_close)
  qed
  have c2: "getfd t p = Some (- 1)" if "p \<in> ptrs t" "q \<in> ptrs t" "p \<noteq> q" "getfd t p = getfd t q" for p q
  proof -
    have "p \<in> ptrs st" "q \<in> ptrs st" using that pt by blast+
    moreover have "getfd st p = getfd st q" using that get by simp
    ultimately have "getfd st p = Some (- 1)" using ok that(3) unfolding values_ok_def by blast
    then show ?thesis using get [OF that(1)] by simp
  qed
  have "values_ok t" unfolding values_ok_def f(4)
    by (intro conjI ballI impI rs(2)) (erule c1, rule c2)
  moreover have "DeferSlot i \<in> ptrs t \<longleftrightarrow> i < length (deftab t)" for i
    using slots [of i] n(1) unfolding pt f(2) by (simp del: One_nat_def) linarith
  moreover have "\<forall>(r, u) \<in> set (deftab t). 0 \<le> u" using assms(1) by (auto simp: fd_inv_from_def f dest: in_set_butlastD)
  moreover have "(DeferSlot i, False) \<notin> set (reserved t)" for i using assms(1) rs(4) by (auto simp: fd_inv_from_def f)
  ultimately have "fd_inv t" unfolding fd_inv_from_def by simp
  moreover have "undefer (int (length (deftab st)) - 1) st = Ok t"
  proof -
    have u: "obind (unregisterfd ?p ?b) (\<lambda>st. Ok (if ?r \<noteq> - 1 then st\<lparr>files := os_close (files st) ?r\<rparr> else st)) = Ok t"
      unfolding rs(1) t by (simp add: os_close_def)
    have "int (length (deftab st)) - 1 = int ?n" using assms(2) by (cases "deftab st") auto
    then show ?thesis using u assms(2) unfolding undefer_def Let_def \<open>int (length (deftab st)) - 1 = int ?n\<close> n(2)
      by (simp add: UNREGISTERED_def del: One_nat_def)
  qed
  ultimately show ?thesis using f by blast
qed

subsection \<open>Redirections as an interface\<close>

text \<open>
  What \<open>redir\<close> relies on: the operation that opens the source keeps the invariant and the table, and
  returns a descriptor of its own, or \<open>-1\<close>; it ends with a value or an exception.
\<close>

locale redirection =
  fixes rop :: "'f rop" and args :: "terms \<Rightarrow> bool"
  assumes rop_ok: "fd_inv st \<Longrightarrow> args list \<Longrightarrow>
    (\<exists>fd lp st'. rop list st = Ok (fd, lp, st') \<and> fd_inv st' \<and> deftab st' = deftab st \<and> - 1 \<le> fd \<and> fresh_fd st' fd) \<or>
    (\<exists>e. rop list st = Throw e)"

definition body_ok :: "'f body \<Rightarrow> bool" where
  "body_ok body \<longleftrightarrow> (\<forall>lp st. fd_inv st \<longrightarrow>
     (\<exists>r st'. body lp st = Ok (r, st') \<and> fd_inv st' \<and> deftab st' = deftab st))"

definition undone :: "'f fdstate \<Rightarrow> ((terms + terms) \<times> 'f fdstate) outcome \<Rightarrow> bool" where
  "undone st res \<longleftrightarrow> (case res of
     Ok (r, st') \<Rightarrow> fd_inv st' \<and> deftab st' = deftab st | Throw e \<Rightarrow> True | Abort \<Rightarrow> False | Undef \<Rightarrow> False)"

lemma getnumber_cases: "(\<exists>n. getnumber caller s = Ok n \<and> 0 \<le> n) \<or> (\<exists>e. getnumber caller s = Throw e)"
  by (auto simp: getnumber_def Let_def split: prod.split)

context redirection
begin

lemma redir_undone:
  assumes "fd_inv st" "body_ok body" "args rest"
  shows "undone st (redir caller gs rop True body (t # rest) st)"
proof -
  consider e where "getnumber caller (gs t) = Throw e"
    | dest e where "getnumber caller (gs t) = Ok dest" "rop rest st = Throw e"
    | dest src lp s where "getnumber caller (gs t) = Ok dest" "0 \<le> dest" "rop rest st = Ok (src, lp, s)" "fd_inv s"
        "deftab s = deftab st" "- 1 \<le> src" "fresh_fd s src"
    using getnumber_cases [of caller "gs t"] rop_ok [OF assms(1,3)] by blast
  then show ?thesis
  proof cases
    case 3
    obtain s1 where s1: "pushdefer True src dest s = Ok (int (length (deftab st)), s1)" "fd_inv s1"
        "deftab s1 = deftab st @ [(src, dest)]"
      using pushdefer_ok [OF 3(4,7,2)] 3(5) by auto
    have d: "(if src = - 1 then defer_close True dest s else defer_mvfd True src dest s) =
        Ok (int (length (deftab st)), s1)"
      using s1(1) 3(2,6) by (cases "src = - 1") (simp_all add: defer_close_def defer_mvfd_def)
    obtain r s2 where s2: "body lp s1 = Ok (r, s2)" "fd_inv s2" "deftab s2 = deftab s1"
      using assms(2) s1(2) unfolding body_ok_def by blast
    obtain s3 where "undefer (int (length (deftab s2)) - 1) s2 = Ok s3" "fd_inv s3" "deftab s3 = deftab st"
      using undefer_ok [OF s2(2)] s2(3) s1(3) by auto
    then show ?thesis using 3(1,3) d s2 s1(3) by (simp add: redir_def undone_def)
  qed (simp_all add: redir_def undone_def)
qed

end

lemma fresh_open:
  assumes "fd_inv st" "os_open (files st) f = Inr (fd, fs)"
  shows "fd_inv (st\<lparr>files := fs\<rparr>) \<and> 0 \<le> fd \<and> fresh_fd (st\<lparr>files := fs\<rparr>) fd"
proof -
  obtain k where k: "fd = int k" "fs = (files st)[k := Some f]" "k < length (files st)" "files st ! k = None"
    using assms(2) first_free_Some [of "files st"] by (auto simp: os_open_def split: option.splits)
  have fa: "file_at fs v = (if v = int k then Some f else file_at (files st) v)" for v
    using k(3) by (simp add: k(2) file_at_update)
  have pt: "ptrs (st\<lparr>files := fs\<rparr>) = ptrs st" by (simp add: ptrs_def)
  have none: "file_at (files st) (int k) = None" using k(4) by (simp add: file_at_def)
  have old: "\<forall>p \<in> ptrs st. \<exists>v. getfd st p = Some v \<and> (v = - 1 \<or> file_at (files st) v \<noteq> None)"
    using assms(1) by (simp add: fd_inv_from_def values_ok_def)
  then have "\<forall>p \<in> ptrs st. \<exists>v. getfd st p = Some v \<and> (v = - 1 \<or> file_at fs v \<noteq> None)" by (metis fa option.distinct(1))
  then have "fd_inv (st\<lparr>files := fs\<rparr>)" using assms(1) unfolding fd_inv_from_def values_ok_def pt by simp
  moreover have "getfd st p \<noteq> Some (int k)" if "p \<in> ptrs st" for p using old none that by force
  ultimately show ?thesis using k(1) fa unfolding fresh_fd_def pt by simp
qed

interpretation openfile: redirection "redir_openfile gs openf" "\<lambda>list. length list = 3"
proof
  fix st :: "'a fdstate" and list :: terms
  assume "fd_inv st" "length list = 3"
  show "(\<exists>fd lp st'. redir_openfile gs openf list st = Ok (fd, lp, st') \<and> fd_inv st' \<and> deftab st' = deftab st \<and>
      - 1 \<le> fd \<and> fresh_fd st' fd) \<or> (\<exists>e. redir_openfile gs openf list st = Throw e)"
  proof -
    obtain m n cmd where l: "list = [m, n, cmd]"
      using \<open>length list = 3\<close> by (auto simp: numeral_3_eq_3 length_Suc_conv)
    consider e where "redir_openfile gs openf list st = Throw e"
      | f fd fs where "redir_openfile gs openf list st = Ok (fd, [cmd], st\<lparr>files := fs\<rparr>)"
          "os_open (files st) f = Inr (fd, fs)"
    proof (cases "map_of modes (gs m)")
      case None
      then show ?thesis using that(1) by (simp add: redir_openfile_def l)
    next
      case (Some kind)
      show ?thesis
      proof (cases "openf (gs n) kind")
        case (Inl err)
        then show ?thesis using that(1) Some by (simp add: redir_openfile_def l)
      next
        case (Inr f)
        show ?thesis
        proof (cases "os_open (files st) f")
          case (Inr x)
          then show ?thesis using that(2) Some \<open>openf (gs n) kind = Inr f\<close>
            by (cases x) (simp add: redir_openfile_def l)
        qed (use that(1) Some Inr in \<open>simp add: redir_openfile_def l\<close>)
      qed
    qed
    then show ?thesis
    proof cases
      case 2
      then show ?thesis using fresh_open [OF \<open>fd_inv st\<close> 2(2)] by force
    qed blast
  qed
qed

interpretation duplicate: redirection "redir_dup gs" "\<lambda>list. length list = 2"
proof
  fix st :: "'a fdstate" and list :: terms
  assume a: "fd_inv st" "length list = 2"
  then obtain t cmd where l: "list = [t, cmd]" by (auto simp: numeral_2_eq_2 length_Suc_conv)
  show "(\<exists>fd lp st'. redir_dup gs list st = Ok (fd, lp, st') \<and> fd_inv st' \<and> deftab st' = deftab st \<and>
      - 1 \<le> fd \<and> fresh_fd st' fd) \<or> (\<exists>e. redir_dup gs list st = Throw e)"
  proof (cases "\<exists>n. getnumber ''$&dup'' (gs t) = Ok n")
    case True
    then obtain n where n: "getnumber ''$&dup'' (gs t) = Ok n" by blast
    show ?thesis
    proof (cases "os_dup (files st) (fdmap st n)")
      case (Inr x)
      obtain fd fs where x: "x = (fd, fs)" by force
      then obtain f where "os_open (files st) f = Inr (fd, fs)"
        using Inr by (auto simp: os_dup_def split: option.splits)
      then show ?thesis using fresh_open [OF a(1)] Inr by (force simp: redir_dup_def l n x)
    qed (simp add: redir_dup_def l n)
  next
    case False
    then show ?thesis using getnumber_cases [of "''$&dup''" "gs t"] by (auto simp: redir_dup_def l)
  qed
qed

interpretation closing: redirection redir_close "\<lambda>list. True"
  by unfold_locales (auto simp: redir_close_def fresh_fd_def)

subsection \<open>New descriptors\<close>

lemma skip_deferred_not: "\<not> isdeferred ds (skip_deferred ds i) \<and> i \<le> skip_deferred ds i"
proof (induction ds i rule: skip_deferred.induct)
  case (1 ds i)
  then show ?case by (subst (1 2) skip_deferred.simps) auto
qed

lemma newfd_files_ok:
  assumes "file_at fs m = None" "0 \<le> m" "nat m < length fs" "\<not> isdeferred ds m"
  shows "\<exists>n. newfd_files ds fs = Ok (n, fs) \<and> 0 \<le> n \<and> file_at fs n = None \<and> \<not> isdeferred ds n"
  using assms
proof (induction ds fs rule: newfd_files.induct)
  case (1 ds fs)
  let ?i = "skip_deferred ds 3"
  note i = skip_deferred_not [of ds 3]
  show ?case
  proof (cases "file_at fs ?i")
    case None
    then show ?thesis using i by (subst newfd_files.simps) (simp add: os_dup_def)
  next
    case (Some f)
    have "fs ! nat m = None" using 1(2-4) by (simp add: file_at_def)
    then have "None \<in> set fs" using 1(4) by (metis nth_mem)
    then obtain k where k: "first_free fs = Some k" "k < length fs" "fs ! k = None"
      using first_free_None [of fs] first_free_Some [of fs] by (cases "first_free fs") auto
    let ?fs = "fs[k := Some f]"
    have d: "os_dup fs ?i = Inr (int k, ?fs)" using Some k(1) by (simp add: os_dup_def os_open_def)
    have undo: "os_close ?fs (int k) = fs" using k(2,3) by (simp add: os_close_def)
      (metis list_update_id)
    have free: "file_at fs (int k) = None" using k(3) by (simp add: file_at_def)
    show ?thesis
    proof (cases "isdeferred ds (int k)")
      case True
      then have "m \<noteq> int k" using 1(5) by blast
      then have "file_at ?fs m = None" using 1(2) by (simp add: file_at_update)
      then obtain n where n: "newfd_files ds ?fs = Ok (n, ?fs)" "0 \<le> n" "file_at ?fs n = None" "\<not> isdeferred ds n"
        using 1(1) [OF refl d refl True] 1(3-5) by auto
      have "file_at fs n = None" using n(3) by (auto simp: file_at_update split: if_splits)
      then show ?thesis using n d True undo by (subst newfd_files.simps) simp
    next
      case False
      then show ?thesis using d free undo by (subst newfd_files.simps) simp
    qed
  qed
qed

section \<open>Properties\<close>

text \<open>
  C24: deferring is redirecting. When a child applies the deferred operations, no assertion fails, and
  what a program sees at each descriptor is what it gets by performing the redirections in order: the file
  of the descriptor that was deferred, or nothing where it was closed; the shell's own descriptors have
  moved out of the way and still refer to their files.
\<close>

theorem remapfds_applies_redirections:
  assumes "fd_inv st" and "None \<in> set (files st)" and "\<forall>(r, u) \<in> set (deftab st). nat u < length (files st)"
  shows "\<exists>st'. remapfds st = Ok st' \<and> fd_inv st' \<and> deftab st' = [] \<and>
    user_file st' = apply_deferred (deftab st) (file_at (files st)) (user_file st)"
  using remapfds_ok [OF assms] by blast

lemma fdmap_loop_rev:
  "\<forall>i < length ds. \<forall>j < i. fst (ds ! i) \<noteq> snd (ds ! j) \<Longrightarrow> u n = file n \<Longrightarrow> file (- 1) = None \<Longrightarrow>
     file (fdmap_loop (rev ds) n) = apply_deferred ds file u n"
proof (induction ds arbitrary: n rule: rev_induct)
  case (snoc d ds)
  obtain r w where d: "d = (r, w)" by force
  have chain: "\<forall>i < length ds. \<forall>j < i. fst (ds ! i) \<noteq> snd (ds ! j)"
  proof (intro allI impI)
    fix i j assume "i < length ds" "j < i"
    then show "fst (ds ! i) \<noteq> snd (ds ! j)" using snoc.prems(1) [rule_format, of i j] by (simp add: nth_append)
  qed
  have last: "\<forall>j < length ds. r \<noteq> snd (ds ! j)"
    using snoc.prems(1) [rule_format, of "length ds"] by (auto simp: d nth_append)
  have "fdmap_loop xs r = r" if "\<forall>(s, v) \<in> set xs. r \<noteq> v" for xs
    using that by (induction xs) auto
  moreover have "\<forall>(s, v) \<in> set (rev ds). r \<noteq> v" using last by (force simp: in_set_conv_nth)
  ultimately have r: "fdmap_loop (rev ds) r = r" by blast
  show ?case using snoc.IH [OF chain snoc.prems(2,3)] r snoc.prems(3) by (simp add: d apply_deferred_append)
qed simp

text \<open>
  The map of descriptors. As long as no real descriptor has the number of a user descriptor that was
  deferred before it, \<open>fdmap\<close> gives for every descriptor that the shell does not keep for itself the
  descriptor of the file which a child sees there after \<open>remapfds\<close>.
\<close>

theorem fdmap_agrees_with_remap:
  assumes "fd_inv st" and "None \<in> set (files st)" and "\<forall>(r, u) \<in> set (deftab st). nat u < length (files st)"
    and "\<forall>i < length (deftab st). \<forall>j < i. fst (deftab st ! i) \<noteq> snd (deftab st ! j)"
    and "\<forall>p \<in> ptrs st. getfd st p \<noteq> Some n"
  shows "\<exists>st'. remapfds st = Ok st' \<and> user_file st' n = file_at (files st) (fdmap st n)"
proof -
  have "user_file st n = file_at (files st) n" using assms(5) by (simp add: user_file_def)
  then show ?thesis
    using remapfds_ok [OF assms(1-3)] fdmap_loop_rev [OF assms(4), of "user_file st" n "file_at (files st)"]
    by (auto simp: fdmap_def)
qed

text \<open>
  Three nested redirections in a shell with the descriptors 0, 1 and 2 open: \<open>a\<close> on 4, \<open>b\<close> on 5, and a
  duplicate of 5 on 0. The innermost command reports what a child sees on 0, 4 and 5.
\<close>

definition start_fds :: "string fdstate" where
  "start_fds = \<lparr>files = [Some ''tty'', Some ''tty'', Some ''tty'', None, None, None, None, None], deftab = [],
     defmax = 0, reserved = [], fdvars = (\<lambda>_. - 1)\<rparr>"

definition str_of :: "es_term \<Rightarrow> string" where
  "str_of t = (case t of Str s \<Rightarrow> s | Clos c \<Rightarrow> [])"

definition see_fds :: "string body" where
  "see_fds lp st = obind (remapfds st) (\<lambda>child.
     Ok (Inr (map (\<lambda>n. case user_file child n of None \<Rightarrow> Str ''closed'' | Some f \<Rightarrow> Str f) [0, 4, 5]), st))"

text \<open>
  Two redirections whose descriptors cross. A real descriptor that equals an earlier user descriptor
  is mapped once more, so with \<open>a\<close> on 4 and \<open>b\<close> on 5 (whose real descriptor is 4), the duplicate of 5
  reads \<open>a\<close>, while a child sees \<open>b\<close> on 5.
\<close>

theorem fdmap_maps_twice:
  "(case prim_openfile str_of (\<lambda>name kind. Inr name) True (\<lambda>_.
       prim_openfile str_of (\<lambda>name kind. Inr name) True (\<lambda>_.
         prim_dup str_of True see_fds [Str ''0'', Str ''5'', Str ''cmd''])
       [Str ''r'', Str ''5'', Str ''b'', Str ''cmd''])
     [Str ''r'', Str ''4'', Str ''a'', Str ''cmd''] start_fds of
     Ok (r, st) \<Rightarrow> Some r | _ \<Rightarrow> None) = Some (Inr [Str ''a'', Str ''a'', Str ''b''])"
  by code_simp

text \<open>
  C25: redirections are undone. In a parent, \<open>%open\<close>, \<open>%dup\<close> and \<open>%close\<close> either throw before the command
  runs or run it with the redirection deferred; whether it then returns or throws, the table of deferred
  operations is as before, the invariant holds, and no assertion fails.
\<close>

theorem redirections_undone:
  assumes "fd_inv st" and "body_ok body"
  shows "undone st (prim_openfile gs openf True body list st) \<and> undone st (prim_dup gs True body list st) \<and>
    undone st (prim_close gs True body list st)"
proof (intro conjI)
  show "undone st (prim_openfile gs openf True body list st)"
    using openfile.redir_undone [OF assms]
    by (auto simp: prim_openfile_def argcount_def undone_def split: list.split)
  show "undone st (prim_dup gs True body list st)"
    using duplicate.redir_undone [OF assms]
    by (cases list) (auto simp: prim_dup_def argcount_def undone_def)
  show "undone st (prim_close gs True body list st)"
    using closing.redir_undone [OF assms TrueI]
    by (cases list) (auto simp: prim_close_def argcount_def undone_def)
qed

text \<open>
  New descriptors. When some descriptor is free and not deferred, \<open>newfd\<close> returns one, and leaves
  the table of files as it was; it calls itself only while free descriptors get fewer.
\<close>

theorem newfd_free:
  assumes "file_at (files st) m = None" and "0 \<le> m" and "nat m < length (files st)" and "\<not> isdeferred (deftab st) m"
  shows "\<exists>n. newfd st = Ok (n, st) \<and> 0 \<le> n \<and> file_at (files st) n = None \<and> \<not> isdeferred (deftab st) n"
  using newfd_files_ok [OF assms] by (auto simp: newfd_def)

definition one_deferred :: "string fdstate" where
  "one_deferred = \<lparr>files = [Some ''tty'', Some ''tty'', Some ''tty'', Some ''a'', None, None], deftab = [(3, 5)],
     defmax = 10, reserved = [(DeferSlot 0, True)], fdvars = (\<lambda>_. - 1)\<rparr>"

lemma one_deferred_inv: "fd_inv one_deferred"
  by (auto simp: fd_inv_from_def values_ok_def ptrs_def getfd_def one_deferred_def file_at_def)

lemma start_fds_inv: "fd_inv start_fds"
  by (auto simp: fd_inv_from_def values_ok_def ptrs_def start_fds_def)

theorem remapfds_applies_redirections_witness:
  "\<exists>st'. remapfds one_deferred = Ok st' \<and> user_file st' 5 = Some ''a'' \<and> user_file st' 3 = None"
proof -
  have "None \<in> set (files one_deferred)" "\<forall>(r, u) \<in> set (deftab one_deferred). nat u < length (files one_deferred)"
    by (simp_all add: one_deferred_def)
  then obtain st' where "remapfds one_deferred = Ok st'"
      "user_file st' = apply_deferred (deftab one_deferred) (file_at (files one_deferred)) (user_file one_deferred)"
    using remapfds_applies_redirections [OF one_deferred_inv] by blast
  moreover have "user_file one_deferred 3 = None"
    by (simp add: one_deferred_def user_file_def ptrs_def getfd_def)
  moreover have "deftab one_deferred = [(3, 5)]" "file_at (files one_deferred) 3 = Some ''a''"
    by (simp_all add: one_deferred_def file_at_def)
  ultimately show ?thesis by simp
qed

theorem fdmap_agrees_with_remap_witness:
  "\<exists>st'. remapfds one_deferred = Ok st' \<and> user_file st' 5 = Some ''a''"
proof -
  have "\<exists>st'. remapfds one_deferred = Ok st' \<and> user_file st' 5 = file_at (files one_deferred) (fdmap one_deferred 5)"
    by (rule fdmap_agrees_with_remap [OF one_deferred_inv]) (auto simp: one_deferred_def ptrs_def getfd_def)
  moreover have "file_at (files one_deferred) (fdmap one_deferred 5) = Some ''a''" by code_simp
  ultimately show ?thesis by simp
qed

theorem redirections_undone_witness:
  "undone start_fds (prim_dup str_of True (\<lambda>lp st. Ok (Inr lp, st)) [Str ''7'', Str ''1'', Str ''cmd''] start_fds)"
  using redirections_undone [OF start_fds_inv, of "\<lambda>lp st. Ok (Inr lp, st)"] by (simp add: body_ok_def)

theorem newfd_free_witness:
  "\<exists>n. newfd one_deferred = Ok (n, one_deferred) \<and> 0 \<le> n \<and> file_at (files one_deferred) n = None \<and>
    \<not> isdeferred (deftab one_deferred) n"
  by (rule newfd_free [of one_deferred 4]) (auto simp: one_deferred_def file_at_def isdeferred_def)
end
