(* ===== verification/Heredoc.thy ===== *)
theory Heredoc
  imports Token
begin

text \<open>
  Here documents, \<open>src/heredoc.c\<close>: reading a document up to its marker, with the variables in it, and the
  queue that \<open>Syntax\<close> fills. The input is the rest of the characters, as in \<open>Token\<close>; at its end \<open>GETC\<close>
  returns EOF again and again. The text of the current piece is the list of the characters in the buffer;
  the trees made so far, a list with \<open>tailp\<close> at its end, are a list of trees.
\<close>

section \<open>Variables in a document\<close>

text \<open>The name up to the first character that ends it; at the end of the input the table is indexed with EOF.\<close>

fun here_name :: "string \<Rightarrow> (string \<times> string) option" where
  "here_name [] = None"
| "here_name (c # s) =
     (if dollar_non_word c then Some ([], c # s) else map_option (\<lambda>(u, r). (c # u, r)) (here_name s))"

definition getherevar :: "string \<Rightarrow> parser \<Rightarrow> (tree option \<times> string \<times> parser) outcome" where
  "getherevar s ps =
     (case here_name s of
        None \<Rightarrow> Undef
      | Some (u, r) \<Rightarrow>
          let buf = fold (\<lambda>c buf. bufputc buf c) u (openbuffer 0) in
          if blen buf = 0 then Ok (None, tl r, yyerror ''null variable name in here document'' ps)
          else obind (flatten (nVar (nWord (sealcountedbuffer buf))) '' '')
                 (\<lambda>t. Ok (Some t, if hd r = CHR ''^'' then tl r else r, ps)))"

lemma here_name_length: "here_name s = Some (u, r) \<Longrightarrow> length r \<le> length s \<and> r \<noteq> []"
  by (induction s arbitrary: u) (auto split: if_splits intro: le_SucI)

lemma bufputc_fold: "bbytes (fold (\<lambda>c buf. bufputc buf c) u b) = bbytes b @ u"
proof (induction u arbitrary: b)
  case (Cons c u)
  have "bbytes (bufncat_loop b n) = bbytes b" for n
    by (induction b n rule: bufncat_loop.induct) (subst bufncat_loop.simps, auto simp: expandbuffer_def)
  then show ?case using Cons by (simp add: bufputc_def bufncat_def Let_def)
qed simp

lemma bufputc_room: "0 < blen b \<Longrightarrow> 0 < blen (fold (\<lambda>c buf. bufputc buf c) u b)"
proof (induction u arbitrary: b)
  case (Cons c u)
  have "0 < blen b \<Longrightarrow> 0 < blen (bufncat_loop b n)" for n b
    by (induction b n rule: bufncat_loop.induct) (subst bufncat_loop.simps, auto simp: expandbuffer_def)
  then show ?case using Cons by (simp add: bufputc_def bufncat_def Let_def)
qed simp

text \<open>The tree of a variable, and the functional form of \<open>getherevar\<close>: the error is never raised.\<close>

definition var_tree :: "string \<Rightarrow> tree" where
  "var_tree u = nCall (nList (nWord ''%flatten'') (nList (nQword '' '') (nList (nVar (nWord u)) TNull)))"

lemma getherevar_eq:
  "getherevar s ps = (case here_name s of None \<Rightarrow> Undef
     | Some (u, r) \<Rightarrow> Ok (Some (var_tree u), if hd r = CHR ''^'' then tl r else r, ps))"
proof -
  have p: "(blen (fold (\<lambda>c buf. bufputc buf c) u (openbuffer 0)) = 0) = False" for u
    using bufputc_room [of "openbuffer 0" u] by (simp add: openbuffer_def)
  have "sealcountedbuffer (fold (\<lambda>c buf. bufputc buf c) u (openbuffer 0)) = u" for u
    by (simp add: sealcountedbuffer_def bufputc_fold openbuffer_def)
  then show ?thesis
    by (simp add: p getherevar_def Let_def flatten_def treecons_def prefix_def var_tree_def split: option.split)
qed

lemma getherevar_length: "getherevar s ps = Ok (t, s', ps') \<Longrightarrow> length s' \<le> length s"
  by (auto simp: getherevar_eq dest: here_name_length split: option.splits if_splits)

section \<open>Lines\<close>

text \<open>The loop that matches the marker: what is left of it, the character that ended the loop, the input.\<close>

fun match_marker :: "string \<Rightarrow> string \<Rightarrow> string \<times> char option \<times> string" where
  "match_marker m [] = (m, None, [])"
| "match_marker m (c # s) =
     (if c = nul \<or> m = [] \<or> c \<noteq> hd m then (m, Some c, s) else match_marker (tl m) s)"

datatype hereline = HLine string "tree list" | HIncomplete bool

definition left :: "char option \<Rightarrow> string \<Rightarrow> nat" where
  "left c s = (case c of None \<Rightarrow> 0 | Some _ \<Rightarrow> Suc (length s))"

lemma left_getc: "left (fst (getc s)) (snd (getc s)) = length s"
  by (cases s) (simp_all add: left_def getc_def)

text \<open>
  The loop that reads the rest of a line, from the character \<open>c\<close> on. After an error of \<open>getherevar\<close> the
  buffer would be freed a second time.
\<close>

function here_line :: "bool \<Rightarrow> char option \<Rightarrow> string \<Rightarrow> string \<Rightarrow> tree list \<Rightarrow> parser \<Rightarrow>
    (hereline \<times> string \<times> parser) outcome" where
  "here_line quoted None s buf ts ps = Ok (HIncomplete False, s, ps)"
| "here_line quoted (Some c) s buf ts ps =
     (if c = nul then Ok (HIncomplete True, s, ps)
      else if c = CHR ''$'' \<and> \<not> quoted \<and> fst (getc s) \<noteq> Some (CHR ''$'') then
        (let ts = (if buf = [] then ts else ts @ [nQword buf]) in
         case getherevar s ps of
           Ok (None, s, ps) \<Rightarrow> Undef
         | Ok (Some t, s, ps) \<Rightarrow> here_line quoted (fst (getc s)) (snd (getc s)) [] (ts @ [t]) ps
         | Throw e \<Rightarrow> Throw e | Abort \<Rightarrow> Abort | Undef \<Rightarrow> Undef)
      else
        (let s = (if c = CHR ''$'' \<and> \<not> quoted then tl s else s); buf = buf @ [c] in
         if c = nl_char then Ok (HLine buf ts, s, ps)
         else here_line quoted (fst (getc s)) (snd (getc s)) buf ts ps))"
  by pat_completeness auto

termination
  by (relation "measure (\<lambda>(quoted, c, s, buf, ts, ps). left c s)")
     (auto simp: left_getc left_def [of "Some _"] dest!: getherevar_length intro: le_imp_less_Suc)

lemma here_line_length:
  "here_line quoted c s buf ts ps = Ok (HLine buf' ts', s', ps') \<Longrightarrow> length s' < left c s"
proof (induction quoted c s buf ts ps rule: here_line.induct)
  case (2 quoted c s buf ts ps)
  consider "c = nul" | "c \<noteq> nul" "c = CHR ''$'' \<and> \<not> quoted \<and> fst (getc s) \<noteq> Some (CHR ''$'')"
    | "c \<noteq> nul" "\<not> (c = CHR ''$'' \<and> \<not> quoted \<and> fst (getc s) \<noteq> Some (CHR ''$''))" by blast
  then show ?case
  proof cases
    case 2
    then obtain t s1 ps1 where r: "getherevar s ps = Ok (Some t, s1, ps1)"
        "here_line quoted (fst (getc s1)) (snd (getc s1)) [] ((if buf = [] then ts else ts @ [nQword buf]) @ [t]) ps1 =
          Ok (HLine buf' ts', s', ps')"
      using "2.prems" by (auto simp: Let_def split: outcome_of.splits option.splits)
    have "length s' < left (fst (getc s1)) (snd (getc s1))"
      using "2.IH"(1) [OF 2 refl] r by blast
    then show ?thesis using getherevar_length [OF r(1)] by (simp add: left_getc) (simp add: left_def)
  next
    case 3
    let ?s = "if c = CHR ''$'' \<and> \<not> quoted then tl s else s"
    have l: "length ?s \<le> length s" by simp
    show ?thesis
    proof (cases "c = nl_char")
      case True
      then show ?thesis using "2.prems" 3 l by (auto simp: left_def nl_char_def nul_def)
    next
      case False
      then have "here_line quoted (fst (getc ?s)) (snd (getc ?s)) (buf @ [c]) ts ps = Ok (HLine buf' ts', s', ps')"
        using "2.prems" 3 by (simp add: Let_def split: if_splits)
      then have "length s' < left (fst (getc ?s)) (snd (getc ?s))"
        using "2.IH"(2) [OF 3 refl refl False] by blast
      then show ?thesis using l by (simp add: left_getc) (simp add: left_def)
    qed
  qed (use "2.prems" in simp)
qed simp

section \<open>Documents\<close>

datatype herepart = HDone "tree list" | HEnd bool

lemma match_marker_left: "match_marker m s = (m', c, s') \<Longrightarrow> left c s' \<le> length s"
  by (induction m s rule: match_marker.induct) (auto simp: left_def split: if_splits)

function here_lines :: "string \<Rightarrow> bool \<Rightarrow> string \<Rightarrow> string \<Rightarrow> tree list \<Rightarrow> nat \<Rightarrow> parser \<Rightarrow>
    (herepart \<times> string \<times> nat \<times> parser) outcome" where
  "here_lines eof quoted s buf ts n ps =
     (let (m, c, s1) = match_marker eof s in
      if c = Some nul then Ok (HEnd True, s1, Suc n, ps)
      else if m = [] \<and> (c = Some nl_char \<or> c = None) then
        Ok (HDone (if buf = [] \<and> ts \<noteq> [] then ts else ts @ [nQword buf]), s1, Suc n, ps)
      else case here_line quoted c s1 (buf @ take (length eof - length m) eof) ts ps of
          Ok (HLine buf ts, s2, ps) \<Rightarrow> here_lines eof quoted s2 buf ts (Suc n) ps
        | Ok (HIncomplete b, s2, ps) \<Rightarrow> Ok (HEnd b, s2, Suc n, ps)
        | Throw e \<Rightarrow> Throw e | Abort \<Rightarrow> Abort | Undef \<Rightarrow> Undef)"
  by pat_completeness auto

termination
  by (relation "measure (\<lambda>(eof, quoted, s, buf, ts, n, ps). length s)")
     (auto dest!: here_line_length match_marker_left [OF sym])

declare here_lines.simps [simp del] here_line.simps(2) [simp del]

record reader =
  scanner :: lexer
  heres :: parser
  heredoc_input :: bool

definition snarfheredoc :: "string \<Rightarrow> bool \<Rightarrow> reader \<Rightarrow> (tree option \<times> reader) outcome" where
  "snarfheredoc eof quoted rd =
     (if \<not> quoted \<and> CHR ''$'' \<in> set eof then Abort
      else if nl_char \<in> set eof then
        Ok (None, rd\<lparr>heres := yyerror ''here document eof-marker contains a newline'' (heres rd)\<rparr>)
      else obind (here_lines eof quoted (inp (scanner rd)) [] [] 0 (heres rd)) (\<lambda>(r, s, n, ps).
        let rd = rd\<lparr>scanner := prompts n ((scanner rd)\<lparr>inp := s\<rparr>), heredoc_input := False\<rparr> in
        case r of
          HDone ts \<Rightarrow> Ok (Some (if tl ts = [] then hd ts else foldr nList ts TNull), rd\<lparr>heres := ps\<rparr>)
        | HEnd b \<Rightarrow> Ok (None, rd\<lparr>heres := yyerror (if b then [] else ''incomplete here document'') ps\<rparr>)))"

text \<open>
  \<open>readheredocs\<close>: the documents that are read, with the cells of their markers, whose first field they
  replace. The queue is left at the document that fails.
\<close>

fun read_all :: "tree list \<Rightarrow> reader \<Rightarrow> (bool \<times> (tree \<times> tree) list \<times> reader) outcome" where
  "read_all [] rd = Ok (True, [], rd\<lparr>heres := (heres rd)\<lparr>hereq := []\<rparr>\<rparr>)"
| "read_all (marker # q) rd =
     (let rd = rd\<lparr>heres := (heres rd)\<lparr>hereq := marker # q\<rparr>\<rparr> in
      obind (case CAR marker of
          nWord s \<Rightarrow> snarfheredoc s False rd
        | nQword s \<Rightarrow> snarfheredoc s True rd
        | _ \<Rightarrow> Undef) (\<lambda>(t, rd).
      case t of
        None \<Rightarrow> Ok (False, [], rd)
      | Some t \<Rightarrow> obind (read_all q rd) (\<lambda>(ok, docs, rd). Ok (ok, (marker, t) # docs, rd))))"

definition readheredocs :: "bool \<Rightarrow> reader \<Rightarrow> (bool \<times> (tree \<times> tree) list \<times> reader) outcome" where
  "readheredocs endfile rd =
     (if endfile \<and> hereq (heres rd) \<noteq> []
      then Ok (False, [], rd\<lparr>heres := yyerror ''end of file with pending here documents'' (heres rd)\<rparr>)
      else read_all (hereq (heres rd)) rd)"

definition emptyherequeue :: "reader \<Rightarrow> reader" where
  "emptyherequeue rd = rd\<lparr>heres := (heres rd)\<lparr>hereq := []\<rparr>, heredoc_input := False\<rparr>"

section \<open>What a document means\<close>

text \<open>
  The text of a document read as a whole, without regard to its lines: the text of the last piece and
  the trees in front of it.
\<close>

function scan :: "bool \<Rightarrow> string \<Rightarrow> string \<Rightarrow> tree list \<Rightarrow> string \<times> tree list" where
  "scan quoted [] buf ts = (buf, ts)"
| "scan quoted (c # s) buf ts =
     (if c = CHR ''$'' \<and> \<not> quoted \<and> fst (getc s) \<noteq> Some (CHR ''$'') then
        (case here_name s of
           None \<Rightarrow> (buf, ts)
         | Some (u, r) \<Rightarrow>
             scan quoted (if hd r = CHR ''^'' then tl r else r) []
               ((if buf = [] then ts else ts @ [nQword buf]) @ [var_tree u]))
      else scan quoted (if c = CHR ''$'' \<and> \<not> quoted then tl s else s) (buf @ [c]) ts)"
  by pat_completeness auto
termination
  by (relation "measure (\<lambda>(quoted, s, buf, ts). length s)")
     (auto dest: here_name_length simp: le_imp_less_Suc less_Suc_eq_le intro: le_trans [OF diff_le_self])

declare scan.simps(2) [simp del]

lemma nl_ends_name [simp]: "dollar_non_word nl_char" "nl_char \<noteq> nul" "nl_char \<noteq> CHR ''$''" "nl_char \<noteq> CHR ''^''"
  by (simp_all add: dollar_non_word_def nl_char_def nul_def isalnum_def isalpha_def isdigit_def isupper_def islower_def uchar_def)

text \<open>A name ends on its line.\<close>

lemma here_name_line:
  "\<exists>u l'. here_name (l @ nl_char # rest) = Some (u, l' @ nl_char # rest) \<and> length l' \<le> length l \<and> set l' \<subseteq> set l \<and>
    (l = u @ l') \<and> (\<forall>rest. here_name (l @ nl_char # rest) = Some (u, l' @ nl_char # rest))"
proof (induction l)
  case (Cons c l)
  show ?case
  proof (cases "dollar_non_word c")
    case True
    then show ?thesis by (intro exI [of _ "[]"] exI [of _ "c # l"]) simp
  next
    case False
    obtain u l' where "length l' \<le> length l" "set l' \<subseteq> set l" "l = u @ l'"
        "\<forall>rest. here_name (l @ nl_char # rest) = Some (u, l' @ nl_char # rest)"
      using Cons.IH by blast
    then show ?thesis using False by (intro exI [of _ "c # u"] exI [of _ l']) auto
  qed
qed simp

lemma getc_line: "fst (getc (l @ nl_char # rest)) = fst (getc (l @ [nl_char]))"
  by (cases l) (simp_all add: getc_def)

lemma scan_nl: "scan quoted (nl_char # y) buf ts = scan quoted y (buf @ [nl_char]) ts"
  by (simp add: scan.simps(2))

lemma tl_line: "fst (getc (l @ nl_char # rest)) = Some (CHR ''$'') \<Longrightarrow> \<exists>l'. l = CHR ''$'' # l'"
  by (cases l) (auto simp: getc_def)

lemma scan_lines: "scan quoted (x @ nl_char # y) buf ts =
    (case scan quoted (x @ [nl_char]) buf ts of (b, t) \<Rightarrow> scan quoted y b t)"
proof (induction "length x" arbitrary: x buf ts rule: less_induct)
  case less
  show ?case
  proof (cases x)
    case (Cons c l)
    consider "c = CHR ''$'' \<and> \<not> quoted \<and> fst (getc (l @ [nl_char])) \<noteq> Some (CHR ''$'')"
      | "c = CHR ''$'' \<and> \<not> quoted" "fst (getc (l @ [nl_char])) = Some (CHR ''$'')"
      | "\<not> (c = CHR ''$'' \<and> \<not> quoted)" by blast
    then show ?thesis
    proof cases
      case 1
      obtain u l' where l': "length l' \<le> length l" "l = u @ l'"
          "\<forall>rest. here_name (l @ nl_char # rest) = Some (u, l' @ nl_char # rest)"
        using here_name_line [of l "[]"] by blast
      have a: "scan quoted (x @ nl_char # z) buf ts = scan quoted (if hd (l' @ nl_char # z) = CHR ''^'' then tl (l' @ nl_char # z)
          else l' @ nl_char # z) [] ((if buf = [] then ts else ts @ [nQword buf]) @ [var_tree u])" for z
        using 1 l'(3) getc_line [of l z] by (simp add: Cons scan.simps(2))
      show ?thesis
      proof (cases "\<exists>l2. l' = CHR ''^'' # l2")
        case True
        then obtain l2 where l2: "l' = CHR ''^'' # l2" by blast
        then have "length l2 < length x" using l'(1) by (simp add: Cons)
        then show ?thesis unfolding a by (simp add: l2 less)
      next
        case False
        then have "hd (l' @ nl_char # z) \<noteq> CHR ''^''" for z by (cases l') auto
        moreover have "length l' < length x" using l'(1) by (simp add: Cons)
        ultimately show ?thesis unfolding a by (simp add: less)
      qed
    next
      case 2
      then obtain l2 where l2: "l = CHR ''$'' # l2" using tl_line by blast
      then show ?thesis using 2(1) less [of l2] by (simp add: Cons scan.simps(2) getc_def)
    next
      case 3
      then show ?thesis using less [of l] by (auto simp: Cons scan.simps(2))
    qed
  qed (simp add: scan_nl)
qed

text \<open>The rest of a line is read as \<open>scan\<close> reads it.\<close>

abbreviation here_rest :: "bool \<Rightarrow> string \<Rightarrow> string \<Rightarrow> tree list \<Rightarrow> parser \<Rightarrow> (hereline \<times> string \<times> parser) outcome" where
  "here_rest quoted s buf ts ps \<equiv> here_line quoted (fst (getc s)) (snd (getc s)) buf ts ps"

lemma here_rest_Cons: "here_rest quoted (c # s) buf ts ps = here_line quoted (Some c) s buf ts ps"
  by (simp add: getc_def)

lemma here_line_scan:
  assumes "nl_char \<notin> set l" "nul \<notin> set l"
  shows "here_rest quoted (l @ nl_char # rest) buf ts ps =
    (case scan quoted (l @ [nl_char]) buf ts of (b, t) \<Rightarrow> Ok (HLine b t, rest, ps))"
  using assms
proof (induction "length l" arbitrary: l buf ts rule: less_induct)
  case less
  show ?case
  proof (cases l)
    case Nil
    then show ?thesis by (simp add: here_rest_Cons here_line.simps(2) scan_nl)
  next
    case (Cons c k)
    have c: "c \<noteq> nul" "c \<noteq> nl_char" "nl_char \<notin> set k" "nul \<notin> set k" using less.prems by (auto simp: Cons)
    consider "c = CHR ''$'' \<and> \<not> quoted \<and> fst (getc (k @ [nl_char])) \<noteq> Some (CHR ''$'')"
      | "c = CHR ''$'' \<and> \<not> quoted" "fst (getc (k @ [nl_char])) = Some (CHR ''$'')"
      | "\<not> (c = CHR ''$'' \<and> \<not> quoted)" by blast
    then show ?thesis
    proof cases
      case 1
      obtain u l' where l': "length l' \<le> length k" "set l' \<subseteq> set k"
          "\<forall>rest. here_name (k @ nl_char # rest) = Some (u, l' @ nl_char # rest)"
        using here_name_line [of k "[]"] by blast
      let ?ts = "(if buf = [] then ts else ts @ [nQword buf]) @ [var_tree u]"
      have h: "here_rest quoted (l @ nl_char # rest) buf ts ps = here_rest quoted (if hd (l' @ nl_char # rest) = CHR ''^''
          then tl (l' @ nl_char # rest) else l' @ nl_char # rest) [] ?ts ps"
        using 1 l'(3) getc_line [of k rest] c
        by (simp add: Cons here_rest_Cons here_line.simps(2) getherevar_eq Let_def)
      have s: "scan quoted (l @ [nl_char]) buf ts = scan quoted (if hd (l' @ [nl_char]) = CHR ''^''
          then tl (l' @ [nl_char]) else l' @ [nl_char]) [] ?ts"
        using 1 l'(3) by (simp add: Cons scan.simps(2))
      show ?thesis
      proof (cases "\<exists>l2. l' = CHR ''^'' # l2")
        case True
        then obtain l2 where l2: "l' = CHR ''^'' # l2" by blast
        then have "length l2 < length l" "nl_char \<notin> set l2" "nul \<notin> set l2" using l'(1,2) c by (auto simp: Cons)
        then show ?thesis unfolding h s using less.hyps by (simp add: l2)
      next
        case False
        then have "hd (l' @ nl_char # z) \<noteq> CHR ''^''" for z by (cases l') auto
        moreover have "length l' < length l" "nl_char \<notin> set l'" "nul \<notin> set l'" using l'(1,2) c by (auto simp: Cons)
        ultimately show ?thesis unfolding h s using less.hyps by simp
      qed
    next
      case 2
      then obtain l2 where l2: "k = CHR ''$'' # l2" using tl_line by blast
      then show ?thesis using 2(1) c less.hyps [of l2]
        by (simp add: Cons here_rest_Cons here_line.simps(2) scan.simps(2) getc_def Let_def)
    next
      case 3
      then show ?thesis using c less.hyps [of k]
        by (auto simp: Cons here_rest_Cons here_line.simps(2) scan.simps(2) Let_def)
    qed
  qed
qed

text \<open>The marker in front of a line.\<close>

lemma match_marker_found: "nul \<notin> set m \<Longrightarrow> match_marker m (m @ nl_char # rest) = ([], Some nl_char, rest)"
  by (induction m) auto

lemma match_marker_line:
  assumes "l \<noteq> m" "nl_char \<notin> set l" "nul \<notin> set l" "nl_char \<notin> set m" "nul \<notin> set m"
  shows "\<exists>p m' c k. m = p @ m' \<and> match_marker m (l @ nl_char # rest) = (m', Some c, k) \<and> c \<noteq> nul \<and>
    \<not> (m' = [] \<and> c = nl_char) \<and> (\<exists>l'. l = p @ l' \<and> c # k = l' @ nl_char # rest)"
  using assms
proof (induction l arbitrary: m)
  case Nil
  then show ?case by - (rule exI [of _ "[]"], rule exI [of _ m], rule exI [of _ nl_char], rule exI [of _ rest], cases m, auto)
next
  case (Cons d l)
  show ?case
  proof (cases "m \<noteq> [] \<and> hd m = d")
    case False
    then show ?thesis using Cons.prems
      by - (rule exI [of _ "[]"], rule exI [of _ m], rule exI [of _ d], rule exI [of _ "l @ nl_char # rest"], auto)
  next
    case True
    then obtain n where n: "m = d # n" by (cases m) auto
    have "l \<noteq> n" "nl_char \<notin> set l" "nul \<notin> set l" "nl_char \<notin> set n" "nul \<notin> set n"
      using Cons.prems n by auto
    from Cons.IH [OF this] obtain p m' c k l' where "n = p @ m'" "match_marker n (l @ nl_char # rest) = (m', Some c, k)" "c \<noteq> nul"
        "\<not> (m' = [] \<and> c = nl_char)" "l = p @ l'" "c # k = l' @ nl_char # rest"
      by blast
    then show ?thesis using Cons.prems
      by - (rule exI [of _ "d # p"], rule exI [of _ m'], rule exI [of _ c], rule exI [of _ k], auto simp: n)
  qed
qed

lemma scan_plain: "quoted \<or> CHR ''$'' \<notin> set p \<Longrightarrow> scan quoted (p @ z) buf ts = scan quoted z (buf @ p) ts"
  by (induction p arbitrary: buf) (auto simp: scan.simps(2))

definition lines_text :: "string list \<Rightarrow> string" where
  "lines_text ls = concat (map (\<lambda>l. l @ [nl_char]) ls)"

definition line_ok :: "string \<Rightarrow> string \<Rightarrow> bool" where
  "line_ok eof l \<longleftrightarrow> l \<noteq> eof \<and> nl_char \<notin> set l \<and> nul \<notin> set l"

definition final :: "string \<times> tree list \<Rightarrow> tree list" where
  "final r = (case r of (buf, ts) \<Rightarrow> if buf = [] \<and> ts \<noteq> [] then ts else ts @ [nQword buf])"

lemma here_lines_scan:
  assumes "quoted \<or> CHR ''$'' \<notin> set eof" "nl_char \<notin> set eof" "nul \<notin> set eof" "list_all (line_ok eof) ls"
  shows "here_lines eof quoted (lines_text ls @ eof @ nl_char # rest) buf ts n ps =
    Ok (HDone (final (scan quoted (lines_text ls) buf ts)), rest, n + length ls + 1, ps)"
  using assms(4)
proof (induction ls arbitrary: buf ts n)
  case Nil
  then show ?case using match_marker_found [OF assms(3)]
    by (subst here_lines.simps) (simp add: lines_text_def final_def)
next
  case (Cons l ls)
  let ?more = "lines_text ls @ eof @ nl_char # rest"
  have l: "l \<noteq> eof" "nl_char \<notin> set l" "nul \<notin> set l" using Cons.prems by (auto simp: line_ok_def)
  obtain p m' c k l' where m: "eof = p @ m'" "match_marker eof (l @ nl_char # ?more) = (m', Some c, k)" "c \<noteq> nul"
      "\<not> (m' = [] \<and> c = nl_char)" "l = p @ l'" "c # k = l' @ nl_char # ?more"
    using match_marker_line [OF l assms(2,3), of ?more] by blast
  obtain b t where s: "scan quoted (l' @ [nl_char]) (buf @ p) ts = (b, t)" by fastforce
  have take: "take (length eof - length m') eof = p" by (simp add: m(1))
  have pre: "quoted \<or> CHR ''$'' \<notin> set p" using assms(1) m(1) by auto
  have "here_rest quoted (c # k) (buf @ p) ts ps = Ok (HLine b t, ?more, ps)"
    using here_line_scan [of l' quoted ?more "buf @ p" ts ps] l m(5) s unfolding m(6) by simp
  then have "here_line quoted (Some c) k (buf @ p) ts ps = Ok (HLine b t, ?more, ps)" by (simp only: here_rest_Cons)
  then have "here_lines eof quoted (l @ nl_char # ?more) buf ts n ps = here_lines eof quoted ?more b t (Suc n) ps"
    using m(3,4) take
    by (subst here_lines.simps [of eof quoted "l @ nl_char # ?more"]) (simp only: m(2) Let_def case_prod_conv, auto)
  moreover have "scan quoted (l @ nl_char # lines_text ls) buf ts = scan quoted (lines_text ls) b t"
    using scan_lines [of quoted l' "lines_text ls" "buf @ p" ts] s scan_plain [OF pre, of "l' @ nl_char # lines_text ls"]
    by (simp add: m(5))
  ultimately show ?case using Cons by (simp add: lines_text_def)
qed

text \<open>A document as it is written: text, in which a dollar is doubled, and variables.\<close>

datatype piece = Txt string | Ref string

fun render :: "piece \<Rightarrow> string" where
  "render (Txt s) = concat (map (\<lambda>c. if c = CHR ''$'' then ''$$'' else [c]) s)"
| "render (Ref u) = CHR ''$'' # u @ ''^''"

fun piece_tree :: "piece \<Rightarrow> tree" where
  "piece_tree (Txt s) = nQword s"
| "piece_tree (Ref u) = var_tree u"

fun separate :: "piece list \<Rightarrow> bool" where
  "separate [] = True"
| "separate (Txt s # ps) = (s \<noteq> [] \<and> (case ps of Txt t # _ \<Rightarrow> False | _ \<Rightarrow> True) \<and> separate ps)"
| "separate (Ref u # ps) = (list_all (\<lambda>c. \<not> dollar_non_word c) u \<and> separate ps)"

lemma scan_text: "scan False (render (Txt s) @ z) buf ts = scan False z (buf @ s) ts"
proof (induction s arbitrary: buf)
  case (Cons c s)
  then show ?case
    by (cases "c = CHR ''$''") (simp_all add: scan.simps(2) getc_def)
qed simp

lemma dollar_ends: "dollar_non_word (CHR ''$'')" "dollar_non_word (CHR ''^'')"
  by (simp_all add: dollar_non_word_def isalnum_def isalpha_def isdigit_def isupper_def islower_def uchar_def)

lemma here_name_word: "list_all (\<lambda>c. \<not> dollar_non_word c) u \<Longrightarrow> here_name (u @ CHR ''^'' # z) = Some (u, CHR ''^'' # z)"
  by (induction u) (auto simp: dollar_ends)

lemma scan_ref:
  assumes "list_all (\<lambda>c. \<not> dollar_non_word c) u"
  shows "scan False (render (Ref u) @ z) buf ts =
    scan False z [] ((if buf = [] then ts else ts @ [nQword buf]) @ [var_tree u])"
proof -
  have "fst (getc (u @ CHR ''^'' # z)) \<noteq> Some (CHR ''$'')"
    using assms by (cases u) (auto simp: getc_def dollar_ends)
  then show ?thesis using here_name_word [OF assms, of z] by (simp add: scan.simps(2))
qed

lemma scan_pieces:
  assumes "separate ps" "buf = [] \<or> (case ps of Txt t # _ \<Rightarrow> False | _ \<Rightarrow> True)"
  shows "final (scan False (concat (map render ps)) buf ts) =
    (if buf = [] \<and> ts = [] \<and> ps = [] then [nQword []]
     else (if buf = [] then ts else ts @ [nQword buf]) @ map piece_tree ps)"
  using assms
proof (induction ps arbitrary: buf ts)
  case (Cons p ps)
  show ?case
  proof (cases p)
    case (Txt s)
    have "final (scan False (concat (map render (p # ps))) buf ts) = final (scan False (concat (map render ps)) s ts)"
      using Cons.prems scan_text [of s "concat (map render ps)" buf ts] by (simp add: Txt)
    also have "\<dots> = ts @ map piece_tree (p # ps)"
      using Cons.prems Cons.IH [of s ts] by (auto simp: Txt)
    finally show ?thesis using Cons.prems by (simp add: Txt)
  next
    case (Ref u)
    then show ?thesis using Cons scan_ref [of u "concat (map render ps)" buf ts] by simp
  qed
qed (simp add: final_def)

lemma scan_quoted: "scan True s buf ts = (buf @ s, ts)"
  using scan_plain [of True s "[]"] by simp

lemma prompts_fields: "inp (prompts n lx) = inp lx \<and> lineno (prompts n lx) = lineno lx + int n"
  by (induction n arbitrary: lx) (simp_all add: print_prompt2_def)

text \<open>What \<open>snarfheredoc\<close> does with a document that is complete.\<close>

lemma snarf_lines:
  assumes "quoted \<or> CHR ''$'' \<notin> set eof" "nl_char \<notin> set eof" "nul \<notin> set eof" "list_all (line_ok eof) ls"
    "inp (scanner rd) = lines_text ls @ eof @ nl_char # rest"
  shows "\<exists>lx. snarfheredoc eof quoted rd =
      Ok (Some (case final (scan quoted (lines_text ls) [] []) of [t] \<Rightarrow> t | ts \<Rightarrow> foldr nList ts TNull),
          rd\<lparr>scanner := lx, heredoc_input := False\<rparr>) \<and>
    inp lx = rest \<and> lineno lx = lineno (scanner rd) + int (length ls) + 1"
proof -
  have ne: "final (scan quoted (lines_text ls) [] []) \<noteq> []"
    by (auto simp: final_def split: prod.split)
  have "(if tl ts = [] then hd ts else foldr nList ts TNull) = (case ts of [t] \<Rightarrow> t | ts \<Rightarrow> foldr nList ts TNull)"
    if "ts \<noteq> []" for ts using that by (cases ts) (auto split: list.split)
  note one = this [OF ne]
  have "\<not> (\<not> quoted \<and> CHR ''$'' \<in> set eof)" using assms(1) by blast
  then show ?thesis
    using assms(2,5) here_lines_scan [OF assms(1-4), of rest "[]" "[]" 0 "heres rd"]
    by (intro exI [of _ "prompts (length ls + 1) ((scanner rd)\<lparr>inp := rest\<rparr>)"])
       (simp only: snarfheredoc_def one if_False obind.simps case_prod_conv Let_def herepart.case prompts_fields,
        simp add: prompts_fields)
qed

section \<open>Properties\<close>

text \<open>
  C36: reading a here document gives back what was written: the pieces of text, with single dollars, and
  the variables, in order; one piece stands alone, several make a list. The input goes on behind the line
  of the marker, and every line has been counted. No line of the document is the marker, which may be
  a prefix of a line.
\<close>

theorem heredoc_roundtrip:
  assumes "separate ps" and "ps \<noteq> []" and "concat (map render ps) = lines_text ls"
    and "list_all (line_ok eof) ls" and "list_all (\<lambda>c. c \<notin> {CHR ''$'', nl_char, nul}) eof"
    and "inp (scanner rd) = concat (map render ps) @ eof @ nl_char # rest"
  shows "\<exists>lx. snarfheredoc eof False rd =
      Ok (Some (case map piece_tree ps of [t] \<Rightarrow> t | ts \<Rightarrow> foldr nList ts TNull),
          rd\<lparr>scanner := lx, heredoc_input := False\<rparr>) \<and>
    inp lx = rest \<and> lineno lx = lineno (scanner rd) + int (length ls) + 1"
proof -
  have eof: "CHR ''$'' \<notin> set eof" "nl_char \<notin> set eof" "nul \<notin> set eof" using assms(5) by (auto simp: list_all_iff)
  have "final (scan False (lines_text ls) [] []) = map piece_tree ps"
    using scan_pieces [OF assms(1), of "[]" "[]"] assms(2,3) by simp
  then show ?thesis using snarf_lines [of False eof ls rd rest] eof assms(3,4,6) by simp
qed

text \<open>With a quoted marker the text is taken as it is.\<close>

lemma quoted_heredoc:
  assumes "list_all (line_ok eof) ls" "nl_char \<notin> set eof" "nul \<notin> set eof"
    "inp (scanner rd) = lines_text ls @ eof @ nl_char # rest"
  shows "\<exists>lx. snarfheredoc eof True rd =
      Ok (Some (nQword (lines_text ls)), rd\<lparr>scanner := lx, heredoc_input := False\<rparr>) \<and> inp lx = rest"
  using snarf_lines [of True eof ls rd rest] assms by (auto simp: scan_quoted final_def)

text \<open>
  With two here documents on one command the text that is written first goes to the second marker.
  With \<open>cat <<a <<b\<close> and the two texts in the order of their markers, as other shells take them, the
  document for \<open>b\<close> is the first text with the line of the marker \<open>a\<close> and the second text, and the
  document for \<open>a\<close> is what happens to come behind.
\<close>

theorem heredocs_read_in_reverse:
  assumes "is_nList cmd" "thunkable cmd" "hereq ps = []" and "a \<noteq> b"
    and "list_all (\<lambda>c. c \<notin> {CHR ''$'', nl_char, nul}) (a @ b)"
    and "list_all (\<lambda>l. line_ok a l \<and> line_ok b l \<and> CHR ''$'' \<notin> set l) (as @ bs @ rest)"
    and "inp lx = lines_text (as @ [a] @ bs @ [b] @ rest @ [a])"
  shows "\<exists>t ps' ma mb rd. obind (redirappend_all cmd [heredoc_redir a, heredoc_redir b]) (\<lambda>t. redirect t ps) = Ok (t, ps') \<and>
    CAR ma = nWord a \<and> CAR mb = nWord b \<and>
    readheredocs False \<lparr>scanner = lx, heres = ps', heredoc_input = False\<rparr> =
      Ok (True, [(mb, nQword (lines_text (as @ [a] @ bs))), (ma, nQword (lines_text rest))], rd)"
proof -
  obtain t ps' where q: "obind (redirappend_all cmd [heredoc_redir a, heredoc_redir b]) (\<lambda>t. redirect t ps) = Ok (t, ps')"
      "map CAR (hereq ps') = [nWord b, nWord a]"
    using redirect_queue [OF assms(1,2,3), of a b] by (elim exE conjE) (rule that; assumption)
  then obtain ma mb where m: "hereq ps' = [mb, ma]" "CAR ma = nWord a" "CAR mb = nWord b" by auto
  have plain: "scan False s [] [] = (s, [])" if "CHR ''$'' \<notin> set s" for s
    using scan_plain [of False s "[]" "[]" "[]"] that by simp
  have eof: "CHR ''$'' \<notin> set a" "nl_char \<notin> set a" "nul \<notin> set a" "CHR ''$'' \<notin> set b" "nl_char \<notin> set b" "nul \<notin> set b"
    using assms(5) by (auto simp: list_all_iff)
  have d: "CHR ''$'' \<notin> set (lines_text (as @ [a] @ bs))" "CHR ''$'' \<notin> set (lines_text rest)"
    using assms(6) eof(1) nl_ends_name(3) by (auto simp: lines_text_def list_all_iff simp del: nl_ends_name dest: sym)
  define rd0 where "rd0 = \<lparr>scanner = lx, heres = ps'\<lparr>hereq := [mb, ma]\<rparr>, heredoc_input = False\<rparr>"
  have okb: "list_all (line_ok b) (as @ [a] @ bs)" and oka: "list_all (line_ok a) rest"
    using assms(4,6) eof by (auto simp: list_all_iff line_ok_def)
  obtain lx1 where 1: "snarfheredoc b False rd0 =
      Ok (Some (nQword (lines_text (as @ [a] @ bs))), rd0\<lparr>scanner := lx1, heredoc_input := False\<rparr>)"
      "inp lx1 = lines_text (rest @ [a])"
    using snarf_lines [of False b "as @ [a] @ bs" rd0 "lines_text (rest @ [a])"] eof okb assms(7) plain [OF d(1)]
    by (auto simp: rd0_def lines_text_def final_def)
  let ?rd1 = "rd0\<lparr>scanner := lx1, heredoc_input := False, heres := (heres rd0)\<lparr>hereq := [ma]\<rparr>\<rparr>"
  obtain lx2 where 2: "snarfheredoc a False ?rd1 =
      Ok (Some (nQword (lines_text rest)), ?rd1\<lparr>scanner := lx2, heredoc_input := False\<rparr>)"
    using snarf_lines [of False a rest ?rd1 "[]"] eof oka 1(2) plain [OF d(2)]
    by (auto simp: lines_text_def final_def)
  show ?thesis using q(1) m(2,3) 1(1) 2
    by (auto simp: readheredocs_def m(1) rd0_def)
qed

section \<open>The theorems at work\<close>

text \<open>The document \<open>EO $x^y\<close> and a line with \<open>$$\<close>, with the marker \<open>EOF\<close>.\<close>

definition reading :: "string \<Rightarrow> reader" where
  "reading s = \<lparr>scanner = \<lparr>inp = s, w = STATE_NON_WORD, newline = True, goterror = False, dollar = False, lineno = 1,
     is_prompt2 = False, lexerr = None\<rparr>, heres = \<lparr>hereq = [], devfd_id = 0, perror = None\<rparr>, heredoc_input = False\<rparr>"

abbreviation doc_pieces :: "piece list" where
  "doc_pieces \<equiv> [Txt ''EO '', Ref ''x'', Txt (''y'' @ [nl_char] @ ''$'' @ [nl_char])]"

theorem heredoc_roundtrip_witness:
  "\<exists>lx. snarfheredoc ''EOF'' False (reading (concat (map render doc_pieces) @ ''EOF'' @ nl_char # ''ls'')) =
      Ok (Some (nList (nQword ''EO '') (nList (var_tree ''x'') (nList (nQword (''y'' @ [nl_char] @ ''$'' @ [nl_char])) TNull))),
        (reading (concat (map render doc_pieces) @ ''EOF'' @ nl_char # ''ls''))\<lparr>scanner := lx, heredoc_input := False\<rparr>) \<and>
    inp lx = ''ls'' \<and> lineno lx = 4"
proof -
  have "separate doc_pieces" "list_all (line_ok ''EOF'') [''EO $x^y'', ''$$'']"
      "list_all (\<lambda>c. c \<notin> {CHR ''$'', nl_char, nul}) ''EOF''"
      "concat (map render doc_pieces) = lines_text [''EO $x^y'', ''$$'']"
    by code_simp+
  note h = heredoc_roundtrip [OF this(1) _ this(4,2,3), of "reading (concat (map render doc_pieces) @ ''EOF'' @ nl_char # ''ls'')" "''ls''"]
  show ?thesis using h by (simp add: reading_def)
qed

theorem heredocs_read_in_reverse_witness:
  "\<exists>t ps' ma mb rd. obind (redirappend_all (nList (nWord ''cat'') TNull) [heredoc_redir ''a'', heredoc_redir ''b''])
      (\<lambda>t. redirect t \<lparr>hereq = [], devfd_id = 0, perror = None\<rparr>) = Ok (t, ps') \<and>
    CAR ma = nWord ''a'' \<and> CAR mb = nWord ''b'' \<and>
    readheredocs False \<lparr>scanner = scanner (reading (lines_text [''one'', ''a'', ''two'', ''b'', ''a''])), heres = ps', heredoc_input = False\<rparr> =
      Ok (True, [(mb, nQword (lines_text [''one'', ''a'', ''two''])), (ma, nQword [])], rd)"
proof -
  have "list_all (\<lambda>c. c \<notin> {CHR ''$'', nl_char, nul}) (''a'' @ ''b'')"
      "list_all (\<lambda>l. line_ok ''a'' l \<and> line_ok ''b'' l \<and> CHR ''$'' \<notin> set l) ([''one''] @ [''two''] @ [])"
    by code_simp+
  note h = heredocs_read_in_reverse [OF _ _ _ _ this, of "nList (nWord ''cat'') TNull" "\<lparr>hereq = [], devfd_id = 0, perror = None\<rparr>"
      "scanner (reading (lines_text [''one'', ''a'', ''two'', ''b'', ''a'']))"]
  show ?thesis using h by (simp add: reading_def thunkable_def lines_text_def)
qed

end
