(* ===== verification/Access.thy ===== *)
theory Access
  imports Opt
begin

text \<open>
  Access tests and path searching, \<open>src/access.c\<close>: the primitive \<open>$&access\<close>, which parses its options with
  \<open>Opt\<close>, and \<open>checkexecutable\<close>, on which evaluation relies. What the file system and the process say is
  a record: \<open>stat\<close> and \<open>lstat\<close> (with the value of \<open>errno\<close> when they fail), the effective user and group,
  the other groups and the messages of \<open>esstrerror\<close>. The bits of a mode are those of \<open><sys/stat.h>\<close>.
\<close>

section \<open>Permissions\<close>

unbundle bit_operations_syntax

record fstat =
  st_mode :: "32 word"
  st_uid :: int
  st_gid :: int

record access_env =
  stat :: "string \<Rightarrow> int + fstat"
  lstat :: "string \<Rightarrow> int + fstat"
  euid :: int
  egid :: int
  groups :: "int list"
  errmsg :: "int \<Rightarrow> string"

definition READ :: "32 word" where "READ = 4"
definition WRITE :: "32 word" where "WRITE = 2"
definition EXEC :: "32 word" where "EXEC = 1"

definition USER :: nat where "USER = 6"
definition GROUP :: nat where "GROUP = 3"
definition OTHER :: nat where "OTHER = 0"

definition S_IFMT :: "32 word" where "S_IFMT = 0xF000"
definition S_IFREG :: "32 word" where "S_IFREG = 0x8000"
definition S_IFDIR :: "32 word" where "S_IFDIR = 0x4000"
definition S_IFCHR :: "32 word" where "S_IFCHR = 0x2000"
definition S_IFBLK :: "32 word" where "S_IFBLK = 0x6000"
definition S_IFLNK :: "32 word" where "S_IFLNK = 0xA000"
definition S_IFSOCK :: "32 word" where "S_IFSOCK = 0xC000"
definition S_IFIFO :: "32 word" where "S_IFIFO = 0x1000"

definition ENOENT :: int where "ENOENT = 2"
definition EACCES :: int where "EACCES = 13"

definition ingroupset :: "access_env \<Rightarrow> int \<Rightarrow> bool" where
  "ingroupset E gid = list_ex (\<lambda>g. gid = g) (groups E)"

definition testperm :: "access_env \<Rightarrow> fstat \<Rightarrow> 32 word \<Rightarrow> int" where
  "testperm E st perm =
     (if perm = 0 then 0
      else let mask =
          (if euid E = 0
           then (push_bit USER perm OR push_bit GROUP perm) OR push_bit OTHER perm
           else push_bit
             (if euid E = st_uid st then USER
              else if egid E = st_gid st \<or> ingroupset E (st_gid st) then GROUP
              else OTHER) perm)
        in if st_mode st AND mask \<noteq> 0 then 0 else EACCES)"

definition testfile :: "access_env \<Rightarrow> string \<Rightarrow> 32 word \<Rightarrow> 32 word \<Rightarrow> int" where
  "testfile E path perm type =
     (case (if type = S_IFLNK then lstat E path else stat E path) of
        Inl errno \<Rightarrow> errno
      | Inr st \<Rightarrow>
          if type \<noteq> 0 \<and> st_mode st AND S_IFMT \<noteq> type then EACCES
          else testperm E st perm)"

definition checkexecutable :: "access_env \<Rightarrow> string \<Rightarrow> string option" where
  "checkexecutable E file =
     (let err = testfile E file EXEC S_IFREG in if err = 0 then None else Some (errmsg E err))"

text \<open>A prefix without a character behind which the slash could be is returned before.\<close>

definition pathcat :: "string \<Rightarrow> string \<Rightarrow> string" where
  "pathcat prefix suffix =
     (if prefix = [] then suffix
      else if suffix = [] then prefix
      else prefix @ (if last prefix \<noteq> CHR ''/'' then ''/'' else []) @ suffix)"

section \<open>The primitive\<close>

record access_opts =
  aperm :: "32 word"
  atype :: "32 word"
  first :: bool
  exn :: bool
  asuffix :: "string option"

definition no_opts :: access_opts where
  "no_opts = \<lparr>aperm = 0, atype = 0, first = False, exn = False, asuffix = None\<rparr>"

text \<open>The cases of the \<open>switch\<close> that have no argument; \<^const>\<open>None\<close> is its default.\<close>

definition set_opt :: "char \<Rightarrow> access_opts \<Rightarrow> access_opts option" where
  "set_opt c a =
     (if c = CHR ''1'' then Some (a\<lparr>first := True\<rparr>)
      else if c = CHR ''e'' then Some (a\<lparr>exn := True\<rparr>)
      else if c = CHR ''r'' then Some (a\<lparr>aperm := aperm a OR READ\<rparr>)
      else if c = CHR ''w'' then Some (a\<lparr>aperm := aperm a OR WRITE\<rparr>)
      else if c = CHR ''x'' then Some (a\<lparr>aperm := aperm a OR EXEC\<rparr>)
      else if c = CHR ''f'' then Some (a\<lparr>atype := S_IFREG\<rparr>)
      else if c = CHR ''d'' then Some (a\<lparr>atype := S_IFDIR\<rparr>)
      else if c = CHR ''c'' then Some (a\<lparr>atype := S_IFCHR\<rparr>)
      else if c = CHR ''b'' then Some (a\<lparr>atype := S_IFBLK\<rparr>)
      else if c = CHR ''l'' then Some (a\<lparr>atype := S_IFLNK\<rparr>)
      else if c = CHR ''s'' then Some (a\<lparr>atype := S_IFSOCK\<rparr>)
      else if c = CHR ''p'' then Some (a\<lparr>atype := S_IFIFO\<rparr>)
      else None)"

definition access_letters :: string where
  "access_letters = ''bcdefln:prswx1''"

definition access_usage :: string where
  "access_usage = ''access [-n name] [-1e] [-rwx] [-fdcblsp] path ...''"

text \<open>The loop over the options; with no fuel left the result is \<^const>\<open>None\<close>.\<close>

fun access_options ::
  "nat \<Rightarrow> (es_term \<Rightarrow> string) \<Rightarrow> access_opts \<Rightarrow> optstate \<Rightarrow> (access_opts outcome \<times> optstate) option" where
  "access_options 0 gs a st = None"
| "access_options (Suc n) gs a st =
     (case esopt gs access_letters st of
        (Ok None, st) \<Rightarrow> Some (Ok a, st)
      | (Ok (Some c), st) \<Rightarrow>
          if c = CHR ''n'' then
            (case esoptarg st of
               (Ok t, st) \<Rightarrow> access_options n gs (a\<lparr>asuffix := Some (gs t)\<rparr>) st
             | (Throw e, st) \<Rightarrow> Some (Throw e, st) | (Abort, st) \<Rightarrow> Some (Abort, st) | (Undef, st) \<Rightarrow> Some (Undef, st))
          else (case set_opt c a of
              Some a \<Rightarrow> access_options n gs a st
            | None \<Rightarrow> Some (Throw (fail_exn ''$&access'' (''access -'' @ [c] @ '' is not supported on this system'')),
                snd (esoptend st)))
      | (Throw e, st) \<Rightarrow> Some (Throw e, st) | (Abort, st) \<Rightarrow> Some (Abort, st) | (Undef, st) \<Rightarrow> Some (Undef, st))"

text \<open>The loop over the paths: the list that is built in reverse and the error for \<open>-e\<close>, or the path found.\<close>

fun access_loop :: "access_env \<Rightarrow> access_opts \<Rightarrow> string list \<Rightarrow> string list \<Rightarrow> int \<Rightarrow> string + string list \<times> int" where
  "access_loop E a [] lp estatus = Inr (lp, estatus)"
| "access_loop E a (name # list) lp estatus =
     (let name = (case asuffix a of None \<Rightarrow> name | Some s \<Rightarrow> pathcat name s);
          err = testfile E name (aperm a) (atype a)
      in if first a then
           if err = 0 then Inl name
           else access_loop E a list lp (if err \<noteq> ENOENT then err else estatus)
         else access_loop E a list ((if err = 0 then ''0'' else errmsg E err) # lp) estatus)"

definition access_paths :: "access_env \<Rightarrow> access_opts \<Rightarrow> string list \<Rightarrow> terms outcome" where
  "access_paths E a list =
     (case access_loop E a list [] ENOENT of
        Inl name \<Rightarrow> Ok [Str name]
      | Inr (lp, estatus) \<Rightarrow>
          if first a \<and> exn a then
            (case asuffix a of
               Some s \<Rightarrow> Throw (fail_exn ''$&access'' (s @ '': '' @ errmsg E estatus))
             | None \<Rightarrow> Throw (fail_exn ''$&access'' (errmsg E estatus)))
          else Ok (map Str (rev lp)))"

definition prim_access ::
  "nat \<Rightarrow> access_env \<Rightarrow> (es_term \<Rightarrow> string) \<Rightarrow> terms \<Rightarrow> optstate \<Rightarrow> (terms outcome \<times> optstate) option" where
  "prim_access n E gs list st =
     (case esoptbegin list ''$&access'' access_usage st of
        (Ok _, st) \<Rightarrow>
          (case access_options n gs no_opts st of
             None \<Rightarrow> None
           | Some (Ok a, st) \<Rightarrow>
               (case esoptend st of (list, st) \<Rightarrow> Some (access_paths E a (map gs list), st))
           | Some (Throw e, st) \<Rightarrow> Some (Throw e, st) | Some (Abort, st) \<Rightarrow> Some (Abort, st)
           | Some (Undef, st) \<Rightarrow> Some (Undef, st))
      | (Throw e, st) \<Rightarrow> Some (Throw e, st) | (Abort, st) \<Rightarrow> Some (Abort, st) | (Undef, st) \<Rightarrow> Some (Undef, st))"

section \<open>What a test means\<close>

text \<open>The paths as they are tested, and the specification of the two ways to ask.\<close>

definition full_path :: "access_opts \<Rightarrow> string \<Rightarrow> string" where
  "full_path a name = (case asuffix a of None \<Rightarrow> name | Some s \<Rightarrow> pathcat name s)"

definition test :: "access_env \<Rightarrow> access_opts \<Rightarrow> string \<Rightarrow> int" where
  "test E a name = testfile E (full_path a name) (aperm a) (atype a)"

definition report :: "access_env \<Rightarrow> int \<Rightarrow> string" where
  "report E err = (if err = 0 then ''0'' else errmsg E err)"

lemma access_loop_Cons:
  "access_loop E a (name # names) lp e =
     (if first a then
        if test E a name = 0 then Inl (full_path a name)
        else access_loop E a names lp (if test E a name \<noteq> ENOENT then test E a name else e)
      else access_loop E a names (report E (test E a name) # lp) e)"
  by (cases "asuffix a") (simp_all add: Let_def test_def full_path_def report_def)

declare access_loop.simps(2) [simp del]

lemma access_loop_all: "\<not> first a \<Longrightarrow>
    access_loop E a names lp e = Inr (rev (map (\<lambda>name. report E (test E a name)) names) @ lp, e)"
  by (induction names arbitrary: lp) (simp_all add: access_loop_Cons)

lemma access_loop_first: "first a \<Longrightarrow>
    access_loop E a names lp e =
      (case find (\<lambda>name. test E a name = 0) names of
         Some name \<Rightarrow> Inl (full_path a name)
       | None \<Rightarrow> Inr (lp, last (e # filter (\<lambda>err. err \<noteq> ENOENT) (map (test E a) names))))"
  by (induction names arbitrary: e) (auto simp: access_loop_Cons split: option.split)

text \<open>The answer of \<open>access\<close> for options and paths.\<close>

definition answer :: "access_env \<Rightarrow> access_opts \<Rightarrow> string list \<Rightarrow> terms outcome" where
  "answer E a names =
     (if \<not> first a then Ok (map (\<lambda>name. Str (report E (test E a name))) names)
      else case find (\<lambda>name. test E a name = 0) names of
          Some name \<Rightarrow> Ok [Str (full_path a name)]
        | None \<Rightarrow>
            if exn a then
              Throw (fail_exn ''$&access'' ((case asuffix a of None \<Rightarrow> [] | Some s \<Rightarrow> s @ '': '') @
                errmsg E (last (ENOENT # filter (\<lambda>err. err \<noteq> ENOENT) (map (test E a) names)))))
            else Ok [])"

lemma access_paths_answer: "access_paths E a names = answer E a names"
  by (auto simp: access_paths_def answer_def access_loop_all access_loop_first rev_map comp_def split: option.split)

text \<open>Of the options of \<open>access\<close> only \<open>n\<close> has an argument.\<close>

lemma access_letter:
  assumes "strchr_nul access_letters c = Some i" "c \<noteq> nul"
  shows "char_at access_letters (i + 1) = Some (CHR '':'') \<longleftrightarrow> c = CHR ''n''"
proof -
  have i: "i < length access_letters" "access_letters ! i = c"
    using assms by (auto simp: strchr_nul_def strchr_Some)
  have "list_all (\<lambda>i. (char_at access_letters (i + 1) = Some (CHR '':'')) = (access_letters ! i = CHR ''n'')) [0..<length access_letters]"
    by code_simp
  then show ?thesis using i by (auto simp: list_all_iff)
qed

lemma esopt_char_arg:
  assumes "esopt_char gs access_letters arg st = (Ok (Some c), st')" "termarg st = None" "c \<noteq> nul"
  shows "termarg st' \<noteq> None \<longleftrightarrow> c = CHR ''n''"
  using assms(1,2) access_letter [OF _ assms(3)]
  by (auto simp: esopt_char_def Let_def split: option.splits if_splits)

lemma esopt_arg:
  assumes "esopt gs access_letters st = (Ok (Some c), st')" "c \<noteq> nul"
  shows "termarg st' \<noteq> None \<longleftrightarrow> c = CHR ''n''"
  using assms esopt_char_arg [OF _ _ assms(2)]
  by (fastforce simp: esopt_def Let_def split: if_splits list.splits)

lemma access_options_total:
  assumes "opt_inv gs st" "no_dash gs st" "opt_left gs st < n"
  shows "\<exists>r st'. access_options n gs a st = Some (r, st') \<and>
    ((\<exists>a. r = Ok a) \<and> set (args st') \<subseteq> set (args st) \<or> (\<exists>e. r = Throw e))"
  using assms
proof (induction n arbitrary: st a)
  case (Suc n)
  obtain out st1 where run: "esopt gs access_letters st = (out, st1)" by (cases "esopt gs access_letters st")
  consider "out = Ok None" "opt_inv gs st1"
    | c where "out = Ok (Some c)" "opt_inv gs (st1\<lparr>termarg := None\<rparr>)" "opt_left gs st1 < opt_left gs st"
        "set (args st1) \<subseteq> set (args st)" "c \<in> set access_letters"
    | m where "out = Throw (fail_exn (invoker st) m)"
    using esopt_ok [OF Suc.prems(1,2) run] by blast
  then show ?case
  proof cases
    case 1
    have "set (args st1) \<subseteq> set (args st)" using run 1 by (auto simp: esopt_def Let_def esopt_char_def split: if_splits list.splits option.splits)
    then show ?thesis using run 1 by simp
  next
    case (2 c)
    let ?st = "st1\<lparr>termarg := None\<rparr>"
    have n: "no_dash gs ?st" "opt_left gs ?st < n"
      using 2(3,4) Suc.prems(2,3) by (auto simp: no_dash_def opt_left_def)
    have c: "c \<noteq> nul" using 2(5) by (auto simp: access_letters_def nul_def)
    note IH = Suc.IH [OF 2(2) n]
    have arg: "c = CHR ''n'' \<Longrightarrow> termarg st1 \<noteq> None" "c \<noteq> CHR ''n'' \<Longrightarrow> ?st = st1"
      using esopt_arg [of gs st c st1] run 2(1) c by auto
    show ?thesis
    proof (cases "c = CHR ''n''")
      case True
      then obtain t where "esoptarg st1 = (Ok t, ?st)" using arg(1) by (auto simp: esoptarg_def)
      then show ?thesis using IH [of "a\<lparr>asuffix := Some (gs t)\<rparr>"] run 2(1,4) True by fastforce
    next
      case False
      then show ?thesis using IH [of "the (set_opt c a)"] run 2(1,4) arg(2)
        by (cases "set_opt c a") auto
    qed
  qed (use run in auto)
qed simp

lemma access_begin: "usage st = None \<Longrightarrow> \<exists>st1. esoptbegin list caller msg st = (Ok (), st1) \<and>
    opt_left gs st1 = (\<Sum>t\<leftarrow>list. Suc (length (gs t))) \<and> opt_inv gs st1 \<and> args st1 = list"
  by (simp add: esoptbegin_def opt_left_def opt_inv_def)

section \<open>Properties\<close>

text \<open>
  \<open>access\<close> answers. Called while no other primitive parses options, with arguments that are C strings
  and not a lone dash, it ends, with an exception for bad options or the answer for the options and
  paths it found: for each path 0 or the message of the error, or with \<open>-1\<close> the first path that passes,
  and if there is none the empty list or, with \<open>-e\<close>, an exception with the last error that was not a
  missing file. After the answer the parser of options is idle again.
\<close>

theorem access_answers:
  assumes "usage st = None" and "\<forall>t \<in> set list. gs t \<noteq> ''-'' \<and> cstring (gs t)"
    and "(\<Sum>t\<leftarrow>list. Suc (length (gs t))) < n"
  shows "case access_options n gs no_opts (snd (esoptbegin list ''$&access'' access_usage st)) of
      Some (Ok a, st') \<Rightarrow> set (args st') \<subseteq> set list \<and>
        prim_access n E gs list st = Some (answer E a (map gs (args st')), st'\<lparr>args := [], usage := None\<rparr>)
    | Some (Throw e, st') \<Rightarrow> prim_access n E gs list st = Some (Throw e, st')
    | _ \<Rightarrow> False"
proof -
  obtain st1 where b: "esoptbegin list ''$&access'' access_usage st = (Ok (), st1)"
      "opt_left gs st1 < n" "opt_inv gs st1" "args st1 = list"
    using access_begin [OF assms(1)] assms(3) by metis
  have "no_dash gs st1" using assms(2) b(4) by (simp add: no_dash_def)
  then obtain r st2 where r: "access_options n gs no_opts st1 = Some (r, st2)"
      "(\<exists>a. r = Ok a) \<and> set (args st2) \<subseteq> set list \<or> (\<exists>e. r = Throw e)"
    using access_options_total [OF b(3) _ b(2)] b(4) by metis
  then show ?thesis
    by (auto simp: prim_access_def b(1) esoptend_def access_paths_answer)
qed

text \<open>
  Permissions that are asked for together are alternatives. \<open>testperm\<close> tests all their bits with one
  mask, so that \<open>access -rw\<close> passes for a file that can be read but not written.
\<close>

theorem permissions_are_alternatives:
  assumes "p \<noteq> 0" and "q \<noteq> 0"
  shows "testperm E st (p OR q) = 0 \<longleftrightarrow> testperm E st p = 0 \<or> testperm E st q = 0"
proof -
  have or: "p OR q \<noteq> 0" using assms by (simp add: or_eq_0_iff)
  have push: "push_bit n (p OR q) = push_bit n p OR push_bit n q" for n by simp
  have dist: "m AND (a OR b) \<noteq> 0 \<longleftrightarrow> m AND a \<noteq> 0 \<or> m AND b \<noteq> 0" for m a b :: "32 word"
    by (simp add: bit.conj_disj_distrib or_eq_0_iff)
  show ?thesis using assms or
    by (auto simp: testperm_def Let_def push dist EACCES_def)
qed

theorem permissions_are_alternatives_witness:
  "testperm \<lparr>stat = (\<lambda>s. Inl 2), lstat = (\<lambda>s. Inl 2), euid = 7, egid = 7, groups = [], errmsg = (\<lambda>n. [])\<rparr>
     \<lparr>st_mode = 0x8124, st_uid = 7, st_gid = 7\<rparr> (READ OR WRITE) = 0"
proof -
  let ?E = "\<lparr>stat = (\<lambda>s. Inl 2), lstat = (\<lambda>s. Inl 2), euid = 7, egid = 7, groups = [], errmsg = (\<lambda>n. [])\<rparr>"
    and ?f = "\<lparr>st_mode = 0x8124, st_uid = 7, st_gid = 7\<rparr>"
  have "testperm ?E ?f READ = 0" by code_simp
  moreover have "READ \<noteq> 0" "WRITE \<noteq> 0" by (simp_all add: READ_def WRITE_def)
  ultimately show ?thesis using permissions_are_alternatives [of READ WRITE ?E ?f] by blast
qed

text \<open>A file system with one directory \<open>/bin\<close> that holds a program \<open>ls\<close>.\<close>

definition one_file :: access_env where
  "one_file = \<lparr>stat = (\<lambda>s. if s = ''/bin/ls'' then Inr \<lparr>st_mode = 0x81ED, st_uid = 0, st_gid = 0\<rparr> else Inl ENOENT),
     lstat = (\<lambda>s. Inl ENOENT), euid = 7, egid = 7, groups = [], errmsg = (\<lambda>n. ''no'')\<rparr>"

theorem access_answers_witness:
  "\<exists>st. prim_access 40 one_file plain_str [Str ''-n'', Str ''ls'', Str ''-1x'', Str ''/usr'', Str ''/bin''] opt_idle =
     Some (Ok [Str ''/bin/ls''], st)"
proof -
  let ?l = "[Str ''-n'', Str ''ls'', Str ''-1x'', Str ''/usr'', Str ''/bin'']"
  have "(case prim_access 40 one_file plain_str ?l opt_idle of Some (r, st) \<Rightarrow> r = Ok [Str ''/bin/ls''] | None \<Rightarrow> False)"
    by code_simp
  moreover have "usage opt_idle = None" "\<forall>t \<in> set ?l. plain_str t \<noteq> ''-'' \<and> cstring (plain_str t)"
      "(\<Sum>t\<leftarrow>?l. Suc (length (plain_str t))) < 40"
    by (simp_all add: opt_idle_def plain_str_def nul_def)
  moreover note access_answers [OF this, of one_file]
  ultimately show ?thesis by (auto split: option.splits prod.splits outcome_of.splits)
qed

end
