(* ===== verification/Limits.thy ===== *)
theory Limits
  imports Values
begin

text \<open>
  Resource limits and the file mask, the primitives \<open>$&limit\<close> and \<open>$&umask\<close> of \<open>src/prim-sys.cpp\<close>. A
  \<open>rlim_t\<close> is an unsigned 64-bit word; \<open>print\<close> takes its argument for \<open>%d\<close> as an \<open>int\<close>, the low 32 bits.
  The table is the one that the preprocessor leaves on Linux, with the resource numbers of
  \<open><sys/resource.h>\<close>. What the primitives print is the text that they return with the state.
\<close>

section \<open>Tables\<close>

datatype suffixes = Sizesuf | Timesuf | Nosuf

fun chain_of :: "suffixes \<Rightarrow> (string \<times> int) list" where
  "chain_of Sizesuf = [(''g'', 1024 * 1024 * 1024), (''m'', 1024 * 1024), (''k'', 1024)]"
| "chain_of Timesuf = [(''h'', 60 * 60), (''m'', 60), (''s'', 1)]"
| "chain_of Nosuf = []"

record limit =
  lname :: string
  lflag :: nat
  suffix :: suffixes

definition RLIMIT_CPU :: nat where "RLIMIT_CPU = 0"
definition RLIMIT_FSIZE :: nat where "RLIMIT_FSIZE = 1"
definition RLIMIT_DATA :: nat where "RLIMIT_DATA = 2"
definition RLIMIT_STACK :: nat where "RLIMIT_STACK = 3"
definition RLIMIT_CORE :: nat where "RLIMIT_CORE = 4"
definition RLIMIT_RSS :: nat where "RLIMIT_RSS = 5"
definition RLIMIT_NPROC :: nat where "RLIMIT_NPROC = 6"
definition RLIMIT_NOFILE :: nat where "RLIMIT_NOFILE = 7"
definition RLIMIT_MEMLOCK :: nat where "RLIMIT_MEMLOCK = 8"
definition RLIMIT_AS :: nat where "RLIMIT_AS = 9"
definition RLIMIT_SIGPENDING :: nat where "RLIMIT_SIGPENDING = 11"
definition RLIMIT_MSGQUEUE :: nat where "RLIMIT_MSGQUEUE = 12"
definition RLIMIT_NICE :: nat where "RLIMIT_NICE = 13"
definition RLIMIT_RTPRIO :: nat where "RLIMIT_RTPRIO = 14"
definition RLIMIT_RTTIME :: nat where "RLIMIT_RTTIME = 15"

definition RLIM_INFINITY :: "64 word" where "RLIM_INFINITY = - 1"

definition limits :: "limit list" where
  "limits =
    [\<lparr>lname = ''cputime'', lflag = RLIMIT_CPU, suffix = Timesuf\<rparr>,
     \<lparr>lname = ''filesize'', lflag = RLIMIT_FSIZE, suffix = Sizesuf\<rparr>,
     \<lparr>lname = ''datasize'', lflag = RLIMIT_DATA, suffix = Sizesuf\<rparr>,
     \<lparr>lname = ''stacksize'', lflag = RLIMIT_STACK, suffix = Sizesuf\<rparr>,
     \<lparr>lname = ''coredumpsize'', lflag = RLIMIT_CORE, suffix = Sizesuf\<rparr>,
     \<lparr>lname = ''memoryuse'', lflag = RLIMIT_RSS, suffix = Sizesuf\<rparr>,
     \<lparr>lname = ''virtualsize'', lflag = RLIMIT_AS, suffix = Sizesuf\<rparr>,
     \<lparr>lname = ''lockedmemory'', lflag = RLIMIT_CORE, suffix = Sizesuf\<rparr>,
     \<lparr>lname = ''descriptors'', lflag = RLIMIT_NOFILE, suffix = Nosuf\<rparr>,
     \<lparr>lname = ''processes'', lflag = RLIMIT_NPROC, suffix = Nosuf\<rparr>,
     \<lparr>lname = ''msgqueuesize'', lflag = RLIMIT_MSGQUEUE, suffix = Sizesuf\<rparr>,
     \<lparr>lname = ''nicelimit'', lflag = RLIMIT_NICE, suffix = Nosuf\<rparr>,
     \<lparr>lname = ''rtpriolimit'', lflag = RLIMIT_RTPRIO, suffix = Nosuf\<rparr>,
     \<lparr>lname = ''rtrunlimit'', lflag = RLIMIT_RTTIME, suffix = Nosuf\<rparr>,
     \<lparr>lname = ''sigqlimit'', lflag = RLIMIT_SIGPENDING, suffix = Nosuf\<rparr>]"

section \<open>Printing and parsing\<close>

text \<open>The loop of \<open>printlimit\<close>: the number that is left and the suffix, if one was found.\<close>

fun scale :: "(string \<times> int) list \<Rightarrow> int \<Rightarrow> int \<times> string option" where
  "scale [] lim = (lim, None)"
| "scale ((name, amount) # suf) lim =
     (if lim mod amount = 0 \<and> (lim \<noteq> 0 \<or> amount > 1) then (lim div amount, Some name) else scale suf lim)"

definition limit_value :: "limit \<Rightarrow> 64 word \<Rightarrow> string" where
  "limit_value l lim =
     (if lim = RLIM_INFINITY then ''unlimited''
      else let (n, suf) = scale (chain_of (suffix l)) (uint lim) in
        show_int (int_of_long n) @ (case suf of None \<Rightarrow> [] | Some name \<Rightarrow> if n = 0 then [] else name))"

definition printlimit :: "limit \<Rightarrow> 64 word \<times> 64 word \<Rightarrow> bool \<Rightarrow> string" where
  "printlimit l rlim hard =
     lname l @ replicate (8 - length (lname l)) (CHR '' '') @ [CHR 0x09] @
     limit_value l (if hard then snd rlim else fst rlim) @ [CHR 0x0A]"

definition bad_limit :: "limit \<Rightarrow> string \<Rightarrow> 64 word outcome" where
  "bad_limit l s = Throw (fail_exn ''$&limit'' (lname l @ '' '' @ s @ '': bad limit value''))"

text \<open>Hours, minutes and seconds; \<open>strtol\<close> times 60 is computed in a signed \<open>long\<close>.\<close>

definition parse_time :: "limit \<Rightarrow> string \<Rightarrow> nat \<Rightarrow> 64 word outcome" where
  "parse_time l s t =
     (let (n, u) = strtol_auto s in
      if sat64 (n * 60) \<noteq> n * 60 then Undef
      else if u \<noteq> drop t s then bad_limit l s
      else let lim = word_of_int (n * 60); (m, r) = strtol_auto (tl u); lim = lim + word_of_int m;
             (lim, r) = (if r \<noteq> [] \<and> hd r = CHR '':''
                         then let (k, r) = strtol_auto (tl r) in (lim * 60 + word_of_int k, r) else (lim, r))
           in if r \<noteq> [] then bad_limit l s else Ok lim)"

definition parselimit :: "limit \<Rightarrow> string \<Rightarrow> 64 word outcome" where
  "parselimit l s =
     (if s = ''unlimited'' then Ok RLIM_INFINITY
      else if s = [] \<or> \<not> isdigit (hd s) then Throw (fail_exn ''$&limit'' (s @ '': bad limit value''))
      else case (if suffix l = Timesuf then strchr s (CHR '':'') else None) of
          Some t \<Rightarrow> parse_time l s t
        | None \<Rightarrow>
            (let (n, t) = strtol_auto s in
             if t = [] then Ok (word_of_int n)
             else case map_of (chain_of (suffix l)) t of
                 None \<Rightarrow> bad_limit l s
               | Some amount \<Rightarrow> Ok (word_of_int n * word_of_int amount)))"

section \<open>The primitive\<close>

text \<open>The limits of the process, soft and hard, and whether \<open>setrlimit\<close> accepts a change.\<close>

record sys_env =
  setrlimit_error :: "nat \<Rightarrow> 64 word \<times> 64 word \<Rightarrow> string option"

record sys_state =
  rlimits :: "nat \<Rightarrow> 64 word \<times> 64 word"
  filemask :: "32 word"

text \<open>The search for a name: the entry without suffixes ends it before the names are compared.\<close>

fun find_limit :: "limit list \<Rightarrow> string \<Rightarrow> limit option" where
  "find_limit [] name = None"
| "find_limit (l # ls) name =
     (if suffix l = Nosuf then None else if name = lname l then Some l else find_limit ls name)"

definition prim_limit ::
  "sys_env \<Rightarrow> (es_term \<Rightarrow> string) \<Rightarrow> terms \<Rightarrow> sys_state \<Rightarrow> (terms \<times> string \<times> sys_state) outcome" where
  "prim_limit E gs list st =
     (let hard = (list \<noteq> [] \<and> gs (hd list) = ''-h''); list = (if hard then tl list else list) in
      case list of
        [] \<Rightarrow> Ok (ltrue, concat (map (\<lambda>l. printlimit l (rlimits st (lflag l)) hard) limits), st)
      | t # rest \<Rightarrow>
          (case find_limit limits (gs t) of
             None \<Rightarrow> Throw (fail_exn ''$&limit'' (gs t @ '': no such limit''))
           | Some l \<Rightarrow>
               (case rest of
                  [] \<Rightarrow> Ok (ltrue, printlimit l (rlimits st (lflag l)) hard, st)
                | v # _ \<Rightarrow>
                    obind (parselimit l (gs v)) (\<lambda>n.
                    let (cur, max) = rlimits st (lflag l);
                        rlim = (if hard then (cur, n) else (n, max)) in
                    case setrlimit_error E (lflag l) rlim of
                      Some err \<Rightarrow> Throw (fail_exn ''$&limit'' (''setrlimit: '' @ err))
                    | None \<Rightarrow> Ok (ltrue, [], st\<lparr>rlimits := (rlimits st)(lflag l := rlim)\<rparr>)))))"

definition octal4 :: "nat \<Rightarrow> string" where
  "octal4 n = map (\<lambda>k. char_of (48 + n div 8 ^ k mod 8)) [3, 2, 1, 0]"

definition prim_umask ::
  "(es_term \<Rightarrow> string) \<Rightarrow> terms \<Rightarrow> sys_state \<Rightarrow> (terms \<times> string \<times> sys_state) outcome" where
  "prim_umask gs list st =
     (case list of
        [] \<Rightarrow> Ok (ltrue, octal4 (unat (filemask st)) @ [CHR 0x0A], st)
      | [t] \<Rightarrow>
          let s = gs t; (n, r) = strtol 8 s; mask = (word_of_int n :: 32 word) in
          if r \<noteq> [] \<or> mask > 0xFFF then Throw (fail_exn ''$&umask'' (''bad umask: '' @ s))
          else Ok (ltrue, [], st\<lparr>filemask := mask\<rparr>)
      | _ \<Rightarrow> Throw (fail_exn ''$&umask'' ''usage: umask [mask]''))"

section \<open>Properties\<close>

lemma amounts: "(name, k) \<in> set (chain_of s) \<Longrightarrow> 0 < k \<and> map_of (chain_of s) name = Some k \<and> name \<noteq> [] \<and>
    list_all (\<lambda>c. \<not> isdigit c \<and> c \<notin> {CHR '':'', CHR ''x'', CHR ''X''} \<and> \<not> digit_val c < 16) name"
  by (cases s) (auto simp: isdigit_def islower_def isupper_def digit_val_def uchar_def)

lemma scale_exact: "scale suf lim = (n, r) \<Longrightarrow> \<forall>(name, k) \<in> set suf. 0 < k \<Longrightarrow>
    (case r of None \<Rightarrow> n = lim | Some name \<Rightarrow> \<exists>k. (name, k) \<in> set suf \<and> lim = n * k)"
proof (induction suf lim rule: scale.induct)
  case (2 name amount suf lim)
  show ?case
  proof (cases "lim mod amount = 0 \<and> (lim \<noteq> 0 \<or> amount > 1)")
    case True
    then have "n = lim div amount" "r = Some name" "lim = lim div amount * amount" using 2(2) by auto
    then show ?thesis by (intro option.case_eq_if [THEN iffD2]) auto
  next
    case False
    then have "case r of None \<Rightarrow> n = lim | Some name \<Rightarrow> \<exists>k. (name, k) \<in> set suf \<and> lim = n * k"
      using 2 by auto
    then show ?thesis by (auto split: option.splits)
  qed
qed simp

lemma strtol_auto_number:
  assumes "0 < n" "n < 2 ^ 63" "t = [] \<or> \<not> digit_val (hd t) < 16"
  shows "strtol_auto (show_nat n @ t) = (int n, t)"
proof -
  obtain c s where s: "show_nat n = c # s" by (cases "show_nat n") auto
  have d: "isdigit c" "c \<noteq> CHR ''0''" using show_nat_digits [of c n] show_nat_hd [of n] s assms(1) by auto
  note f = isdigit_facts [OF d(1)]
  have sg: "strtol_sign (c # s @ t) = (False, c # s @ t)" using f by (simp add: strtol_sign_def)
  have "digits_val 10 (int n) t = (int n, t)" using assms(3) by (cases t) auto
  then have v: "digits_val 10 0 (c # s @ t) = (int n, t)"
    using digits_val_append [OF digits_val_show_nat [of n], of t] s by simp
  have "sat64 (int n) = int n" using assms(2) by (simp add: sat64_def)
  then have "strtol 10 (c # s @ t) = (int n, t)"
    using f by (simp add: strtol_def sg v del: digits_val.simps)
  moreover have "take 2 (c # s @ t) \<noteq> ''0x''" "take 2 (c # s @ t) \<noteq> ''0X''" "take 1 (c # s @ t) \<noteq> ''0''"
    using d(2) by (cases "s @ t"; simp)+
  ultimately show ?thesis by (simp only: append_Cons strtol_auto_def sg s Let_def prod.case simp_thms if_False)
qed

lemma no_colon: "0 < n \<Longrightarrow> CHR '':'' \<notin> set t \<Longrightarrow> strchr (show_nat n @ t) (CHR '':'') = None"
  using show_nat_digits [of "CHR '':''" n] by (auto simp: strchr_None isdigit_def uchar_def)

lemma parselimit_number:
  assumes "0 < n" "n < 2 ^ 63" "t = [] \<or> (\<exists>k. (t, k) \<in> set (chain_of (suffix l)))"
  shows "parselimit l (show_nat n @ t) =
    Ok (word_of_int (int n) * (if t = [] then 1 else word_of_int (the (map_of (chain_of (suffix l)) t))))"
proof -
  have "t = [] \<or> list_all (\<lambda>c. c \<noteq> CHR '':'' \<and> \<not> digit_val c < 16) t"
    using assms(3) amounts [of t _ "suffix l"] by (auto simp: list_all_iff)
  then have t: "t = [] \<or> \<not> digit_val (hd t) < 16" "CHR '':'' \<notin> set t" by (cases t; auto simp: list_all_iff)+
  obtain c s where s: "show_nat n = c # s" by (cases "show_nat n") auto
  have c: "isdigit c" using show_nat_digits [of c n] s by simp
  then have "show_nat n @ t \<noteq> ''unlimited''" "show_nat n @ t \<noteq> []" "isdigit (hd (show_nat n @ t))"
    by (auto simp: s isdigit_def uchar_def)
  moreover have "(if suffix l = Timesuf then strchr (show_nat n @ t) (CHR '':'') else None) = None"
    using no_colon [OF assms(1) t(2)] by simp
  ultimately have p: "parselimit l (show_nat n @ t) =
      (if t = [] then Ok (word_of_int (int n)) else case map_of (chain_of (suffix l)) t of
          None \<Rightarrow> bad_limit l (show_nat n @ t)
        | Some amount \<Rightarrow> Ok (word_of_int (int n) * word_of_int amount))"
    by (simp add: parselimit_def strtol_auto_number [OF assms(1,2) t(1)])
  show ?thesis
  proof (cases "t = []")
    case False
    then obtain k where "(t, k) \<in> set (chain_of (suffix l))" using assms(3) by blast
    then show ?thesis using p False amounts [of t k "suffix l"] by simp
  qed (use p in simp)
qed

text \<open>
  What \<open>limit\<close> prints for a limit is a value that it accepts for the same limit, and it means the same,
  if the number that is printed, in the largest unit that divides it, is an \<open>int\<close>.
\<close>

theorem limit_roundtrip:
  assumes "lim = RLIM_INFINITY \<or> fst (scale (chain_of (suffix l)) (uint lim)) < 2 ^ 31"
  shows "parselimit l (limit_value l lim) = Ok lim"
proof (cases "lim = RLIM_INFINITY")
  case True
  then show ?thesis by (simp add: limit_value_def parselimit_def)
next
  case False
  obtain n suf where r: "scale (chain_of (suffix l)) (uint lim) = (n, suf)" by fastforce
  have n: "n < 2 ^ 31" using assms False r by simp
  have e: "case suf of None \<Rightarrow> n = uint lim | Some name \<Rightarrow> \<exists>k. (name, k) \<in> set (chain_of (suffix l)) \<and> uint lim = n * k"
    using scale_exact [OF r] amounts by fast
  have pos: "0 \<le> n"
  proof (cases suf)
    case (Some name)
    then obtain k where k: "0 < k" "uint lim = n * k" using e amounts by fastforce
    then show ?thesis by (metis uint_ge_0 zero_le_mult_iff not_less)
  qed (use e in simp)
  show ?thesis
  proof (cases "n = 0")
    case True
    then have "lim = 0" using e by (auto split: option.splits simp flip: uint_0_iff)
    moreover have z: "show_nat 0 = ''0''" by code_simp
    ultimately have "limit_value l lim = ''0''" using True r False
      by (simp add: limit_value_def show_int_def int_of_long_def z split: option.split)
    moreover have "strtol_auto ''0'' = (0, [])" by code_simp
    ultimately show ?thesis using \<open>lim = 0\<close> by (simp add: parselimit_def isdigit_def uchar_def)
  next
    case False
    define t where "t = (case suf of None \<Rightarrow> [] | Some name \<Rightarrow> name)"
    have i: "int_of_long n = n" using pos n
      by (simp add: int_of_long_def int_word_sint)
    have v: "limit_value l lim = show_nat (nat n) @ t"
      using r \<open>lim \<noteq> RLIM_INFINITY\<close> False pos i by (simp add: limit_value_def show_int_def t_def split: option.split)
    have p: "parselimit l (show_nat (nat n) @ t) =
        Ok (word_of_int (int (nat n)) * (if t = [] then 1 else word_of_int (the (map_of (chain_of (suffix l)) t))))"
    proof (rule parselimit_number)
      have "n < 2 ^ 63" using n by simp
      then show "0 < nat n" "nat n < 2 ^ 63" using pos False by (simp_all add: nat_less_iff)
      show "t = [] \<or> (\<exists>k. (t, k) \<in> set (chain_of (suffix l)))" using e by (auto simp: t_def split: option.splits)
    qed
    have "word_of_int n * (if t = [] then 1 else word_of_int (the (map_of (chain_of (suffix l)) t))) = lim"
    proof (cases suf)
      case None
      then show ?thesis using e by (simp add: t_def)
    next
      case (Some name)
      then obtain k where k: "(name, k) \<in> set (chain_of (suffix l))" "uint lim = n * k" using e by auto
      have "word_of_int n * word_of_int k = lim" using k(2) by (metis wi_hom_mult word_of_int_uint)
      then show ?thesis using amounts [OF k(1)] by (simp add: t_def Some)
    qed
    then show ?thesis using v p pos by simp
  qed
qed

theorem limit_roundtrip_witness:
  "parselimit \<lparr>lname = ''cputime'', lflag = 0, suffix = Timesuf\<rparr>
     (limit_value \<lparr>lname = ''cputime'', lflag = 0, suffix = Timesuf\<rparr> 5400) = Ok 5400"
  by (rule limit_roundtrip) code_simp

text \<open>
  The limits behind the first one without units cannot be named. The search ends at \<open>descriptors\<close>, before
  it compares names, so \<open>limit\<close> says that there is no such limit for each of them, although it prints
  them when it is called without a name.
\<close>

theorem limits_without_units_unreachable:
  assumes "l \<in> set (drop 8 limits)" and "gs t = lname l"
  shows "prim_limit E gs (t # rest) st = Throw (fail_exn ''$&limit'' (lname l @ '': no such limit''))"
  using assms by (auto simp: prim_limit_def limits_def)

theorem limits_without_units_unreachable_witness:
  "prim_limit \<lparr>setrlimit_error = (\<lambda>_ _. None)\<rparr> (\<lambda>t. ''descriptors'') [Str ''descriptors'', Str ''descriptors'']
     \<lparr>rlimits = (\<lambda>_. (0, 0)), filemask = 0\<rparr> =
     Throw (fail_exn ''$&limit'' ''descriptors: no such limit'')"
  using limits_without_units_unreachable [of "\<lparr>lname = ''descriptors'', lflag = RLIMIT_NOFILE, suffix = Nosuf\<rparr>"
      "\<lambda>t. ''descriptors''" "Str ''descriptors''" _ "[Str ''descriptors'']"]
  by (simp add: limits_def)

text \<open>The limit on locked memory is that on core files.\<close>

lemma lockedmemory_limits_core: "map_option lflag (find_limit limits ''lockedmemory'') = Some RLIMIT_CORE"
  by (simp add: limits_def)

end
