(* ===== verification/Signals.thy ===== *)
theory Signals
  imports Values
begin

text \<open>
  Signals, \<open>src/signal.c\<close>, and the primitives \<open>$&setsignals\<close> and \<open>$&newpgrp\<close> of \<open>src/prim-sys.cpp\<close>: the
  names of signals, their effects and what the kernel is told of them, the handler that notes a
  signal, its delivery as an exception, and the blocking of a signal in the kernel. The table of names,
  which the build generates, and whether \<open>sigaction\<close> accepts a signal are parameters.
\<close>

section \<open>State\<close>

datatype sigeffect = sig_nochange | sig_catch | sig_default | sig_ignore | sig_noop | sig_special

text \<open>What a signal does to the process: \<open>Handler\<close> is a function other than \<open>catcher\<close>.\<close>

datatype disposition = SIG_DFL | SIG_IGN | Catcher | Handler

definition NSIG :: nat where "NSIG = 65"
definition SIGINT :: nat where "SIGINT = 2"
definition SIGQUIT :: nat where "SIGQUIT = 3"
definition SIGTERM :: nat where "SIGTERM = 15"
definition SIGCHLD :: nat where "SIGCHLD = 17"
definition SIGTSTP :: nat where "SIGTSTP = 20"
definition SIGTTIN :: nat where "SIGTTIN = 21"
definition SIGTTOU :: nat where "SIGTTOU = 22"

text \<open>The arrays are lists of \<^const>\<open>NSIG\<close> elements; \<open>eprinted\<close> is what has been written to standard error.\<close>

record sigstate =
  caught :: "bool list"
  sigcount :: int
  sigeffects :: "sigeffect list"
  dispositions :: "disposition list"
  blocked :: int
  hasforked :: bool
  interrupted :: bool
  slow :: bool
  sigint_newline :: bool
  eprinted :: "string list"

record sigtable =
  signals :: "(nat \<times> string \<times> string) list"
  sigaction_ok :: "nat \<Rightarrow> bool"

type_synonym 'a sigrun = "(stop \<times> sigstate, 'a) outcome_of"

section \<open>Names\<close>

definition signumber :: "sigtable \<Rightarrow> string \<Rightarrow> int" where
  "signumber T name =
     (if \<not> hasprefix name ''sig'' then -1
      else case find (\<lambda>(sig, n, msg). n = name) (signals T) of
          Some (sig, n, msg) \<Rightarrow> int sig
        | None \<Rightarrow>
            (let (k, suffix) = strtol10 (drop 3 name); i = int_of_long k in
             if 0 < i \<and> i < int NSIG \<and> suffix = [] then i else -1))"

definition signame :: "sigtable \<Rightarrow> nat \<Rightarrow> string" where
  "signame T sig =
     (case find (\<lambda>(i, n, msg). i = sig) (signals T) of
        Some (i, n, msg) \<Rightarrow> n | None \<Rightarrow> ''sig'' @ show_nat sig)"

definition sigmessage :: "sigtable \<Rightarrow> nat \<Rightarrow> string" where
  "sigmessage T sig =
     (case find (\<lambda>(i, n, msg). i = sig) (signals T) of
        Some (i, n, msg) \<Rightarrow> msg | None \<Rightarrow> ''unknown signal '' @ show_nat sig)"

section \<open>Effects\<close>

definition eprint :: "string \<Rightarrow> sigstate \<Rightarrow> sigstate" where
  "eprint s st = st\<lparr>eprinted := eprinted st @ [s]\<rparr>"

definition setsignal :: "sigtable \<Rightarrow> nat \<Rightarrow> disposition \<Rightarrow> sigstate \<Rightarrow> bool \<times> sigstate" where
  "setsignal T sig h st =
     (if sigaction_ok T sig then (True, st\<lparr>dispositions := (dispositions st)[sig := h]\<rparr>) else (False, st))"

text \<open>\<open>esignal\<close>; its assertion allows the index \<^const>\<open>NSIG\<close>, which is behind the end of the array.\<close>

definition esignal :: "sigtable \<Rightarrow> nat \<Rightarrow> sigeffect \<Rightarrow> sigstate \<Rightarrow> (sigeffect \<times> sigstate) sigrun" where
  "esignal T sig effect st =
     (if \<not> (0 < sig \<and> sig \<le> NSIG) then Abort
      else if length (sigeffects st) \<le> sig then Undef
      else
        let old = sigeffects st ! sig; set = (\<lambda>st. st\<lparr>sigeffects := (sigeffects st)[sig := effect]\<rparr>);
            catch = (let (ok, st) = setsignal T sig Catcher st in
              if ok then Ok (old, set st)
              else Ok (old, eprint (''$&setsignals: cannot catch '' @ signame T sig @ [CHR 0x0A]) st))
        in if effect = sig_nochange \<or> effect = old then Ok (old, st)
        else case effect of
            sig_ignore \<Rightarrow>
              (let (ok, st) = setsignal T sig SIG_IGN st in
               if ok then Ok (old, set st)
               else Ok (old, eprint (''$&setsignals: cannot ignore '' @ signame T sig @ [CHR 0x0A]) st))
          | sig_special \<Rightarrow>
              if sig \<noteq> SIGINT
              then Ok (old, eprint (''$&setsignals: special handler not defined for '' @ signame T sig @ [CHR 0x0A]) st)
              else catch
          | sig_catch \<Rightarrow> catch
          | sig_noop \<Rightarrow> catch
          | sig_default \<Rightarrow> Ok (old, set (snd (setsignal T sig SIG_DFL st)))
          | sig_nochange \<Rightarrow> Abort)"

fun set_each :: "sigtable \<Rightarrow> (nat \<times> sigeffect) list \<Rightarrow> sigstate \<Rightarrow> sigstate sigrun" where
  "set_each T [] st = Ok st"
| "set_each T ((sig, e) # es) st = obind (esignal T sig e st) (\<lambda>(old, st). set_each T es st)"

definition setsigeffects :: "sigtable \<Rightarrow> sigeffect list \<Rightarrow> sigstate \<Rightarrow> sigstate sigrun" where
  "setsigeffects T es st = set_each T (map (\<lambda>sig. (sig, es ! sig)) [1..<NSIG]) st"

definition setsigdefaults :: "sigtable \<Rightarrow> sigstate \<Rightarrow> sigstate sigrun" where
  "setsigdefaults T st = set_each T (map (\<lambda>sig. (sig, sig_default))
     (filter (\<lambda>sig. sigeffects st ! sig \<in> {sig_catch, sig_noop, sig_special}) [1..<NSIG])) st"

section \<open>Delivery\<close>

text \<open>\<open>catcher\<close>: the result says whether it jumps to \<open>slowlabel\<close>.\<close>

definition catcher :: "nat \<Rightarrow> sigstate \<Rightarrow> (bool \<times> sigstate) sigrun" where
  "catcher sig st =
     (if hasforked st then Throw (Exit 1, st)
      else if length (caught st) \<le> sig then Undef
      else let st = (if \<not> caught st ! sig then st\<lparr>caught := (caught st)[sig := True], sigcount := sigcount st + 1\<rparr> else st)
        in Ok (slow st, st\<lparr>interrupted := True\<rparr>))"

definition blocksignals :: "sigstate \<Rightarrow> sigstate sigrun" where
  "blocksignals st = (if blocked st < 0 then Abort else Ok (st\<lparr>blocked := blocked st + 1\<rparr>))"

definition unblocksignals :: "sigstate \<Rightarrow> sigstate sigrun" where
  "unblocksignals st = (if blocked st \<le> 0 then Abort else Ok (st\<lparr>blocked := blocked st - 1\<rparr>))"

definition signal_exn :: "sigtable \<Rightarrow> nat \<Rightarrow> terms" where
  "signal_exn T sig = [Str ''signal'', Str (signame T sig)]"

text \<open>\<open>sigchk\<close>; resetting the parser is left out.\<close>

definition sigchk :: "sigtable \<Rightarrow> sigstate \<Rightarrow> sigstate sigrun" where
  "sigchk T st =
     (if sigcount st = 0 \<or> blocked st \<noteq> 0 then Ok st
      else if hasforked st then Throw (Exit 1, st)
      else case find (\<lambda>sig. caught st ! sig) [0..<NSIG] of
          None \<Rightarrow> Ok (st\<lparr>sigcount := 0\<rparr>)
        | Some sig \<Rightarrow>
            let st = st\<lparr>sigcount := sigcount st - 1, caught := (caught st)[sig := False]\<rparr> in
            (case sigeffects st ! sig of
               sig_catch \<Rightarrow> Throw (Exn (signal_exn T sig), st)
             | sig_special \<Rightarrow>
                 if sig \<noteq> SIGINT then Abort
                 else let st = (if sigint_newline st then eprint [CHR 0x0A] st else st)
                   in Throw (Exn (signal_exn T sig), st\<lparr>sigint_newline := True\<rparr>)
             | _ \<Rightarrow> Ok st))"

definition issilentsignal :: "terms \<Rightarrow> bool" where
  "issilentsignal e \<longleftrightarrow> e \<noteq> [] \<and> termeq (hd e) ''signal'' \<and> tl e \<noteq> [] \<and> termeq (hd (tl e)) ''sigint''"

section \<open>The list of signals\<close>

fun effect_prefix :: "sigeffect \<Rightarrow> string option" where
  "effect_prefix sig_catch = Some []"
| "effect_prefix sig_ignore = Some ''-''"
| "effect_prefix sig_noop = Some ''/''"
| "effect_prefix sig_special = Some ''.''"
| "effect_prefix e = None"

definition mksiglist :: "sigtable \<Rightarrow> sigstate \<Rightarrow> terms outcome" where
  "mksiglist T st =
     (if sig_nochange \<in> set (tl (sigeffects st)) then Abort
      else Ok (concat (map (\<lambda>sig. case effect_prefix (sigeffects st ! sig) of
          None \<Rightarrow> [] | Some p \<Rightarrow> [Str (p @ signame T sig)]) [1..<NSIG])))"

text \<open>A name with the prefix of an effect, as \<open>$&setsignals\<close> reads it.\<close>

definition parse_effect :: "string \<Rightarrow> sigeffect \<times> string" where
  "parse_effect s =
     (if s \<noteq> [] \<and> hd s = CHR ''-'' then (sig_ignore, tl s)
      else if s \<noteq> [] \<and> hd s = CHR ''/'' then (sig_noop, tl s)
      else if s \<noteq> [] \<and> hd s = CHR ''.'' then (sig_special, tl s)
      else (sig_catch, s))"

fun parse_effects :: "sigtable \<Rightarrow> string list \<Rightarrow> sigeffect list \<Rightarrow> sigeffect list outcome" where
  "parse_effects T [] es = Ok es"
| "parse_effects T (s # list) es =
     (let (effect, name) = parse_effect s; sig = signumber T name in
      if sig < 0 then Throw (fail_exn ''$&setsignals'' (''unknown signal: '' @ name))
      else if int (length es) \<le> sig then Undef
      else parse_effects T list (es[nat sig := effect]))"

definition no_effects :: "sigeffect list" where
  "no_effects = replicate NSIG sig_default"

definition prim_setsignals :: "sigtable \<Rightarrow> (es_term \<Rightarrow> string) \<Rightarrow> terms \<Rightarrow> sigstate \<Rightarrow> (terms \<times> sigstate) sigrun" where
  "prim_setsignals T gs list st =
     obind (on_throw st (parse_effects T (map gs list) no_effects)) (\<lambda>es.
     obind (blocksignals st) (\<lambda>st.
     obind (setsigeffects T es st) (\<lambda>st.
     obind (unblocksignals st) (\<lambda>st.
     obind (on_throw st (mksiglist T st)) (\<lambda>l. Ok (l, st))))))"

text \<open>\<open>newpgrp\<close>, without the system calls between the changes of the effects.\<close>

definition prim_newpgrp :: "sigtable \<Rightarrow> terms \<Rightarrow> sigstate \<Rightarrow> (terms \<times> sigstate) sigrun" where
  "prim_newpgrp T list st =
     (if list \<noteq> [] then Throw (Exn (fail_exn ''$&newpgrp'' ''usage: newpgrp''), st)
      else
        obind (esignal T SIGTSTP sig_ignore st) (\<lambda>(sigtstp, st).
        obind (esignal T SIGTTIN sig_ignore st) (\<lambda>(sigttin, st).
        obind (esignal T SIGTTOU sig_ignore st) (\<lambda>(sigttou, st).
        obind (esignal T SIGTSTP sigtstp st) (\<lambda>(_, st).
        obind (esignal T SIGTTIN sigttin st) (\<lambda>(_, st).
        obind (esignal T SIGTTOU sigttou st) (\<lambda>(_, st). Ok (ltrue, st))))))))"

section \<open>Initialisation\<close>

fun incoming :: "disposition \<Rightarrow> sigeffect option" where
  "incoming SIG_IGN = Some sig_ignore"
| "incoming SIG_DFL = Some sig_default"
| "incoming h = None"

text \<open>
  \<open>initsignals\<close> up to the definition of the variable \<open>signals\<close> as the value of \<open>mksiglist\<close>; \<open>jobs\<close> says
  whether the shell could be put into a process group of its own.
\<close>

definition initsignals :: "sigtable \<Rightarrow> bool \<Rightarrow> bool \<Rightarrow> bool \<Rightarrow> sigstate \<Rightarrow> sigstate sigrun" where
  "initsignals T jobs interactive allowdumps st =
     (if list_ex (\<lambda>(sig, n, msg). sig < 1 \<or> NSIG \<le> sig) (signals T) then Abort
      else if list_ex (\<lambda>h. incoming h = None) (tl (dispositions st)) then Abort
      else
        let st = st\<lparr>sigeffects := sigeffects st ! 0 # map (\<lambda>h. the (incoming h)) (tl (dispositions st))\<rparr> in
        obind (if interactive \<or> sigeffects st ! SIGINT = sig_default
               then set_each T [(SIGINT, sig_special)] st else Ok st) (\<lambda>st.
        obind (if allowdumps then Ok st
               else obind (if interactive then set_each T [(SIGTERM, sig_noop)] st else Ok st) (\<lambda>st.
                 if interactive \<or> sigeffects st ! SIGQUIT = sig_default
                 then set_each T [(SIGQUIT, sig_noop)] st else Ok st)) (\<lambda>st.
        if interactive \<and> jobs
        then set_each T [(SIGCHLD, sig_default), (SIGTTIN, sig_noop), (SIGTTOU, sig_noop), (SIGTSTP, sig_catch)] st
        else Ok st)))"

section \<open>Blocking a signal in the kernel\<close>

text \<open>
  The stack of masks of \<open>block\<close> and \<open>unblock\<close>. A pointer is NULL, or a block of the heap, with an offset
  counted in masks. The mask of the process is a set of signals, and \<open>saved\<close> the masks in the heap, which
  has room for as many as \<open>erealloc\<close> was asked for; it is asked for the size of a pointer for each.
\<close>

datatype base = NULL | Heap

record sigmask =
  sigbs :: "base \<times> int"
  sigbs_tos :: "base \<times> int"
  sigbs_end :: "base \<times> int"
  room :: int
  saved :: "int \<Rightarrow> nat set"
  mask :: "nat set"

definition no_mask :: "nat set \<Rightarrow> sigmask" where
  "no_mask m = \<lparr>sigbs = (NULL, 0), sigbs_tos = (NULL, 0), sigbs_end = (NULL, 0), room = 0, saved = (\<lambda>_. {}), mask = m\<rparr>"

definition block_signal :: "nat \<Rightarrow> sigmask \<Rightarrow> sigmask outcome" where
  "block_signal sig st =
     (let st = (if sigbs_tos st = sigbs_end st
          then let sz = snd (sigbs_end st) - snd (sigbs st) in
            st\<lparr>sigbs := (Heap, 0), sigbs_end := (Heap, sz + 10), room := (sz + 10) * 8 div 128\<rparr>
          else st);
        st' = st\<lparr>mask := mask st \<union> {sig}, sigbs_tos := (fst (sigbs_tos st), snd (sigbs_tos st) + 1)\<rparr>
      in case sigbs_tos st of
        (NULL, i) \<Rightarrow> if i = 0 then Ok st' else Undef
      | (Heap, i) \<Rightarrow> if i < room st then Ok (st'\<lparr>saved := (saved st)(i := mask st)\<rparr>) else Undef)"

text \<open>The assertion compares addresses: the heap is above the first masks behind NULL.\<close>

definition above :: "base \<times> int \<Rightarrow> base \<times> int \<Rightarrow> bool" where
  "above p q \<longleftrightarrow> (if fst p = fst q then snd p > snd q else fst p = Heap)"

definition unblock_signal :: "sigmask \<Rightarrow> sigmask outcome" where
  "unblock_signal st =
     (if \<not> above (sigbs st) (sigbs_tos st) then Abort
      else let st = st\<lparr>sigbs_tos := (fst (sigbs_tos st), snd (sigbs_tos st) - 1)\<rparr> in
        case sigbs_tos st of
          (NULL, i) \<Rightarrow> if i = 0 then Ok st else Undef
        | (Heap, i) \<Rightarrow> if 0 \<le> i \<and> i < room st then Ok (st\<lparr>mask := saved st i\<rparr>) else Undef)"

text \<open>\<open>assign_tty\<close> of \<open>src/proc.c\<close>, around \<open>tcsetpgrp\<close>.\<close>

definition assign_tty :: "sigmask \<Rightarrow> sigmask outcome" where
  "assign_tty st = obind (block_signal SIGTTOU st) unblock_signal"

section \<open>Names and numbers\<close>

text \<open>What the generated table is like: a number in range for each name, no name twice, and no name of the
  form \<open>sig\<close> and a number that belongs to another signal.\<close>

definition table_ok :: "sigtable \<Rightarrow> bool" where
  "table_ok T \<longleftrightarrow> distinct (map (\<lambda>(sig, n, msg). n) (signals T)) \<and>
     list_all (\<lambda>(sig, n, msg). 1 \<le> sig \<and> sig < NSIG \<and> hasprefix n ''sig'' \<and>
       list_all (\<lambda>k. n = ''sig'' @ show_nat k \<longrightarrow> k = sig) [1..<NSIG]) (signals T)"

lemma find_in: "find P xs = Some x \<Longrightarrow> x \<in> set xs \<and> P x"
  by (auto simp: find_Some_iff in_set_conv_nth)

lemma table_okD:
  assumes "table_ok T" "(i, n, msg) \<in> set (signals T)"
  shows "1 \<le> i" "i < NSIG" "hasprefix n ''sig''"
    "1 \<le> k \<Longrightarrow> k < NSIG \<Longrightarrow> n = ''sig'' @ show_nat k \<Longrightarrow> k = i"
  using assms by (auto simp: table_ok_def list_all_iff)

lemma signame_sig: "table_ok T \<Longrightarrow> hasprefix (signame T sig) ''sig''"
  by (auto simp: signame_def table_ok_def list_all_iff hasprefix_def split: option.split dest!: find_in)

lemma signumber_signame:
  assumes "table_ok T" "1 \<le> sig" "sig < NSIG"
  shows "signumber T (signame T sig) = int sig"
proof (cases "find (\<lambda>(i, n, msg). i = sig) (signals T)")
  case None
  then have no: "sig \<notin> (\<lambda>(i, n, msg). i) ` set (signals T)" by (auto simp: find_None_iff)
  have "find (\<lambda>(i, n, msg). n = ''sig'' @ show_nat sig) (signals T) = None"
    using no table_okD(4) [OF assms(1) _ assms(2,3)] by (force simp: find_None_iff)
  moreover have "strtol10 (show_nat sig) = (int sig, [])"
  proof -
    obtain c s where s: "show_nat sig = c # s" by (cases "show_nat sig") auto
    note f = isdigit_facts [OF show_nat_digits [of c sig, unfolded s, simplified]]
    have "strtol_sign (c # s) = (False, c # s)" using f by (simp add: strtol_sign_def)
    moreover have "sat64 (int sig) = int sig" using assms(3) by (simp add: sat64_def NSIG_def)
    ultimately show ?thesis using f digits_val_show_nat [of sig]
      by (simp add: strtol10_def strtol_def s del: digits_val.simps)
  qed
  moreover have "int_of_long (int sig) = int sig" unfolding int_of_long_def int_word_sint
    using assms(3) by (simp add: NSIG_def)
  ultimately show ?thesis using assms None by (simp add: signumber_def signame_def hasprefix_def)
next
  case (Some e)
  obtain n msg where e: "e = (sig, n, msg)" "e \<in> set (signals T)" using find_in [OF Some] by (cases e) auto
  obtain e2 where e2: "find (\<lambda>(i, m, msg). m = n) (signals T) = Some e2"
    using e by (cases "find (\<lambda>(i, m, msg). m = n) (signals T)") (auto simp: find_None_iff)
  then have "e2 \<in> set (signals T)" "(\<lambda>(i, m, msg). m) e2 = (\<lambda>(i, m, msg). m) e" using find_in [OF e2] by (auto simp: e(1))
  then have "e2 = e" using assms(1) e(2) by (auto simp: table_ok_def distinct_map dest: inj_onD)
  moreover have "hasprefix n ''sig''" using signame_sig [OF assms(1), of sig] Some by (simp add: signame_def e(1))
  ultimately show ?thesis using Some e2 by (simp add: signumber_def signame_def e(1))
qed

lemma parse_effect_name:
  assumes "hasprefix name ''sig''" "effect_prefix e = Some p"
  shows "parse_effect (p @ name) = (e, name)"
proof -
  have "name \<noteq> [] \<and> hd name = CHR ''s''" using assms(1) by (cases name) (auto simp: hasprefix_def)
  then show ?thesis using assms(2) by (cases e) (auto simp: parse_effect_def)
qed

text \<open>The text of the elements for a list of signals, and the effects that are read from it.\<close>

definition sigwords :: "sigtable \<Rightarrow> sigeffect list \<Rightarrow> nat list \<Rightarrow> string list" where
  "sigwords T es sigs = concat (map (\<lambda>sig. case effect_prefix (es ! sig) of
     None \<Rightarrow> [] | Some p \<Rightarrow> [p @ signame T sig]) sigs)"

lemma parse_sigwords:
  assumes "table_ok T" "\<forall>sig \<in> set sigs. 1 \<le> sig \<and> sig < NSIG" "length rs = NSIG"
  shows "\<exists>rs'. parse_effects T (sigwords T es sigs) rs = Ok rs' \<and> length rs' = NSIG \<and>
    (\<forall>i < NSIG. rs' ! i = (if i \<in> set sigs \<and> effect_prefix (es ! i) \<noteq> None then es ! i else rs ! i))"
  using assms(2,3)
proof (induction sigs arbitrary: rs)
  case (Cons sig sigs)
  show ?case
  proof (cases "effect_prefix (es ! sig)")
    case None
    then show ?thesis using Cons by (fastforce simp: sigwords_def)
  next
    case (Some p)
    have s: "1 \<le> sig" "sig < NSIG" using Cons.prems(1) by auto
    note n = parse_effect_name [OF signame_sig [OF assms(1), of sig] Some] signumber_signame [OF assms(1) s]
    obtain rs' where "parse_effects T (sigwords T es sigs) (rs[sig := es ! sig]) = Ok rs'" "length rs' = NSIG"
        "\<forall>i < NSIG. rs' ! i = (if i \<in> set sigs \<and> effect_prefix (es ! i) \<noteq> None then es ! i else rs[sig := es ! sig] ! i)"
      using Cons.IH [of "rs[sig := es ! sig]"] Cons.prems by auto
    then show ?thesis using n s Cons.prems(2) Some
      by (auto simp: sigwords_def nth_list_update)
  qed
qed (simp add: sigwords_def)

lemma mksiglist_words:
  "mksiglist T st = (if sig_nochange \<in> set (tl (sigeffects st)) then Abort
     else Ok (map Str (sigwords T (sigeffects st) [1..<NSIG])))"
  by (auto simp: mksiglist_def sigwords_def map_concat comp_def intro!: arg_cong [where f = concat] split: option.split)

text \<open>The text of a word.\<close>

abbreviation word_text :: "es_term \<Rightarrow> string" where
  "word_text t \<equiv> (case t of Str s \<Rightarrow> s | Clos c \<Rightarrow> [])"

section \<open>Effects and the kernel\<close>

fun disposition_of :: "sigeffect \<Rightarrow> disposition" where
  "disposition_of sig_ignore = SIG_IGN"
| "disposition_of sig_default = SIG_DFL"
| "disposition_of e = Catcher"

definition kernel_agrees :: "sigtable \<Rightarrow> sigstate \<Rightarrow> bool" where
  "kernel_agrees T st \<longleftrightarrow> length (sigeffects st) = NSIG \<and> length (dispositions st) = NSIG \<and>
     (\<forall>sig. 1 \<le> sig \<and> sig < NSIG \<longrightarrow> dispositions st ! sig = disposition_of (sigeffects st ! sig) \<and>
        sigeffects st ! sig \<noteq> sig_nochange \<and> (sigeffects st ! sig = sig_special \<longrightarrow> sig = SIGINT) \<and>
        (sigaction_ok T sig \<or> dispositions st ! sig = SIG_DFL))"

lemma kernel_agrees_upd [simp]:
  "kernel_agrees T (st\<lparr>caught := c\<rparr>) = kernel_agrees T st"
  "kernel_agrees T (st\<lparr>sigcount := k\<rparr>) = kernel_agrees T st"
  "kernel_agrees T (st\<lparr>blocked := k\<rparr>) = kernel_agrees T st"
  "kernel_agrees T (st\<lparr>interrupted := b\<rparr>) = kernel_agrees T st"
  "kernel_agrees T (st\<lparr>sigint_newline := b\<rparr>) = kernel_agrees T st"
  "kernel_agrees T (st\<lparr>eprinted := x\<rparr>) = kernel_agrees T st"
  by (simp_all add: kernel_agrees_def)

text \<open>The effect that a signal gets when an effect is asked for.\<close>

definition granted :: "sigtable \<Rightarrow> nat \<Rightarrow> sigeffect \<Rightarrow> sigeffect \<Rightarrow> sigeffect" where
  "granted T sig old e =
     (if e = sig_nochange \<or> e = sig_special \<and> sig \<noteq> SIGINT \<or> e \<noteq> sig_default \<and> \<not> sigaction_ok T sig then old else e)"

lemma esignal_granted:
  assumes "kernel_agrees T st" "1 \<le> sig" "sig < NSIG"
  shows "\<exists>st'. esignal T sig e st = Ok (sigeffects st ! sig, st') \<and> kernel_agrees T st' \<and>
    sigeffects st' = (sigeffects st)[sig := granted T sig (sigeffects st ! sig) e] \<and>
    blocked st' = blocked st \<and> caught st' = caught st \<and> sigcount st' = sigcount st \<and> hasforked st' = hasforked st"
proof -
  have l: "sig < length (sigeffects st)" "0 < sig" "sig \<le> NSIG" using assms by (auto simp: kernel_agrees_def)
  have old: "dispositions st ! sig = disposition_of (sigeffects st ! sig)" "sigeffects st ! sig \<noteq> sig_nochange"
      "\<not> sigaction_ok T sig \<longrightarrow> dispositions st ! sig = SIG_DFL"
    using assms by (auto simp: kernel_agrees_def)
  have same: "sigeffects st ! i = e \<Longrightarrow> (sigeffects st)[i := e] = sigeffects st" for i e by auto
  have d: "disposition_of e = SIG_DFL \<Longrightarrow> e = sig_default" for e by (cases e) auto
  show ?thesis
  proof (cases "e = sig_nochange \<or> e = sigeffects st ! sig")
    case True
    then have "granted T sig (sigeffects st ! sig) e = sigeffects st ! sig" by (auto simp: granted_def)
    then show ?thesis using assms(1) l True by (simp add: esignal_def Let_def)
  next
    case False
    then show ?thesis using assms l old d [of "sigeffects st ! sig"]
      by (cases e; cases "sigaction_ok T sig"; cases "sig = SIGINT")
         (auto simp: esignal_def granted_def setsignal_def eprint_def Let_def kernel_agrees_def nth_list_update same)
  qed
qed

lemma set_each_granted:
  assumes "kernel_agrees T st" "\<forall>(sig, e) \<in> set ses. 1 \<le> sig \<and> sig < NSIG" "distinct (map fst ses)"
  shows "\<exists>st'. set_each T ses st = Ok st' \<and> kernel_agrees T st' \<and>
    (\<forall>sig < NSIG. sigeffects st' ! sig =
       (case map_of ses sig of None \<Rightarrow> sigeffects st ! sig | Some e \<Rightarrow> granted T sig (sigeffects st ! sig) e)) \<and>
    blocked st' = blocked st \<and> caught st' = caught st \<and> sigcount st' = sigcount st \<and> hasforked st' = hasforked st"
  using assms
proof (induction ses arbitrary: st)
  case (Cons x ses)
  obtain sig e where x: "x = (sig, e)" by (cases x)
  have s: "1 \<le> sig" "sig < NSIG" using Cons.prems(2) by (auto simp: x)
  obtain st1 where 1: "esignal T sig e st = Ok (sigeffects st ! sig, st1)" "kernel_agrees T st1"
      "sigeffects st1 = (sigeffects st)[sig := granted T sig (sigeffects st ! sig) e]"
      "blocked st1 = blocked st" "caught st1 = caught st" "sigcount st1 = sigcount st" "hasforked st1 = hasforked st"
    using esignal_granted [OF Cons.prems(1) s] by blast
  have l: "length (sigeffects st) = NSIG" using Cons.prems(1) by (simp add: kernel_agrees_def)
  have new: "map_of ses sig = None" using Cons.prems(3) by (auto simp: x map_of_eq_None_iff)
  obtain st2 where "set_each T ses st1 = Ok st2" "kernel_agrees T st2"
      "\<forall>i < NSIG. sigeffects st2 ! i =
        (case map_of ses i of None \<Rightarrow> sigeffects st1 ! i | Some e \<Rightarrow> granted T i (sigeffects st1 ! i) e)"
      "blocked st2 = blocked st1" "caught st2 = caught st1" "sigcount st2 = sigcount st1" "hasforked st2 = hasforked st1"
    using Cons.IH [OF 1(2)] Cons.prems by auto
  then show ?case using 1 l new s
    by (intro exI [of _ st2]) (auto simp: x nth_list_update split: option.split)
qed simp

lemma setsigeffects_granted:
  assumes "kernel_agrees T st"
  shows "\<exists>st'. setsigeffects T es st = Ok st' \<and> kernel_agrees T st' \<and>
    (\<forall>sig. 1 \<le> sig \<and> sig < NSIG \<longrightarrow> sigeffects st' ! sig = granted T sig (sigeffects st ! sig) (es ! sig)) \<and>
    blocked st' = blocked st \<and> caught st' = caught st \<and> sigcount st' = sigcount st \<and> hasforked st' = hasforked st"
proof -
  have m: "map_of (map (\<lambda>sig. (sig, es ! sig)) [Suc 0..<NSIG]) sig = (if 1 \<le> sig \<and> sig < NSIG then Some (es ! sig) else None)" for sig
    by (simp add: map_of_map_restrict restrict_map_def)
  have "\<forall>(sig, e) \<in> set (map (\<lambda>sig. (sig, es ! sig)) [1..<NSIG]). 1 \<le> sig \<and> sig < NSIG"
      "distinct (map fst (map (\<lambda>sig. (sig, es ! sig)) [1..<NSIG]))"
    by (auto simp: comp_def)
  note r = set_each_granted [OF assms this]
  obtain st' where st': "set_each T (map (\<lambda>sig. (sig, es ! sig)) [1..<NSIG]) st = Ok st'" "kernel_agrees T st'"
      "\<forall>sig < NSIG. sigeffects st' ! sig = (case map_of (map (\<lambda>sig. (sig, es ! sig)) [1..<NSIG]) sig of
         None \<Rightarrow> sigeffects st ! sig | Some e \<Rightarrow> granted T sig (sigeffects st ! sig) e)"
      "blocked st' = blocked st" "caught st' = caught st" "sigcount st' = sigcount st" "hasforked st' = hasforked st"
    using r by (elim exE conjE) (rule that; assumption)
  show ?thesis by (rule exI [of _ st']) (use st' in \<open>simp add: m setsigeffects_def\<close>)
qed

section \<open>Interleavings\<close>

text \<open>
  What can happen to the state in some order: a signal arrives, the shell looks for signals (and the
  exception may be caught), blocks and unblocks them, and changes an effect.
\<close>

inductive reaches :: "sigtable \<Rightarrow> sigstate \<Rightarrow> sigstate \<Rightarrow> bool" for T :: sigtable and st0 :: sigstate where
  start: "reaches T st0 st0"
| arrives: "reaches T st0 st \<Longrightarrow> sig < NSIG \<Longrightarrow> catcher sig st = Ok (j, st') \<Longrightarrow> reaches T st0 st'"
| checks: "reaches T st0 st \<Longrightarrow> sigchk T st = Ok st' \<Longrightarrow> reaches T st0 st'"
| throws: "reaches T st0 st \<Longrightarrow> sigchk T st = Throw (Exn e, st') \<Longrightarrow> reaches T st0 st'"
| blocks: "reaches T st0 st \<Longrightarrow> blocksignals st = Ok st' \<Longrightarrow> reaches T st0 st'"
| unblocks: "reaches T st0 st \<Longrightarrow> unblocksignals st = Ok st' \<Longrightarrow> reaches T st0 st'"
| changes: "reaches T st0 st \<Longrightarrow> 1 \<le> sig \<Longrightarrow> sig < NSIG \<Longrightarrow> esignal T sig e st = Ok (old, st') \<Longrightarrow> reaches T st0 st'"

definition pending :: "sigstate \<Rightarrow> nat list" where
  "pending st = filter (\<lambda>sig. caught st ! sig) [0..<NSIG]"

definition sig_ok :: "sigtable \<Rightarrow> sigstate \<Rightarrow> bool" where
  "sig_ok T st \<longleftrightarrow> kernel_agrees T st \<and> length (caught st) = NSIG \<and> sigcount st = int (length (pending st)) \<and>
     0 \<le> blocked st \<and> sigeffects st ! 0 = sig_default"

lemma find_filter: "find P xs = (case filter P xs of [] \<Rightarrow> None | x # _ \<Rightarrow> Some x)"
  by (induction xs) auto

lemma filter_update:
  assumes "length cs = n" "sig < n"
  shows "filter (\<lambda>i. cs[sig := b] ! i) [0..<n] =
    (if b then filter (\<lambda>i. i = sig \<or> cs ! i) [0..<n] else filter (\<lambda>i. i \<noteq> sig) (filter (\<lambda>i. cs ! i) [0..<n]))"
  using assms by (auto simp: nth_list_update intro!: filter_cong)

lemma filter_new:
  assumes "sig < n" "\<not> P sig"
  shows "length (filter (\<lambda>i. i = sig \<or> P i) [0..<n]) = Suc (length (filter P [0..<n]))"
proof -
  have "[0..<n] = [0..<sig] @ sig # [Suc sig..<n]"
    using assms(1) by (metis less_imp_add_positive upt_add_eq_append upt_conv_Cons zero_le le_add1 add_0)
  moreover have "filter (\<lambda>i. i = sig \<or> P i) xs = filter P xs" if "sig \<notin> set xs" for xs
    using that by (auto intro!: filter_cong)
  ultimately show ?thesis using assms(2) by simp
qed

lemma catcher_ok:
  assumes "sig_ok T st" "sig < NSIG" "catcher sig st = Ok (j, st')"
  shows "sig_ok T st' \<and> set (pending st') = insert sig (set (pending st))"
proof (cases "caught st ! sig")
  case True
  then show ?thesis using assms
    by (auto simp: catcher_def sig_ok_def pending_def split: if_splits)
next
  case False
  have l: "length (caught st) = NSIG" using assms(1) by (simp add: sig_ok_def)
  have st': "caught st' = (caught st)[sig := True]" "sigcount st' = sigcount st + 1"
      "sigeffects st' = sigeffects st" "kernel_agrees T st' = kernel_agrees T st" "blocked st' = blocked st"
    using assms(3) False l assms(2) by (auto simp: catcher_def Let_def split: if_splits)
  have "pending st' = filter (\<lambda>i. i = sig \<or> caught st ! i) [0..<NSIG]"
    unfolding pending_def st'(1) filter_update [OF l assms(2)] by simp
  then show ?thesis using assms(1,2) st' filter_new [of sig NSIG "\<lambda>i. caught st ! i"] False
    by (auto simp: sig_ok_def pending_def)
qed

text \<open>One look for signals: the pending signal with the lowest number is taken.\<close>

definition delivers :: "sigstate \<Rightarrow> nat \<Rightarrow> bool" where
  "delivers st sig \<longleftrightarrow> sigeffects st ! sig \<in> {sig_catch, sig_special}"

lemma sigchk_ok:
  assumes "sig_ok T st" "blocked st = 0" "\<not> hasforked st" "pending st = sig # rest"
  shows "\<exists>st'. sigchk T st = (if delivers st sig then Throw (Exn (signal_exn T sig), st') else Ok st') \<and>
    sig_ok T st' \<and> pending st' = rest \<and> blocked st' = 0 \<and> \<not> hasforked st' \<and> sigeffects st' = sigeffects st"
proof -
  have sig: "sig \<in> set (pending st)" using assms(4) by simp
  then have n: "sig < NSIG" by (simp add: pending_def)
  have l: "length (caught st) = NSIG" using assms(1) by (simp add: sig_ok_def)
  have f: "find (\<lambda>sig. caught st ! sig) [0..<NSIG] = Some sig"
    using assms(4) by (simp add: find_filter pending_def)
  have c: "sigcount st \<noteq> 0" using assms(1,4) by (simp add: sig_ok_def)
  have "distinct (pending st)" by (simp add: pending_def)
  then have "filter (\<lambda>i. i \<noteq> sig) (sig # rest) = rest"
    unfolding assms(4) by (auto simp: filter_id_conv)
  then have p: "filter (\<lambda>i. (caught st)[sig := False] ! i) [0..<NSIG] = rest"
    unfolding filter_update [OF l n] using assms(4) by (simp add: pending_def)
  have special: "sigeffects st ! sig = sig_special \<Longrightarrow> sig = SIGINT"
    using assms(1) n by (cases "sig = 0") (auto simp: sig_ok_def kernel_agrees_def)
  define st1 where "st1 = st\<lparr>sigcount := sigcount st - 1, caught := (caught st)[sig := False]\<rparr>"
  have ok: "sig_ok T st1" "pending st1 = rest" "blocked st1 = 0" "\<not> hasforked st1" "sigeffects st1 = sigeffects st"
    using assms p by (simp_all add: st1_def sig_ok_def pending_def)
  have frame: "sig_ok T (st1\<lparr>sigint_newline := b, eprinted := x\<rparr>)" "pending (st1\<lparr>sigint_newline := b, eprinted := x\<rparr>) = rest" for b x
    using ok(1,2) by (simp_all add: sig_ok_def pending_def)
  have e: "sigchk T st = (case sigeffects st ! sig of
      sig_catch \<Rightarrow> Throw (Exn (signal_exn T sig), st1)
    | sig_special \<Rightarrow> if sig \<noteq> SIGINT then Abort
        else Throw (Exn (signal_exn T sig), st1\<lparr>sigint_newline := True,
          eprinted := (if sigint_newline st1 then eprinted st1 @ [[CHR 0x0A]] else eprinted st1)\<rparr>)
    | _ \<Rightarrow> Ok st1)"
    unfolding sigchk_def using c assms(2,3) f
    by (auto simp: Let_def st1_def eprint_def split: sigeffect.split)
  show ?thesis
  proof (cases "sigeffects st ! sig = sig_special")
    case True
    then show ?thesis unfolding e using special ok(3-5) frame by (auto simp: delivers_def)
  next
    case False
    then show ?thesis unfolding e using ok by (auto simp: delivers_def split: sigeffect.split)
  qed
qed

lemma sigchk_Ok:
  assumes "sig_ok T st" "sigchk T st = Ok st' \<or> sigchk T st = Throw (Exn e, st')"
  shows "sig_ok T st'"
proof (cases "sigcount st = 0 \<or> blocked st \<noteq> 0 \<or> hasforked st")
  case True
  then show ?thesis using assms by (auto simp: sigchk_def split: if_splits)
next
  case False
  then obtain sig rest where "pending st = sig # rest"
    using assms(1) by (cases "pending st") (auto simp: sig_ok_def)
  then show ?thesis using sigchk_ok [OF assms(1), of sig rest] assms(2) False by (auto split: if_splits)
qed

lemma blocks_ok:
  assumes "sig_ok T st" "blocksignals st = Ok st' \<or> unblocksignals st = Ok st'"
  shows "sig_ok T st'"
  using assms by (auto simp: sig_ok_def blocksignals_def unblocksignals_def pending_def split: if_splits)

lemma esignal_ok:
  assumes "sig_ok T st" "1 \<le> sig" "sig < NSIG" "esignal T sig e st = Ok (old, st')"
  shows "sig_ok T st'"
proof -
  have "kernel_agrees T st" using assms(1) by (simp add: sig_ok_def)
  from esignal_granted [OF this assms(2,3), of e] assms show ?thesis by (auto simp: sig_ok_def pending_def)
qed

lemma reaches_ok:
  assumes "reaches T st0 st" "sig_ok T st0"
  shows "sig_ok T st"
  using assms
proof (induction rule: reaches.induct)
  case (arrives st sig j st')
  then show ?case using catcher_ok by blast
next
  case (checks st st')
  then show ?case using sigchk_Ok by blast
next
  case (throws st e st')
  then show ?case using sigchk_Ok by blast
next
  case (blocks st st')
  then show ?case using blocks_ok by blast
next
  case (unblocks st st')
  then show ?case using blocks_ok by blast
next
  case (changes st sig e old st')
  then show ?case using esignal_ok by blast
qed simp

text \<open>Looking for signals \<open>n\<close> times: the exceptions that are thrown, and the state.\<close>

fun deliver :: "nat \<Rightarrow> sigtable \<Rightarrow> sigstate \<Rightarrow> terms list \<times> sigstate" where
  "deliver 0 T st = ([], st)"
| "deliver (Suc n) T st =
     (case sigchk T st of
        Ok st \<Rightarrow> deliver n T st
      | Throw (Exn e, st) \<Rightarrow> (case deliver n T st of (es, st) \<Rightarrow> (e # es, st))
      | _ \<Rightarrow> ([], st))"

lemma deliver_pending:
  assumes "sig_ok T st" "blocked st = 0" "\<not> hasforked st" "pending st = sigs"
  shows "\<exists>st'. deliver (length sigs) T st = (map (signal_exn T) (filter (delivers st) sigs), st') \<and>
    sig_ok T st' \<and> pending st' = [] \<and> sigcount st' = 0"
  using assms
proof (induction sigs arbitrary: st)
  case Nil
  then show ?case by (auto simp: sig_ok_def)
next
  case (Cons sig rest)
  obtain st1 where 1: "sigchk T st = (if delivers st sig then Throw (Exn (signal_exn T sig), st1) else Ok st1)"
      "sig_ok T st1" "pending st1 = rest" "blocked st1 = 0" "\<not> hasforked st1" "sigeffects st1 = sigeffects st"
    using sigchk_ok [OF Cons.prems] by blast
  have "delivers st1 = delivers st" using 1(6) by (simp add: delivers_def fun_eq_iff)
  then show ?case using Cons.IH [OF 1(2,4,5,3)] 1(1) by auto
qed

section \<open>Properties\<close>


text \<open>
  The list of signals round-trips. What \<open>mksiglist\<close> makes of the effects, the value of the variable
  \<open>signals\<close>, is read by \<open>$&setsignals\<close> as the same effects; setting them again changes nothing.
\<close>

theorem signal_list_roundtrip:
  assumes "table_ok T" and "kernel_agrees T st"
  shows "\<exists>l es. mksiglist T st = Ok l \<and> parse_effects T (map word_text l) no_effects = Ok es \<and>
    (\<forall>sig. 1 \<le> sig \<and> sig < NSIG \<longrightarrow> es ! sig = sigeffects st ! sig)"
proof -
  have l: "length (sigeffects st) = NSIG" "\<And>sig. 1 \<le> sig \<Longrightarrow> sig < NSIG \<Longrightarrow> sigeffects st ! sig \<noteq> sig_nochange"
    using assms(2) by (auto simp: kernel_agrees_def)
  have "sig_nochange \<notin> set (tl (sigeffects st))"
    using l by (auto simp: in_set_conv_nth nth_tl)
  then have m: "mksiglist T st = Ok (map Str (sigwords T (sigeffects st) [1..<NSIG]))"
    by (simp add: mksiglist_words)
  have w: "map word_text (map Str ws) = ws" for ws by (simp add: comp_def)
  obtain es where es: "parse_effects T (sigwords T (sigeffects st) [1..<NSIG]) no_effects = Ok es"
      "\<forall>i < NSIG. es ! i = (if i \<in> set [1..<NSIG] \<and> effect_prefix (sigeffects st ! i) \<noteq> None
         then sigeffects st ! i else no_effects ! i)"
    using parse_sigwords [OF assms(1), of "[1..<NSIG]" no_effects "sigeffects st"] by (auto simp: no_effects_def)
  have none: "effect_prefix e = None \<Longrightarrow> e = sig_default \<or> e = sig_nochange" for e by (cases e) auto
  have "es ! sig = sigeffects st ! sig" if "1 \<le> sig" "sig < NSIG" for sig
    using es(2) that l(2) [OF that] none [of "sigeffects st ! sig"] by (auto simp: no_effects_def)
  then show ?thesis using m es(1) by (auto simp: w simp del: map_map)
qed

text \<open>
  \<open>$&setsignals\<close> and the kernel agree. For a list of words it reads, every signal gets the effect that
  is asked for, except that \<open>sig_special\<close> is refused for other signals than the interrupt and a signal for
  which \<open>sigaction\<close> fails keeps its effect; afterwards the disposition of every signal in the kernel is
  that of its effect, and delivery is not blocked longer than before.
\<close>

theorem setsignals_and_kernel_agree:
  assumes "kernel_agrees T st" and "0 \<le> blocked st" and "parse_effects T (map gs list) no_effects = Ok es"
  shows "\<exists>l st'. prim_setsignals T gs list st = Ok (l, st') \<and> mksiglist T st' = Ok l \<and> kernel_agrees T st' \<and>
    blocked st' = blocked st \<and>
    (\<forall>sig. 1 \<le> sig \<and> sig < NSIG \<longrightarrow> sigeffects st' ! sig = granted T sig (sigeffects st ! sig) (es ! sig))"
proof -
  let ?st = "st\<lparr>blocked := blocked st + 1\<rparr>"
  have "kernel_agrees T ?st" using assms(1) by simp
  then obtain st1 where 1: "setsigeffects T es ?st = Ok st1" "kernel_agrees T st1" "blocked st1 = blocked st + 1"
      "\<forall>sig. 1 \<le> sig \<and> sig < NSIG \<longrightarrow> sigeffects st1 ! sig = granted T sig (sigeffects ?st ! sig) (es ! sig)"
    using setsigeffects_granted [of T ?st es] by auto
  let ?st2 = "st1\<lparr>blocked := blocked st\<rparr>"
  have k: "kernel_agrees T ?st2" using 1(2) by simp
  have "sig_nochange \<notin> set (tl (sigeffects ?st2))"
    using 1(2) by (auto simp: kernel_agrees_def in_set_conv_nth nth_tl)
  then obtain l where "mksiglist T ?st2 = Ok l" by (simp add: mksiglist_words)
  then show ?thesis using assms(2,3) 1 k
    by (auto simp: prim_setsignals_def blocksignals_def unblocksignals_def)
qed

fun assign_ttys :: "nat \<Rightarrow> sigmask \<Rightarrow> sigmask outcome" where
  "assign_ttys 0 st = Ok st"
| "assign_ttys (Suc n) st = obind (assign_tty st) (assign_ttys n)"

lemma assign_tty_mask:
  assumes "sigbs_tos st = (NULL, 0)" "sigbs_end st = (NULL, 0) \<and> sigbs st = (NULL, 0) \<or> sigbs_end st = (Heap, 10) \<and> sigbs st = (Heap, 0)"
  shows "\<exists>st'. assign_tty st = Ok st' \<and> mask st' = insert SIGTTOU (mask st) \<and> sigbs_tos st' = (NULL, 0) \<and>
    sigbs_end st' = (Heap, 10) \<and> sigbs st' = (Heap, 0)"
  using assms by (elim disjE conjE) (simp_all add: assign_tty_def block_signal_def unblock_signal_def above_def Let_def)

text \<open>
  \<open>SIGTTOU\<close> stays blocked. \<open>sigbs_tos\<close> is left at NULL when the stack of masks is allocated, so that
  \<open>block\<close> does not save the mask and \<open>unblock\<close> does not restore it: from the first \<open>assign_tty\<close> on, the
  shell and all its children have the signal blocked.
\<close>

theorem tty_signal_stays_blocked:
  "\<exists>st. assign_ttys (Suc n) (no_mask m) = Ok st \<and> mask st = insert SIGTTOU m"
proof -
  have more: "\<exists>st'. assign_ttys n st = Ok st' \<and> mask st' = mask st"
    if "sigbs_tos st = (NULL, 0)" "sigbs_end st = (Heap, 10)" "sigbs st = (Heap, 0)" "SIGTTOU \<in> mask st" for st
    using that
  proof (induction n arbitrary: st)
    case (Suc n)
    obtain st1 where "assign_tty st = Ok st1" "mask st1 = insert SIGTTOU (mask st)" "sigbs_tos st1 = (NULL, 0)"
        "sigbs_end st1 = (Heap, 10)" "sigbs st1 = (Heap, 0)"
      using assign_tty_mask [of st] Suc.prems by auto
    then show ?case using Suc.IH [of st1] Suc.prems(4) by (auto simp: insert_absorb)
  qed simp
  obtain st where "assign_tty (no_mask m) = Ok st" "mask st = insert SIGTTOU m" "sigbs_tos st = (NULL, 0)"
      "sigbs_end st = (Heap, 10)" "sigbs st = (Heap, 0)"
    using assign_tty_mask [of "no_mask m"] by (auto simp: no_mask_def)
  then show ?thesis using more [of st] by auto
qed

section \<open>The theorems at work\<close>

text \<open>A table with three names, a kernel that lets all signals but number 9 be caught, and a new shell.\<close>

definition three_signals :: sigtable where
  "three_signals = \<lparr>signals = [(2, ''sigint'', ''''), (9, ''sigkill'', ''Killed''), (15, ''sigterm'', ''Terminated'')],
     sigaction_ok = (\<lambda>sig. sig \<noteq> 9)\<rparr>"

definition new_shell :: sigstate where
  "new_shell = \<lparr>caught = replicate NSIG False, sigcount = 0, sigeffects = replicate NSIG sig_default,
     dispositions = replicate NSIG SIG_DFL, blocked = 0, hasforked = False, interrupted = False, slow = False,
     sigint_newline = True, eprinted = []\<rparr>"

lemma three_signals_ok: "table_ok three_signals"
  by code_simp

lemma new_shell_ok: "kernel_agrees three_signals new_shell" "sig_ok three_signals new_shell"
  by (simp_all add: kernel_agrees_def sig_ok_def pending_def new_shell_def three_signals_def NSIG_def)


theorem signal_list_roundtrip_witness:
  "\<exists>l es. mksiglist three_signals new_shell = Ok l \<and> parse_effects three_signals (map word_text l) no_effects = Ok es \<and>
     es ! 2 = sig_default"
proof -
  obtain l es where "mksiglist three_signals new_shell = Ok l" "parse_effects three_signals (map word_text l) no_effects = Ok es"
      "\<forall>sig. 1 \<le> sig \<and> sig < NSIG \<longrightarrow> es ! sig = sigeffects new_shell ! sig"
    using signal_list_roundtrip [OF three_signals_ok new_shell_ok(1)] by blast
  then show ?thesis by (auto simp: new_shell_def NSIG_def)
qed

theorem setsignals_and_kernel_agree_witness:
  "\<exists>l st. prim_setsignals three_signals word_text [Str ''.sigint'', Str ''sigterm'', Str ''-sigkill''] new_shell = Ok (l, st) \<and>
     dispositions st ! 15 = Catcher \<and> sigeffects st ! 2 = sig_special \<and> sigeffects st ! 9 = sig_default"
proof -
  let ?l = "[Str ''.sigint'', Str ''sigterm'', Str ''-sigkill'']"
  let ?es = "no_effects[2 := sig_special, 15 := sig_catch, 9 := sig_ignore]"
  have p: "parse_effects three_signals (map word_text ?l) no_effects = Ok ?es"
    by (simp add: parse_effect_def signumber_def hasprefix_def three_signals_def no_effects_def NSIG_def)
  obtain l st where st: "prim_setsignals three_signals word_text ?l new_shell = Ok (l, st)" "kernel_agrees three_signals st"
      "\<forall>sig. 1 \<le> sig \<and> sig < NSIG \<longrightarrow>
         sigeffects st ! sig = granted three_signals sig (sigeffects new_shell ! sig) (?es ! sig)"
    using setsignals_and_kernel_agree [OF new_shell_ok(1) _ p] by (auto simp: new_shell_def)
  have "sigeffects st ! 15 = sig_catch" "sigeffects st ! 2 = sig_special" "sigeffects st ! 9 = sig_default"
    using st(3) by (auto simp: granted_def three_signals_def new_shell_def no_effects_def NSIG_def SIGINT_def)
  moreover have "dispositions st ! 15 = disposition_of (sigeffects st ! 15)"
    using st(2) by (simp add: kernel_agrees_def NSIG_def)
  ultimately show ?thesis using st(1) by auto
qed

end
