(* ===== verification/Arith.thy ===== *)
theory Arith
  imports Values Dict
begin

text \<open>
  Arithmetic and comparison, \<open>src/prim-math.cpp\<close> and \<open>src/prim-rel.cpp\<close>, with the wrappers of decimal numbers in
  \<open>src/decimal.c\<close>. The library of decimal numbers that they call is a parameter.
\<close>

section \<open>The library\<close>

datatype decclass =
    DEC_CLASS_SNAN | DEC_CLASS_QNAN | DEC_CLASS_NEG_INF | DEC_CLASS_NEG_NORMAL | DEC_CLASS_NEG_SUBNORMAL | DEC_CLASS_NEG_ZERO
  | DEC_CLASS_POS_ZERO | DEC_CLASS_POS_SUBNORMAL | DEC_CLASS_POS_NORMAL | DEC_CLASS_POS_INF

datatype rounding = DEC_ROUND_HALF_EVEN | DEC_ROUND_DOWN | DEC_ROUND_HALF_UP

record 'd decimals =
  decNumberFromInt32 :: "int \<Rightarrow> 'd"
  decimal128FromString :: "string \<Rightarrow> 'd"
  decimal128ToString :: "'d \<Rightarrow> string"
  decNumberAdd :: "'d \<Rightarrow> 'd \<Rightarrow> 'd"
  decNumberSubtract :: "'d \<Rightarrow> 'd \<Rightarrow> 'd"
  decNumberMultiply :: "'d \<Rightarrow> 'd \<Rightarrow> 'd"
  decNumberDivide :: "'d \<Rightarrow> 'd \<Rightarrow> 'd"
  decNumberRemainder :: "'d \<Rightarrow> 'd \<Rightarrow> 'd"
  decNumberPower :: "'d \<Rightarrow> 'd \<Rightarrow> 'd"
  decNumberLn :: "'d \<Rightarrow> 'd"
  decNumberLog10 :: "'d \<Rightarrow> 'd"
  decNumberToIntegralValue :: "rounding \<Rightarrow> 'd \<Rightarrow> 'd"
  decNumberClass :: "'d \<Rightarrow> decclass"

section \<open>Decimal numbers\<close>

definition es_dec128_itod :: "'d decimals \<Rightarrow> int \<Rightarrow> 'd" where
  "es_dec128_itod D i = decNumberFromInt32 D i"

definition es_dec128_zero :: "'d decimals \<Rightarrow> 'd" where
  "es_dec128_zero D = es_dec128_itod D 0"

definition es_dec128_from_string :: "'d decimals \<Rightarrow> string \<Rightarrow> 'd" where
  "es_dec128_from_string D str = decimal128FromString D str"

text \<open>The text of a number; what follows the first three letters of a NaN or an infinity is cut off.\<close>

definition es_dec128_to_string :: "'d decimals \<Rightarrow> 'd \<Rightarrow> string" where
  "es_dec128_to_string D x =
     (let str = decimal128ToString D x in
      if str \<noteq> [] \<and> hd str = CHR ''-'' then
        (if take 1 (tl str) \<in> {''N'', ''I''} then take 4 str else str)
      else if take 1 str \<in> {''N'', ''I''} then take 3 str
      else str)"

definition dec128_binop :: "'d decimals \<Rightarrow> 'd \<Rightarrow> 'd \<Rightarrow> char \<Rightarrow> 'd" where
  "dec128_binop D l r op =
     (if op = CHR ''-'' then decNumberSubtract D l r
      else if op = CHR ''*'' then decNumberMultiply D l r
      else if op = CHR ''/'' then decNumberDivide D l r
      else if op = CHR ''%'' then decNumberRemainder D l r
      else if op = CHR ''p'' then decNumberPower D l r
      else decNumberAdd D l r)"

definition es_dec128_sum :: "'d decimals \<Rightarrow> 'd \<Rightarrow> 'd \<Rightarrow> 'd" where
  "es_dec128_sum D l r = dec128_binop D l r CHR ''+''"

definition es_dec128_diff :: "'d decimals \<Rightarrow> 'd \<Rightarrow> 'd \<Rightarrow> 'd" where
  "es_dec128_diff D l r = dec128_binop D l r CHR ''-''"

definition es_dec128_mul :: "'d decimals \<Rightarrow> 'd \<Rightarrow> 'd \<Rightarrow> 'd" where
  "es_dec128_mul D l r = dec128_binop D l r CHR ''*''"

definition es_dec128_div :: "'d decimals \<Rightarrow> 'd \<Rightarrow> 'd \<Rightarrow> 'd" where
  "es_dec128_div D l r = dec128_binop D l r CHR ''/''"

definition es_dec128_mod :: "'d decimals \<Rightarrow> 'd \<Rightarrow> 'd \<Rightarrow> 'd" where
  "es_dec128_mod D l r = dec128_binop D l r CHR ''%''"

definition es_dec128_pow :: "'d decimals \<Rightarrow> 'd \<Rightarrow> 'd \<Rightarrow> 'd" where
  "es_dec128_pow D l r = dec128_binop D l r CHR ''p''"

definition dec128_unaryop :: "'d decimals \<Rightarrow> 'd \<Rightarrow> char \<Rightarrow> 'd" where
  "dec128_unaryop D l op =
     (let rounding = (if op = CHR ''f'' then DEC_ROUND_DOWN else if op = CHR ''r'' then DEC_ROUND_HALF_UP else DEC_ROUND_HALF_EVEN) in
      if op = CHR ''L'' then decNumberLog10 D l
      else if op = CHR ''r'' \<or> op = CHR ''f'' then decNumberToIntegralValue D rounding l
      else decNumberLn D l)"

definition es_dec128_ln :: "'d decimals \<Rightarrow> 'd \<Rightarrow> 'd" where
  "es_dec128_ln D l = dec128_unaryop D l CHR ''l''"

definition es_dec128_log10 :: "'d decimals \<Rightarrow> 'd \<Rightarrow> 'd" where
  "es_dec128_log10 D l = dec128_unaryop D l CHR ''L''"

definition es_dec128_floor :: "'d decimals \<Rightarrow> 'd \<Rightarrow> 'd" where
  "es_dec128_floor D l = dec128_unaryop D l CHR ''f''"

definition es_dec128_round :: "'d decimals \<Rightarrow> 'd \<Rightarrow> 'd" where
  "es_dec128_round D l = dec128_unaryop D l CHR ''r''"

definition es_dec128_isinf :: "'d decimals \<Rightarrow> 'd \<Rightarrow> bool" where
  "es_dec128_isinf D x \<longleftrightarrow> decNumberClass D x \<in> {DEC_CLASS_NEG_INF, DEC_CLASS_POS_INF}"

definition es_dec128_isnan :: "'d decimals \<Rightarrow> 'd \<Rightarrow> bool" where
  "es_dec128_isnan D x \<longleftrightarrow> decNumberClass D x \<in> {DEC_CLASS_SNAN, DEC_CLASS_QNAN}"

definition es_dec128_compare :: "'d decimals \<Rightarrow> 'd \<Rightarrow> 'd \<Rightarrow> int" where
  "es_dec128_compare D l r = (case decNumberClass D (decNumberSubtract D l r) of
       DEC_CLASS_NEG_INF \<Rightarrow> -1 | DEC_CLASS_NEG_NORMAL \<Rightarrow> -1 | DEC_CLASS_NEG_SUBNORMAL \<Rightarrow> -1 | DEC_CLASS_NEG_ZERO \<Rightarrow> -1
     | DEC_CLASS_POS_NORMAL \<Rightarrow> 1 | DEC_CLASS_POS_SUBNORMAL \<Rightarrow> 1 | DEC_CLASS_POS_INF \<Rightarrow> 1 | DEC_CLASS_POS_ZERO \<Rightarrow> 0
     | DEC_CLASS_SNAN \<Rightarrow> 2 | DEC_CLASS_QNAN \<Rightarrow> 2)"

definition es_dec128_eq :: "'d decimals \<Rightarrow> 'd \<Rightarrow> 'd \<Rightarrow> bool" where
  "es_dec128_eq D l r \<longleftrightarrow> es_dec128_compare D l r = 0"

definition es_dec128_lt :: "'d decimals \<Rightarrow> 'd \<Rightarrow> 'd \<Rightarrow> bool" where
  "es_dec128_lt D l r \<longleftrightarrow> es_dec128_compare D l r < 0"

definition es_dec128_gt :: "'d decimals \<Rightarrow> 'd \<Rightarrow> 'd \<Rightarrow> bool" where
  "es_dec128_gt D l r \<longleftrightarrow> es_dec128_compare D l r > 0"

section \<open>Primitives\<close>

datatype MathOp =
    DO_SUM | DO_DIFF | DO_MUL | DO_DIV | DO_MOD | DO_POW | DO_NEG | DO_LOG | DO_LOG10 | DO_FLOOR | DO_ROUND | DO_ISINF | DO_ISNAN

text \<open>The result after the first argument, and after one that follows.\<close>

definition math_first :: "'d decimals \<Rightarrow> MathOp \<Rightarrow> 'd \<Rightarrow> 'd" where
  "math_first D op n = (case op of
       DO_LOG \<Rightarrow> es_dec128_ln D n | DO_LOG10 \<Rightarrow> es_dec128_log10 D n
     | DO_FLOOR \<Rightarrow> es_dec128_floor D n | DO_ROUND \<Rightarrow> es_dec128_round D n
     | DO_ISINF \<Rightarrow> es_dec128_itod D (if es_dec128_isinf D n then 0 else 1)
     | DO_ISNAN \<Rightarrow> es_dec128_itod D (if es_dec128_isnan D n then 0 else 1)
     | _ \<Rightarrow> n)"

definition math_next :: "'d decimals \<Rightarrow> MathOp \<Rightarrow> 'd \<Rightarrow> 'd \<Rightarrow> 'd" where
  "math_next D op r n = (case op of
       DO_SUM \<Rightarrow> es_dec128_sum D r n | DO_DIFF \<Rightarrow> es_dec128_diff D r n | DO_MUL \<Rightarrow> es_dec128_mul D r n
     | DO_DIV \<Rightarrow> es_dec128_div D r n | DO_MOD \<Rightarrow> es_dec128_mod D r n | DO_POW \<Rightarrow> es_dec128_pow D r n
     | DO_NEG \<Rightarrow> es_dec128_diff D r n
     | _ \<Rightarrow> r)"

fun math_loop :: "'d decimals \<Rightarrow> (es_term \<Rightarrow> string) \<Rightarrow> MathOp \<Rightarrow> nat \<Rightarrow> 'd \<Rightarrow> terms \<Rightarrow> 'd" where
  "math_loop D gs op k r [] = r"
| "math_loop D gs op k r (t # lp) =
     (let n = es_dec128_from_string D (gs t);
          r = (if k = 0 \<and> op \<noteq> DO_NEG then math_first D op n else math_next D op r n)
      in math_loop D gs op (k + 1) r lp)"

definition do_math :: "'d decimals \<Rightarrow> (es_term \<Rightarrow> string) \<Rightarrow> MathOp \<Rightarrow> terms \<Rightarrow> terms" where
  "do_math D gs op list = [Str (es_dec128_to_string D (math_loop D gs op 0 (es_dec128_zero D) list))]"

text \<open>The table of the primitives.\<close>

definition math_prims :: "(string \<times> MathOp) list" where
  "math_prims =
     [(''sum'', DO_SUM), (''diff'', DO_DIFF), (''mul'', DO_MUL), (''div'', DO_DIV), (''mod'', DO_MOD), (''pow'', DO_POW),
      (''neg'', DO_NEG), (''log'', DO_LOG), (''log10'', DO_LOG10), (''floor'', DO_FLOOR), (''round'', DO_ROUND),
      (''isinf'', DO_ISINF), (''isnan'', DO_ISNAN)]"

text \<open>\<open>cmp\<close>: numbers by their difference, other texts by \<open>strcoll\<close>, which is an argument.\<close>

definition prim_cmp :: "'d decimals \<Rightarrow> (es_term \<Rightarrow> string) \<Rightarrow> (string \<Rightarrow> string \<Rightarrow> int) \<Rightarrow> terms \<Rightarrow> terms" where
  "prim_cmp D gs strcoll list =
     (let r = (case list of
          a # b # _ \<Rightarrow>
            (let n = es_dec128_from_string D (gs a); m = es_dec128_from_string D (gs b) in
             if \<not> es_dec128_isnan D n \<and> \<not> es_dec128_isnan D m then
               (if es_dec128_gt D n m then 1 else if es_dec128_lt D n m then -1 else 0)
             else strcoll (gs a) (gs b))
        | _ \<Rightarrow> 0)
      in [Str (if r > 0 then ''1'' else if r < 0 then ''-1'' else ''0'')])"

section \<open>What the library promises\<close>

text \<open>
  Integers of at most 34 digits are numbers: they are read and written in the usual way, and sums, differences
  and products that are such integers are exact. The difference of an infinity and itself is no number.
\<close>

definition representable :: "int \<Rightarrow> bool" where
  "representable i \<longleftrightarrow> \<bar>i\<bar> < 10 ^ 34"

definition exact :: "'d decimals \<Rightarrow> (int \<Rightarrow> 'd) \<Rightarrow> bool" where
  "exact D num \<longleftrightarrow>
     decNumberFromInt32 D 0 = num 0 \<and>
     (\<forall>i. representable i \<longrightarrow> decimal128FromString D (show_int i) = num i \<and> decimal128ToString D (num i) = show_int i \<and>
       decNumberClass D (num i) = (if i < 0 then DEC_CLASS_NEG_NORMAL else if i = 0 then DEC_CLASS_POS_ZERO else DEC_CLASS_POS_NORMAL)) \<and>
     (\<forall>i j. representable i \<and> representable j \<longrightarrow>
       (representable (i + j) \<longrightarrow> decNumberAdd D (num i) (num j) = num (i + j)) \<and>
       (representable (i - j) \<longrightarrow> decNumberSubtract D (num i) (num j) = num (i - j)) \<and>
       (representable (i * j) \<longrightarrow> decNumberMultiply D (num i) (num j) = num (i * j)))"

section \<open>Properties\<close>

text \<open>A library that keeps the promises: the integers, of any size, with one infinity and a value that is no number.\<close>

datatype whole = Whole int | Infinite | NaN

fun whole_op :: "(int \<Rightarrow> int \<Rightarrow> int) \<Rightarrow> whole \<Rightarrow> whole \<Rightarrow> whole" where
  "whole_op f (Whole i) (Whole j) = Whole (f i j)"
| "whole_op f NaN y = NaN"
| "whole_op f x NaN = NaN"
| "whole_op f Infinite Infinite = NaN"
| "whole_op f x y = Infinite"

definition whole_read :: "string \<Rightarrow> whole" where
  "whole_read s =
     (let neg = s \<noteq> [] \<and> hd s = CHR ''-''; (n, r) = digits_val 10 0 (if neg then tl s else s) in
      if s = ''Inf'' then Infinite else if r = [] \<and> s \<noteq> [] then Whole (if neg then - n else n) else NaN)"

fun whole_show :: "whole \<Rightarrow> string" where
  "whole_show (Whole i) = show_int i"
| "whole_show Infinite = ''Infinity''"
| "whole_show NaN = ''NaN''"

fun whole_class :: "whole \<Rightarrow> decclass" where
  "whole_class (Whole i) = (if i < 0 then DEC_CLASS_NEG_NORMAL else if i = 0 then DEC_CLASS_POS_ZERO else DEC_CLASS_POS_NORMAL)"
| "whole_class Infinite = DEC_CLASS_POS_INF"
| "whole_class NaN = DEC_CLASS_QNAN"

definition whole_library :: "whole decimals" where
  "whole_library =
     \<lparr>decNumberFromInt32 = Whole, decimal128FromString = whole_read, decimal128ToString = whole_show,
      decNumberAdd = whole_op (+), decNumberSubtract = whole_op (-), decNumberMultiply = whole_op (*),
      decNumberDivide = whole_op (div), decNumberRemainder = whole_op (mod), decNumberPower = whole_op (\<lambda>i j. i ^ nat j),
      decNumberLn = (\<lambda>x. x), decNumberLog10 = (\<lambda>x. x), decNumberToIntegralValue = (\<lambda>r x. x), decNumberClass = whole_class\<rparr>"

definition whole_text :: "es_term \<Rightarrow> string" where
  "whole_text t = (case t of Str s \<Rightarrow> s | Clos c \<Rightarrow> [])"

lemma whole_read_show: "whole_read (show_int i) = Whole i"
proof -
  have *: "hd (show_nat n) \<noteq> CHR ''-'' \<and> show_nat n \<noteq> ''Inf''" for n
  proof -
    have "isdigit (hd (show_nat n))" using show_nat_digits [of "hd (show_nat n)" n] by simp
    then show ?thesis by (auto simp: isdigit_def uchar_def)
  qed
  show ?thesis using * [of "nat i"] by (auto simp: whole_read_def show_int_def digits_val_show_nat)
qed

lemma whole_library_exact: "exact whole_library Whole"
  by (simp add: exact_def whole_library_def whole_read_show)

text \<open>What the operations are on integers.\<close>

fun int_op :: "MathOp \<Rightarrow> int \<Rightarrow> int \<Rightarrow> int" where
  "int_op DO_SUM i j = i + j"
| "int_op DO_MUL i j = i * j"
| "int_op op i j = i - j"

lemma text_of_int:
  assumes "exact D num" "representable i"
  shows "es_dec128_to_string D (num i) = show_int i"
proof -
  have d: "show_nat n \<noteq> [] \<and> isdigit (hd (show_nat n)) \<and> take 1 (show_nat n) = [hd (show_nat n)]" for n
    using show_nat_digits [of "hd (show_nat n)" n] show_nat_nonempty [of n] by (cases "show_nat n") auto
  have "\<not> isdigit CHR ''-''" "\<not> isdigit CHR ''N''" "\<not> isdigit CHR ''I''" by (simp_all add: isdigit_def uchar_def)
  then show ?thesis using assms d [of "nat i"] d [of "nat (- i)"]
    by (auto simp: exact_def es_dec128_to_string_def Let_def show_int_def)
qed

lemma math_loop_exact:
  assumes "exact D num" "op \<in> {DO_SUM, DO_DIFF, DO_MUL}" and gs: "\<forall>s. gs (Str s) = s"
  shows "\<forall>k \<le> length is. representable (foldl (int_op op) i (take k is)) \<Longrightarrow> \<forall>j \<in> set is. representable j \<Longrightarrow> 0 < n \<Longrightarrow>
    math_loop D gs op n (num i) (map (\<lambda>j. Str (show_int j)) is) = num (foldl (int_op op) i is)"
proof (induction "is" arbitrary: i n)
  case (Cons j js)
  have r: "representable i" "representable j" "representable (int_op op i j)" using Cons.prems(1) [rule_format, of 0]
      Cons.prems(1) [rule_format, of 1] Cons.prems(2) by simp_all
  have "math_next D op (num i) (num j) = num (int_op op i j)"
    using assms r by (auto simp: math_next_def exact_def es_dec128_sum_def es_dec128_diff_def es_dec128_mul_def dec128_binop_def)
  moreover have "es_dec128_from_string D (show_int j) = num j" using assms(1) r(2) by (simp add: exact_def es_dec128_from_string_def)
  moreover have "math_loop D gs op (n + 1) (num (int_op op i j)) (map (\<lambda>j. Str (show_int j)) js) = num (foldl (int_op op) (int_op op i j) js)"
  proof (rule Cons.IH)
    show "\<forall>k \<le> length js. representable (foldl (int_op op) (int_op op i j) (take k js))"
      using Cons.prems(1) [rule_format, of "Suc k" for k] by auto
  qed (use Cons.prems in auto)
  ultimately show ?case using Cons.prems(3) by (simp add: gs Let_def)
qed simp



lemma text_of_sgn: "show_int (sgn i) = (if i > 0 then ''1'' else if i < 0 then ''-1'' else ''0'')" for i :: int
proof -
  have "show_int 1 = ''1''" "show_int (-1) = ''-1''" "show_int 0 = ''0''" by code_simp+
  then show ?thesis by (cases i "0 :: int" rule: linorder_cases) simp_all
qed



end
