(* ===== verification/Procs.thy ===== *)
theory Procs
  imports Signals Fd Conv
begin

text \<open>
  Processes, \<open>src/proc.c\<close>: the doubly linked list of the processes of the shell, \<open>fork\<close> and \<open>wait\<close>, and
  the primitives on jobs. The cells of the list are in a heap with addresses from 0 on, where a cell that
  is freed is missing; a pointer is an address or, for NULL, \<^const>\<open>None\<close>. Reading a cell that is missing
  is undefined. What the kernel answers is a parameter.
\<close>

section \<open>State\<close>

record job =
  ppid :: int
  ppgid :: int
  pstatus :: "32 word"
  palive :: bool
  pbackground :: bool
  pstopped :: bool
  phaschanged :: bool
  ptmodes :: nat
  pcmd :: string

record proc = job +
  pnext :: "nat option"
  pprev :: "nat option"

text \<open>
  \<open>handlers\<close> counts the exception handlers above the one of the root. The settings of the terminal are
  numbers; \<open>tty_pgid\<close> is the process group that owns it. \<open>groups\<close> and \<open>continued\<close> record the calls of \<open>setpgid\<close>
  and the processes that \<open>kill\<close> has sent \<open>SIGCONT\<close>; \<open>waits\<close> counts the calls of \<open>waitpid\<close>.
\<close>

record 'f pstate =
  cells :: "nat \<Rightarrow> proc option"
  proclist :: "nat option"
  unused :: nat
  sigs :: sigstate
  ttymask :: sigmask
  tty_pgid :: int
  tty_modes :: nat
  groups :: "(int \<times> int) list"
  continued :: "int list"
  waits :: nat
  handlers :: nat
  fds :: "'f fdstate"

record shell =
  shell_pgid :: int
  shell_tmodes :: nat
  has_job_control :: bool
  isinteractive :: bool
  tty_isatty :: bool

text \<open>
  \<open>waitpid\<close> depends on the number of calls before it. It returns a process with its status, 0, or an error;
  or a signal comes while the shell waits. Processes that run change the settings of the terminal.
  \<open>cell_junk\<close> and \<open>stack_junk\<close> are what a new cell and the variable \<open>wstatus\<close> hold before they are written;
  \<open>tty_tries\<close> is how often \<open>tcsetpgrp\<close> fails in a child until it owns the terminal.
\<close>

datatype waitans = Changed int "32 word" | Nothing | Interrupt nat | WaitError string

record kernel =
  waitpid :: "nat \<Rightarrow> int \<Rightarrow> bool \<Rightarrow> waitans"
  modes_after :: "nat \<Rightarrow> nat \<Rightarrow> nat"
  eintr :: string
  fork_error :: string
  getpid :: int
  tty_tries :: nat
  cell_junk :: "nat \<Rightarrow> 32 word"
  stack_junk :: "nat \<Rightarrow> 32 word"

type_synonym ('f, 'a) prun = "(stop \<times> 'f pstate, 'a) outcome_of"

fun on_sigs :: "'f pstate \<Rightarrow> sigstate sigrun \<Rightarrow> ('f, 'f pstate) prun" where
  "on_sigs st (Ok s) = Ok (st\<lparr>sigs := s\<rparr>)"
| "on_sigs st (Throw (e, s)) = Throw (e, st\<lparr>sigs := s\<rparr>)"
| "on_sigs st Abort = Abort"
| "on_sigs st Undef = Undef"

section \<open>The list\<close>

definition modify :: "nat \<Rightarrow> (proc \<Rightarrow> proc) \<Rightarrow> 'f pstate \<Rightarrow> ('f, 'f pstate) prun" where
  "modify a f st =
     (case cells st a of None \<Rightarrow> Undef | Some c \<Rightarrow> Ok (st\<lparr>cells := (cells st)(a \<mapsto> f c)\<rparr>))"

text \<open>The loops that look for a process, with fuel: \<open>unused\<close>, the number of cells that have been made.\<close>

fun find_proc :: "nat \<Rightarrow> (proc \<Rightarrow> bool) \<Rightarrow> nat option \<Rightarrow> 'f pstate \<Rightarrow> ('f, nat option) prun" where
  "find_proc n P None st = Ok None"
| "find_proc 0 P (Some a) st = Throw (OutOfFuel, st)"
| "find_proc (Suc n) P (Some a) st =
     (case cells st a of
        None \<Rightarrow> Undef
      | Some c \<Rightarrow> if P c then Ok (Some a) else find_proc n P (pnext c) st)"

definition search :: "(proc \<Rightarrow> bool) \<Rightarrow> 'f pstate \<Rightarrow> ('f, nat option) prun" where
  "search P st = find_proc (unused st) P (proclist st) st"

text \<open>\<open>mkproc\<close>: a cell with the process id is used again, and keeps its \<open>next\<close> pointer and its status.\<close>

definition init_proc :: "shell \<Rightarrow> int \<Rightarrow> bool \<Rightarrow> string \<Rightarrow> proc \<Rightarrow> proc" where
  "init_proc S pid background cmd c =
     c\<lparr>pprev := None, ppid := pid, ppgid := shell_pgid S, palive := True, pbackground := background,
       pstopped := False, phaschanged := False, ptmodes := shell_tmodes S, pcmd := cmd\<rparr>"

definition new_cell :: "kernel \<Rightarrow> 'f pstate \<Rightarrow> proc" where
  "new_cell K st =
     \<lparr>ppid = 0, ppgid = 0, pstatus = cell_junk K (unused st), palive = False, pbackground = False,
      pstopped = False, phaschanged = False, ptmodes = 0, pcmd = [], pnext = proclist st, pprev = None\<rparr>"

definition mkproc :: "shell \<Rightarrow> kernel \<Rightarrow> int \<Rightarrow> bool \<Rightarrow> string \<Rightarrow> 'f pstate \<Rightarrow> ('f, nat \<times> 'f pstate) prun" where
  "mkproc S K pid background cmd st =
     obind (search (\<lambda>c. ppid c = pid) st) (\<lambda>p. case p of
         None \<Rightarrow>
           Ok (unused st, st\<lparr>cells := (cells st)(unused st \<mapsto> init_proc S pid background cmd (new_cell K st)),
             unused := Suc (unused st)\<rparr>)
       | Some a \<Rightarrow>
           (case cells st a of
              None \<Rightarrow> Undef
            | Some c \<Rightarrow> if palive c then Abort
                else obind (modify a (init_proc S pid background cmd) st) (\<lambda>st. Ok (a, st))))"

text \<open>\<open>unlinkproc\<close>; the result is the copy that \<open>*p\<close> points to from then on.\<close>

definition unlinkproc :: "nat \<Rightarrow> 'f pstate \<Rightarrow> ('f, proc \<times> 'f pstate) prun" where
  "unlinkproc a st =
     (case cells st a of
        None \<Rightarrow> Undef
      | Some unlinkedproc \<Rightarrow>
          obind (case pnext unlinkedproc of
              None \<Rightarrow> Ok st
            | Some b \<Rightarrow> modify b (\<lambda>c. c\<lparr>pprev := pprev unlinkedproc\<rparr>) st) (\<lambda>st.
          obind (case cells st a of
              None \<Rightarrow> Undef
            | Some proc \<Rightarrow>
                (case pprev proc of
                   None \<Rightarrow> Ok (st\<lparr>proclist := pnext proc\<rparr>)
                 | Some b \<Rightarrow> modify b (\<lambda>c. c\<lparr>pnext := pnext proc\<rparr>) st)) (\<lambda>st.
          Ok (unlinkedproc, st\<lparr>cells := (cells st)(a := None)\<rparr>))))"

text \<open>\<open>assign_tty\<close>, with a call of \<open>tcsetpgrp\<close> that succeeds.\<close>

definition give_tty :: "int \<Rightarrow> 'f pstate \<Rightarrow> ('f, 'f pstate) prun" where
  "give_tty pgid st = obind (on_throw st (assign_tty (ttymask st))) (\<lambda>m. Ok (st\<lparr>ttymask := m, tty_pgid := pgid\<rparr>))"

text \<open>The loop of a child that calls \<open>assign_tty\<close> until it succeeds, after \<open>n\<close> calls that fail.\<close>

fun take_tty :: "nat \<Rightarrow> int \<Rightarrow> 'f pstate \<Rightarrow> ('f, 'f pstate) prun" where
  "take_tty 0 pgid st = give_tty pgid st"
| "take_tty (Suc n) pgid st =
     obind (on_throw st (assign_tty (ttymask st))) (\<lambda>m. take_tty n pgid (st\<lparr>ttymask := m\<rparr>))"

section \<open>Fork\<close>

text \<open>\<open>efork\<close>: \<open>r\<close> is what \<open>fork\<close> returns, so that 0 gives the run of the child.\<close>

definition new_child :: "sigtable \<Rightarrow> 'f pstate \<Rightarrow> ('f, int \<times> 'f pstate) prun" where
  "new_child T st =
     obind (on_throw st (closefds (fds st))) (\<lambda>f.
     let st = st\<lparr>fds := f\<rparr> in
     obind (on_sigs st (setsigdefaults T (sigs st))) (\<lambda>st. Ok (0, st\<lparr>handlers := 0\<rparr>)))"

definition enter_group :: "shell \<Rightarrow> nat \<Rightarrow> int \<Rightarrow> bool \<Rightarrow> int \<Rightarrow> 'f pstate \<Rightarrow> ('f, 'f pstate) prun" where
  "enter_group S proc pid background pgid st =
     (if has_job_control S \<and> isinteractive S then
        let pgid = (if pgid = 0 then pid else pgid) in
        obind (modify proc (\<lambda>c. c\<lparr>ppgid := pgid\<rparr>) (st\<lparr>groups := groups st @ [(pid, pgid)]\<rparr>)) (\<lambda>st.
        if background then Ok st else give_tty pgid st)
      else Ok st)"

definition fork_parent :: "shell \<Rightarrow> kernel \<Rightarrow> int \<Rightarrow> bool \<Rightarrow> int \<Rightarrow> string \<Rightarrow> 'f pstate \<Rightarrow> ('f, int \<times> 'f pstate) prun" where
  "fork_parent S K pid background pgid cmd st =
     obind (mkproc S K pid background cmd st) (\<lambda>(proc, st).
     obind (enter_group S proc pid background pgid st) (\<lambda>st.
     obind (case proclist st of None \<Rightarrow> Ok st | Some b \<Rightarrow> modify b (\<lambda>c. c\<lparr>pprev := Some proc\<rparr>) st) (\<lambda>st.
     Ok (pid, st\<lparr>proclist := Some proc\<rparr>))))"

definition fork_child :: "shell \<Rightarrow> kernel \<Rightarrow> sigtable \<Rightarrow> bool \<Rightarrow> int \<Rightarrow> 'f pstate \<Rightarrow> ('f, int \<times> 'f pstate) prun" where
  "fork_child S K T background pgid st =
     (let st = st\<lparr>sigs := (sigs st)\<lparr>hasforked := True\<rparr>\<rparr> in
      obind (if has_job_control S \<and> isinteractive S then
               let pgid = (if pgid = 0 then getpid K else pgid);
                   st = st\<lparr>groups := groups st @ [(0, pgid)]\<rparr> in
               if \<not> background \<and> tty_isatty S then take_tty (tty_tries K) pgid st else Ok st
             else Ok st) (new_child T))"

definition efork :: "shell \<Rightarrow> kernel \<Rightarrow> sigtable \<Rightarrow> int \<Rightarrow> bool \<Rightarrow> bool \<Rightarrow> int \<Rightarrow> string \<Rightarrow> 'f pstate \<Rightarrow>
    ('f, int \<times> 'f pstate) prun" where
  "efork S K T r parent background pgid cmd st =
     (let pgid = (if pgid = -1 then shell_pgid S else pgid) in
      if \<not> parent then new_child T st
      else if r = -1 then Throw (Exn (fail_exn ''es:efork'' (''fork: '' @ fork_error K)), st)
      else if r = 0 then fork_child S K T background pgid st
      else fork_parent S K r background pgid cmd st)"

definition job_text :: "(es_term \<Rightarrow> string) \<Rightarrow> terms \<Rightarrow> string" where
  "job_text gs list = (if list = [] then [] else Lconv gs False list '' '')"

section \<open>Waiting\<close>

definition WSTOPSIG :: "32 word \<Rightarrow> nat" where
  "WSTOPSIG status = nat (SEXITSTATUS status)"

text \<open>A call of \<open>catcher\<close>; when \<open>slow\<close> is set it jumps.\<close>

definition run_catcher :: "nat \<Rightarrow> 'f pstate \<Rightarrow> ('f, 'f pstate) prun" where
  "run_catcher sig st = on_sigs st (obind (catcher sig (sigs st)) (\<lambda>(jump, s). Ok s))"

text \<open>\<open>waitpidwrapper\<close>: an error or the process, and the status as \<open>*statusp\<close> has it afterwards.\<close>

definition waitpidwrapper :: "kernel \<Rightarrow> int \<Rightarrow> 32 word \<Rightarrow> bool \<Rightarrow> 'f pstate \<Rightarrow>
    ('f, (string + int) \<times> 32 word \<times> 'f pstate) prun" where
  "waitpidwrapper K pid statusp nohang st =
     (let st = st\<lparr>sigs := (sigs st)\<lparr>interrupted := False, slow := True\<rparr>\<rparr>;
          answer = waitpid K (waits st) pid nohang;
          st = st\<lparr>tty_modes := modes_after K (waits st) (tty_modes st), waits := Suc (waits st)\<rparr>;
          fast = (\<lambda>st. st\<lparr>sigs := (sigs st)\<lparr>slow := False\<rparr>\<rparr>)
      in case answer of
        Changed wpid wstatus \<Rightarrow> Ok (Inr wpid, wstatus, fast st)
      | Nothing \<Rightarrow> Ok (Inr 0, statusp, fast st)
      | Interrupt sig \<Rightarrow> obind (run_catcher sig st) (\<lambda>st. Ok (Inl (eintr K), statusp, fast st))
      | WaitError e \<Rightarrow> Ok (Inl e, statusp, fast st))"

definition matches :: "int \<Rightarrow> bool \<Rightarrow> 'a job_scheme \<Rightarrow> bool" where
  "matches pid onlyfg c \<longleftrightarrow>
     (pid = ppid c \<or> - pid = ppgid c \<or> pid = 0) \<and> palive c \<and> (\<not> pbackground c \<or> \<not> onlyfg)"

definition getproc :: "int \<Rightarrow> bool \<Rightarrow> 'f pstate \<Rightarrow> ('f, nat option) prun" where
  "getproc pid onlyfg st = search (matches pid onlyfg) st"

definition ask_for_tty :: "shell \<Rightarrow> 'f pstate \<Rightarrow> ('f, 'f pstate) prun" where
  "ask_for_tty S st =
     (if isinteractive S then
        obind (getproc 0 True st) (\<lambda>p.
        if p = None then obind (give_tty (shell_pgid S) st) (\<lambda>st. Ok (st\<lparr>tty_modes := shell_tmodes S\<rparr>)) else Ok st)
      else Ok st)"

text \<open>\<open>cleanproclist\<close>: after a cell is freed, \<open>next\<close> is read from the copy.\<close>

fun clean_loop :: "nat \<Rightarrow> nat option \<Rightarrow> 'f pstate \<Rightarrow> ('f, 'f pstate) prun" where
  "clean_loop n None st = Ok st"
| "clean_loop 0 (Some a) st = Throw (OutOfFuel, st)"
| "clean_loop (Suc n) (Some a) st =
     (case cells st a of
        None \<Rightarrow> Undef
      | Some c \<Rightarrow>
          if palive c then clean_loop n (pnext c) st
          else obind (unlinkproc a st) (\<lambda>(copy, st). clean_loop n (pnext copy) st))"

definition cleanproclist :: "'f pstate \<Rightarrow> ('f, 'f pstate) prun" where
  "cleanproclist st = clean_loop (unused st) (proclist st) st"

fun donotwait_loop :: "kernel \<Rightarrow> nat \<Rightarrow> nat option \<Rightarrow> bool \<Rightarrow> 'f pstate \<Rightarrow> ('f, bool \<times> 'f pstate) prun" where
  "donotwait_loop K n None r st = Ok (r, st)"
| "donotwait_loop K 0 (Some a) r st = Throw (OutOfFuel, st)"
| "donotwait_loop K (Suc n) (Some a) r st =
     (case cells st a of
        None \<Rightarrow> Undef
      | Some c \<Rightarrow>
          obind (if palive c \<and> pbackground c then
              obind (waitpidwrapper K (ppid c) (stack_junk K (waits st)) True st) (\<lambda>(wpid, wstatus, st).
              if wpid = Inr (ppid c) then
                obind (modify a (\<lambda>c. c\<lparr>phaschanged := True, palive := False, pstatus := wstatus\<rparr>) st)
                  (\<lambda>st. Ok (True, st))
              else Ok (r, st))
            else Ok (r, st)) (\<lambda>(r, st). donotwait_loop K n (pnext c) r st))"

definition donotwait :: "kernel \<Rightarrow> 'f pstate \<Rightarrow> ('f, bool \<times> 'f pstate) prun" where
  "donotwait K st = donotwait_loop K (unused st) (proclist st) False st"

text \<open>The body of the loop of \<open>ewait\<close> for the process that has changed, and the loop, with fuel for the calls of \<open>waitpid\<close>.\<close>

definition note_change :: "nat \<Rightarrow> 32 word \<Rightarrow> 'f pstate \<Rightarrow> ('f, 'f pstate) prun" where
  "note_change a wstatus st =
     obind (modify a (\<lambda>c. c\<lparr>phaschanged := True\<rparr>) st) (\<lambda>st.
     if SIFSTOPPED wstatus then
       obind (run_catcher (WSTOPSIG wstatus) st) (\<lambda>st.
       modify a (\<lambda>c. c\<lparr>pstopped := True, pbackground := True, ptmodes := tty_modes st\<rparr>) st)
     else
       obind (if SIFSIGNALED wstatus then run_catcher (nat (STERMSIG wstatus)) st else Ok st) (\<lambda>st.
       modify a (\<lambda>c. c\<lparr>palive := False, pstatus := wstatus\<rparr>) st))"

fun ewait_loop :: "shell \<Rightarrow> kernel \<Rightarrow> nat \<Rightarrow> int \<Rightarrow> 32 word \<Rightarrow> 'f pstate \<Rightarrow> ('f, 32 word \<times> 'f pstate) prun" where
  "ewait_loop S K n pid wstatus st =
     obind (getproc pid False st) (\<lambda>p.
     if p = None then Ok (wstatus, st)
     else case n of
       0 \<Rightarrow> Throw (OutOfFuel, st)
     | Suc n \<Rightarrow>
         obind (waitpidwrapper K pid wstatus False st) (\<lambda>(r, wstatus, st).
         case r of
           Inl e \<Rightarrow>
             obind (give_tty (shell_pgid S) st) (\<lambda>st.
             Throw (Exn (fail_exn ''es:ewait'' (''wait: '' @ show_int pid @ '' '' @ e)), st))
         | Inr wpid \<Rightarrow>
             obind (getproc wpid False st) (\<lambda>proc.
             case proc of
               None \<Rightarrow> Undef
             | Some a \<Rightarrow>
                 obind (note_change a wstatus st) (\<lambda>st.
                 if SIFSTOPPED wstatus then Ok (wstatus, st) else ewait_loop S K n pid wstatus st))))"

declare ewait_loop.simps [simp del]

definition ewait :: "shell \<Rightarrow> kernel \<Rightarrow> int \<Rightarrow> 'f pstate \<Rightarrow> ('f, 32 word \<times> 'f pstate) prun" where
  "ewait S K pid st =
     (let wstatus = stack_junk K (waits st) in
      obind (donotwait K st) (\<lambda>(_, st).
      obind (ewait_loop S K (unused st) pid wstatus st) (\<lambda>(wstatus, st).
      obind (if isinteractive S then Ok st else cleanproclist st) (\<lambda>st.
      obind (ask_for_tty S st) (\<lambda>st.
      obind (give_tty (shell_pgid S) st) (\<lambda>st. Ok (wstatus, st)))))))"

section \<open>Primitives\<close>

text \<open>The name of a signal for \<open>mkstatus\<close> comes from the table; \<open>getstr\<close> is the argument \<open>gs\<close>.\<close>

definition status_term :: "sigtable \<Rightarrow> 32 word \<Rightarrow> terms" where
  "status_term T status = [Str (mkstatus (\<lambda>sig. signame T (nat sig)) status)]"

definition usage :: "string \<Rightarrow> string \<Rightarrow> 'f pstate \<Rightarrow> ('f, 'a) prun" where
  "usage caller msg st = Throw (Exn (fail_exn caller msg), st)"

definition pid_arg :: "(es_term \<Rightarrow> string) \<Rightarrow> es_term \<Rightarrow> int" where
  "pid_arg gs t = int_of_long (atoi (gs t))"

fun apids_loop :: "nat \<Rightarrow> bool \<Rightarrow> bool \<Rightarrow> int \<Rightarrow> nat option \<Rightarrow> terms \<Rightarrow> 'f pstate \<Rightarrow> ('f, terms) prun" where
  "apids_loop n allflag jobflag pgid None lp st = Ok lp"
| "apids_loop 0 allflag jobflag pgid (Some a) lp st = Throw (OutOfFuel, st)"
| "apids_loop (Suc n) allflag jobflag pgid (Some a) lp st =
     (case cells st a of
        None \<Rightarrow> Undef
      | Some p \<Rightarrow>
          if (allflag \<or> palive p \<and> pbackground p) \<and> (\<not> jobflag \<or> ppgid p \<noteq> pgid)
          then apids_loop n allflag jobflag (ppgid p) (pnext p) (Str (show_int (ppid p)) # lp) st
          else apids_loop n allflag jobflag pgid (pnext p) lp st)"

definition prim_apids :: "terms \<Rightarrow> 'f pstate \<Rightarrow> ('f, terms) prun" where
  "prim_apids list st =
     (let jobflag = (list \<noteq> [] \<and> termeq (hd list) ''-j''); allflag = (list \<noteq> [] \<and> termeq (hd list) ''-a'')
      in apids_loop (unused st) allflag jobflag (-1) (proclist st) [] st)"

definition prim_wait :: "shell \<Rightarrow> kernel \<Rightarrow> sigtable \<Rightarrow> (es_term \<Rightarrow> string) \<Rightarrow> terms \<Rightarrow> 'f pstate \<Rightarrow>
    ('f, terms \<times> 'f pstate) prun" where
  "prim_wait S K T gs list st =
     obind (case list of
         [] \<Rightarrow> Ok 0
       | [t] \<Rightarrow> Ok (pid_arg gs t)
       | _ \<Rightarrow> usage ''$&wait'' ''usage: wait [pid]'' st) (\<lambda>pid.
     obind (ewait S K pid st) (\<lambda>(status, st). Ok (status_term T status, st)))"

text \<open>The process of an argument, and the failure when it is not alive.\<close>

definition live_arg :: "string \<Rightarrow> (es_term \<Rightarrow> string) \<Rightarrow> terms \<Rightarrow> 'f pstate \<Rightarrow> ('f, proc) prun" where
  "live_arg caller gs list st =
     (case list of
        [t] \<Rightarrow>
          let pid = pid_arg gs t; invalid = usage caller (caller @ '': '' @ show_int pid @ '': invalid pid'') st in
          obind (search (\<lambda>c. ppid c = pid) st) (\<lambda>p.
          case p of
            None \<Rightarrow> invalid
          | Some a \<Rightarrow>
              (case cells st a of None \<Rightarrow> Undef | Some c \<Rightarrow> if \<not> palive c then invalid else Ok c))
      | _ \<Rightarrow> usage caller (''usage: '' @ caller @ '' pid'') st)"

text \<open>
  The loop that continues the processes of a group in the foreground or background; \<open>found\<close> tells whether there
  was one.
\<close>

fun continue_loop :: "bool \<Rightarrow> nat \<Rightarrow> int \<Rightarrow> nat option \<Rightarrow> bool \<Rightarrow> 'f pstate \<Rightarrow> ('f, bool \<times> 'f pstate) prun" where
  "continue_loop background n pgid None found st = Ok (found, st)"
| "continue_loop background 0 pgid (Some a) found st = Throw (OutOfFuel, st)"
| "continue_loop background (Suc n) pgid (Some a) found st =
     (case cells st a of
        None \<Rightarrow> Undef
      | Some c \<Rightarrow>
          if palive c \<and> ppgid c = pgid then
            obind (modify a (\<lambda>c. c\<lparr>pbackground := background, pstopped := False\<rparr>)
                     (st\<lparr>continued := continued st @ [ppid c]\<rparr>)) (\<lambda>st.
            continue_loop background n pgid (pnext c) True st)
          else continue_loop background n pgid (pnext c) found st)"

text \<open>The loop of \<open>$&fg\<close> that waits: \<open>next\<close> is read after \<open>ewait\<close>, which may have freed the cell.\<close>

fun fg_loop :: "shell \<Rightarrow> kernel \<Rightarrow> nat \<Rightarrow> int \<Rightarrow> nat option \<Rightarrow> 32 word \<Rightarrow> 'f pstate \<Rightarrow> ('f, 32 word \<times> 'f pstate) prun" where
  "fg_loop S K n pgid None status st = Ok (status, st)"
| "fg_loop S K 0 pgid (Some a) status st = Throw (OutOfFuel, st)"
| "fg_loop S K (Suc n) pgid (Some a) status st =
     (case cells st a of
        None \<Rightarrow> Undef
      | Some c \<Rightarrow>
          obind (if palive c \<and> ppgid c = pgid then ewait S K (ppid c) st else Ok (status, st)) (\<lambda>(status, st).
          case cells st a of
            None \<Rightarrow> Undef
          | Some c \<Rightarrow> fg_loop S K n pgid (pnext c) status st))"

definition prim_fg :: "shell \<Rightarrow> kernel \<Rightarrow> sigtable \<Rightarrow> (es_term \<Rightarrow> string) \<Rightarrow> terms \<Rightarrow> 'f pstate \<Rightarrow>
    ('f, terms \<times> 'f pstate) prun" where
  "prim_fg S K T gs list st =
     obind (live_arg ''$&fg'' gs list st) (\<lambda>proc.
     obind (give_tty (ppgid proc) st) (\<lambda>st.
     let st = st\<lparr>tty_modes := ptmodes proc\<rparr> in
     obind (continue_loop False (unused st) (ppgid proc) (proclist st) False st) (\<lambda>(_, st).
     obind (fg_loop S K (unused st) (ppgid proc) (proclist st) 0 st) (\<lambda>(status, st).
     Ok (status_term T status, st)))))"

definition prim_bg :: "(es_term \<Rightarrow> string) \<Rightarrow> terms \<Rightarrow> 'f pstate \<Rightarrow> ('f, terms \<times> 'f pstate) prun" where
  "prim_bg gs list st =
     obind (live_arg ''$&bg'' gs list st) (\<lambda>proc.
     obind (continue_loop True (unused st) (ppgid proc) (proclist st) False st) (\<lambda>(found, st).
     Ok ([Str (if found then ''0'' else ''1'')], st)))"

text \<open>The second loop of \<open>$&procinfo\<close> goes to the end of the processes of the group that stand together.\<close>

fun group_end :: "nat \<Rightarrow> int \<Rightarrow> nat \<Rightarrow> 'f pstate \<Rightarrow> ('f, proc) prun" where
  "group_end n pid a st =
     (case cells st a of
        None \<Rightarrow> Undef
      | Some c \<Rightarrow>
          (case pnext c of
             None \<Rightarrow> Ok c
           | Some b \<Rightarrow>
               (case cells st b of
                  None \<Rightarrow> Undef
                | Some d \<Rightarrow> if ppgid d \<noteq> - pid then Ok c
                    else (case n of 0 \<Rightarrow> Throw (OutOfFuel, st) | Suc n \<Rightarrow> group_end n pid b st))))"

declare group_end.simps [simp del]

definition true_or_false :: "bool \<Rightarrow> es_term" where
  "true_or_false b = Str (if b then ''true'' else ''false'')"

definition job_terms :: "proc \<Rightarrow> terms" where
  "job_terms c =
     [Str (show_int (ppid c)), Str (show_int (ppgid c)), true_or_false (palive c), true_or_false (pbackground c),
      true_or_false (pstopped c), true_or_false (phaschanged c), Str (pcmd c), Str (show_int (sint (pstatus c)))]"

definition prim_procinfo :: "(es_term \<Rightarrow> string) \<Rightarrow> terms \<Rightarrow> 'f pstate \<Rightarrow> ('f, terms) prun" where
  "prim_procinfo gs list st =
     (case list of
        [t] \<Rightarrow>
          let pid = pid_arg gs t in
          obind (search (\<lambda>c. ppid c = pid \<or> ppgid c = - pid) st) (\<lambda>p.
          if pid < 0 then
            (case p of None \<Rightarrow> Undef | Some a \<Rightarrow> obind (group_end (unused st) pid a st) (\<lambda>c. Ok (job_terms c)))
          else
            (case p of
               None \<Rightarrow> Ok []
             | Some a \<Rightarrow> (case cells st a of None \<Rightarrow> Undef | Some c \<Rightarrow> Ok (job_terms c))))
      | _ \<Rightarrow> usage ''$&procinfo'' ''usage: $&procinfo [pid | -pgid]'' st)"

definition prim_procchange :: "(es_term \<Rightarrow> string) \<Rightarrow> terms \<Rightarrow> 'f pstate \<Rightarrow> ('f, terms \<times> 'f pstate) prun" where
  "prim_procchange gs list st =
     (case list of
        [t] \<Rightarrow>
          let pid = pid_arg gs t in
          obind (search (\<lambda>c. ppid c = pid) st) (\<lambda>p.
          case p of
            None \<Rightarrow> Undef
          | Some a \<Rightarrow>
              (case cells st a of
                 None \<Rightarrow> Undef
               | Some c \<Rightarrow> obind (modify a (\<lambda>c. c\<lparr>phaschanged := \<not> phaschanged c\<rparr>) st) (\<lambda>st.
                   Ok (if \<not> phaschanged c then ltrue else lfalse, st))))
      | _ \<Rightarrow> usage ''$&procchange'' ''usage: $&procchange pid'' st)"

text \<open>\<open>$&procfree\<close>; \<open>waitpid\<close> is called without the wrapper.\<close>

definition prim_procfree :: "kernel \<Rightarrow> (es_term \<Rightarrow> string) \<Rightarrow> terms \<Rightarrow> 'f pstate \<Rightarrow> ('f, terms \<times> 'f pstate) prun" where
  "prim_procfree K gs list st =
     (case list of
        [t] \<Rightarrow>
          let pid = pid_arg gs t in
          obind (search (\<lambda>c. ppid c = pid) st) (\<lambda>p.
          case p of
            None \<Rightarrow> usage ''$&procfree'' (''$&procfree: '' @ show_int pid @ '': invalid pid'') st
          | Some a \<Rightarrow>
              obind (case waitpid K (waits st) pid True of
                  Changed wpid wstatus \<Rightarrow> modify a (\<lambda>c. c\<lparr>pstatus := wstatus\<rparr>) st
                | Interrupt sig \<Rightarrow> run_catcher sig st
                | _ \<Rightarrow> Ok st) (\<lambda>st.
              obind (unlinkproc a (st\<lparr>tty_modes := modes_after K (waits st) (tty_modes st), waits := Suc (waits st)\<rparr>))
                (\<lambda>(_, st). Ok ([], st))))
      | _ \<Rightarrow> usage ''$&procfree'' ''usage: $&procfree pid'' st)"

definition prim_donotwait :: "kernel \<Rightarrow> 'f pstate \<Rightarrow> ('f, terms \<times> 'f pstate) prun" where
  "prim_donotwait K st = obind (donotwait K st) (\<lambda>(r, st). Ok (if r then ltrue else lfalse, st))"

section \<open>Lists in the heap\<close>

text \<open>The cells \<open>as\<close> lead from the pointer \<open>p\<close> to the pointer \<open>s\<close>, and back to \<open>q\<close>.\<close>

fun linked :: "(nat \<Rightarrow> proc option) \<Rightarrow> nat option \<Rightarrow> nat option \<Rightarrow> nat list \<Rightarrow> nat option \<Rightarrow> bool" where
  "linked h q p [] s \<longleftrightarrow> p = s"
| "linked h q p (a # as) s \<longleftrightarrow> p = Some a \<and>
     (case h a of None \<Rightarrow> False | Some c \<Rightarrow> pprev c = q \<and> linked h (Some a) (pnext c) as s)"

definition proc_list :: "'f pstate \<Rightarrow> nat list \<Rightarrow> bool" where
  "proc_list st as \<longleftrightarrow> linked (cells st) None (proclist st) as None \<and> distinct as \<and> list_all (\<lambda>a. a < unused st) as"

text \<open>What a cell holds besides its pointers, and the jobs of a list.\<close>

definition job_at :: "'f pstate \<Rightarrow> nat \<Rightarrow> job" where
  "job_at st a = job.truncate (the (cells st a))"

definition jobs :: "'f pstate \<Rightarrow> nat list \<Rightarrow> job list" where
  "jobs st as = map (job_at st) as"

definition lastp :: "nat option \<Rightarrow> nat list \<Rightarrow> nat option" where
  "lastp q as = (if as = [] then q else Some (last as))"

lemma lastp_simps [simp]: "lastp q [] = q" "lastp q (a # as) = lastp (Some a) as" "lastp q (as @ [a]) = Some a"
  by (simp_all add: lastp_def)

lemma linked_append: "linked h q p (as @ b # bs) s \<longleftrightarrow>
    linked h q p as (Some b) \<and> linked h (lastp q as) (Some b) (b # bs) s"
  by (induction as arbitrary: q p) (auto split: option.split)

lemma linked_other: "a \<notin> set as \<Longrightarrow> linked (h(a := x)) q p as s = linked h q p as s"
  by (induction as arbitrary: q p) (auto split: option.split)

lemma linked_data:
  "h a = Some c \<Longrightarrow> pnext c' = pnext c \<Longrightarrow> pprev c' = pprev c \<Longrightarrow> linked (h(a \<mapsto> c')) q p as s = linked h q p as s"
  by (induction as arbitrary: q p) (auto split: option.split)

lemma linked_cell: "linked h q p as s \<Longrightarrow> a \<in> set as \<Longrightarrow> \<exists>c. h a = Some c"
  by (induction as arbitrary: q p) (auto split: option.splits)

lemma linked_end:
  "linked h q p (as @ [a]) s \<Longrightarrow> h a = Some c \<Longrightarrow> a \<notin> set as \<Longrightarrow> linked (h(a \<mapsto> c\<lparr>pnext := s'\<rparr>)) q p (as @ [a]) s'"
  by (induction as arbitrary: q p) (auto split: option.splits)

lemma proc_list_length: "proc_list st as \<Longrightarrow> length as \<le> unused st"
proof -
  assume p: "proc_list st as"
  then have "set as \<subseteq> {..<unused st}" by (auto simp: proc_list_def list_all_iff)
  then have "card (set as) \<le> unused st" using card_mono [of "{..<unused st}" "set as"] by simp
  then show ?thesis using p by (simp add: proc_list_def distinct_card)
qed

lemma proc_list_cell: "proc_list st as \<Longrightarrow> a \<in> set as \<Longrightarrow> \<exists>c. cells st a = Some c"
  by (auto simp: proc_list_def dest: linked_cell)

lemma find_proc_eq:
  "linked (cells st) q p as None \<Longrightarrow> length as \<le> n \<Longrightarrow> find_proc n P p st = Ok (find (\<lambda>a. P (the (cells st a))) as)"
proof (induction as arbitrary: q p n)
  case (Cons a as)
  then obtain m where "n = Suc m" by (cases n) auto
  with Cons show ?case by (auto split: option.splits)
qed simp

lemma search_eq: "proc_list st as \<Longrightarrow> search P st = Ok (find (\<lambda>a. P (the (cells st a))) as)"
  using find_proc_eq [of st None "proclist st" as "unused st" P] proc_list_length [of st as]
  by (simp add: search_def proc_list_def)

section \<open>The list under the operations\<close>

lemma modify_kept:
  assumes "proc_list st as" "a \<in> set as" "\<And>c. pnext (f c) = pnext c" "\<And>c. pprev (f c) = pprev c"
  shows "modify a f st = Ok (st\<lparr>cells := (cells st)(a \<mapsto> f (the (cells st a)))\<rparr>)"
    "proc_list (st\<lparr>cells := (cells st)(a \<mapsto> f (the (cells st a)))\<rparr>) as"
proof -
  obtain c where c: "cells st a = Some c" using proc_list_cell [OF assms(1,2)] by auto
  then show "modify a f st = Ok (st\<lparr>cells := (cells st)(a \<mapsto> f (the (cells st a)))\<rparr>)" by (simp add: modify_def)
  show "proc_list (st\<lparr>cells := (cells st)(a \<mapsto> f (the (cells st a)))\<rparr>) as"
    using assms(1) linked_data [where h = "cells st" and a = a and c = c and c' = "f c", OF c assms(3) assms(4)] c by (simp add: proc_list_def)
qed

lemma linked_join: "linked h q p as m \<Longrightarrow> linked h (lastp q as) m bs s \<Longrightarrow> linked h q p (as @ bs) s"
  by (induction as arbitrary: q p) (auto split: option.splits)

lemma linked_prev:
  assumes "linked h q p (b # bs) s" "distinct (b # bs)"
  shows "\<exists>c. h b = Some c \<and> p = Some b \<and> linked (h(b \<mapsto> c\<lparr>pprev := q'\<rparr>)) q' p (b # bs) s"
  using assms by (cases "h b") (auto simp: linked_other)

lemma linked_last:
  assumes "linked h q p as m" "as \<noteq> []" "distinct as"
  shows "\<exists>c. h (last as) = Some c \<and> linked (h(last as \<mapsto> c\<lparr>pnext := s\<rparr>)) q p as s"
proof -
  obtain bs a where b: "as = bs @ [a]" using assms(2) by (cases as rule: rev_cases) auto
  then obtain c where "h a = Some c" using linked_cell [OF assms(1), of a] by auto
  then show ?thesis using linked_end [of h q p bs a m c s] assms b by auto
qed

text \<open>The data of a cell, which the changes of pointers keep.\<close>

definition same_data :: "(nat \<Rightarrow> proc option) \<Rightarrow> (nat \<Rightarrow> proc option) \<Rightarrow> bool" where
  "same_data h h' \<longleftrightarrow> (\<forall>a. map_option job.truncate (h a) = map_option job.truncate (h' a))"

lemma same_data_links: "h a = Some c \<Longrightarrow> same_data h (h(a \<mapsto> c\<lparr>pnext := n\<rparr>))" "h a = Some c \<Longrightarrow> same_data h (h(a \<mapsto> c\<lparr>pprev := n\<rparr>))"
  by (simp_all add: same_data_def job.truncate_def)

lemma same_data_trans: "same_data h h' \<Longrightarrow> same_data h' h'' \<Longrightarrow> same_data h h''"
  by (simp add: same_data_def)

lemma same_data_job: "same_data (cells st) (cells st') \<Longrightarrow> cells st a \<noteq> None \<Longrightarrow> job_at st' a = job_at st a"
proof -
  assume "same_data (cells st) (cells st')" "cells st a \<noteq> None"
  then show ?thesis
    by (cases "cells st' a") (auto simp: same_data_def job_at_def dest: spec [of _ a])
qed

lemma unlink_next:
  assumes "linked h (Some a) p bs None" "distinct (a # bs)" "st = st0\<lparr>cells := h\<rparr>"
  shows "\<exists>h'. (case p of None \<Rightarrow> Ok st | Some b \<Rightarrow> modify b (\<lambda>c. c\<lparr>pprev := q\<rparr>) st) = Ok (st\<lparr>cells := h'\<rparr>) \<and>
    linked h' q p bs None \<and> same_data h h' \<and> (\<forall>x. x \<notin> set bs \<longrightarrow> h' x = h x)"
proof (cases bs)
  case Nil
  then show ?thesis using assms by (intro exI [of _ h]) (simp add: same_data_def)
next
  case (Cons b cs)
  obtain c where c: "h b = Some c" "p = Some b" "linked (h(b \<mapsto> c\<lparr>pprev := q\<rparr>)) q p bs None"
    using linked_prev [of h "Some a" p b cs None q] assms Cons by auto
  then show ?thesis using assms(3) Cons same_data_links(2) [where h = h and a = b, OF c(1)]
    by (intro exI [of _ "h(b \<mapsto> c\<lparr>pprev := q\<rparr>)"]) (simp add: modify_def)
qed

lemma unlink_prev:
  assumes "linked h None (proclist st) as m" "distinct as" "cells st = h"
  shows "\<exists>h' p. (case lastp None as of None \<Rightarrow> Ok (st\<lparr>proclist := n\<rparr>) | Some b \<Rightarrow> modify b (\<lambda>c. c\<lparr>pnext := n\<rparr>) st) =
      Ok (st\<lparr>cells := h', proclist := p\<rparr>) \<and>
    linked h' None p as n \<and> same_data h h' \<and> (\<forall>x. x \<notin> set as \<longrightarrow> h' x = h x)"
proof (cases "as = []")
  case True
  then show ?thesis using assms by (intro exI [of _ h] exI [of _ n]) (simp add: same_data_def)
next
  case False
  obtain c where c: "h (last as) = Some c" "linked (h(last as \<mapsto> c\<lparr>pnext := n\<rparr>)) None (proclist st) as n"
    using linked_last [OF assms(1) False assms(2)] by blast
  then show ?thesis using assms(3) False same_data_links(1) [where h = h and a = "last as", OF c(1)]
    by (intro exI [of _ "h(last as \<mapsto> c\<lparr>pnext := n\<rparr>)"] exI [of _ "proclist st"]) (auto simp: modify_def lastp_def)
qed

lemma linked_cong: "(\<And>x. x \<in> set as \<Longrightarrow> h' x = h x) \<Longrightarrow> linked h' q p as s = linked h q p as s"
  by (induction as arbitrary: q p) (auto split: option.split)

lemma unlink_list:
  assumes "proc_list st (as @ a # bs)"
  shows "\<exists>h p. unlinkproc a st = Ok (the (cells st a), st\<lparr>cells := h, proclist := p\<rparr>) \<and>
    proc_list (st\<lparr>cells := h, proclist := p\<rparr>) (as @ bs) \<and>
    jobs (st\<lparr>cells := h, proclist := p\<rparr>) (as @ bs) = jobs st (as @ bs) \<and>
    (\<forall>x. h x = None \<longleftrightarrow> x = a \<or> cells st x = None)"
proof -
  have l: "linked (cells st) None (proclist st) as (Some a)" and d: "distinct (as @ a # bs)"
    and "linked (cells st) (lastp None as) (Some a) (a # bs) None" using assms by (auto simp: proc_list_def linked_append)
  then obtain c where c: "cells st a = Some c" "pprev c = lastp None as" "linked (cells st) (Some a) (pnext c) bs None"
    by (auto split: option.splits)
  have "distinct (a # bs)" using d by simp
  from unlink_next [OF c(3) this, of st st "pprev c"]
  obtain h1 where h1: "(case pnext c of None \<Rightarrow> Ok st | Some b \<Rightarrow> modify b (\<lambda>x. x\<lparr>pprev := pprev c\<rparr>) st) = Ok (st\<lparr>cells := h1\<rparr>)"
    "linked h1 (pprev c) (pnext c) bs None" "same_data (cells st) h1" "\<forall>x. x \<notin> set bs \<longrightarrow> h1 x = cells st x" by auto
  have l1: "linked h1 None (proclist (st\<lparr>cells := h1\<rparr>)) as (Some a)"
    using l d h1(4) linked_cong [of as h1 "cells st"] by fastforce
  have "distinct as" "h1 a = Some c" using d h1(4) c(1) by auto
  from unlink_prev [OF l1 this(1), of "pnext c"] this(2) c(2)
  obtain h2 p where h2: "(case pprev c of None \<Rightarrow> Ok (st\<lparr>cells := h1, proclist := pnext c\<rparr>)
      | Some b \<Rightarrow> modify b (\<lambda>x. x\<lparr>pnext := pnext c\<rparr>) (st\<lparr>cells := h1\<rparr>)) = Ok (st\<lparr>cells := h2, proclist := p\<rparr>)"
    "linked h2 None p as (pnext c)" "same_data h1 h2" "\<forall>x. x \<notin> set as \<longrightarrow> h2 x = h1 x" by auto
  have l2: "linked h2 (lastp None as) (pnext c) bs None"
    using h1(2) c(2) d h2(4) linked_cong [of bs h2 h1] by fastforce
  let ?st = "st\<lparr>cells := h2(a := None), proclist := p\<rparr>"
  have u: "unlinkproc a st = Ok (the (cells st a), ?st)"
    using h1(1) h2(1) \<open>h1 a = Some c\<close> by (simp add: unlinkproc_def c(1))
  have "linked (h2(a := None)) None p (as @ bs) None"
    using linked_join [OF h2(2) l2] d by (simp add: linked_other)
  moreover have "list_all (\<lambda>a. a < unused st) (as @ bs)" using assms by (auto simp: proc_list_def)
  ultimately have k: "proc_list ?st (as @ bs)" using d by (auto simp: proc_list_def)
  have "job_at ?st b = job_at st b" if "b \<in> set (as @ bs)" for b
  proof -
    have "cells st b \<noteq> None" using proc_list_cell [OF assms, of b] that by auto
    then have "job_at (st\<lparr>cells := h2\<rparr>) b = job_at st b"
      using same_data_job [of st "st\<lparr>cells := h2\<rparr>" b] same_data_trans [OF h1(3) h2(3)] by simp
    moreover have "b \<noteq> a" using that d by auto
    ultimately show ?thesis by (simp add: job_at_def)
  qed
  then have "jobs ?st (as @ bs) = jobs st (as @ bs)" by (simp add: jobs_def)
  moreover have "(h2(a := None)) x = None \<longleftrightarrow> x = a \<or> cells st x = None" for x
    using same_data_trans [OF h1(3) h2(3)] by (auto simp: same_data_def dest!: spec [of _ x])
  ultimately show ?thesis using u k by blast
qed

lemma job_at_fields [simp]:
  "ppid (job_at st a) = ppid (the (cells st a))" "ppgid (job_at st a) = ppgid (the (cells st a))"
  "palive (job_at st a) = palive (the (cells st a))" "pbackground (job_at st a) = pbackground (the (cells st a))"
  "pstatus (job_at st a) = pstatus (the (cells st a))" "pstopped (job_at st a) = pstopped (the (cells st a))"
  "phaschanged (job_at st a) = phaschanged (the (cells st a))" "ptmodes (job_at st a) = ptmodes (the (cells st a))"
  "pcmd (job_at st a) = pcmd (the (cells st a))"
  by (simp_all add: job_at_def job.truncate_def)

definition hdp :: "nat list \<Rightarrow> nat option" where
  "hdp as = (if as = [] then None else Some (hd as))"

lemma hdp_simps [simp]: "hdp [] = None" "hdp (a # as) = Some a"
  by (simp_all add: hdp_def)

lemma linked_hdp: "linked h q p as None \<Longrightarrow> p = hdp as"
  by (cases as) auto

lemma proc_list_hdp: "proc_list st as \<Longrightarrow> proclist st = hdp as"
  by (auto simp: proc_list_def dest: linked_hdp)

lemma proc_list_next: "proc_list st (as @ a # bs) \<Longrightarrow> \<exists>c. cells st a = Some c \<and> pnext c = hdp bs"
  by (auto simp: proc_list_def linked_append split: option.splits dest!: linked_hdp)

text \<open>A fork puts the new process in front.\<close>

lemma proc_list_add:
  assumes "proc_list st as" "a \<notin> set as" "a < unused st" "cells st a = Some c" "pnext c = hdp as" "pprev c = None"
  shows "\<exists>h. (case proclist st of None \<Rightarrow> Ok st | Some b \<Rightarrow> modify b (\<lambda>c. c\<lparr>pprev := Some a\<rparr>) st) = Ok (st\<lparr>cells := h\<rparr>) \<and>
    proc_list (st\<lparr>cells := h, proclist := Some a\<rparr>) (a # as) \<and> h a = Some c \<and> jobs (st\<lparr>cells := h\<rparr>) as = jobs st as"
proof -
  have l: "linked (cells st) None (proclist st) as None" "distinct as" "list_all (\<lambda>a. a < unused st) as"
    and p: "proclist st = hdp as" using assms(1) proc_list_hdp [OF assms(1)] by (auto simp: proc_list_def)
  show ?thesis
  proof (cases as)
    case Nil
    then show ?thesis using assms p by (intro exI [of _ "cells st"]) (simp add: proc_list_def jobs_def)
  next
    case (Cons b bs)
    obtain d where d: "cells st b = Some d" "proclist st = Some b"
        "linked ((cells st)(b \<mapsto> d\<lparr>pprev := Some a\<rparr>)) (Some a) (proclist st) as None"
      using linked_prev [of "cells st" None "proclist st" b bs None "Some a"] l Cons by auto
    let ?h = "(cells st)(b \<mapsto> d\<lparr>pprev := Some a\<rparr>)"
    have n: "b \<noteq> a" using assms(2) Cons by auto
    have "linked ?h None (Some a) (a # as) None" using d(3) n assms(4,5,6) p by simp
    then have "proc_list (st\<lparr>cells := ?h, proclist := Some a\<rparr>) (a # as)"
      using l assms(2,3) by (simp add: proc_list_def)
    moreover have "jobs (st\<lparr>cells := ?h\<rparr>) as = jobs st as"
      using d(1) by (simp add: jobs_def job_at_def job.truncate_def)
    ultimately show ?thesis using d(1,2) n assms(4) by (intro exI [of _ ?h]) (simp add: modify_def)
  qed
qed

lemma jobs_same: "(\<And>a. a \<in> set as \<Longrightarrow> cells st' a = cells st a) \<Longrightarrow> jobs st' as = jobs st as"
  by (simp add: jobs_def job_at_def)


text \<open>The stack of masks as \<open>assign_tty\<close> leaves it, which is enough for it to run again.\<close>

definition mask_ok :: "sigmask \<Rightarrow> bool" where
  "mask_ok m \<longleftrightarrow> sigbs_tos m = (NULL, 0) \<and>
     (sigbs_end m = (NULL, 0) \<and> sigbs m = (NULL, 0) \<or> sigbs_end m = (Heap, 10) \<and> sigbs m = (Heap, 0))"

lemma assign_tty_ok: "mask_ok m \<Longrightarrow> \<exists>m'. assign_tty m = Ok m' \<and> mask_ok m'"
  unfolding mask_ok_def by (elim conjE, drule (1) assign_tty_mask) blast

lemma give_tty_ok:
  assumes "mask_ok (ttymask st)"
  shows "\<exists>m. give_tty pgid st = Ok (st\<lparr>ttymask := m, tty_pgid := pgid\<rparr>) \<and> mask_ok m"
  using assign_tty_ok [OF assms] by (auto simp: give_tty_def)

definition new_group :: "shell \<Rightarrow> int \<Rightarrow> int \<Rightarrow> int" where
  "new_group S pid pgid =
     (if has_job_control S \<and> isinteractive S then if pgid = 0 then pid else pgid else shell_pgid S)"

definition recorded :: "shell \<Rightarrow> int \<Rightarrow> bool \<Rightarrow> int \<Rightarrow> 'f pstate \<Rightarrow> 'f pstate \<Rightarrow> bool" where
  "recorded S pid background pgid st st' \<longleftrightarrow>
     (let jc = has_job_control S \<and> isinteractive S in
      groups st' = groups st @ (if jc then [(pid, new_group S pid pgid)] else []) \<and>
      tty_pgid st' = (if jc \<and> \<not> background then new_group S pid pgid else tty_pgid st))"

text \<open>A run does not lack fuel, and if it returns, then with a result that satisfies \<open>Q\<close>.\<close>

definition yields :: "('f, 'a) prun \<Rightarrow> ('a \<Rightarrow> bool) \<Rightarrow> bool" where
  "yields m Q \<longleftrightarrow> (\<forall>st. m \<noteq> Throw (OutOfFuel, st)) \<and> (\<forall>x. m = Ok x \<longrightarrow> Q x)"

lemma yields_simps [simp]:
  "yields (Ok x) Q = Q x" "yields (Throw (Exn e, st)) Q" "yields (Throw (Exit i, st)) Q" "yields Abort Q" "yields Undef Q"
  by (simp_all add: yields_def)

lemma yields_obind: "yields m P \<Longrightarrow> (\<And>x. P x \<Longrightarrow> yields (f x) Q) \<Longrightarrow> yields (obind m f) Q"
  by (cases m) (auto simp: yields_def)

lemma yields_mono: "yields m P \<Longrightarrow> (\<And>x. P x \<Longrightarrow> Q x) \<Longrightarrow> yields m Q"
  by (auto simp: yields_def)

lemma enter_group_yields:
  assumes "cells st a = Some (init_proc S pid background cmd c)"
  shows "yields (enter_group S a pid background pgid st) (\<lambda>st'. \<exists>gs m t.
      st' = st\<lparr>cells := (cells st)(a \<mapsto> (init_proc S pid background cmd c)\<lparr>ppgid := new_group S pid pgid\<rparr>),
        groups := gs, ttymask := m, tty_pgid := t\<rparr> \<and>
      recorded S pid background pgid st (st\<lparr>groups := gs, tty_pgid := t\<rparr>))" (is "yields _ ?Q")
proof (cases "has_job_control S \<and> isinteractive S")
  case True
  define g where "g = new_group S pid pgid"
  have g: "(if pgid = 0 then pid else pgid) = g" using True by (simp add: g_def new_group_def)
  let ?s = "st\<lparr>cells := (cells st)(a \<mapsto> (init_proc S pid background cmd c)\<lparr>ppgid := g\<rparr>), groups := groups st @ [(pid, g)]\<rparr>"
  have m: "modify a (\<lambda>c. c\<lparr>ppgid := g\<rparr>) (st\<lparr>groups := groups st @ [(pid, g)]\<rparr>) = Ok ?s"
    by (simp add: modify_def assms)
  have "yields (if background then Ok ?s else give_tty g ?s) ?Q"
  proof (cases background)
    case b: True
    then show ?thesis using True
      by (auto simp: recorded_def simp flip: g_def
          intro!: exI [of _ "groups st @ [(pid, g)]"] exI [of _ "ttymask st"] exI [of _ "tty_pgid st"])
  next
    case False
    then show ?thesis using True
      by (cases "assign_tty (ttymask st)")
        (auto simp: give_tty_def recorded_def simp flip: g_def intro!: exI [of _ "groups st @ [(pid, g)]"] exI [of _ g])
  qed
  then show ?thesis using True m g by (simp only: enter_group_def if_True Let_def obind.simps simp_thms)
next
  case False
  then show ?thesis using assms
    by (auto simp: enter_group_def recorded_def new_group_def Let_def init_proc_def fun_upd_idem
        intro!: exI [of _ "groups st"] exI [of _ "ttymask st"] exI [of _ "tty_pgid st"])
qed

lemma enter_group_ok:
  assumes "cells st a = Some c" "mask_ok (ttymask st)"
  shows "\<exists>st'. enter_group S a pid background pgid st = Ok st'"
proof -
  have "\<exists>st'. give_tty g st1 = Ok st'" if "mask_ok (ttymask st1)" for g and st1 :: "'a pstate"
    using give_tty_ok [OF that] by blast
  then show ?thesis using assms by (auto simp: enter_group_def modify_def Let_def)
qed

text \<open>The job that a fork starts.\<close>

definition new_job :: "shell \<Rightarrow> 32 word \<Rightarrow> int \<Rightarrow> bool \<Rightarrow> int \<Rightarrow> string \<Rightarrow> job" where
  "new_job S w pid background pgid cmd =
     \<lparr>ppid = pid, ppgid = new_group S pid pgid, pstatus = w, palive = True, pbackground = background,
      pstopped = False, phaschanged = False, ptmodes = shell_tmodes S, pcmd = cmd\<rparr>"

text \<open>What \<open>fork_parent\<close> does with the cell \<open>a\<close> that \<open>mkproc\<close> gives it.\<close>

lemma fork_parent_after:
  assumes m: "mkproc S K pid background cmd st = Ok (a, st1)" "enter_group S a pid background pgid st1 = Ok st2"
    and st1: "groups st1 = groups st" "tty_pgid st1 = tty_pgid st" "ttymask st1 = ttymask st"
    and c: "cells st1 a = Some (init_proc S pid background cmd c)" "pnext c = hdp bs"
    and l: "distinct (a # bs)" "list_all (\<lambda>a. a < unused st1) (a # bs)"
    and p: "proclist st1 = hdp bs \<and> linked (cells st1) None (hdp bs) bs None \<or>
      (\<exists>b d. proclist st1 = Some b \<and> cells st1 b = Some d \<and> b \<notin> set (a # bs) \<and> linked (cells st1) (Some a) (hdp bs) bs None)"
  shows "\<exists>st'. fork_parent S K pid background pgid cmd st = Ok (pid, st') \<and> proc_list st' (a # bs) \<and>
    jobs st' (a # bs) = new_job S (pstatus c) pid background pgid cmd # jobs st1 bs \<and>
    recorded S pid background pgid st st'"
proof -
  let ?c = "(init_proc S pid background cmd c)\<lparr>ppgid := new_group S pid pgid\<rparr>"
  obtain gs m' t where e: "enter_group S a pid background pgid st1 =
      Ok (st1\<lparr>cells := (cells st1)(a \<mapsto> ?c), groups := gs, ttymask := m', tty_pgid := t\<rparr>)"
    "recorded S pid background pgid st1 (st1\<lparr>groups := gs, tty_pgid := t\<rparr>)"
    using enter_group_yields [OF c(1), of pgid] m(2) by (auto simp: yields_def)
  let ?st2 = "st1\<lparr>cells := (cells st1)(a \<mapsto> ?c), groups := gs, ttymask := m', tty_pgid := t\<rparr>"
  have n: "pprev ?c = None" "pnext ?c = hdp bs" "pnext (init_proc S pid background cmd c) = hdp bs"
    using c(2) by (simp_all add: init_proc_def)
  have "\<exists>h. (case proclist st1 of None \<Rightarrow> Ok ?st2 | Some b \<Rightarrow> modify b (\<lambda>c. c\<lparr>pprev := Some a\<rparr>) ?st2) = Ok (?st2\<lparr>cells := h\<rparr>) \<and>
      linked h None (Some a) (a # bs) None \<and> same_data (cells ?st2) h"
    using p
  proof (elim disjE conjE exE)
    assume b: "proclist st1 = hdp bs" "linked (cells st1) None (hdp bs) bs None"
    show ?thesis
    proof (cases bs)
      case Nil
      then show ?thesis using b n by (intro exI [of _ "cells ?st2"]) (simp add: same_data_def init_proc_def)
    next
      case (Cons b' cs)
      have "linked (cells ?st2) None (hdp bs) bs None" using b(2) l(1) by (simp add: linked_other)
      then have "linked (cells ?st2) None (hdp bs) (b' # cs) None" "distinct (b' # cs)" using l(1) Cons by simp_all
      from linked_prev [OF this, of "Some a"] obtain d where d: "cells ?st2 b' = Some d"
        "linked ((cells ?st2)(b' \<mapsto> d\<lparr>pprev := Some a\<rparr>)) (Some a) (hdp bs) bs None" using Cons by auto
      moreover have "b' \<noteq> a" using l(1) Cons by auto
      ultimately show ?thesis using b(1) n Cons same_data_links(2) [where h = "cells ?st2" and a = b', OF d(1)]
        by (intro exI [of _ "(cells ?st2)(b' \<mapsto> d\<lparr>pprev := Some a\<rparr>)"]) (simp add: modify_def)
    qed
  next
    fix b d assume b: "proclist st1 = Some b" "cells st1 b = Some d" "b \<notin> set (a # bs)" "linked (cells st1) (Some a) (hdp bs) bs None"
    then have "cells ?st2 b = Some d" by simp
    then show ?thesis using b n l(1) same_data_links(2) [where h = "cells ?st2" and a = b]
      by (intro exI [of _ "(cells ?st2)(b \<mapsto> d\<lparr>pprev := Some a\<rparr>)"]) (simp add: modify_def linked_other)
  qed
  then obtain h where h: "(case proclist st1 of None \<Rightarrow> Ok ?st2 | Some b \<Rightarrow> modify b (\<lambda>c. c\<lparr>pprev := Some a\<rparr>) ?st2) = Ok (?st2\<lparr>cells := h\<rparr>)"
    "linked h None (Some a) (a # bs) None" "same_data (cells ?st2) h" by blast
  let ?st = "?st2\<lparr>cells := h, proclist := Some a\<rparr>"
  have k: "proc_list ?st (a # bs)" using h(2) l by (simp add: proc_list_def)
  have "job_at ?st b = job_at ?st2 b" if "b \<in> set (a # bs)" for b
    using same_data_job [of ?st2 ?st b] h(3) linked_cell [OF h(2) that] by (auto simp: same_data_def dest!: spec [of _ b])
  then have "jobs ?st (a # bs) = jobs ?st2 (a # bs)" by (simp add: jobs_def)
  also have "\<dots> = new_job S (pstatus c) pid background pgid cmd # jobs st1 bs"
    using l(1) jobs_same [of bs ?st2 st1] by (auto simp: jobs_def job_at_def new_job_def init_proc_def job.truncate_def)
  finally have "jobs ?st (a # bs) = new_job S (pstatus c) pid background pgid cmd # jobs st1 bs" .
  moreover have "fork_parent S K pid background pgid cmd st = Ok (pid, ?st)" using h(1) by (simp add: fork_parent_def m(1) e(1))
  moreover have "recorded S pid background pgid st ?st" using e(2) st1 by (simp add: recorded_def)
  ultimately show ?thesis using k by blast
qed

section \<open>Forks\<close>

text \<open>What \<open>fork\<close> leaves alone in the parent.\<close>

definition same_rest :: "'f pstate \<Rightarrow> 'f pstate \<Rightarrow> bool" where
  "same_rest st st' \<longleftrightarrow> fds st' = fds st \<and> sigs st' = sigs st \<and> waits st' = waits st \<and>
     (mask_ok (ttymask st) \<longrightarrow> mask_ok (ttymask st'))"

lemma same_rest_trans: "same_rest st st' \<Longrightarrow> same_rest st' st'' \<Longrightarrow> same_rest st st''" "same_rest st st"
  by (auto simp: same_rest_def)

lemma modify_rest: "modify a f st = Ok st' \<Longrightarrow> same_rest st st'"
  by (auto simp: modify_def same_rest_def split: option.splits)

lemma give_tty_rest: "give_tty pgid st = Ok st' \<Longrightarrow> same_rest st st'"
  using assign_tty_ok [of "ttymask st"] by (auto simp: give_tty_def same_rest_def obind_Ok)

lemma enter_group_rest:
  assumes "enter_group S a pid background pgid st = Ok st'"
  shows "same_rest st st'"
proof -
  have "same_rest st (st\<lparr>groups := g\<rparr>)" for g by (simp add: same_rest_def)
  then show ?thesis
    using assms by (auto simp: enter_group_def Let_def obind_Ok same_rest_trans split: if_splits
        dest!: modify_rest give_tty_rest intro: same_rest_trans)
qed

lemma fork_parent_rest:
  assumes "fork_parent S K pid background pgid cmd st = Ok (r, st')"
  shows "r = pid \<and> same_rest st st'"
proof -
  obtain a st1 st2 st3 where e: "mkproc S K pid background cmd st = Ok (a, st1)" "enter_group S a pid background pgid st1 = Ok st2"
    "(case proclist st2 of None \<Rightarrow> Ok st2 | Some b \<Rightarrow> modify b (\<lambda>c. c\<lparr>pprev := Some a\<rparr>) st2) = Ok st3"
    "r = pid" "st' = st3\<lparr>proclist := Some a\<rparr>"
    using assms by (auto simp: fork_parent_def obind_Ok)
  obtain p where p: "(case p of
         None \<Rightarrow>
           Ok (unused st, st\<lparr>cells := (cells st)(unused st \<mapsto> init_proc S pid background cmd (new_cell K st)),
             unused := Suc (unused st)\<rparr>)
       | Some a \<Rightarrow>
           (case cells st a of
              None \<Rightarrow> Undef
            | Some c \<Rightarrow> if palive c then Abort
                else obind (modify a (init_proc S pid background cmd) st) (\<lambda>st. Ok (a, st)))) = Ok (a, st1)"
    using e(1) unfolding mkproc_def obind_Ok by blast
  have "same_rest st st1"
  proof (cases p)
    case None
    then show ?thesis using p by (auto simp: same_rest_def)
  next
    case (Some b)
    then show ?thesis using p by (cases "cells st b") (auto simp: obind_Ok split: if_splits dest: modify_rest)
  qed
  moreover have "same_rest st2 st3" using e(3) by (auto simp: same_rest_trans split: option.splits dest: modify_rest)
  ultimately have "same_rest st st3" using enter_group_rest [OF e(2)] by (blast intro: same_rest_trans)
  then show ?thesis using e(4,5) by (simp add: same_rest_def)
qed

lemma no_proc: "proc_list st as \<Longrightarrow> pid \<notin> ppid ` set (jobs st as) \<Longrightarrow> search (\<lambda>c. ppid c = pid) st = Ok None"
  by (simp add: search_eq jobs_def find_None_iff image_image) blast

lemma fork_fresh:
  assumes "proc_list st as" "search (\<lambda>c. ppid c = pid) st = Ok None"
  shows "\<exists>st1. mkproc S K pid background cmd st = Ok (unused st, st1) \<and>
    cells st1 (unused st) = Some (init_proc S pid background cmd (new_cell K st)) \<and> ttymask st1 = ttymask st \<and>
    (\<forall>st2 pgid. enter_group S (unused st) pid background pgid st1 = Ok st2 \<longrightarrow>
      (\<exists>st'. fork_parent S K pid background pgid cmd st = Ok (pid, st') \<and> proc_list st' (unused st # as) \<and>
        jobs st' (unused st # as) = new_job S (cell_junk K (unused st)) pid background pgid cmd # jobs st as \<and>
        recorded S pid background pgid st st'))"
proof -
  let ?c = "init_proc S pid background cmd (new_cell K st)"
  let ?st = "st\<lparr>cells := (cells st)(unused st \<mapsto> ?c), unused := Suc (unused st)\<rparr>"
  have n: "unused st \<notin> set as" and b: "list_all (\<lambda>a. a < Suc (unused st)) as"
    using assms(1) by (auto simp: proc_list_def list_all_iff)
  have m: "mkproc S K pid background cmd st = Ok (unused st, ?st)" by (simp add: mkproc_def assms(2))
  have j: "jobs ?st as = jobs st as" using n by (intro jobs_same) auto
  have h: "proclist st = hdp as" using proc_list_hdp [OF assms(1)] .
  have l: "linked (cells ?st) None (hdp as) as None" using assms(1) n h by (simp add: proc_list_def linked_other)
  have "\<exists>st'. fork_parent S K pid background pgid cmd st = Ok (pid, st') \<and> proc_list st' (unused st # as) \<and>
      jobs st' (unused st # as) = new_job S (pstatus (new_cell K st)) pid background pgid cmd # jobs ?st as \<and>
      recorded S pid background pgid st st'" if "enter_group S (unused st) pid background pgid ?st = Ok st2" for st2 pgid
    using assms(1) n b h l by (intro fork_parent_after [OF m that]) (auto simp: new_cell_def proc_list_def)
  moreover have "pstatus (new_cell K st) = cell_junk K (unused st)" by (simp add: new_cell_def)
  ultimately show ?thesis using m unfolding j by (intro exI [of _ ?st]) simp
qed

text \<open>
  A process that is started comes first in the list, and what the list holds otherwise stays as it is. With
  job control it gets its process group, and in the foreground the terminal.
\<close>

theorem fork_adds_process:
  assumes "proc_list st as" "mask_ok (ttymask st)" "0 < pid" "pid \<notin> ppid ` set (jobs st as)"
  shows "\<exists>st' a. efork S K T pid True background pgid cmd st = Ok (pid, st') \<and> proc_list st' (a # as) \<and>
    jobs st' (a # as) =
      new_job S (cell_junk K (unused st)) pid background (if pgid = -1 then shell_pgid S else pgid) cmd # jobs st as \<and>
    recorded S pid background (if pgid = -1 then shell_pgid S else pgid) st st'"
proof -
  let ?g = "if pgid = -1 then shell_pgid S else pgid"
  obtain st1 where f: "mkproc S K pid background cmd st = Ok (unused st, st1)"
    "cells st1 (unused st) = Some (init_proc S pid background cmd (new_cell K st))" "ttymask st1 = ttymask st"
    "\<And>st2 pgid. enter_group S (unused st) pid background pgid st1 = Ok st2 \<Longrightarrow>
      \<exists>st'. fork_parent S K pid background pgid cmd st = Ok (pid, st') \<and> proc_list st' (unused st # as) \<and>
        jobs st' (unused st # as) = new_job S (cell_junk K (unused st)) pid background pgid cmd # jobs st as \<and>
        recorded S pid background pgid st st'"
    using fork_fresh [OF assms(1) no_proc [OF assms(1,4)], of S K background cmd] by blast
  obtain st2 where "enter_group S (unused st) pid background ?g st1 = Ok st2"
    using enter_group_ok [OF f(2), of S pid background ?g] f(3) assms(2) by auto
  from f(4) [OF this] have "\<exists>st'. fork_parent S K pid background ?g cmd st = Ok (pid, st') \<and> proc_list st' (unused st # as) \<and>
    jobs st' (unused st # as) = new_job S (cell_junk K (unused st)) pid background ?g cmd # jobs st as \<and>
    recorded S pid background ?g st st'" .
  moreover have "efork S K T pid True background pgid cmd st = fork_parent S K pid background ?g cmd st"
    using assms(3) by (simp add: efork_def Let_def)
  ultimately show ?thesis by (metis (no_types))
qed

text \<open>
  When the kernel gives a new process the number of a dead one that is still in the list, the processes
  that were started after the dead one are lost: \<open>mkproc\<close> keeps the \<open>next\<close> pointer of the cell it uses again,
  and \<open>efork\<close> makes it the first.
\<close>

theorem recycled_pid_drops_processes:
  assumes "proc_list st (as @ a # bs)" "as \<noteq> []" "mask_ok (ttymask st)" "0 < pid"
    and "ppid (job_at st a) = pid" "\<not> palive (job_at st a)" "pid \<notin> ppid ` set (jobs st as)"
  shows "\<exists>st'. efork S K T pid True background pgid cmd st = Ok (pid, st') \<and> proc_list st' (a # bs) \<and>
    jobs st' (a # bs) =
      new_job S (pstatus (job_at st a)) pid background (if pgid = -1 then shell_pgid S else pgid) cmd # jobs st bs"
proof -
  let ?g = "if pgid = -1 then shell_pgid S else pgid"
  have l: "linked (cells st) None (proclist st) as (Some a)" "linked (cells st) (lastp None as) (Some a) (a # bs) None"
    and d: "distinct (as @ a # bs)" "list_all (\<lambda>a. a < unused st) (as @ a # bs)" using assms(1) by (auto simp: proc_list_def linked_append)
  obtain c where c: "cells st a = Some c" "linked (cells st) (Some a) (pnext c) bs None" using l(2) by (auto split: option.splits)
  have h: "pnext c = hdp bs" using linked_hdp [OF c(2)] .
  let ?st = "st\<lparr>cells := (cells st)(a \<mapsto> init_proc S pid background cmd c)\<rparr>"
  have "find (\<lambda>a. ppid (the (cells st a)) = pid) as = None"
    using assms(7) by (auto simp: find_None_iff jobs_def image_image)
  then have "find (\<lambda>a. ppid (the (cells st a)) = pid) (as @ a # bs) = Some a"
    using assms(5) by (induction as) (auto split: if_splits)
  then have "search (\<lambda>c. ppid c = pid) st = Ok (Some a)" by (simp add: search_eq [OF assms(1)])
  then have m: "mkproc S K pid background cmd st = Ok (a, ?st)"
    using assms(6) by (simp add: mkproc_def c(1) modify_def)
  have j: "jobs ?st bs = jobs st bs" using d by (intro jobs_same) auto
  obtain b bs' where as: "as = b # bs'" using assms(2) by (cases as) auto
  obtain e where e: "cells st b = Some e" "proclist st = Some b" using l(1) as by (auto split: option.splits)
  obtain st2 where i: "enter_group S a pid background ?g ?st = Ok st2" using enter_group_ok [of ?st a "init_proc S pid background cmd c" S pid background ?g] assms(3) by auto
  have "linked (cells ?st) (Some a) (hdp bs) bs None" using c(2) d h by (simp add: linked_other)
  then have "\<exists>st'. fork_parent S K pid background ?g cmd st = Ok (pid, st') \<and> proc_list st' (a # bs) \<and>
    jobs st' (a # bs) = new_job S (pstatus c) pid background ?g cmd # jobs ?st bs \<and> recorded S pid background ?g st st'"
    using d e as h by (intro fork_parent_after [OF m i]) (auto simp: list_all_iff)
  moreover have "efork S K T pid True background pgid cmd st = fork_parent S K pid background ?g cmd st"
    using assms(4) by (simp add: efork_def Let_def)
  moreover have "pstatus (job_at st a) = pstatus c" by (simp add: c(1))
  ultimately show ?thesis unfolding j by (metis (no_types))
qed

section \<open>Dead processes\<close>

lemma clean_loop_eq:
  "proc_list st (as @ bs) \<Longrightarrow> length bs \<le> n \<Longrightarrow> \<exists>h p. clean_loop n (hdp bs) st = Ok (st\<lparr>cells := h, proclist := p\<rparr>) \<and>
    proc_list (st\<lparr>cells := h, proclist := p\<rparr>) (as @ filter (\<lambda>a. palive (job_at st a)) bs) \<and>
    jobs (st\<lparr>cells := h, proclist := p\<rparr>) (as @ filter (\<lambda>a. palive (job_at st a)) bs) =
      jobs st (as @ filter (\<lambda>a. palive (job_at st a)) bs) \<and>
    (\<forall>x. h x = None \<longleftrightarrow> cells st x = None \<or> x \<in> set bs \<and> \<not> palive (job_at st x))"
proof (induction bs arbitrary: as n st)
  case Nil
  then show ?case by (intro exI [of _ "cells st"] exI [of _ "proclist st"]) auto
next
  case (Cons b bs)
  then obtain m where n: "n = Suc m" "length bs \<le> m" by (cases n) auto
  obtain c where c: "cells st b = Some c" "pnext c = hdp bs" using proc_list_next [OF Cons.prems(1)] by auto
  show ?case
  proof (cases "palive c")
    case True
    have "proc_list st ((as @ [b]) @ bs)" using Cons.prems(1) by simp
    from Cons.IH [OF this n(2)] obtain h p where r: "clean_loop m (hdp bs) st = Ok (st\<lparr>cells := h, proclist := p\<rparr>)"
      "proc_list (st\<lparr>cells := h, proclist := p\<rparr>) ((as @ [b]) @ filter (\<lambda>a. palive (job_at st a)) bs)"
      "jobs (st\<lparr>cells := h, proclist := p\<rparr>) ((as @ [b]) @ filter (\<lambda>a. palive (job_at st a)) bs) =
        jobs st ((as @ [b]) @ filter (\<lambda>a. palive (job_at st a)) bs)"
      "\<forall>x. h x = None \<longleftrightarrow> cells st x = None \<or> x \<in> set bs \<and> \<not> palive (job_at st x)" by blast
    have "h x = None \<longleftrightarrow> cells st x = None \<or> x \<in> set (b # bs) \<and> \<not> palive (job_at st x)" for x
      using r(4) True c(1) by auto
    then show ?thesis using n c True r(1,2,3) by (intro exI [of _ h] exI [of _ p]) simp
  next
    case False
    obtain h p where u: "unlinkproc b st = Ok (c, st\<lparr>cells := h, proclist := p\<rparr>)" "proc_list (st\<lparr>cells := h, proclist := p\<rparr>) (as @ bs)"
      "jobs (st\<lparr>cells := h, proclist := p\<rparr>) (as @ bs) = jobs st (as @ bs)" "\<forall>x. h x = None \<longleftrightarrow> x = b \<or> cells st x = None"
      using unlink_list [OF Cons.prems(1)] c(1) by auto
    let ?st = "st\<lparr>cells := h, proclist := p\<rparr>"
    have j: "x \<in> set (as @ bs) \<Longrightarrow> job_at ?st x = job_at st x" for x using u(3) by (auto simp: jobs_def)
    have f: "filter (\<lambda>a. palive (job_at ?st a)) bs = filter (\<lambda>a. palive (job_at st a)) bs"
      using j by (intro filter_cong refl) (simp del: job_at_fields)
    have k: "jobs ?st (as @ filter P bs) = jobs st (as @ filter P bs)" for P using j by (auto simp: jobs_def)
    obtain h' p' where r: "clean_loop m (hdp bs) ?st = Ok (?st\<lparr>cells := h', proclist := p'\<rparr>)"
      "proc_list (?st\<lparr>cells := h', proclist := p'\<rparr>) (as @ filter (\<lambda>a. palive (job_at st a)) bs)"
      "jobs (?st\<lparr>cells := h', proclist := p'\<rparr>) (as @ filter (\<lambda>a. palive (job_at st a)) bs) =
        jobs st (as @ filter (\<lambda>a. palive (job_at st a)) bs)"
      "\<forall>x. h' x = None \<longleftrightarrow> cells ?st x = None \<or> x \<in> set bs \<and> \<not> palive (job_at ?st x)"
      using Cons.IH [OF u(2) n(2)] unfolding f k by blast
    have "h' x = None \<longleftrightarrow> cells st x = None \<or> x \<in> set (b # bs) \<and> \<not> palive (job_at st x)" for x
      using r(4) u(4) j [of x] False c(1) by (auto simp del: job_at_fields) (auto simp: job_at_fields)
    then show ?thesis using n c False u(1) r(1,2,3) by (intro exI [of _ h'] exI [of _ p']) simp
  qed
qed

lemma cleanproclist_eq:
  assumes "proc_list st as"
  shows "\<exists>h p. cleanproclist st = Ok (st\<lparr>cells := h, proclist := p\<rparr>) \<and>
    proc_list (st\<lparr>cells := h, proclist := p\<rparr>) (filter (\<lambda>a. palive (job_at st a)) as) \<and>
    jobs (st\<lparr>cells := h, proclist := p\<rparr>) (filter (\<lambda>a. palive (job_at st a)) as) = filter palive (jobs st as) \<and>
    (\<forall>a \<in> set as. h a = None \<longleftrightarrow> \<not> palive (job_at st a))"
proof -
  have f: "jobs st (filter (\<lambda>a. palive (job_at st a)) as) = filter palive (jobs st as)"
    by (simp add: jobs_def filter_map comp_def)
  obtain h p where c: "clean_loop (unused st) (hdp as) st = Ok (st\<lparr>cells := h, proclist := p\<rparr>)"
    "proc_list (st\<lparr>cells := h, proclist := p\<rparr>) ([] @ filter (\<lambda>a. palive (job_at st a)) as)"
    "jobs (st\<lparr>cells := h, proclist := p\<rparr>) ([] @ filter (\<lambda>a. palive (job_at st a)) as) =
      jobs st ([] @ filter (\<lambda>a. palive (job_at st a)) as)"
    "\<forall>x. h x = None \<longleftrightarrow> cells st x = None \<or> x \<in> set as \<and> \<not> palive (job_at st x)"
    using clean_loop_eq [of st "[]" as "unused st"] assms proc_list_length [OF assms] by auto
  have "h a = None \<longleftrightarrow> \<not> palive (job_at st a)" if "a \<in> set as" for a
    using c(4) proc_list_cell [OF assms that] that by (auto simp del: job_at_fields)
  then show ?thesis using c(1,2,3) f proc_list_hdp [OF assms]
    by (intro exI [of _ h] exI [of _ p]) (simp add: cleanproclist_def)
qed

text \<open>
  \<open>cleanproclist\<close> refines the filter of the living processes, in their order, and frees the cells of the
  others.
\<close>

theorem dead_processes_are_freed:
  assumes "proc_list st as"
  shows "\<exists>st'. cleanproclist st = Ok st' \<and> proc_list st' (filter (\<lambda>a. palive (job_at st a)) as) \<and>
    jobs st' (filter (\<lambda>a. palive (job_at st a)) as) = filter palive (jobs st as) \<and>
    (\<forall>a \<in> set as. cells st' a = None \<longleftrightarrow> \<not> palive (job_at st a))"
  using cleanproclist_eq [OF assms] by (elim exE conjE) (rule exI, intro conjI, assumption, simp_all)

section \<open>Waiting ends\<close>

text \<open>States with the same list of processes.\<close>

definition same_list :: "'f pstate \<Rightarrow> 'f pstate \<Rightarrow> bool" where
  "same_list st st' \<longleftrightarrow> cells st' = cells st \<and> proclist st' = proclist st \<and> unused st' = unused st"

lemma same_listD:
  assumes "same_list st st'"
  shows "proc_list st' as = proc_list st as" "jobs st' as = jobs st as" "getproc pid b st' = Ok r \<longleftrightarrow> getproc pid b st = Ok r"
proof -
  have f: "find_proc n P p st' = Ok r \<longleftrightarrow> find_proc n P p st = Ok r" for n P p
    using assms by (induction n P p st rule: find_proc.induct) (auto simp: same_list_def split: option.split)
  show "proc_list st' as = proc_list st as" "jobs st' as = jobs st as" "getproc pid b st' = Ok r \<longleftrightarrow> getproc pid b st = Ok r"
    using assms f by (auto simp: same_list_def proc_list_def jobs_def job_at_def getproc_def search_def)
qed

lemma run_catcher_yields: "yields (run_catcher sig st) (same_list st)"
  by (auto simp: run_catcher_def catcher_def Let_def same_list_def split: if_split)

lemma give_tty_yields: "yields (give_tty pgid st) (same_list st)"
  by (cases "assign_tty (ttymask st)") (auto simp: give_tty_def same_list_def)

lemma waitpidwrapper_yields: "yields (waitpidwrapper K pid w nohang st) (\<lambda>(r, w', st'). same_list st st')"
proof (cases "waitpid K (waits st) pid nohang")
  case (Interrupt sig)
  show ?thesis
    by (auto simp: waitpidwrapper_def Let_def Interrupt intro!: yields_obind [OF run_catcher_yields])
      (auto simp: same_list_def)
qed (auto simp: waitpidwrapper_def Let_def same_list_def)

lemma getproc_eq: "proc_list st as \<Longrightarrow> getproc pid b st = Ok (find (\<lambda>a. matches pid b (the (cells st a))) as)"
  by (simp add: getproc_def search_eq)

lemma matches_job: "matches pid b (job_at st a) = matches pid b (the (cells st a))"
  by (simp add: matches_def)

lemma getproc_None: "proc_list st as \<Longrightarrow> getproc pid b st = Ok None \<longleftrightarrow> \<not> list_ex (matches pid b) (jobs st as)"
  by (auto simp: getproc_eq find_None_iff jobs_def list_ex_iff matches_job)

lemma find_alive:
  "find (\<lambda>a. matches pid b (the (cells st a))) as = Some a \<Longrightarrow> a \<in> set as \<and> palive (the (cells st a)) \<and> matches pid b (the (cells st a))"
  by (auto simp: find_Some_iff matches_def)

text \<open>How many processes live, and what a change of one of them does to that.\<close>

definition live :: "'f pstate \<Rightarrow> nat list \<Rightarrow> nat" where
  "live st as = length (filter (\<lambda>a. palive (the (cells st a))) as)"

lemma live_same: "same_list st st' \<Longrightarrow> live st' as = live st as"
  by (simp add: live_def same_list_def)

lemma live_le: "live st as \<le> length as"
  by (simp add: live_def)

lemma live_modify:
  "distinct as \<Longrightarrow> a \<in> set as \<Longrightarrow> palive (the (cells st a)) \<Longrightarrow>
     live (st\<lparr>cells := (cells st)(a \<mapsto> c)\<rparr>) as + (if palive c then 0 else 1) = live st as"
proof (induction as)
  case (Cons b as)
  show ?case
  proof (cases "b = a")
    case True
    then have "filter (\<lambda>x. palive (the (((cells st)(a \<mapsto> c)) x))) as = filter (\<lambda>x. palive (the (cells st x))) as"
      using Cons.prems(1) by (intro filter_cong) auto
    then show ?thesis using True Cons.prems by (simp add: live_def)
  next
    case False
    then show ?thesis using Cons by (simp add: live_def)
  qed
qed simp

lemma note_change_yields:
  assumes "proc_list st as" "a \<in> set as" "palive (the (cells st a))"
  shows "yields (note_change a w st) (\<lambda>st'. proc_list st' as \<and> unused st' = unused st \<and>
    live st' as + (if SIFSTOPPED w then 0 else 1) = live st as)"
proof -
  let ?st = "st\<lparr>cells := (cells st)(a \<mapsto> (the (cells st a))\<lparr>phaschanged := True\<rparr>)\<rparr>"
  have d: "distinct as" using assms(1) by (simp add: proc_list_def)
  have m: "modify a (\<lambda>c. c\<lparr>phaschanged := True\<rparr>) st = Ok ?st" "proc_list ?st as"
    using modify_kept [OF assms(1,2), of "\<lambda>c. c\<lparr>phaschanged := True\<rparr>"] by auto
  have n: "live ?st as = live st as" "palive (the (cells ?st a))"
    using live_modify [OF d assms(2,3), of "(the (cells st a))\<lparr>phaschanged := True\<rparr>"] assms(3) by simp_all
  have f: "yields (modify a f st') (\<lambda>st'. proc_list st' as \<and> unused st' = unused st \<and> live st' as + (if alive then 0 else 1) = live st as)"
    if "same_list ?st st'" "\<And>c. pnext (f c) = pnext c" "\<And>c. pprev (f c) = pprev c" "\<And>c. palive c \<Longrightarrow> palive (f c) = alive" for f st' alive
  proof -
    have q: "proc_list st' as" "palive (the (cells st' a))" "live st' as = live st as" "unused st' = unused st"
      using m(2) n same_listD(1) [OF that(1)] live_same [OF that(1), of as] that(1) by (auto simp: same_list_def)
    show ?thesis
      using modify_kept [OF q(1) assms(2) that(2,3)] live_modify [OF d assms(2) q(2), of "f (the (cells st' a))"] that(4) [OF q(2)] q(3,4)
      by simp
  qed
  show ?thesis
  proof (cases "SIFSTOPPED w")
    case True
    then show ?thesis
      by (auto simp: note_change_def m(1) intro!: yields_obind [OF run_catcher_yields] f [where alive = True, simplified])
  next
    case False
    have "yields (if SIFSIGNALED w then run_catcher (nat (STERMSIG w)) ?st else Ok ?st) (same_list ?st)"
      using run_catcher_yields [of "nat (STERMSIG w)" ?st] by (simp add: same_list_def)
    then show ?thesis using False unfolding note_change_def m(1) obind.simps if_not_P [OF False]
      by (elim yields_obind) (auto intro!: f [where alive = False, simplified])
  qed
qed

text \<open>Each turn of the loop that goes on makes a process dead.\<close>

lemma ewait_loop_yields:
  fixes st :: "'f pstate"
  shows "proc_list st as \<Longrightarrow> live st as \<le> n \<Longrightarrow> yields (ewait_loop S K n pid w st)
     (\<lambda>(w', st'). proc_list st' as \<and> unused st' = unused st \<and> (SIFSTOPPED w' \<or> getproc pid False st' = Ok None))"
proof (induction n arbitrary: st w)
  case 0
  have "\<not> list_ex (matches pid False) (jobs st as)"
    using 0 by (auto simp: live_def filter_empty_conv list_ex_iff jobs_def matches_def)
  then have "getproc pid False st = Ok None" using getproc_None [OF 0(1)] by blast
  then show ?case using 0 by (subst ewait_loop.simps) simp
next
  case (Suc n)
  show ?case
  proof (cases "getproc pid False st = Ok None")
    case True
    then show ?thesis using Suc by (subst ewait_loop.simps) simp
  next
    case False
    then obtain p where p: "getproc pid False st = Ok (Some p)" using getproc_eq [OF Suc.prems(1), of pid False]
      by (cases "find (\<lambda>a. matches pid False (the (cells st a))) as") auto
    have turn: "yields (obind (getproc wpid False st1) (\<lambda>proc. case proc of None \<Rightarrow> Undef
        | Some a \<Rightarrow> obind (note_change a w1 st1) (\<lambda>st. if SIFSTOPPED w1 then Ok (w1, st) else ewait_loop S K n pid w1 st)))
      (\<lambda>(w', st'). proc_list st' as \<and> unused st' = unused st \<and> (SIFSTOPPED w' \<or> getproc pid False st' = Ok None))"
      if q: "same_list st st1" for st1 wpid w1
    proof -
      have k: "proc_list st1 as" "live st1 as \<le> Suc n" "unused st1 = unused st"
        using q Suc.prems same_listD(1) [OF q] live_same [OF q, of as] by (auto simp: same_list_def)
      show ?thesis
      proof (cases "find (\<lambda>a. matches wpid False (the (cells st1 a))) as")
        case None
        then show ?thesis by (simp add: getproc_eq [OF k(1)])
      next
        case (Some a)
        then have a: "a \<in> set as" "palive (the (cells st1 a))" using find_alive by blast+
        from note_change_yields [OF k(1) a, of w1]
        show ?thesis
        proof (simp only: getproc_eq [OF k(1)] Some obind.simps option.case, elim yields_obind)
          fix st2 :: "'f pstate" assume s: "proc_list st2 as \<and> unused st2 = unused st1 \<and> live st2 as + (if SIFSTOPPED w1 then 0 else 1) = live st1 as"
          show "yields (if SIFSTOPPED w1 then Ok (w1, st2) else ewait_loop S K n pid w1 st2)
            (\<lambda>(w', st'). proc_list st' as \<and> unused st' = unused st \<and> (SIFSTOPPED w' \<or> getproc pid False st' = Ok None))"
          proof (cases "SIFSTOPPED w1")
            case True
            then show ?thesis using s k(3) by simp
          next
            case False
            then have "live st2 as \<le> n" using s k(2) by simp
            from Suc.IH [OF _ this, of w1] show ?thesis using False s k(3) by simp
          qed
        qed
      qed
    qed
    have err: "yields (obind (give_tty g st1) (\<lambda>st. Throw (Exn e, st))) Q" for g st1 e Q
      by (rule yields_obind [OF give_tty_yields]) simp
    show ?thesis
      by (subst ewait_loop.simps, simp add: p, rule yields_obind [OF waitpidwrapper_yields])
        (auto split: sum.split intro: turn err)
  qed
qed

lemma donotwait_loop_yields:
  "proc_list st (as @ bs) \<Longrightarrow> length bs \<le> n \<Longrightarrow> yields (donotwait_loop K n (hdp bs) r st)
     (\<lambda>(r', st'). proc_list st' (as @ bs) \<and> unused st' = unused st)"
proof (induction bs arbitrary: as n r st)
  case (Cons b bs)
  then obtain m where n: "n = Suc m" "length bs \<le> m" by (cases n) auto
  obtain c where c: "cells st b = Some c" "pnext c = hdp bs" using proc_list_next [OF Cons.prems(1)] by auto
  have more: "yields (donotwait_loop K m (hdp bs) r' st') (\<lambda>(r', st'). proc_list st' (as @ b # bs) \<and> unused st' = unused st)"
    if "proc_list st' (as @ b # bs)" "unused st' = unused st" for r' and st' :: "'a pstate"
    using Cons.IH [of st' "as @ [b]" m r'] that n(2) by simp
  have "yields (if wpid = Inr (ppid c) then
          obind (modify b (\<lambda>c. c\<lparr>phaschanged := True, palive := False, pstatus := w\<rparr>) st') (\<lambda>st. Ok (True, st))
        else Ok (r, st')) (\<lambda>(r, st'). proc_list st' (as @ b # bs) \<and> unused st' = unused st)"
    if "same_list st st'" for wpid :: "string + int" and w st'
  proof -
    have "proc_list st' (as @ b # bs)" "unused st' = unused st" using that Cons.prems(1) same_listD(1) [OF that] by (auto simp: same_list_def)
    then show ?thesis using modify_kept [of st' "as @ b # bs" b "\<lambda>c. c\<lparr>phaschanged := True, palive := False, pstatus := w\<rparr>"] by simp
  qed
  then have "yields (if palive c \<and> pbackground c then
      obind (waitpidwrapper K (ppid c) (stack_junk K (waits st)) True st) (\<lambda>(wpid, wstatus, st).
      if wpid = Inr (ppid c) then
        obind (modify b (\<lambda>c. c\<lparr>phaschanged := True, palive := False, pstatus := wstatus\<rparr>) st) (\<lambda>st. Ok (True, st))
      else Ok (r, st)) else Ok (r, st)) (\<lambda>(r, st'). proc_list st' (as @ b # bs) \<and> unused st' = unused st)"
    using Cons.prems(1) by (cases "palive c \<and> pbackground c") (auto intro!: yields_obind [OF waitpidwrapper_yields])
  then show ?case unfolding n(1) hdp_simps donotwait_loop.simps c(1) option.case c(2)
    by (rule yields_obind) (auto intro: more)
qed simp

lemma donotwait_yields:
  "proc_list st as \<Longrightarrow> yields (donotwait K st) (\<lambda>(r, st'). proc_list st' as \<and> unused st' = unused st)"
  using donotwait_loop_yields [of st "[]" as "unused st" K False] proc_list_length [of st as] proc_list_hdp [of st as]
  by (simp add: donotwait_def)

lemma ask_for_tty_yields: "proc_list st as \<Longrightarrow> yields (ask_for_tty S st) (same_list st)"
  by (auto simp: ask_for_tty_def getproc_eq same_list_def intro!: yields_obind [OF give_tty_yields])

text \<open>The list \<open>bs\<close> of a state that was reached from one with the list \<open>as\<close>: cells were dropped, and what is left is linked.\<close>

definition shrunk :: "nat list \<Rightarrow> 'f pstate \<Rightarrow> bool" where
  "shrunk as st \<longleftrightarrow> (\<exists>P. proc_list st (filter P as) \<and> (\<forall>a \<in> set as. cells st a \<noteq> None \<longrightarrow> P a))"

lemma shrunk_same: "same_list st st' \<Longrightarrow> shrunk as st' = shrunk as st"
  by (simp add: shrunk_def same_listD(1)) (simp add: same_list_def)

lemma shrunk_refl: "proc_list st as \<Longrightarrow> shrunk as st"
  by (auto simp: shrunk_def intro: exI [of _ "\<lambda>_. True"])

lemma ewait_yields:
  assumes "proc_list st as"
  shows "yields (ewait S K pid st) (\<lambda>(w, st'). shrunk as st' \<and> unused st' = unused st \<and>
    (SIFSTOPPED w \<or> getproc pid False st' = Ok None))"
proof -
  define Q where "Q = (\<lambda>(w, st' :: 'a pstate). shrunk as st' \<and> unused st' = unused st \<and> (SIFSTOPPED w \<or> getproc pid False st' = Ok None))"
  have same: "Q (w, st'')" if "same_list st' st''" "Q (w, st')" for w st' st''
    using that by (auto simp: Q_def shrunk_same same_listD(3)) (simp_all add: same_list_def)
  have rest: "yields (obind (ask_for_tty S st') (\<lambda>st. obind (give_tty (shell_pgid S) st) (\<lambda>st. Ok (w, st)))) Q"
    if w: "Q (w, st')" for w st'
  proof -
    obtain bs where bs: "proc_list st' bs" using w by (auto simp: Q_def shrunk_def)
    show ?thesis
    proof (rule yields_obind [OF ask_for_tty_yields [OF bs]], rule yields_obind [OF give_tty_yields])
      fix x y assume "same_list st' x" "same_list x y"
      then show "yields (Ok (w, y)) Q" using same [OF _ same [OF _ w]] by simp
    qed
  qed
  have clean: "yields (if isinteractive S then Ok st' else cleanproclist st') (\<lambda>st'. Q (w, st'))"
    if p: "proc_list st' as" "unused st' = unused st" "SIFSTOPPED w \<or> getproc pid False st' = Ok None" for w st'
  proof (cases "isinteractive S")
    case True
    then show ?thesis using p by (simp add: Q_def shrunk_refl)
  next
    case False
    obtain h q where c: "cleanproclist st' = Ok (st'\<lparr>cells := h, proclist := q\<rparr>)"
      "proc_list (st'\<lparr>cells := h, proclist := q\<rparr>) (filter (\<lambda>a. palive (job_at st' a)) as)"
      "jobs (st'\<lparr>cells := h, proclist := q\<rparr>) (filter (\<lambda>a. palive (job_at st' a)) as) = filter palive (jobs st' as)"
      "\<forall>a \<in> set as. h a = None \<longleftrightarrow> \<not> palive (job_at st' a)" using cleanproclist_eq [OF p(1)] by blast
    have "getproc pid False (st'\<lparr>cells := h, proclist := q\<rparr>) = Ok None" if "\<not> SIFSTOPPED w"
      using that p(3) getproc_None [OF p(1), of pid False] getproc_None [OF c(2), of pid False] unfolding c(3)
      by (auto simp: list_ex_iff)
    moreover have "shrunk as (st'\<lparr>cells := h, proclist := q\<rparr>)" using c(2,4) by (auto simp: shrunk_def simp del: job_at_fields)
    ultimately show ?thesis using c(1) False p(2) by (auto simp: Q_def)
  qed
  have "yields (ewait S K pid st) Q"
    unfolding ewait_def Let_def
  proof (rule yields_obind [OF donotwait_yields [OF assms]], clarify)
    fix r and st1 :: "'a pstate" assume s: "proc_list st1 as" "unused st1 = unused st"
    have "live st1 as \<le> unused st1" using live_le [of st1 as] proc_list_length [OF s(1)] by simp
    from ewait_loop_yields [OF s(1) this]
    show "yields (obind (ewait_loop S K (unused st1) pid (stack_junk K (waits st)) st1) (\<lambda>(wstatus, st).
        obind (if isinteractive S then Ok st else cleanproclist st) (\<lambda>st.
        obind (ask_for_tty S st) (\<lambda>st. obind (give_tty (shell_pgid S) st) (\<lambda>st. Ok (wstatus, st)))))) Q"
      by (rule yields_obind) (use s(2) in \<open>auto intro!: yields_obind [OF clean] rest\<close>)
  qed
  then show ?thesis by (simp add: Q_def)
qed


section \<open>Background processes\<close>

text \<open>The kernel answers without delay: no signal comes while the shell asks it.\<close>

definition quiet :: "kernel \<Rightarrow> bool" where
  "quiet K \<longleftrightarrow> (\<forall>k pid sig. waitpid K k pid True \<noteq> Interrupt sig)"

text \<open>What \<open>donotwait\<close> makes of the list: each background process that is still alive is asked for once, in order.\<close>

definition reap_one :: "kernel \<Rightarrow> nat \<Rightarrow> job \<Rightarrow> job" where
  "reap_one K k j =
     (case waitpid K k (ppid j) True of
        Changed wpid w \<Rightarrow>
          if wpid = ppid j then j\<lparr>phaschanged := True, palive := False, pstatus := w\<rparr> else j
      | _ \<Rightarrow> j)"

fun reap :: "kernel \<Rightarrow> nat \<Rightarrow> job list \<Rightarrow> job list" where
  "reap K k [] = []"
| "reap K k (j # js) =
     (if palive j \<and> pbackground j then reap_one K k j # reap K (Suc k) js else j # reap K k js)"

definition calm :: "'f pstate \<Rightarrow> 'f pstate \<Rightarrow> bool" where
  "calm st st' \<longleftrightarrow> unused st' = unused st \<and> hasforked (sigs st') = hasforked (sigs st) \<and> caught (sigs st') = caught (sigs st) \<and>
     sigcount (sigs st') = sigcount (sigs st) \<and>
     ttymask st' = ttymask st \<and> tty_pgid st' = tty_pgid st \<and> continued st' = continued st \<and> groups st' = groups st \<and> fds st' = fds st"

lemma calm_trans: "calm st st' \<Longrightarrow> calm st' st'' \<Longrightarrow> calm st st''" "calm st st"
  by (simp_all add: calm_def)

lemma wait_quiet:
  assumes "quiet K"
  shows "\<exists>r w' st'. waitpidwrapper K pid w True st = Ok (r, w', st') \<and> same_list st st' \<and> calm st st' \<and> waits st' = Suc (waits st) \<and>
    (case waitpid K (waits st) pid True of
       Changed wpid s \<Rightarrow> r = Inr wpid \<and> w' = s | Nothing \<Rightarrow> r = Inr 0 | Interrupt sig \<Rightarrow> False | WaitError e \<Rightarrow> r = Inl e)"
proof (cases "waitpid K (waits st) pid True")
  case (Interrupt sig)
  then show ?thesis using assms by (simp add: quiet_def)
qed (simp_all add: waitpidwrapper_def Let_def same_list_def calm_def)

lemma job_modify:
  assumes "a \<in> set as" "proc_list st as"
  shows "job_at (st\<lparr>cells := (cells st)(a \<mapsto> c)\<rparr>) b = (if b = a then job.truncate c else job_at st b)"
  by (simp add: job_at_def)

lemma donotwait_loop_eq:
  assumes "quiet K"
  shows "proc_list st (as @ bs) \<Longrightarrow> length bs \<le> n \<Longrightarrow> list_all (\<lambda>j. 0 < ppid j) (jobs st bs) \<Longrightarrow>
    \<exists>st'. donotwait_loop K n (hdp bs) r st = Ok (r \<or> reap K (waits st) (jobs st bs) \<noteq> jobs st bs, st') \<and>
      proc_list st' (as @ bs) \<and> jobs st' (as @ bs) = jobs st as @ reap K (waits st) (jobs st bs) \<and> calm st st'"
proof (induction bs arbitrary: as n r st)
  case Nil
  then show ?case by (auto simp: jobs_def calm_trans)
next
  case (Cons b bs)
  then obtain m where n: "n = Suc m" "length bs \<le> m" by (cases n) auto
  obtain c where c: "cells st b = Some c" "pnext c = hdp bs" using proc_list_next [OF Cons.prems(1)] by auto
  have d: "distinct (as @ b # bs)" using Cons.prems(1) by (simp add: proc_list_def)
  let ?one = "if palive c \<and> pbackground c then
      obind (waitpidwrapper K (ppid c) (stack_junk K (waits st)) True st) (\<lambda>(wpid, wstatus, st).
      if wpid = Inr (ppid c) then
        obind (modify b (\<lambda>c. c\<lparr>phaschanged := True, palive := False, pstatus := wstatus\<rparr>) st) (\<lambda>st. Ok (True, st))
      else Ok (r, st)) else Ok (r, st)"
  let ?j = "job_at st b" and ?go = "palive c \<and> pbackground c"
  let ?j' = "if ?go then reap_one K (waits st) ?j else ?j"
  have "\<exists>st1. ?one = Ok (r \<or> ?j' \<noteq> ?j, st1) \<and> proc_list st1 (as @ b # bs) \<and> calm st st1 \<and>
    waits st1 = (if ?go then Suc (waits st) else waits st) \<and> job_at st1 b = ?j' \<and> (\<forall>x. x \<noteq> b \<longrightarrow> job_at st1 x = job_at st x) \<and>
    pnext (the (cells st1 b)) = hdp bs"
  proof (cases ?go)
    case False
    then show ?thesis using Cons.prems(1) c by (auto simp: calm_trans)
  next
    case True
    obtain q w st1 where w: "waitpidwrapper K (ppid c) (stack_junk K (waits st)) True st = Ok (q, w, st1)" "same_list st st1" "calm st st1"
      "waits st1 = Suc (waits st)" "case waitpid K (waits st) (ppid c) True of
       Changed wpid s \<Rightarrow> q = Inr wpid \<and> w = s | Nothing \<Rightarrow> q = Inr 0 | Interrupt sig \<Rightarrow> False | WaitError e \<Rightarrow> q = Inl e"
      using wait_quiet [OF assms] by blast
    have l: "proc_list st1 (as @ b # bs)" using same_listD(1) [OF w(2)] Cons.prems(1) by simp
    have c1: "cells st1 b = Some c" using w(2) c(1) by (simp add: same_list_def)
    have pj: "ppid ?j = ppid c" "0 < ppid c" using Cons.prems(3) c(1) by (simp_all add: jobs_def)
    show ?thesis
    proof (cases "q = Inr (ppid c)")
      case False
      then have "reap_one K (waits st) ?j = ?j" using w(5) by (auto simp: reap_one_def c(1) split: waitans.splits)
      then show ?thesis using True False w l c c1
        by (intro exI [of _ st1]) (auto simp: job_at_def same_list_def)
    next
      case q: True
      then have a: "waitpid K (waits st) (ppid c) True = Changed (ppid c) w" using w(5) pj(2) by (auto split: waitans.splits)
      let ?f = "\<lambda>c :: proc. c\<lparr>phaschanged := True, palive := False, pstatus := w\<rparr>"
      let ?st = "st1\<lparr>cells := (cells st1)(b \<mapsto> ?f c)\<rparr>"
      have m: "modify b ?f st1 = Ok ?st" "proc_list ?st (as @ b # bs)" using modify_kept [OF l, of b ?f] c1 by auto
      have r: "reap_one K (waits st) ?j = job.truncate (?f c)" "reap_one K (waits st) ?j \<noteq> ?j"
        using a True by (simp_all add: reap_one_def c(1) job_at_def job.truncate_def)
      then show ?thesis using True q w m c c1
        by (intro exI [of _ ?st]) (auto simp: job_at_def same_list_def calm_def)
    qed
  qed
  then obtain st1 where s: "?one = Ok (r \<or> ?j' \<noteq> ?j, st1)" "proc_list st1 (as @ b # bs)" "calm st st1"
    "waits st1 = (if ?go then Suc (waits st) else waits st)" "job_at st1 b = ?j'" "\<forall>x. x \<noteq> b \<longrightarrow> job_at st1 x = job_at st x"
    "pnext (the (cells st1 b)) = hdp bs" by blast
  have js: "jobs st1 as = jobs st as" "jobs st1 bs = jobs st bs" using s(6) d by (auto simp: jobs_def simp del: job_at_fields)
  have "list_all (\<lambda>j. 0 < ppid j) (jobs st bs)" using Cons.prems(3) by (simp add: jobs_def)
  then have l1: "proc_list st1 ((as @ [b]) @ bs)" "list_all (\<lambda>j. 0 < ppid j) (jobs st1 bs)" using s(2) js(2) by simp_all
  obtain st' where r: "donotwait_loop K m (hdp bs) (r \<or> ?j' \<noteq> ?j) st1 =
      Ok ((r \<or> ?j' \<noteq> ?j) \<or> reap K (waits st1) (jobs st1 bs) \<noteq> jobs st1 bs, st')"
    "proc_list st' ((as @ [b]) @ bs)" "jobs st' ((as @ [b]) @ bs) = jobs st1 (as @ [b]) @ reap K (waits st1) (jobs st1 bs)" "calm st1 st'"
    using Cons.IH [OF l1(1) n(2) l1(2)] by blast
  have rp: "reap K (waits st) (jobs st (b # bs)) = ?j' # reap K (waits st1) (jobs st bs)"
    using s(4) c(1) by (simp add: jobs_def)
  have one: "donotwait_loop K n (hdp (b # bs)) r st = donotwait_loop K m (hdp bs) (r \<or> ?j' \<noteq> ?j) st1"
    unfolding n(1) hdp_simps donotwait_loop.simps c(1) option.case c(2) s(1) by simp
  show ?case
    using r calm_trans(1) [OF s(3) r(4)] s(5) js
    by (intro exI [of _ st']) (simp only: one rp, auto simp: jobs_def simp del: job_at_fields)
qed

lemma donotwait_eq:
  assumes "quiet K" "proc_list st as" "list_all (\<lambda>j. 0 < ppid j) (jobs st as)"
  shows "\<exists>st'. donotwait K st = Ok (reap K (waits st) (jobs st as) \<noteq> jobs st as, st') \<and> proc_list st' as \<and>
    jobs st' as = reap K (waits st) (jobs st as) \<and> calm st st'"
  using donotwait_loop_eq [OF assms(1), of st "[]" as "unused st" False] assms proc_list_length [OF assms(2)] proc_list_hdp [OF assms(2)]
  by (simp add: donotwait_def jobs_def)

text \<open>
  \<open>donotwait\<close> refines a pass over the list of jobs that asks the kernel once for each living background process, and
  tells whether one of them has ended.
\<close>

theorem donotwait_reaps:
  assumes "quiet K" "proc_list st as" "list_all (\<lambda>j. 0 < ppid j) (jobs st as)"
  shows "\<exists>st'. donotwait K st = Ok (reap K (waits st) (jobs st as) \<noteq> jobs st as, st') \<and> proc_list st' as \<and>
    jobs st' as = reap K (waits st) (jobs st as) \<and> calm st st'"
  using donotwait_eq [OF assms] .

section \<open>Lists of jobs\<close>

text \<open>The first job of each run of jobs of one group.\<close>

fun group_heads :: "int \<Rightarrow> job list \<Rightarrow> job list" where
  "group_heads g [] = []"
| "group_heads g (j # js) = (if ppgid j \<noteq> g then j # group_heads (ppgid j) js else group_heads g js)"

lemma apids_loop_eq:
  "proc_list st (as @ bs) \<Longrightarrow> length bs \<le> n \<Longrightarrow> apids_loop n allflag jobflag g (hdp bs) lp st =
     Ok (rev (map (\<lambda>j. Str (show_int (ppid j)))
       ((if jobflag then group_heads g else id) (filter (\<lambda>j. allflag \<or> palive j \<and> pbackground j) (jobs st bs)))) @ lp)"
proof (induction bs arbitrary: as n g lp)
  case (Cons b bs)
  then obtain m where n: "n = Suc m" "length bs \<le> m" by (cases n) auto
  obtain c where c: "cells st b = Some c" "pnext c = hdp bs" using proc_list_next [OF Cons.prems(1)] by auto
  have "proc_list st ((as @ [b]) @ bs)" using Cons.prems(1) by simp
  from Cons.IH [OF this n(2)] show ?case using n c by (auto simp: jobs_def)
qed (simp add: jobs_def)

text \<open>
  \<open>$&apids\<close> lists the living background processes, oldest first; with \<open>-a\<close> all processes of the list, and
  with \<open>-j\<close> one for each job, the newest of its processes.
\<close>

theorem apids_lists:
  assumes "proc_list st as"
  shows "prim_apids list st = Ok (map (\<lambda>j. Str (show_int (ppid j)))
    (rev (if list \<noteq> [] \<and> termeq (hd list) ''-a'' then jobs st as
          else (if list \<noteq> [] \<and> termeq (hd list) ''-j'' then group_heads (-1) else id)
            (filter (\<lambda>j. palive j \<and> pbackground j) (jobs st as)))))"
proof -
  have "\<not> (termeq t ''-a'' \<and> termeq t ''-j'')" for t by (cases t) auto
  then show ?thesis
    using apids_loop_eq [of st "[]" as "unused st"] assms proc_list_length [OF assms] proc_list_hdp [OF assms]
    by (simp add: prim_apids_def Let_def rev_map)
qed

section \<open>Waiting for a process\<close>

definition sane :: "'f pstate \<Rightarrow> bool" where
  "sane st \<longleftrightarrow> \<not> hasforked (sigs st) \<and> length (caught (sigs st)) = NSIG"

text \<open>A job that the kernel reports with the status \<open>s\<close>, when the terminal has the settings \<open>m\<close>.\<close>

definition finish :: "32 word \<Rightarrow> nat \<Rightarrow> job \<Rightarrow> job" where
  "finish s m j =
     (if SIFSTOPPED s then j\<lparr>phaschanged := True, pstopped := True, pbackground := True, ptmodes := m\<rparr>
      else j\<lparr>phaschanged := True, palive := False, pstatus := s\<rparr>)"

lemma term_sig: "\<not> SIFSTOPPED s \<Longrightarrow> nat (STERMSIG s) < NSIG"
proof -
  assume "\<not> SIFSTOPPED s"
  then have z: "s AND 0x40 = 0" by (simp add: SIFSTOPPED_def)
  have "s AND 0x7f = s AND (0x3f OR 0x40)" by simp
  also have "\<dots> = s AND 0x3f" using z by (simp only: bit.conj_disj_distrib) simp
  also have "\<dots> = take_bit 6 s" by (simp add: take_bit_eq_mask mask_eq_exp_minus_1)
  finally have "uint (s AND 0x7f) < 2 ^ 6" by (simp only: unsigned_take_bit_eq take_bit_int_less_exp)
  then have "0 \<le> STERMSIG s" "STERMSIG s < 64" by (simp_all add: STERMSIG_def)
  then show ?thesis by (simp add: NSIG_def nat_less_iff)
qed

lemma run_catcher_ok:
  assumes "sane st" "sig < NSIG"
  shows "\<exists>s. run_catcher sig st = Ok (st\<lparr>sigs := s\<rparr>) \<and> sane (st\<lparr>sigs := s\<rparr>)"
  using assms by (auto simp: run_catcher_def catcher_def sane_def Let_def)

lemma note_change_eq:
  assumes "proc_list st as" "a \<in> set as" "sane st" "SIFSTOPPED w \<longrightarrow> WSTOPSIG w < NSIG"
  shows "\<exists>st'. note_change a w st = Ok st' \<and> proc_list st' as \<and> ttymask st' = ttymask st \<and> sane st' \<and> fds st' = fds st \<and>
    jobs st' as = map (\<lambda>b. if b = a then finish w (tty_modes st) (job_at st b) else job_at st b) as"
proof -
  let ?c = "the (cells st a)"
  let ?st = "st\<lparr>cells := (cells st)(a \<mapsto> ?c\<lparr>phaschanged := True\<rparr>)\<rparr>"
  have m: "modify a (\<lambda>c. c\<lparr>phaschanged := True\<rparr>) st = Ok ?st" "proc_list ?st as"
    using modify_kept [OF assms(1,2), of "\<lambda>c. c\<lparr>phaschanged := True\<rparr>"] by auto
  have "sane ?st" using assms(3) by (simp add: sane_def)
  have fin: "\<exists>st'. modify a f (?st\<lparr>sigs := s\<rparr>) = Ok st' \<and> proc_list st' as \<and> ttymask st' = ttymask st \<and> sane st' \<and> fds st' = fds st \<and>
      jobs st' as = map (\<lambda>b. if b = a then finish w (tty_modes st) (job_at st b) else job_at st b) as"
    if "sane (?st\<lparr>sigs := s\<rparr>)" "\<And>c. pnext (f c) = pnext c" "\<And>c. pprev (f c) = pprev c"
      "job.truncate (f (?c\<lparr>phaschanged := True\<rparr>)) = finish w (tty_modes st) (job.truncate ?c)" for f s
  proof -
    have "proc_list (?st\<lparr>sigs := s\<rparr>) as" using m(2) by (simp add: proc_list_def)
    from modify_kept [OF this assms(2) that(2,3)] show ?thesis using that(1,4) by (simp add: jobs_def job_at_def sane_def)
  qed
  show ?thesis
  proof (cases "SIFSTOPPED w")
    case True
    obtain s where s: "run_catcher (WSTOPSIG w) ?st = Ok (?st\<lparr>sigs := s\<rparr>)" "sane (?st\<lparr>sigs := s\<rparr>)"
      using run_catcher_ok [OF \<open>sane ?st\<close>] assms(4) True by blast
    show ?thesis using True fin [OF s(2), of "\<lambda>c. c\<lparr>pstopped := True, pbackground := True, ptmodes := tty_modes st\<rparr>"]
      by (simp add: note_change_def m(1) s(1) finish_def job.truncate_def)
  next
    case False
    have "\<exists>s. (if SIFSIGNALED w then run_catcher (nat (STERMSIG w)) ?st else Ok ?st) = Ok (?st\<lparr>sigs := s\<rparr>) \<and> sane (?st\<lparr>sigs := s\<rparr>)"
      using run_catcher_ok [OF \<open>sane ?st\<close> term_sig [OF False]] \<open>sane ?st\<close>
      by (cases "SIFSIGNALED w") (auto intro: exI [of _ "sigs st"])
    then obtain s where s: "(if SIFSIGNALED w then run_catcher (nat (STERMSIG w)) ?st else Ok ?st) = Ok (?st\<lparr>sigs := s\<rparr>)"
      "sane (?st\<lparr>sigs := s\<rparr>)" by blast
    then show ?thesis using False fin [OF s(2), of "\<lambda>c. c\<lparr>palive := False, pstatus := w\<rparr>"]
      by (simp add: note_change_def m(1) finish_def job.truncate_def)
  qed
qed

lemma reap_pids: "map ppid (reap K k js) = map ppid js" "map ppgid (reap K k js) = map ppgid js"
  by (induction K k js rule: reap.induct) (auto simp: reap_one_def split: waitans.split)

lemma reap_front: "j \<in> set js \<Longrightarrow> \<not> pbackground j \<Longrightarrow> j \<in> set (reap K k js)"
  by (induction K k js rule: reap.induct) auto

text \<open>The end of \<open>ewait\<close>: the terminal goes back to the shell.\<close>

lemma ewait_end:
  assumes "proc_list st as" "mask_ok (ttymask st)"
  shows "\<exists>st' bs. obind (if isinteractive S then Ok st else cleanproclist st) (\<lambda>st.
      obind (ask_for_tty S st) (\<lambda>st. obind (give_tty (shell_pgid S) st) (\<lambda>st. Ok (w, st)))) = Ok (w, st') \<and>
    proc_list st' bs \<and> jobs st' bs = (if isinteractive S then jobs st as else filter palive (jobs st as)) \<and>
    tty_pgid st' = shell_pgid S \<and> mask_ok (ttymask st') \<and> sigs st' = sigs st \<and> fds st' = fds st"
proof -
  have "\<exists>st1 bs. (if isinteractive S then Ok st else cleanproclist st) = Ok st1 \<and> proc_list st1 bs \<and>
      jobs st1 bs = (if isinteractive S then jobs st as else filter palive (jobs st as)) \<and> mask_ok (ttymask st1) \<and>
      sigs st1 = sigs st \<and> fds st1 = fds st"
    using assms cleanproclist_eq [OF assms(1)] by (cases "isinteractive S") fastforce+
  then obtain st1 bs where s: "(if isinteractive S then Ok st else cleanproclist st) = Ok st1" "proc_list st1 bs"
    "jobs st1 bs = (if isinteractive S then jobs st as else filter palive (jobs st as))" "mask_ok (ttymask st1)"
    "sigs st1 = sigs st" "fds st1 = fds st" by blast
  have "\<exists>m t p. ask_for_tty S st1 = Ok (st1\<lparr>ttymask := m, tty_pgid := p, tty_modes := t\<rparr>) \<and> mask_ok m"
  proof (cases "isinteractive S \<and> getproc 0 True st1 = Ok None")
    case True
    obtain m where "give_tty (shell_pgid S) st1 = Ok (st1\<lparr>ttymask := m, tty_pgid := shell_pgid S\<rparr>)" "mask_ok m"
      using give_tty_ok [OF s(4)] by blast
    then show ?thesis using True by (auto simp: ask_for_tty_def)
  next
    case False
    then have "ask_for_tty S st1 = Ok st1" by (auto simp: ask_for_tty_def getproc_eq [OF s(2)])
    then show ?thesis using s(4) by (intro exI [of _ "ttymask st1"] exI [of _ "tty_modes st1"] exI [of _ "tty_pgid st1"]) simp
  qed
  then obtain m t p where a: "ask_for_tty S st1 = Ok (st1\<lparr>ttymask := m, tty_pgid := p, tty_modes := t\<rparr>)" "mask_ok m" by blast
  let ?st = "st1\<lparr>ttymask := m, tty_pgid := p, tty_modes := t\<rparr>"
  obtain m' where g: "give_tty (shell_pgid S) ?st = Ok (?st\<lparr>ttymask := m', tty_pgid := shell_pgid S\<rparr>)" "mask_ok m'"
    using give_tty_ok [of ?st "shell_pgid S"] a(2) by auto
  have "same_list st1 (?st\<lparr>ttymask := m', tty_pgid := shell_pgid S\<rparr>)" by (simp add: same_list_def)
  from same_listD(1,2) [OF this] show ?thesis
    using s a(1) g by (intro exI [of _ "?st\<lparr>ttymask := m', tty_pgid := shell_pgid S\<rparr>"] exI [of _ bs]) simp
qed

text \<open>The loop of \<open>ewait\<close> for a process that is the only one in the list to match and whose change the kernel reports.\<close>

lemma ewait_loop_once:
  assumes "proc_list st as" "a \<in> set as" "sane st" "SIFSTOPPED s \<longrightarrow> WSTOPSIG s < NSIG"
    and only: "\<And>b. b \<in> set as \<Longrightarrow> matches pid False (the (cells st b)) \<longleftrightarrow> b = a"
    and gone: "\<And>m. \<not> SIFSTOPPED s \<Longrightarrow> \<not> matches pid False (finish s m (job_at st a))"
    and answer: "\<forall>k. waitpid K k pid False = Changed pid s"
  shows "\<exists>st' m. ewait_loop S K (Suc n) pid v st = Ok (s, st') \<and> proc_list st' as \<and> ttymask st' = ttymask st \<and> sane st' \<and>
    fds st' = fds st \<and> jobs st' as = map (\<lambda>b. if b = a then finish s m (job_at st b) else job_at st b) as"
proof -
  let ?st = "st\<lparr>sigs := (sigs st)\<lparr>interrupted := False, slow := False\<rparr>,
    tty_modes := modes_after K (waits st) (tty_modes st), waits := Suc (waits st)\<rparr>"
  have found: "find (\<lambda>b. matches pid False (the (cells st b))) as = Some a"
    using assms(2) only by (induction as) auto
  have w: "waitpidwrapper K pid v False st = Ok (Inr pid, s, ?st)" for v
    using answer by (simp add: waitpidwrapper_def Let_def)
  have l: "proc_list ?st as" "sane ?st" using assms(1,3) by (simp_all add: proc_list_def sane_def)
  obtain st' where nc: "note_change a s ?st = Ok st'" "proc_list st' as" "ttymask st' = ttymask ?st" "sane st'" "fds st' = fds ?st"
    "jobs st' as = map (\<lambda>b. if b = a then finish s (tty_modes ?st) (job_at ?st b) else job_at ?st b) as"
    using note_change_eq [OF l(1) assms(2) l(2) assms(4)] by blast
  have "job_at ?st b = job_at st b" for b by (simp add: job_at_def)
  note j = nc(6) [unfolded this]
  have "ewait_loop S K (Suc n) pid v st = Ok (s, st')"
  proof (cases "SIFSTOPPED s")
    case True
    then show ?thesis
      by (subst ewait_loop.simps) (simp add: getproc_eq [OF assms(1)] found w getproc_eq [OF l(1), simplified] nc(1))
  next
    case False
    have "\<not> matches pid False (if b = a then finish s m (job_at st b) else job_at st b)" if "b \<in> set as" for b m
      using only [OF that] gone [OF False] by (simp add: matches_job)
    then have "\<not> list_ex (matches pid False) (jobs st' as)" unfolding j list_ex_iff set_map by blast
    then have "getproc pid False st' = Ok None" using getproc_None [OF nc(2)] by blast
    then have "ewait_loop S K n pid s st' = Ok (s, st')" by (subst ewait_loop.simps) simp
    with False show ?thesis
      by (subst ewait_loop.simps) (simp add: getproc_eq [OF assms(1)] found w getproc_eq [OF l(1), simplified] nc(1))
  qed
  with nc j show ?thesis by (intro exI [of _ st'] exI [of _ "tty_modes ?st"]) simp
qed

text \<open>A process id names one job of the list, and no process group.\<close>

lemma matches_only:
  assumes "distinct (map ppid (jobs st as))" "list_all (\<lambda>i. 0 < ppid i \<and> 0 \<le> ppgid i) (jobs st as)" "a \<in> set as" "palive (job_at st a)"
    "b \<in> set as"
  shows "matches (ppid (job_at st a)) False (the (cells st b)) \<longleftrightarrow> b = a"
proof -
  have "inj_on (\<lambda>b. ppid (job_at st b)) (set as)"
    using assms(1) by (simp add: jobs_def distinct_map comp_def inj_on_def del: job_at_fields)
  then have inj: "ppid (job_at st b) = ppid (job_at st a) \<longleftrightarrow> b = a" using assms(3,5) by (auto dest: inj_onD simp del: job_at_fields)
  have "0 < ppid (job_at st a)" "0 \<le> ppgid (job_at st b)" using assms(2,3,5) by (simp_all add: jobs_def list_all_iff)
  then have "- ppid (job_at st a) \<noteq> ppgid (job_at st b)" "ppid (job_at st a) \<noteq> 0" by linarith+
  then show ?thesis using inj assms(4) by (auto simp: matches_def)
qed

lemma ewait_returns:
  assumes "quiet K" "proc_list st as" "distinct (map ppid (jobs st as))" "list_all (\<lambda>j. 0 < ppid j \<and> 0 \<le> ppgid j) (jobs st as)"
    and j: "j \<in> set (jobs st as)" "palive j" "\<not> pbackground j"
    and s: "\<forall>k. waitpid K k (ppid j) False = Changed (ppid j) s" "SIFSTOPPED s \<longrightarrow> WSTOPSIG s < NSIG"
    and ok: "sane st" "mask_ok (ttymask st)"
  shows "\<exists>st' bs m. ewait S K (ppid j) st = Ok (s, st') \<and> proc_list st' bs \<and>
    jobs st' bs = (if isinteractive S then id else filter palive)
      (map (\<lambda>i. if ppid i = ppid j then finish s m i else i) (reap K (waits st) (jobs st as))) \<and>
    tty_pgid st' = shell_pgid S \<and> sane st' \<and> mask_ok (ttymask st') \<and> fds st' = fds st"
proof -
  let ?pid = "ppid j" and ?js = "reap K (waits st) (jobs st as)"
  have "list_all (\<lambda>j. 0 < ppid j) (jobs st as)" using assms(4) by (auto simp: list_all_iff)
  then obtain st1 where d: "donotwait K st = Ok (?js \<noteq> jobs st as, st1)" "proc_list st1 as" "jobs st1 as = ?js" "calm st st1"
    using donotwait_eq [OF assms(1,2)] by blast
  have dp: "distinct (map ppid (jobs st1 as))" using assms(3) by (simp add: d(3) reap_pids(1))
  have "list_all ((<) 0) (map ppid (jobs st as)) \<and> list_all ((\<le>) 0) (map ppgid (jobs st as))" using assms(4) by (auto simp: list_all_iff)
  then have "list_all ((<) 0) (map ppid (jobs st1 as)) \<and> list_all ((\<le>) 0) (map ppgid (jobs st1 as))" by (simp only: d(3) reap_pids)
  then have pg: "list_all (\<lambda>i. 0 < ppid i \<and> 0 \<le> ppgid i) (jobs st1 as)" by (auto simp: list_all_iff)
  have "j \<in> set (jobs st1 as)" using reap_front [OF j(1,3)] d(3) by simp
  then obtain a where a: "a \<in> set as" "job_at st1 a = j" by (auto simp: jobs_def simp del: job_at_fields)
  obtain n where n: "unused st1 = Suc n" using a(1) proc_list_length [OF d(2)] by (cases "unused st1") auto
  have only: "matches ?pid False (the (cells st1 b)) \<longleftrightarrow> b = a" if "b \<in> set as" for b
    using matches_only [OF dp pg a(1) _ that] a(2) j(2) by simp
  have "\<not> matches ?pid False (finish s m (job_at st1 a))" if "\<not> SIFSTOPPED s" for m
    using that by (simp add: matches_def finish_def)
  moreover have "sane st1" using ok(1) d(4) by (simp add: sane_def calm_def)
  ultimately obtain st3 m where l: "ewait_loop S K (Suc n) ?pid (stack_junk K (waits st)) st1 = Ok (s, st3)" "proc_list st3 as"
    "ttymask st3 = ttymask st1" "sane st3" "fds st3 = fds st1"
    "jobs st3 as = map (\<lambda>b. if b = a then finish s m (job_at st1 b) else job_at st1 b) as"
    using ewait_loop_once [OF d(2) a(1) _ s(2) only _ s(1)] by blast
  have "ppid (job_at st1 b) = ?pid \<longleftrightarrow> b = a" if "b \<in> set as" for b
    using dp that a by (auto simp: jobs_def distinct_map comp_def inj_on_def simp del: job_at_fields)
  then have j3: "jobs st3 as = map (\<lambda>i. if ppid i = ?pid then finish s m i else i) ?js"
    unfolding l(6) d(3) [symmetric] unfolding jobs_def map_map by (intro map_cong refl) (simp add: a(2) del: job_at_fields)
  have "mask_ok (ttymask st3)" using l(3) d(4) ok(2) by (simp add: calm_def)
  from ewait_end [OF l(2) this, of S s] obtain st' bs where e: "obind (if isinteractive S then Ok st3 else cleanproclist st3) (\<lambda>st.
      obind (ask_for_tty S st) (\<lambda>st. obind (give_tty (shell_pgid S) st) (\<lambda>st. Ok (s, st)))) = Ok (s, st')"
    "proc_list st' bs" "jobs st' bs = (if isinteractive S then jobs st3 as else filter palive (jobs st3 as))"
    "tty_pgid st' = shell_pgid S" "mask_ok (ttymask st')" "sigs st' = sigs st3" "fds st' = fds st3" by blast
  have "fds st1 = fds st" using d(4) by (simp add: calm_def)
  with d(1) n j3 l e show ?thesis
    by (intro exI [of _ st'] exI [of _ bs] exI [of _ m]) (simp add: ewait_def Let_def sane_def)
qed


text \<open>
  Waiting for a process that has ended before, such as a background process, returns the variable \<open>wstatus\<close>
  as it was before anything was assigned to it, and not the status that the list holds.
\<close>

theorem waiting_too_late_returns_junk:
  assumes "quiet K" "proc_list st as" "list_all (\<lambda>j. 0 < ppid j) (jobs st as)" "mask_ok (ttymask st)"
    and "\<not> list_ex (matches pid False) (reap K (waits st) (jobs st as))"
  shows "\<exists>st'. ewait S K pid st = Ok (stack_junk K (waits st), st')"
proof -
  obtain st1 where d: "donotwait K st = Ok (reap K (waits st) (jobs st as) \<noteq> jobs st as, st1)" "proc_list st1 as"
    "jobs st1 as = reap K (waits st) (jobs st as)" "calm st st1" using donotwait_eq [OF assms(1-3)] by blast
  have "getproc pid False st1 = Ok None" using getproc_None [OF d(2)] assms(5) d(3) by simp
  then have "ewait_loop S K (unused st1) pid v st1 = Ok (v, st1)" for v by (subst ewait_loop.simps) simp
  moreover have "mask_ok (ttymask st1)" using d(4) assms(4) by (simp add: calm_def)
  from ewait_end [OF d(2) this, of S "stack_junk K (waits st)"]
  obtain st' where "obind (if isinteractive S then Ok st1 else cleanproclist st1) (\<lambda>st.
      obind (ask_for_tty S st) (\<lambda>st. obind (give_tty (shell_pgid S) st) (\<lambda>st. Ok (stack_junk K (waits st0), st)))) =
      Ok (stack_junk K (waits st0), st')" if "st0 = st" for st0 by blast
  ultimately show ?thesis using d(1) by (simp add: ewait_def Let_def)
qed

section \<open>Jobs\<close>

definition continued_job :: "bool \<Rightarrow> int \<Rightarrow> job \<Rightarrow> job" where
  "continued_job background g j =
     (if palive j \<and> ppgid j = g then j\<lparr>pbackground := background, pstopped := False\<rparr> else j)"

definition in_group :: "int \<Rightarrow> job \<Rightarrow> bool" where
  "in_group g j \<longleftrightarrow> palive j \<and> ppgid j = g"

lemma continue_loop_eq:
  "proc_list st (as @ bs) \<Longrightarrow> length bs \<le> n \<Longrightarrow>
    \<exists>st'. continue_loop background n g (hdp bs) found st = Ok (found \<or> list_ex (in_group g) (jobs st bs), st') \<and>
      proc_list st' (as @ bs) \<and> jobs st' (as @ bs) = jobs st as @ map (continued_job background g) (jobs st bs) \<and>
      continued st' = continued st @ map ppid (filter (in_group g) (jobs st bs))"
proof (induction bs arbitrary: as n found st)
  case Nil
  then show ?case by (simp add: jobs_def)
next
  case (Cons b bs)
  then obtain m where n: "n = Suc m" "length bs \<le> m" by (cases n) auto
  obtain c where c: "cells st b = Some c" "pnext c = hdp bs" using proc_list_next [OF Cons.prems(1)] by auto
  have d: "distinct (as @ b # bs)" using Cons.prems(1) by (simp add: proc_list_def)
  have jb: "in_group g (job_at st b) \<longleftrightarrow> palive c \<and> ppgid c = g" by (simp add: in_group_def c(1))
  show ?case
  proof (cases "palive c \<and> ppgid c = g")
    case False
    have "proc_list st ((as @ [b]) @ bs)" using Cons.prems(1) by simp
    from Cons.IH [OF this n(2), of found] obtain st' where r: "continue_loop background m g (hdp bs) found st =
        Ok (found \<or> list_ex (in_group g) (jobs st bs), st')" "proc_list st' ((as @ [b]) @ bs)"
      "jobs st' ((as @ [b]) @ bs) = jobs st (as @ [b]) @ map (continued_job background g) (jobs st bs)"
      "continued st' = continued st @ map ppid (filter (in_group g) (jobs st bs))" by blast
    have "continued_job background g (job_at st b) = job_at st b" using False by (auto simp: continued_job_def c(1))
    then show ?thesis using r n c False jb by (intro exI [of _ st']) (auto simp: jobs_def simp del: job_at_fields)
  next
    case True
    let ?f = "\<lambda>c :: proc. c\<lparr>pbackground := background, pstopped := False\<rparr>"
    let ?st0 = "st\<lparr>continued := continued st @ [ppid c]\<rparr>"
    let ?st = "?st0\<lparr>cells := (cells st)(b \<mapsto> ?f c)\<rparr>"
    have "linked ((cells st)(b \<mapsto> ?f c)) None (proclist st) (as @ b # bs) None"
      using Cons.prems(1) linked_data [where h = "cells st" and a = b and c = c and c' = "?f c", OF c(1)] by (simp only: proc_list_def) simp
    then have m: "modify b ?f ?st0 = Ok ?st" "proc_list ?st ((as @ [b]) @ bs)"
      using Cons.prems(1) c(1) by (simp_all add: proc_list_def modify_def)
    have o: "jobs ?st as = jobs st as" "jobs ?st bs = jobs st bs" using d by (auto simp: jobs_def job_at_def)
    have jb': "job_at ?st b = continued_job background g (job_at st b)"
      using True c by (simp add: continued_job_def job_at_def job.truncate_def)
    from Cons.IH [OF m(2) n(2), of True] obtain st' where r: "continue_loop background m g (hdp bs) True ?st =
        Ok (True \<or> list_ex (in_group g) (jobs ?st bs), st')" "proc_list st' ((as @ [b]) @ bs)"
      "jobs st' ((as @ [b]) @ bs) = jobs ?st (as @ [b]) @ map (continued_job background g) (jobs ?st bs)"
      "continued st' = continued ?st @ map ppid (filter (in_group g) (jobs ?st bs))" by blast
    have jc: "jobs st (b # bs) = job_at st b # jobs st bs" by (simp add: jobs_def)
    have "jobs ?st (as @ [b]) = jobs st as @ [continued_job background g (job_at st b)]" using o jb' by (simp add: jobs_def)
    then have "jobs st' (as @ b # bs) = jobs st as @ map (continued_job background g) (jobs st (b # bs))"
      using r(3) unfolding o jc by simp
    moreover have "continued st' = continued st @ map ppid (filter (in_group g) (jobs st (b # bs)))"
      using r(4) jb True c unfolding o jc by simp
    moreover have "list_ex (in_group g) (jobs st (b # bs))" using jb True unfolding jc by simp
    moreover have "continue_loop background n g (hdp (b # bs)) found st = continue_loop background m g (hdp bs) True ?st"
      using True c n(1) by (simp add: modify_def)
    ultimately show ?thesis using r(1,2) by (intro exI [of _ st']) simp
  qed
qed

lemma find_job: "proc_list st as \<Longrightarrow> search (\<lambda>c. ppid c = pid) st = Ok (find (\<lambda>a. ppid (job_at st a) = pid) as)"
  by (simp add: search_eq)

text \<open>
  \<open>$&bg\<close> sends every living process of the group of the process it is given \<open>SIGCONT\<close> and marks them as
  running in the background; it fails when the process is unknown or dead.
\<close>

theorem bg_continues_group:
  assumes "proc_list st as" "find (\<lambda>j. ppid j = pid_arg gs t) (jobs st as) = j"
  shows "case j of
      Some j \<Rightarrow> if palive j then
          (\<exists>st'. prim_bg gs [t] st = Ok ([Str ''0''], st') \<and> proc_list st' as \<and>
            jobs st' as = map (continued_job True (ppgid j)) (jobs st as) \<and>
            continued st' = continued st @ map ppid (filter (in_group (ppgid j)) (jobs st as)))
        else prim_bg gs [t] st = Throw (Exn (fail_exn ''$&bg'' (''$&bg: '' @ show_int (pid_arg gs t) @ '': invalid pid'')), st)
    | None \<Rightarrow> prim_bg gs [t] st = Throw (Exn (fail_exn ''$&bg'' (''$&bg: '' @ show_int (pid_arg gs t) @ '': invalid pid'')), st)"
proof -
  have f: "find (\<lambda>j. P j) (map g xs) = map_option g (find (\<lambda>a. P (g a)) xs)" for P and g :: "nat \<Rightarrow> job" and xs
    by (induction xs) auto
  show ?thesis
  proof (cases "find (\<lambda>a. ppid (job_at st a) = pid_arg gs t) as")
    case None
    then show ?thesis using assms(2) find_job [OF assms(1), of "pid_arg gs t"]
      by (auto simp: jobs_def f prim_bg_def live_arg_def usage_def Let_def simp del: job_at_fields)
  next
    case (Some a)
    then have a: "a \<in> set as" by (auto simp: find_Some_iff)
    then obtain c where c: "cells st a = Some c" using proc_list_cell [OF assms(1)] by blast
    have j: "j = Some (job_at st a)" using assms(2) Some by (simp add: jobs_def f del: job_at_fields)
    have l: "live_arg ''$&bg'' gs [t] st = (if palive c then Ok c else
        Throw (Exn (fail_exn ''$&bg'' (''$&bg: '' @ show_int (pid_arg gs t) @ '': invalid pid'')), st))"
      using find_job [OF assms(1), of "pid_arg gs t"] Some c by (simp add: live_arg_def usage_def Let_def del: job_at_fields)
    show ?thesis
    proof (cases "palive c")
      case False
      then show ?thesis using l j c by (simp add: prim_bg_def)
    next
      case True
      have "proc_list st ([] @ as)" using assms(1) by simp
      from continue_loop_eq [OF this proc_list_length [OF assms(1)], of True "ppgid c" False]
      obtain st' where r: "continue_loop True (unused st) (ppgid c) (hdp as) False st = Ok (list_ex (in_group (ppgid c)) (jobs st as), st')"
        "proc_list st' as" "jobs st' as = map (continued_job True (ppgid c)) (jobs st as)"
        "continued st' = continued st @ map ppid (filter (in_group (ppgid c)) (jobs st as))" by (auto simp: jobs_def)
      have "in_group (ppgid c) (job_at st a)" "job_at st a \<in> set (jobs st as)" using True c a by (simp_all add: in_group_def jobs_def)
      then have "list_ex (in_group (ppgid c)) (jobs st as)" by (auto simp: list_ex_iff)
      then have "prim_bg gs [t] st = Ok ([Str ''0''], st')"
        using l True r(1) proc_list_hdp [OF assms(1)] by (simp add: prim_bg_def)
      then show ?thesis using True c j r(2-4) by auto
    qed
  qed
qed

section \<open>All operations keep the list\<close>

text \<open>
  The contract of the operations on processes: on a well formed list they do not lack fuel, and when they
  return, the list is well formed again. An operation takes the state to a result and a state.
\<close>

locale process_operation =
  fixes operation :: "'f pstate \<Rightarrow> ('f, 'a \<times> 'f pstate) prun"
  assumes keeps: "proc_list st as \<Longrightarrow> yields (operation st) (\<lambda>(x, st'). \<exists>bs. proc_list st' bs)"
begin

lemma returns_list: "proc_list st as \<Longrightarrow> operation st = Ok (x, st') \<Longrightarrow> \<exists>bs. proc_list st' bs"
  using keeps [of st as] by (auto simp: yields_def)

lemma ends: "proc_list st as \<Longrightarrow> operation st \<noteq> Throw (OutOfFuel, st')"
  using keeps [of st as] by (simp add: yields_def)

lemma mapped: "proc_list st as \<Longrightarrow> yields (obind (operation st) (\<lambda>(x, st). Ok (f x, st))) (\<lambda>(y, st'). \<exists>bs. proc_list st' bs)"
  by (rule yields_obind [OF keeps]) auto

end

interpretation waiting: process_operation "ewait S K pid"
proof
  fix st :: "'a pstate" and as assume "proc_list st as"
  from ewait_yields [OF this] show "yields (ewait S K pid st) (\<lambda>(x, st'). \<exists>bs. proc_list st' bs)"
    by (rule yields_mono) (auto simp: shrunk_def)
qed

interpretation polling: process_operation "donotwait K"
proof
  fix st :: "'a pstate" and as assume "proc_list st as"
  from donotwait_yields [OF this] show "yields (donotwait K st) (\<lambda>(x, st'). \<exists>bs. proc_list st' bs)"
    by (rule yields_mono) auto
qed

lemma usage_yields [simp]: "yields (usage c m st) Q"
  by (simp add: usage_def)

lemma live_arg_yields: "proc_list st as \<Longrightarrow> yields (live_arg caller gs list st) (\<lambda>_. True)"
  by (auto simp: live_arg_def search_eq Let_def split: list.split option.split)

lemma continue_loop_yields:
  "proc_list st as \<Longrightarrow> yields (continue_loop background (unused st) g (proclist st) False st) (\<lambda>(x, st'). proc_list st' as)"
  using continue_loop_eq [of st "[]" as "unused st" background g False] proc_list_length [of st as] proc_list_hdp [of st as] by auto

interpretation bg: process_operation "prim_bg gs list"
proof
  fix st :: "'a pstate" and as assume l: "proc_list st as"
  show "yields (prim_bg gs list st) (\<lambda>(x, st'). \<exists>bs. proc_list st' bs)"
    unfolding prim_bg_def
    by (rule yields_obind [OF live_arg_yields [OF l]], rule yields_obind [OF continue_loop_yields [OF l]]) auto
qed

text \<open>The loop of \<open>$&fg\<close>: the cell where it stands is in the list, or it has been freed and the loop ends.\<close>

lemma fg_loop_yields:
  "proc_list st (as @ bs) \<Longrightarrow> length bs \<le> n \<Longrightarrow> yields (fg_loop S K n g (hdp bs) status st) (\<lambda>(x, st'). \<exists>cs. proc_list st' cs)"
  (is "_ \<Longrightarrow> _ \<Longrightarrow> yields _ ?R")
proof (induction n arbitrary: as bs st status)
  case 0
  then show ?case by auto
next
  case (Suc m)
  show ?case
  proof (cases bs)
    case Nil
    then show ?thesis using Suc.prems by auto
  next
    case (Cons b bs')
    obtain c where c: "cells st b = Some c" using proc_list_cell [OF Suc.prems(1), of b] Cons by auto
    have turn: "yields (case cells st1 b of None \<Rightarrow> Undef | Some c \<Rightarrow> fg_loop S K m g (pnext c) w st1) ?R"
      if s: "shrunk (as @ b # bs') st1" for w st1
    proof (cases "cells st1 b")
      case (Some d)
      obtain P where P: "proc_list st1 (filter P (as @ b # bs'))" "P b" using s Some by (auto simp: shrunk_def)
      then have l: "proc_list st1 (filter P as @ b # filter P bs')" by simp
      then have "pnext d = hdp (filter P bs')" using proc_list_next [OF l] Some by simp
      moreover have "length (filter P bs') \<le> m" by (rule le_trans [OF length_filter_le]) (use Suc.prems(2) Cons in simp)
      ultimately show ?thesis using Suc.IH [of st1 "filter P as @ [b]" "filter P bs'" w] l Some by simp
    qed simp
    have "yields (if palive c \<and> ppgid c = g then ewait S K (ppid c) st else Ok (status, st)) (\<lambda>(w, st'). shrunk (as @ b # bs') st')"
      using shrunk_refl [OF Suc.prems(1)] ewait_yields [OF Suc.prems(1), of S K "ppid c"] Cons by (auto elim: yields_mono)
    then show ?thesis unfolding Cons hdp_simps fg_loop.simps c option.case
      by (rule yields_obind) (auto intro: turn)
  qed
qed

interpretation fg: process_operation "prim_fg S K T gs list"
proof
  fix st :: "'a pstate" and as assume l: "proc_list st as"
  have loop: "yields (fg_loop S K (unused st1) g (proclist st1) 0 st1) (\<lambda>(x, st'). \<exists>cs. proc_list st' cs)"
    if "proc_list st1 as" for g and st1 :: "'a pstate"
    using fg_loop_yields [of st1 "[]" as "unused st1"] that proc_list_length [OF that] proc_list_hdp [OF that] by simp
  show "yields (prim_fg S K T gs list st) (\<lambda>(x, st'). \<exists>bs. proc_list st' bs)"
    unfolding prim_fg_def
  proof (rule yields_obind [OF live_arg_yields [OF l]], rule yields_obind [OF give_tty_yields])
    fix proc st1 assume "same_list st st1"
    then have "same_list st (st1\<lparr>tty_modes := ptmodes proc\<rparr>)" by (simp add: same_list_def)
    then have "proc_list (st1\<lparr>tty_modes := ptmodes proc\<rparr>) as" using l same_listD(1) by blast
    from continue_loop_yields [OF this]
    show "yields (let st = st1\<lparr>tty_modes := ptmodes proc\<rparr> in
        obind (continue_loop False (unused st) (ppgid proc) (proclist st) False st) (\<lambda>(_, st).
        obind (fg_loop S K (unused st) (ppgid proc) (proclist st) 0 st) (\<lambda>(status, st).
        Ok (status_term T status, st)))) (\<lambda>(x, st'). \<exists>bs. proc_list st' bs)"
      unfolding Let_def by (rule yields_obind) (auto intro!: yields_obind [OF loop])
  qed
qed

lemma search_yields: "proc_list st as \<Longrightarrow> yields (search P st) (\<lambda>p. \<forall>a. p = Some a \<longrightarrow> a \<in> set as \<and> cells st a \<noteq> None)"
  using proc_list_cell [of st as] by (auto simp: search_eq find_Some_iff)

interpretation procchange: process_operation "prim_procchange gs list"
proof
  fix st :: "'a pstate" and as assume l: "proc_list st as"
  have change: "yields (case p of None \<Rightarrow> Undef | Some a \<Rightarrow> (case cells st a of None \<Rightarrow> Undef
      | Some c \<Rightarrow> obind (modify a (\<lambda>c. c\<lparr>phaschanged := \<not> phaschanged c\<rparr>) st) (\<lambda>st. Ok (if \<not> phaschanged c then ltrue else lfalse, st))))
    (\<lambda>(x, st'). \<exists>bs. proc_list st' bs)" if p: "\<forall>a. p = Some a \<longrightarrow> a \<in> set as \<and> cells st a \<noteq> None" for p
  proof (cases p)
    case (Some a)
    then have "a \<in> set as" using p by simp
    from modify_kept [OF l this, of "\<lambda>c. c\<lparr>phaschanged := \<not> phaschanged c\<rparr>"]
    show ?thesis using Some by (auto split: option.split)
  qed simp
  show "yields (prim_procchange gs list st) (\<lambda>(x, st'). \<exists>bs. proc_list st' bs)"
    unfolding prim_procchange_def by (auto simp: Let_def split: list.split intro!: yields_obind [OF search_yields [OF l]] change)
qed

interpretation procfree: process_operation "prim_procfree K gs list"
proof
  fix st :: "'a pstate" and as assume l: "proc_list st as"
  have free: "yields (obind (unlinkproc a (st1\<lparr>tty_modes := t, waits := k\<rparr>)) (\<lambda>(_, st). Ok ([], st))) (\<lambda>(x, st'). \<exists>bs. proc_list st' bs)"
    if p: "proc_list st1 as" "a \<in> set as" for a t k and st1 :: "'a pstate"
  proof -
    obtain xs ys where as: "as = xs @ a # ys" using p(2) by (auto simp: in_set_conv_decomp)
    have "proc_list (st1\<lparr>tty_modes := t, waits := k\<rparr>) (xs @ a # ys)" using p(1) as by (simp add: proc_list_def)
    from unlink_list [OF this] show ?thesis by auto
  qed
  have noted: "yields (case waitpid K (waits st) pid True of
        Changed wpid wstatus \<Rightarrow> modify a (\<lambda>c. c\<lparr>pstatus := wstatus\<rparr>) st | Interrupt sig \<Rightarrow> run_catcher sig st | _ \<Rightarrow> Ok st)
      (\<lambda>st1. proc_list st1 as)" if "a \<in> set as" for a pid
  proof (cases "waitpid K (waits st) pid True")
    case (Changed w s)
    then show ?thesis using modify_kept [OF l that, of "\<lambda>c. c\<lparr>pstatus := s\<rparr>"] by simp
  next
    case (Interrupt sig)
    show ?thesis using run_catcher_yields [of sig st] by (simp add: Interrupt) (erule yields_mono, simp add: same_listD(1) l)
  qed (simp_all add: l)
  show "yields (prim_procfree K gs list st) (\<lambda>(x, st'). \<exists>bs. proc_list st' bs)"
    by (auto simp: prim_procfree_def search_eq [OF l] Let_def find_Some_iff split: list.split option.split
        intro!: yields_obind [OF noted] free)
qed

text \<open>A fork of the parent, for a process that is not in the list.\<close>

interpretation fork: process_operation "\<lambda>st. if search (\<lambda>c. ppid c = pid) st = Ok None then fork_parent S K pid background pgid cmd st else Undef"
proof
  fix st :: "'a pstate" and as assume l: "proc_list st as"
  show "yields (if search (\<lambda>c. ppid c = pid) st = Ok None then fork_parent S K pid background pgid cmd st else Undef)
    (\<lambda>(x, st'). \<exists>bs. proc_list st' bs)"
  proof (cases "search (\<lambda>c. ppid c = pid) st = Ok None")
    case True
    obtain st1 where f: "mkproc S K pid background cmd st = Ok (unused st, st1)"
      "cells st1 (unused st) = Some (init_proc S pid background cmd (new_cell K st))"
      "\<And>st2 pgid. enter_group S (unused st) pid background pgid st1 = Ok st2 \<Longrightarrow>
        \<exists>st'. fork_parent S K pid background pgid cmd st = Ok (pid, st') \<and> proc_list st' (unused st # as)"
      using fork_fresh [OF l True, of S K background cmd] by blast
    have "yields (fork_parent S K pid background pgid cmd st) (\<lambda>(x, st'). \<exists>bs. proc_list st' bs)"
    proof (cases "enter_group S (unused st) pid background pgid st1")
      case (Ok st2)
      then show ?thesis using f(3) by fastforce
    qed (use enter_group_yields [OF f(2), of pgid] in \<open>auto simp: fork_parent_def f(1) yields_def\<close>)
    then show ?thesis using True by simp
  qed simp
qed

text \<open>
  The primitives on processes as the steps of a machine: a step is a call that returns. \<open>fork\<close> is the
  parent's part of it.
\<close>

inductive proc_step :: "shell \<Rightarrow> kernel \<Rightarrow> sigtable \<Rightarrow> (es_term \<Rightarrow> string) \<Rightarrow> 'f pstate \<Rightarrow> 'f pstate \<Rightarrow> bool"
  for S K T gs where
  fork: "search (\<lambda>c. ppid c = pid) st = Ok None \<Longrightarrow> 0 < pid \<Longrightarrow>
    efork S K T pid True background pgid cmd st = Ok (pid, st') \<Longrightarrow> proc_step S K T gs st st'"
| wait: "prim_wait S K T gs list st = Ok (l, st') \<Longrightarrow> proc_step S K T gs st st'"
| fg: "prim_fg S K T gs list st = Ok (l, st') \<Longrightarrow> proc_step S K T gs st st'"
| bg: "prim_bg gs list st = Ok (l, st') \<Longrightarrow> proc_step S K T gs st st'"
| procchange: "prim_procchange gs list st = Ok (l, st') \<Longrightarrow> proc_step S K T gs st st'"
| procfree: "prim_procfree K gs list st = Ok (l, st') \<Longrightarrow> proc_step S K T gs st st'"
| poll: "prim_donotwait K st = Ok (l, st') \<Longrightarrow> proc_step S K T gs st st'"

inductive_cases proc_stepE: "proc_step S K T gs st st'"

lemma proc_step_keeps: "proc_step S K T gs st st' \<Longrightarrow> proc_list st as \<Longrightarrow> \<exists>bs. proc_list st' bs"
proof (induction rule: proc_step.induct)
  case (fork pid st background pgid cmd st')
  then show ?case
    using fork.returns_list [of st as pid S K background "if pgid = -1 then shell_pgid S else pgid" cmd]
    by (auto simp: efork_def Let_def)
next
  case (wait list st l st')
  then show ?case
    by (auto simp: prim_wait_def obind_Ok dest: waiting.returns_list)
next
  case (poll st l st')
  then show ?case by (auto simp: prim_donotwait_def obind_Ok dest: polling.returns_list)
qed (auto dest: fg.returns_list bg.returns_list procchange.returns_list procfree.returns_list)


section \<open>Examples\<close>

text \<open>A shell with the given jobs, in cells from 0 on; a kernel where the process 5 ends with the status 3.\<close>

definition some_job :: "int \<Rightarrow> int \<Rightarrow> bool \<Rightarrow> bool \<Rightarrow> job" where
  "some_job pid pgid living background =
     \<lparr>ppid = pid, ppgid = pgid, pstatus = 0, palive = living, pbackground = background, pstopped = False,
      phaschanged = False, ptmodes = 0, pcmd = ''sleep''\<rparr>"

definition with_jobs :: "job list \<Rightarrow> nat pstate" where
  "with_jobs js =
     \<lparr>cells = (\<lambda>a. if a < length js then Some (job.extend (js ! a)
          \<lparr>pnext = (if Suc a < length js then Some (Suc a) else None), pprev = (if a = 0 then None else Some (a - 1))\<rparr>) else None),
      proclist = (if js = [] then None else Some 0), unused = length js,
      sigs = \<lparr>caught = replicate NSIG False, sigcount = 0, sigeffects = replicate NSIG sig_default,
        dispositions = replicate NSIG SIG_DFL, blocked = 0, hasforked = False, interrupted = False, slow = False,
        sigint_newline = True, eprinted = []\<rparr>,
      ttymask = no_mask {}, tty_pgid = 1, tty_modes = 0, groups = [], continued = [], waits = 0, handlers = 1,
      fds = \<lparr>files = [], deftab = [], defmax = 0, reserved = [], fdvars = (\<lambda>_. -1)\<rparr>\<rparr>"

definition a_shell :: "bool \<Rightarrow> shell" where
  "a_shell interactive =
     \<lparr>shell_pgid = 1, shell_tmodes = 0, has_job_control = interactive, isinteractive = interactive, tty_isatty = True\<rparr>"

definition a_kernel :: kernel where
  "a_kernel =
     \<lparr>waitpid = (\<lambda>k pid nohang. if pid = 5 then Changed 5 0x300 else Nothing), modes_after = (\<lambda>k m. m),
      eintr = ''interrupted'', fork_error = ''no more processes'', getpid = 1, tty_tries = 0,
      cell_junk = (\<lambda>a. 0xdead), stack_junk = (\<lambda>k. 0xbeef)\<rparr>"

definition a_table :: sigtable where
  "a_table = \<lparr>signals = [], sigaction_ok = (\<lambda>_. True)\<rparr>"

lemma some_job_fields [simp]:
  "ppid (some_job p g l b) = p" "ppgid (some_job p g l b) = g" "palive (some_job p g l b) = l"
  "pbackground (some_job p g l b) = b" "pstatus (some_job p g l b) = 0"
  by (simp_all add: some_job_def)

lemma with_jobs_cells: "a < length js \<Longrightarrow> job_at (with_jobs js) a = js ! a"
  by (simp add: job_at_def with_jobs_def job.defs)

lemma with_jobs_jobs: "jobs (with_jobs js) [0..<length js] = js"
  by (rule nth_equalityI) (simp_all add: jobs_def with_jobs_cells del: job_at_fields)

lemma with_jobs_linked: "i \<le> length js \<Longrightarrow>
  linked (cells (with_jobs js)) (if i = 0 then None else Some (i - 1)) (if i < length js then Some i else None) [i..<length js] None"
proof (induction "length js - i" arbitrary: i)
  case (Suc n)
  then have i: "i < length js" "[i..<length js] = i # [Suc i..<length js]" using upt_conv_Cons by auto
  have "n = length js - Suc i" using Suc by simp
  from Suc.hyps(1) [OF this] show ?case using i by (simp add: with_jobs_def job.defs)
qed simp

lemma with_jobs_list: "proc_list (with_jobs js) [0..<length js]"
  using with_jobs_linked [of 0 js] by (auto simp: proc_list_def with_jobs_def list_all_iff)

lemma with_jobs_fields: "mask_ok (ttymask (with_jobs js))" "sane (with_jobs js)" "waits (with_jobs js) = 0"
  by (simp_all add: with_jobs_def mask_ok_def no_mask_def sane_def)

lemma a_kernel_quiet: "quiet a_kernel"
  by (simp add: a_kernel_def quiet_def)

abbreviation two_jobs :: "job list" where
  "two_jobs \<equiv> [some_job 5 5 True False, some_job 4 4 False True]"

lemma two_jobs_list: "proc_list (with_jobs two_jobs) [0, 1]" "jobs (with_jobs two_jobs) [0, 1] = two_jobs"
  using with_jobs_list [of two_jobs] with_jobs_jobs [of two_jobs] by (simp_all add: upt_rec)

theorem fork_adds_process_witness:
  "\<exists>st' a. efork (a_shell True) a_kernel a_table 7 True False 0 ''ls'' (with_jobs two_jobs) = Ok (7, st') \<and>
    jobs st' (a # [0, 1]) = new_job (a_shell True) 0xdead 7 False 0 ''ls'' # two_jobs"
  using fork_adds_process [OF two_jobs_list(1) with_jobs_fields(1), of 7 "a_shell True" a_kernel a_table False 0 "''ls''"]
  unfolding two_jobs_list(2) by (auto simp: a_kernel_def)

theorem recycled_pid_drops_processes_witness:
  "\<exists>st'. efork (a_shell False) a_kernel a_table 4 True False 0 ''ls'' (with_jobs two_jobs) = Ok (4, st') \<and>
    proc_list st' [1] \<and> jobs st' [1] = [new_job (a_shell False) 0 4 False 0 ''ls'']"
proof -
  have j: "job_at (with_jobs two_jobs) 0 = some_job 5 5 True False" "job_at (with_jobs two_jobs) 1 = some_job 4 4 False True"
    "job_at (with_jobs two_jobs) (Suc 0) = some_job 4 4 False True"
    by (simp_all add: with_jobs_cells del: job_at_fields)
  have "proc_list (with_jobs two_jobs) ([0] @ 1 # [])" using two_jobs_list(1) by simp
  from recycled_pid_drops_processes [OF this _ with_jobs_fields(1), of 4 "a_shell False" a_kernel a_table False 0 "''ls''"]
  show ?thesis unfolding j by (simp add: jobs_def j del: job_at_fields)
qed

theorem dead_processes_are_freed_witness:
  "\<exists>st'. cleanproclist (with_jobs two_jobs) = Ok st' \<and> proc_list st' [0] \<and> jobs st' [0] = [some_job 5 5 True False] \<and> cells st' 1 = None"
proof -
  have j: "job_at (with_jobs two_jobs) 0 = some_job 5 5 True False" "job_at (with_jobs two_jobs) 1 = some_job 4 4 False True"
    "job_at (with_jobs two_jobs) (Suc 0) = some_job 4 4 False True"
    by (simp_all add: with_jobs_cells del: job_at_fields)
  show ?thesis using dead_processes_are_freed [OF two_jobs_list(1)]
    unfolding two_jobs_list(2) by (auto simp: j simp del: job_at_fields)
qed


theorem donotwait_reaps_witness:
  "\<exists>st'. donotwait a_kernel (with_jobs [some_job 5 5 True True]) = Ok (True, st') \<and>
    jobs st' [0] = [(some_job 5 5 True True)\<lparr>phaschanged := True, palive := False, pstatus := 0x300\<rparr>]"
proof -
  have l: "proc_list (with_jobs [some_job 5 5 True True]) [0]" "jobs (with_jobs [some_job 5 5 True True]) [0] = [some_job 5 5 True True]"
    using with_jobs_list [of "[some_job 5 5 True True]"] with_jobs_jobs [of "[some_job 5 5 True True]"] by simp_all
  have r: "reap a_kernel 0 [some_job 5 5 True True] = [(some_job 5 5 True True)\<lparr>phaschanged := True, palive := False, pstatus := 0x300\<rparr>]"
      "[(some_job 5 5 True True)\<lparr>phaschanged := True, palive := False, pstatus := 0x300\<rparr>] \<noteq> [some_job 5 5 True True]"
    by (simp add: reap_one_def a_kernel_def) (simp add: some_job_def)
  show ?thesis using donotwait_reaps [OF a_kernel_quiet l(1)] r(2) unfolding l(2) with_jobs_fields r(1) by auto
qed

theorem apids_lists_witness:
  "prim_apids [Str ''-a''] (with_jobs two_jobs) = Ok [Str ''4'', Str ''5'']"
proof -
  have "show_int 4 = ''4''" "show_int 5 = ''5''" by code_simp+
  then show ?thesis
    using apids_lists [OF two_jobs_list(1), of "[Str ''-a'']"] unfolding two_jobs_list(2) by simp
qed


theorem waiting_too_late_returns_junk_witness:
  "\<exists>st'. ewait (a_shell False) a_kernel 5 (with_jobs [some_job 5 5 True True]) = Ok (0xbeef, st')"
proof -
  have l: "proc_list (with_jobs [some_job 5 5 True True]) [0]" "jobs (with_jobs [some_job 5 5 True True]) [0] = [some_job 5 5 True True]"
    using with_jobs_list [of "[some_job 5 5 True True]"] with_jobs_jobs [of "[some_job 5 5 True True]"] by simp_all
  show ?thesis using waiting_too_late_returns_junk [OF a_kernel_quiet l(1) _ with_jobs_fields(1), of 5 "a_shell False"]
    unfolding l(2) by (auto simp: reap_one_def a_kernel_def with_jobs_fields matches_def)
qed

theorem bg_continues_group_witness:
  "\<exists>st'. prim_bg (\<lambda>t. ''5'') [Str ''5''] (with_jobs two_jobs) = Ok ([Str ''0''], st') \<and> continued st' = [5]"
proof -
  have p: "pid_arg (\<lambda>t. ''5'') (Str ''5'') = 5" by code_simp
  have c: "continued (with_jobs two_jobs) = []" by (simp add: with_jobs_def)
  show ?thesis using bg_continues_group [OF two_jobs_list(1) refl, of "\<lambda>t. ''5''" "Str ''5''"]
    unfolding p two_jobs_list(2) c by (auto simp: in_group_def)
qed


end
