(* ===== verification/Pipes.thy ===== *)
theory Pipes
  imports Procs Split
begin

text \<open>
  The primitives of \<open>src/prim-io.c\<close> that fork and read: pipes, here documents, \<open>readfrom\<close> and \<open>writeto\<close>, command
  substitution, \<open>newfd\<close> and \<open>read\<close>. They work on the processes and the descriptors of the shell. A call of \<open>fork\<close>
  returns what an argument says, so that 0 gives the run of the child. What a child does is a value: the command that
  it evaluates before it exits with its status, with the state in which it begins.
\<close>

section \<open>Pipes\<close>

text \<open>The open files: those that are no pipes, and the two ends of each pipe, which has a number.\<close>

datatype 'f pfile = Plain 'f | ReadEnd nat | WriteEnd nat

type_synonym 'f sh = "'f pfile pstate"

datatype 'f child =
    Evaluates terms bool "'f sh"
  | Writes string int "'f sh"

type_synonym ('f, 'a) forked = "('f pfile, 'f child + 'a) prun"

text \<open>The system call, for the pipe \<open>n\<close>.\<close>

definition os_pipe :: "nat \<Rightarrow> 'f pfile option list \<Rightarrow> os_error + int \<times> int \<times> 'f pfile option list" where
  "os_pipe n fs =
     (case os_open fs (ReadEnd n) of
        Inl e \<Rightarrow> Inl e
      | Inr (r, fs) \<Rightarrow>
          (case os_open fs (WriteEnd n) of
             Inl e \<Rightarrow> Inl e
           | Inr (w, fs) \<Rightarrow> Inr (r, w, fs)))"

text \<open>The variables \<open>p\<close> and \<open>inpipe\<close>, whose addresses are registered while the shell forks.\<close>

abbreviation P0 :: fdptr where "P0 \<equiv> FdVar 0"
abbreviation P1 :: fdptr where "P1 \<equiv> FdVar 1"
abbreviation INPIPE :: fdptr where "INPIPE \<equiv> FdVar 2"

definition on_fds :: "('f pfile fdstate \<Rightarrow> 'f pfile fdstate outcome) \<Rightarrow> 'f sh \<Rightarrow> ('f pfile, 'f sh) prun" where
  "on_fds f st = obind (on_throw st (f (fds st))) (\<lambda>d. Ok (st\<lparr>fds := d\<rparr>))"

definition close_fd :: "int \<Rightarrow> 'f sh \<Rightarrow> 'f sh" where
  "close_fd fd st = st\<lparr>fds := (fds st)\<lparr>files := os_close (files (fds st)) fd\<rparr>\<rparr>"

definition set_var :: "nat \<Rightarrow> int \<Rightarrow> 'f sh \<Rightarrow> 'f sh" where
  "set_var i fd st = st\<lparr>fds := (fds st)\<lparr>fdvars := (fdvars (fds st))(i := fd)\<rparr>\<rparr>"

definition var_at :: "nat \<Rightarrow> 'f sh \<Rightarrow> int" where
  "var_at i st = fdvars (fds st) i"

text \<open>\<open>pipefork\<close>: when \<open>fork\<close> fails, the pipe stays open.\<close>

definition open_pipe :: "string \<Rightarrow> nat \<Rightarrow> 'f sh \<Rightarrow> ('f pfile, 'f sh) prun" where
  "open_pipe caller n st =
     (case os_pipe n (files (fds st)) of
        Inl e \<Rightarrow> usage caller (''pipe: '' @ strerror e) st
      | Inr (r, w, fs) \<Rightarrow> Ok (set_var 1 w (set_var 0 r (st\<lparr>fds := (fds st)\<lparr>files := fs\<rparr>\<rparr>))))"

fun on_each :: "(fdptr \<Rightarrow> 'f pfile fdstate \<Rightarrow> 'f pfile fdstate outcome) \<Rightarrow> fdptr list \<Rightarrow> 'f sh \<Rightarrow> ('f pfile, 'f sh) prun" where
  "on_each f [] st = Ok st"
| "on_each f (p # ps) st = obind (on_fds (f p) st) (on_each f ps)"

definition pipefork :: "shell \<Rightarrow> kernel \<Rightarrow> sigtable \<Rightarrow> int \<Rightarrow> string \<Rightarrow> nat \<Rightarrow> bool \<Rightarrow> int \<Rightarrow> string \<Rightarrow> 'f sh \<Rightarrow>
    ('f pfile, int \<times> 'f sh) prun" where
  "pipefork S K T r caller n extra pgid cmd st =
     (let ps = [P0, P1] @ (if extra then [INPIPE] else []) in
      obind (open_pipe caller n st) (\<lambda>st.
      obind (on_each (\<lambda>p. registerfd p False) ps st) (\<lambda>st.
      case efork S K T r True False pgid cmd st of
        Ok (pid, st) \<Rightarrow> obind (on_each unregisterfd ps st) (\<lambda>st. Ok (pid, st))
      | Throw (Exn e, st) \<Rightarrow> obind (on_each unregisterfd ps st) (\<lambda>st. Throw (Exn e, st))
      | other \<Rightarrow> other)))"

section \<open>Pipelines\<close>

text \<open>
  \<open>pipe\<close>: the list has a command and then, for each further one, the descriptor that the command before writes, the one that
  it reads, and the command. \<open>forks\<close> says what the \<open>n\<close>-th call of \<open>fork\<close> returns.
\<close>

definition child_input :: "int \<Rightarrow> 'f sh \<Rightarrow> ('f pfile, 'f sh) prun" where
  "child_input infd st =
     (let inpipe = var_at 2 st in
      if inpipe \<noteq> -1 then
        if infd = -1 then Abort
        else obind (on_fds (releasefd infd) st) (\<lambda>st. on_fds (mvfd inpipe infd) st)
      else Ok st)"

definition child_output :: "(es_term \<Rightarrow> string) \<Rightarrow> es_term \<Rightarrow> 'f sh \<Rightarrow> ('f pfile, 'f sh) prun" where
  "child_output gs out st =
     (let p0 = var_at 0 st; p1 = var_at 1 st in
      obind (on_throw st (getnumber ''$&pipe'' (gs out))) (\<lambda>fd.
      obind (on_fds (releasefd fd) st) (\<lambda>st.
      obind (on_fds (mvfd p1 fd) st) (\<lambda>st.
      Ok (close_fd p0 st)))))"

fun pipe_loop :: "shell \<Rightarrow> kernel \<Rightarrow> sigtable \<Rightarrow> (es_term \<Rightarrow> string) \<Rightarrow> (nat \<Rightarrow> int) \<Rightarrow> nat \<Rightarrow> int \<Rightarrow> int \<Rightarrow> terms \<Rightarrow> int list \<Rightarrow>
    'f sh \<Rightarrow> ('f, int list \<times> 'f sh) forked" where
  "pipe_loop S K T gs forks n pgid infd [t] pids st =
     obind (efork S K T (forks n) True False pgid (job_text gs [t]) st) (\<lambda>(pid, st).
     if pid = 0 then obind (child_input infd st) (\<lambda>st. Ok (Inl (Evaluates [t] True st)))
     else Ok (Inr (pids @ [pid], close_fd (var_at 2 st) st)))"
| "pipe_loop S K T gs forks n pgid infd (t # out # inn # list) pids st =
     obind (pipefork S K T (forks n) ''$&pipe'' n True pgid (job_text gs [t]) st) (\<lambda>(pid, st).
     if pid = 0 then
       obind (child_input infd st) (\<lambda>st. obind (child_output gs out st) (\<lambda>st. Ok (Inl (Evaluates [t] True st))))
     else
       let pgid = (if has_job_control S \<and> pgid = 0 then pid else pgid);
           st = close_fd (var_at 2 st) st
       in obind (on_throw st (getnumber ''$&pipe'' (gs inn))) (\<lambda>infd.
          pipe_loop S K T gs forks (n + 1) pgid infd list (pids @ [pid]) (close_fd (var_at 1 st) (set_var 2 (var_at 0 st) st))))"
| "pipe_loop S K T gs forks n pgid infd list pids st = Undef"

text \<open>The processes are waited for from the last one on; printing of their statuses is left out.\<close>

fun wait_loop :: "shell \<Rightarrow> kernel \<Rightarrow> sigtable \<Rightarrow> int list \<Rightarrow> terms \<Rightarrow> 'f sh \<Rightarrow> ('f pfile, terms \<times> 'f sh) prun" where
  "wait_loop S K T [] result st = Ok (result, st)"
| "wait_loop S K T (pid # pids) result st =
     obind (ewait S K pid st) (\<lambda>(status, st). wait_loop S K T pids (status_term T status @ result) st)"

definition prim_pipe :: "shell \<Rightarrow> kernel \<Rightarrow> sigtable \<Rightarrow> (es_term \<Rightarrow> string) \<Rightarrow> (nat \<Rightarrow> int) \<Rightarrow> bool \<Rightarrow> terms \<Rightarrow> 'f sh \<Rightarrow>
    ('f, terms \<times> 'f sh) forked" where
  "prim_pipe S K T gs forks inchild list st =
     (if length list mod 3 \<noteq> 1 then usage ''$&pipe'' ''usage: pipe cmd [ outfd infd cmd ] ...'' st
      else obind (pipe_loop S K T gs forks 0 0 (-1) list [] (set_var 2 (-1) st)) (\<lambda>r.
        case r of
          Inl child \<Rightarrow> Ok (Inl child)
        | Inr (pids, st) \<Rightarrow>
            obind (wait_loop S K T (rev pids) [] st) (\<lambda>(result, st).
            if inchild then Throw (Exit (exitstatus result), st) else Ok (Inr (result, st)))))"

section \<open>Here documents\<close>

text \<open>\<open>redir\<close>, here for a source that may fork; a source also returns the process that writes to it, or -1.\<close>

type_synonym 'f command = "terms \<Rightarrow> 'f sh \<Rightarrow> ('f pfile, (terms + terms) \<times> 'f sh) prun"

definition redir_forking :: "string \<Rightarrow> (es_term \<Rightarrow> string) \<Rightarrow> (terms \<Rightarrow> 'f sh \<Rightarrow> ('f, int \<times> terms \<times> int \<times> 'f sh) forked) \<Rightarrow>
    bool \<Rightarrow> 'f command \<Rightarrow> terms \<Rightarrow> 'f sh \<Rightarrow> ('f, (terms + terms) \<times> int \<times> 'f sh) forked" where
  "redir_forking caller gs rop inparent command list st =
     (case list of
        [] \<Rightarrow> Abort
      | t # rest \<Rightarrow>
          obind (on_throw st (getnumber caller (gs t))) (\<lambda>destfd.
          obind (rop rest st) (\<lambda>r. case r of
              Inl child \<Rightarrow> Ok (Inl child)
            | Inr (srcfd, lp, pid, st) \<Rightarrow>
                obind (on_throw st (if srcfd = - 1 then defer_close inparent destfd (fds st)
                    else defer_mvfd inparent srcfd destfd (fds st))) (\<lambda>(ticket, d).
                obind (command lp (st\<lparr>fds := d\<rparr>)) (\<lambda>(r, st).
                obind (on_fds (undefer ticket) st) (\<lambda>st. Ok (Inr (r, pid, st))))))))"

text \<open>\<open>L\<close> is the text of a list with nothing between its terms.\<close>

definition redir_here :: "shell \<Rightarrow> kernel \<Rightarrow> sigtable \<Rightarrow> (es_term \<Rightarrow> string) \<Rightarrow> int \<Rightarrow> nat \<Rightarrow> terms \<Rightarrow> 'f sh \<Rightarrow>
    ('f, int \<times> terms \<times> int \<times> 'f sh) forked" where
  "redir_here S K T gs r n list st =
     (if list = [] then Abort
      else
        let doc = butlast list; tail = [last list] in
        obind (pipefork S K T r ''$&here'' n False (-1) ''$&here'' st) (\<lambda>(pid, st).
        if pid = 0 then Ok (Inl (Writes (Lconv gs False doc []) (var_at 1 st) (close_fd (var_at 0 st) st)))
        else let st = close_fd (var_at 1 st) st in Ok (Inr (var_at 0 st, tail, pid, st))))"

text \<open>When the command throws, the process that writes the document is not waited for.\<close>

definition prim_here :: "shell \<Rightarrow> kernel \<Rightarrow> sigtable \<Rightarrow> (es_term \<Rightarrow> string) \<Rightarrow> int \<Rightarrow> nat \<Rightarrow> bool \<Rightarrow> 'f command \<Rightarrow> terms \<Rightarrow> 'f sh \<Rightarrow>
    ('f, terms \<times> 'f sh) forked" where
  "prim_here S K T gs r n inparent command list st =
     (if length list < 2 then on_throw st (argcount ''$&here'' ''%here fd [word ...] cmd'')
      else obind (redir_forking ''$&here'' gs (redir_here S K T gs r n) inparent command list st) (\<lambda>r.
        case r of
          Inl child \<Rightarrow> Ok (Inl child)
        | Inr (Inl e, pid, st) \<Rightarrow> Throw (Exn e, st)
        | Inr (Inr lp, pid, st) \<Rightarrow>
            obind (if pid > 0 then obind (ewait S K pid st) (\<lambda>(status, st). Ok st) else Ok st) (\<lambda>st. Ok (Inr (lp, st)))))"

section \<open>Reading from and writing to a command\<close>

text \<open>\<open>DEVFD_PATH\<close>; the command is evaluated with the variable bound to the path of the descriptor.\<close>

definition devfd_path :: "int \<Rightarrow> string" where
  "devfd_path fd = ''/dev/fd/'' @ show_int fd"

type_synonym 'f bound_command = "string \<Rightarrow> string \<Rightarrow> 'f command"

definition prim_readfrom :: "shell \<Rightarrow> kernel \<Rightarrow> sigtable \<Rightarrow> (es_term \<Rightarrow> string) \<Rightarrow> int \<Rightarrow> nat \<Rightarrow> 'f bound_command \<Rightarrow> terms \<Rightarrow> 'f sh \<Rightarrow>
    ('f, terms \<times> 'f sh) forked" where
  "prim_readfrom S K T gs r n bound list st =
     (case list of
        [name, input, cmd] \<Rightarrow>
          obind (pipefork S K T r ''$&readfrom'' n False 0 (job_text gs [cmd]) st) (\<lambda>(pid, st).
          let p0 = var_at 0 st; p1 = var_at 1 st in
          if pid = 0 then
            obind (on_fds (mvfd p1 1) (close_fd p0 st)) (\<lambda>st. Ok (Inl (Evaluates [input] False st)))
          else
            obind (bound (gs name) (devfd_path p0) [cmd] (close_fd p1 st)) (\<lambda>(r, st).
            obind (ewait S K pid (close_fd p0 st)) (\<lambda>(status, st).
            case r of Inl e \<Rightarrow> Throw (Exn e, st) | Inr lp \<Rightarrow> Ok (Inr (lp, st)))))
      | _ \<Rightarrow> on_throw st (argcount ''$&readfrom'' ''%readfrom var input cmd''))"

text \<open>\<open>writeto\<close> takes a handler off that it has not put on: the assertion in \<open>pophandler\<close> fails when the command returns.\<close>

definition prim_writeto :: "shell \<Rightarrow> kernel \<Rightarrow> sigtable \<Rightarrow> (es_term \<Rightarrow> string) \<Rightarrow> int \<Rightarrow> nat \<Rightarrow> 'f bound_command \<Rightarrow> terms \<Rightarrow> 'f sh \<Rightarrow>
    ('f, terms \<times> 'f sh) forked" where
  "prim_writeto S K T gs r n bound list st =
     (case list of
        [name, out, cmd] \<Rightarrow>
          obind (pipefork S K T r ''$&writeto'' n False 0 (job_text gs [cmd]) st) (\<lambda>(pid, st).
          let p0 = var_at 0 st; p1 = var_at 1 st in
          if pid = 0 then
            obind (on_fds (mvfd p0 0) (close_fd p1 st)) (\<lambda>st. Ok (Inl (Evaluates [out] False st)))
          else
            obind (bound (gs name) (devfd_path p1) [cmd] (close_fd p0 st)) (\<lambda>(r, st).
            case r of
              Inr lp \<Rightarrow> Abort
            | Inl e \<Rightarrow> obind (ewait S K pid (close_fd p1 st)) (\<lambda>(status, st). Throw (Exn e, st))))
      | _ \<Rightarrow> on_throw st (argcount ''$&writeto'' ''%writeto var output cmd''))"

section \<open>Command substitution\<close>

text \<open>
  What calls of \<open>read\<close> answer: bytes, of which there are none at the end of the file, an interrupt, or an error. Signals that are
  waiting after a call are left out. A command that never closes its output gives an end of the list.
\<close>

datatype readans = Bytes string | Interrupted | ReadError string

fun bqinput_loop :: "readans list \<Rightarrow> splitstate \<Rightarrow> (stop, string + splitstate) outcome_of" where
  "bqinput_loop [] sp = Throw OutOfFuel"
| "bqinput_loop (Bytes s # rs) sp =
     (if s = [] then Ok (Inr sp)
      else case splitstring s False sp of
        Ok sp \<Rightarrow> bqinput_loop rs sp | Throw e \<Rightarrow> Throw (Exn e) | Abort \<Rightarrow> Abort | Undef \<Rightarrow> Undef)"
| "bqinput_loop (Interrupted # rs) sp = bqinput_loop rs sp"
| "bqinput_loop (ReadError e # rs) sp = Ok (Inl e)"

text \<open>\<open>bqinput\<close>: the words, or the error.\<close>

definition bqinput :: "string \<Rightarrow> readans list \<Rightarrow> splitstate \<Rightarrow> (stop, string + string list \<times> splitstate) outcome_of" where
  "bqinput sep reads sp =
     obind (bqinput_loop reads (startsplit sep True sp)) (\<lambda>r.
     case r of Inl e \<Rightarrow> Ok (Inl e) | Inr sp \<Rightarrow> Ok (Inr (endsplit sp)))"

fun with_state :: "'s \<Rightarrow> (stop, 'a) outcome_of \<Rightarrow> (stop \<times> 's, 'a) outcome_of" where
  "with_state st (Ok x) = Ok x"
| "with_state st (Throw e) = Throw (e, st)"
| "with_state st Abort = Abort"
| "with_state st Undef = Undef"

definition prim_backquote :: "shell \<Rightarrow> kernel \<Rightarrow> sigtable \<Rightarrow> (es_term \<Rightarrow> string) \<Rightarrow> int \<Rightarrow> nat \<Rightarrow> readans list \<Rightarrow> terms \<Rightarrow>
    splitstate \<Rightarrow> 'f sh \<Rightarrow> ('f, terms \<times> splitstate \<times> 'f sh) forked" where
  "prim_backquote S K T gs r n reads list sp st =
     (case list of
        [] \<Rightarrow> usage ''$&backquote'' ''usage: backquote separator command [args ...]'' st
      | t # lp \<Rightarrow>
          obind (pipefork S K T r ''$&backquote'' n False 0 (job_text gs lp) st) (\<lambda>(pid, st).
          let p0 = var_at 0 st; p1 = var_at 1 st in
          if pid = 0 then
            obind (on_fds (mvfd p1 1) st) (\<lambda>st. Ok (Inl (Evaluates lp True (close_fd p0 st))))
          else
            let st = close_fd p1 st in
            obind (with_state (close_fd p0 st) (bqinput (gs t) reads sp)) (\<lambda>r. case r of
                Inl e \<Rightarrow> usage ''$&backquote'' (''backquote read: '' @ e) (close_fd p0 st)
              | Inr (ws, sp) \<Rightarrow>
                  obind (ewait S K pid (close_fd p0 st)) (\<lambda>(status, st).
                  Ok (Inr (status_term T status @ map Str ws, sp, st))))))"

section \<open>A new descriptor, a line of input\<close>

definition prim_newfd :: "terms \<Rightarrow> 'f sh \<Rightarrow> ('f pfile, terms \<times> 'f sh) prun" where
  "prim_newfd list st =
     (if list \<noteq> [] then usage ''$&newfd'' ''usage: $&newfd'' st
      else obind (on_throw st (newfd (fds st))) (\<lambda>(n, d). Ok ([Str (show_int n)], st\<lparr>fds := d\<rparr>)))"

text \<open>\<open>read1\<close> asks for one byte; the result is the byte, or \<^const>\<open>None\<close> for the end of the file.\<close>

fun read1 :: "readans list \<Rightarrow> (stop, char option \<times> readans list) outcome_of" where
  "read1 [] = Throw OutOfFuel"
| "read1 (Bytes s # rs) = (case s of [] \<Rightarrow> Ok (None, rs) | c # cs \<Rightarrow> Ok (Some c, rs))"
| "read1 (Interrupted # rs) = read1 rs"
| "read1 (ReadError e # rs) = Throw (Exn [Str ''error'', Str ''$&read'', Str e])"

lemma read1_shorter: "read1 rs = Ok (c, rs') \<Longrightarrow> length rs' < length rs"
  by (induction rs rule: read1.induct) (auto split: list.splits)

text \<open>The loop of \<open>read\<close>: the text up to a newline or the end of the file, and which of them it was.\<close>

function read_loop :: "readans list \<Rightarrow> string \<Rightarrow> (stop, string \<times> bool \<times> readans list) outcome_of" where
  "read_loop rs acc =
     (case read1 rs of
        Ok (None, rs) \<Rightarrow> Ok (acc, True, rs)
      | Ok (Some c, rs) \<Rightarrow> if c = CHR 0x0A then Ok (acc, False, rs) else read_loop rs (acc @ [c])
      | Throw e \<Rightarrow> Throw e | Abort \<Rightarrow> Abort | Undef \<Rightarrow> Undef)"
  by auto
termination
  by (relation "measure (\<lambda>(rs, acc). length rs)") (auto dest: read1_shorter)

declare read_loop.simps [simp del]

text \<open>\<open>read\<close> from the descriptor that a child would see as 0; \<open>sealcountedbuffer\<close> asserts that the line has no NUL.\<close>

definition prim_read :: "(int \<Rightarrow> readans list) \<Rightarrow> 'f sh \<Rightarrow> (stop, terms \<times> readans list) outcome_of" where
  "prim_read inputs st =
     obind (read_loop (inputs (fdmap (fds st) 0)) []) (\<lambda>(s, eof, rs).
     if eof \<and> s = [] then Ok ([], rs)
     else if nul \<in> set s then Abort
     else Ok ([Str s], rs))"

section \<open>Opening a pipe\<close>

lemma first_free_ex: "None \<in> set fs \<Longrightarrow> \<exists>k. first_free fs = Some k \<and> k < length fs \<and> fs ! k = None"
  using first_free_None [of fs] first_free_Some [of fs] by (cases "first_free fs") auto

lemma free_count_update: "k < length fs \<Longrightarrow> fs ! k = None \<Longrightarrow> free_count (fs[k := Some f]) = free_count fs - 1"
proof (induction fs arbitrary: k)
  case (Cons g fs)
  have "0 < free_count fs" if "j < length fs" "fs ! j = None" for j
    using that by (auto simp: free_count_def filter_empty_conv in_set_conv_nth)
  then show ?case using Cons by (cases k) (auto simp: free_count_def)
qed simp

lemma free_count_pos: "0 < free_count fs \<longleftrightarrow> None \<in> set fs"
  by (auto simp: free_count_def filter_empty_conv)

definition with_pipe :: "nat \<Rightarrow> nat \<Rightarrow> nat \<Rightarrow> 'f pfile fdstate \<Rightarrow> 'f pfile fdstate" where
  "with_pipe n a b d =
     d\<lparr>files := (files d)[a := Some (ReadEnd n), b := Some (WriteEnd n)], fdvars := (fdvars d)(0 := int a, 1 := int b)\<rparr>"

lemma open_pipe_ok:
  assumes "2 \<le> free_count (files (fds st))"
  shows "\<exists>a b. a \<noteq> b \<and> a < length (files (fds st)) \<and> b < length (files (fds st)) \<and> files (fds st) ! a = None \<and>
    files (fds st) ! b = None \<and> first_free (files (fds st)) = Some a \<and> open_pipe caller n st = Ok (st\<lparr>fds := with_pipe n a b (fds st)\<rparr>)"
proof -
  let ?fs = "files (fds st)"
  obtain a where a: "first_free ?fs = Some a" "a < length ?fs" "?fs ! a = None"
    using first_free_ex [of ?fs] assms free_count_pos [of ?fs] by auto
  have "0 < free_count (?fs[a := Some (ReadEnd n)])" using free_count_update [OF a(2,3)] assms by simp
  then obtain b where b: "first_free (?fs[a := Some (ReadEnd n)]) = Some b" "b < length ?fs" "?fs[a := Some (ReadEnd n)] ! b = None"
    using first_free_ex [of "?fs[a := Some (ReadEnd n)]"] free_count_pos by auto
  have "a \<noteq> b" using a b by auto
  with a b show ?thesis
    by (intro exI [of _ a] exI [of _ b]) (simp add: open_pipe_def os_pipe_def os_open_def with_pipe_def set_var_def)
qed

text \<open>Registering the variables, and giving them up again.\<close>

lemma register_each:
  "distinct ps \<Longrightarrow> set ps \<inter> ptrs (fds st) = {} \<Longrightarrow>
    on_each (\<lambda>p. registerfd p False) ps st =
      Ok (st\<lparr>fds := (fds st)\<lparr>reserved := reserved (fds st) @ map (\<lambda>p. (p, False)) ps\<rparr>\<rparr>)"
proof (induction ps arbitrary: st)
  case (Cons p ps)
  let ?st = "st\<lparr>fds := (fds st)\<lparr>reserved := reserved (fds st) @ [(p, False)]\<rparr>\<rparr>"
  have "on_fds (registerfd p False) st = Ok ?st"
    using Cons.prems by (auto simp: on_fds_def registerfd_def list_ex_iff ptrs_def image_iff)
  moreover have "set ps \<inter> ptrs (fds ?st) = {}" using Cons.prems by (auto simp: ptrs_def)
  ultimately show ?case using Cons.IH [of ?st] Cons.prems(1) by simp
qed simp

lemma find_reserved_here: "p \<notin> fst ` set rs \<Longrightarrow> find_reserved p (rs @ (p, c) # qs) = Some (length rs)"
  by (induction rs) auto

lemma unregister_one:
  assumes "reserved (fds st) = rs @ (p, c) # qs" "p \<notin> fst ` set rs"
  shows "on_fds (unregisterfd p) st =
    Ok (st\<lparr>fds := (fds st)\<lparr>reserved := rs @ (case rev qs of [] \<Rightarrow> [] | q # qs \<Rightarrow> q # rev qs)\<rparr>\<rparr>)"
  using assms find_reserved_here [OF assms(2), of c qs]
  by (cases qs rule: rev_cases) (auto simp: on_fds_def unregisterfd_def list_update_append butlast_append)

lemma unregister_pipe:
  assumes "ps = [P0, P1] \<or> ps = [P0, P1, INPIPE]" "reserved (fds st) = rs @ map (\<lambda>p. (p, c)) ps" "{P0, P1, INPIPE} \<inter> fst ` set rs = {}"
  shows "on_each unregisterfd ps st = Ok (st\<lparr>fds := (fds st)\<lparr>reserved := rs\<rparr>\<rparr>)"
  using assms by (auto simp: unregister_one [where rs = rs and c = c] unregister_one [where rs = "rs @ [(INPIPE, c)]" and c = c])

section \<open>What a child sees\<close>

text \<open>
  The files that a child inherits: those of its parent, but not where the shell keeps a descriptor. One that is closed by \<open>fork\<close>
  stays open when it is a standard one.
\<close>

definition inherited :: "'f fdstate \<Rightarrow> int \<Rightarrow> 'f option" where
  "inherited d m = (if \<exists>(p, c) \<in> set (reserved d). getfd d p = Some m \<and> (c \<longrightarrow> 3 \<le> m) then None else file_at (files d) m)"

lemma closefds_loop_eq:
  assumes "\<forall>(p, c) \<in> set rs. \<exists>i. p = FdVar i" "distinct (map fst rs)"
  shows "\<exists>fs. closefds_loop rs d =
      Ok (d\<lparr>files := fs, fdvars := (\<lambda>i. if (FdVar i, True) \<in> set rs then -1 else fdvars d i)\<rparr>) \<and> length fs = length (files d) \<and>
    (\<forall>m. file_at fs m = (if \<exists>i. (FdVar i, True) \<in> set rs \<and> fdvars d i = m \<and> 3 \<le> m then None else file_at (files d) m))"
  using assms
proof (induction rs arbitrary: d)
  case Nil
  then show ?case by (intro exI [of _ "files d"]) simp
next
  case (Cons r rs)
  obtain i c where r: "r = (FdVar i, c)" using Cons.prems(1) by (cases r) auto
  show ?case
  proof (cases c)
    case False
    then show ?thesis using Cons.IH [of d] Cons.prems r by auto
  next
    case True
    let ?d = "setfd (FdVar i) (-1) (if 3 \<le> fdvars d i then d\<lparr>files := os_close (files d) (fdvars d i)\<rparr> else d)"
    obtain fs where fs: "closefds_loop rs ?d =
        Ok (?d\<lparr>files := fs, fdvars := (\<lambda>i. if (FdVar i, True) \<in> set rs then -1 else fdvars ?d i)\<rparr>)" "length fs = length (files ?d)"
      "\<forall>m. file_at fs m = (if \<exists>i. (FdVar i, True) \<in> set rs \<and> fdvars ?d i = m \<and> 3 \<le> m then None else file_at (files ?d) m)"
      using Cons.IH [of ?d] Cons.prems by auto
    have new: "(FdVar i, True) \<notin> set rs" using Cons.prems(2) r by force
    have "?d\<lparr>files := fs, fdvars := (\<lambda>j. if (FdVar j, True) \<in> set rs then -1 else fdvars ?d j)\<rparr> =
        d\<lparr>files := fs, fdvars := (\<lambda>j. if (FdVar j, True) \<in> set (r # rs) then -1 else fdvars d j)\<rparr>"
      using True r new by (auto simp: setfd_def fun_eq_iff)
    moreover have "(\<exists>j. (FdVar j, True) \<in> set rs \<and> fdvars ?d j = m \<and> 3 \<le> m) \<longleftrightarrow> (\<exists>j. (FdVar j, True) \<in> set rs \<and> fdvars d j = m \<and> 3 \<le> m)" for m
      using new by (auto simp: setfd_def) 
    then have "file_at fs m = (if \<exists>j. (FdVar j, True) \<in> set (r # rs) \<and> fdvars d j = m \<and> 3 \<le> m then None else file_at (files d) m)" for m
      using True r fs(3) by (auto simp: setfd_def file_at_close)
    ultimately show ?thesis using fs(1,2) True r by (intro exI [of _ fs]) (auto simp: getfd_def setfd_def)
  qed
qed

lemma take_tty_ok: "mask_ok (ttymask st) \<Longrightarrow> \<exists>m. take_tty n pgid st = Ok (st\<lparr>ttymask := m, tty_pgid := pgid\<rparr>)"
proof (induction n arbitrary: st)
  case 0
  then show ?case using give_tty_ok by auto
next
  case (Suc n)
  obtain m where m: "assign_tty (ttymask st) = Ok m" "mask_ok m" using assign_tty_ok [OF Suc.prems] by blast
  then show ?case using Suc.IH [of "st\<lparr>ttymask := m\<rparr>"] by auto
qed

lemma set_defaults: "length (sigeffects st) = NSIG \<Longrightarrow> \<forall>(sig, e) \<in> set es. 0 < sig \<and> sig < NSIG \<and> e = sig_default \<Longrightarrow> \<exists>st'. set_each T es st = Ok st'"
proof (induction es arbitrary: st)
  case (Cons x es)
  obtain sig where x: "x = (sig, sig_default)" "0 < sig" "sig < NSIG" using Cons.prems(2) by (cases x) auto
  have "\<exists>old st1. esignal T sig sig_default st = Ok (old, st1) \<and> length (sigeffects st1) = NSIG"
    using x Cons.prems(1) by (simp add: esignal_def setsignal_def Let_def)
  then obtain old st1 where e: "esignal T sig sig_default st = Ok (old, st1)" "length (sigeffects st1) = NSIG" by blast
  have "\<exists>st'. set_each T es st1 = Ok st'" using Cons.IH [OF e(2)] Cons.prems(2) by simp
  then show ?case using x(1) e(1) by auto
qed simp

lemma fork_child_ok:
  assumes "mask_ok (ttymask st)" "length (sigeffects (sigs st)) = NSIG" "closefds (fds st) = Ok d"
  shows "\<exists>st'. efork S K T 0 True background pgid cmd st = Ok (0, st') \<and> fds st' = d \<and> handlers st' = 0"
proof -
  have new: "\<exists>st'. new_child T s = Ok (0, st') \<and> fds st' = d \<and> handlers st' = 0"
    if "fds s = fds st" "length (sigeffects (sigs s)) = NSIG" for s
  proof -
    have "\<exists>s'. setsigdefaults T (sigs s) = Ok s'" unfolding setsigdefaults_def using that(2) by (intro set_defaults) auto
    then obtain s' where "setsigdefaults T (sigs s) = Ok s'" by blast
    then show ?thesis using that(1) assms(3) by (auto simp: new_child_def Let_def)
  qed
  let ?st = "st\<lparr>sigs := (sigs st)\<lparr>hasforked := True\<rparr>\<rparr>"
  have "\<exists>s. (if has_job_control S \<and> isinteractive S then
        let pgid = (if pgid = 0 then getpid K else pgid); st = ?st\<lparr>groups := groups ?st @ [(0, pgid)]\<rparr> in
        if \<not> background \<and> tty_isatty S then take_tty (tty_tries K) pgid st else Ok st
      else Ok ?st) = Ok s \<and> fds s = fds st \<and> length (sigeffects (sigs s)) = NSIG" for pgid
    using assms(1,2) take_tty_ok [of "?st\<lparr>groups := groups ?st @ [(0, if pgid = 0 then getpid K else pgid)]\<rparr>" "tty_tries K"
        "if pgid = 0 then getpid K else pgid"] by (auto simp: Let_def)
  from this [of "if pgid = -1 then shell_pgid S else pgid"] obtain s where
    "(if has_job_control S \<and> isinteractive S then
        let pgid = (if (if pgid = -1 then shell_pgid S else pgid) = 0 then getpid K else if pgid = -1 then shell_pgid S else pgid);
          st = ?st\<lparr>groups := groups ?st @ [(0, pgid)]\<rparr> in
        if \<not> background \<and> tty_isatty S then take_tty (tty_tries K) pgid st else Ok st
      else Ok ?st) = Ok s" "fds s = fds st" "length (sigeffects (sigs s)) = NSIG" by blast
  with new [of s] show ?thesis by (auto simp: efork_def fork_child_def Let_def)
qed

text \<open>
  The view of a child that is forked while the shell has more files open than in \<open>d\<close>, in descriptors that are free there.
\<close>

definition only_fdvars :: "'f fdstate \<Rightarrow> bool" where
  "only_fdvars d \<longleftrightarrow> values_ok d \<and> deftab d = [] \<and> (\<forall>p \<in> ptrs d. \<exists>i > 2. p = FdVar i)"

lemma fd_inv_only: "fd_inv d \<Longrightarrow> deftab d = [] \<Longrightarrow> {P0, P1, INPIPE} \<inter> ptrs d = {} \<Longrightarrow> only_fdvars d"
  unfolding only_fdvars_def fd_inv_from_def
proof (intro conjI ballI)
  fix p
  assume d: "values_ok d \<and> (\<forall>i. (DeferSlot i \<in> ptrs d) = (0 \<le> i \<and> i < length (deftab d))) \<and> (\<forall>i. (DeferSlot i, False) \<notin> set (reserved d)) \<and>
      (\<forall>(r, u) \<in> set (deftab d). 0 \<le> u)" "deftab d = []" "{P0, P1, INPIPE} \<inter> ptrs d = {}" "p \<in> ptrs d"
  then obtain i where i: "p = FdVar i" by (cases p) auto
  have "i = 0 \<Longrightarrow> False" "i = 1 \<Longrightarrow> False" "i = 2 \<Longrightarrow> False" using d(3,4) i by auto
  then have "i \<noteq> 0 \<and> i \<noteq> 1 \<and> i \<noteq> 2" by blast
  then have "i > 2" by arith
  with i show "\<exists>i > 2. p = FdVar i" by blast
qed auto

lemma free_file: "None \<in> set fs \<longleftrightarrow> (\<exists>m. 0 \<le> m \<and> nat m < length fs \<and> file_at fs m = None)"
proof
  assume "None \<in> set fs"
  then obtain k where "k < length fs" "fs ! k = None" by (auto simp: in_set_conv_nth)
  then show "\<exists>m. 0 \<le> m \<and> nat m < length fs \<and> file_at fs m = None" by (intro exI [of _ "int k"]) (simp add: file_at_def)
next
  assume "\<exists>m. 0 \<le> m \<and> nat m < length fs \<and> file_at fs m = None"
  then show "None \<in> set fs" by (auto simp: file_at_def split: if_splits) (metis nth_mem)
qed

lemma closed_view:
  assumes d: "only_fdvars d" and h: "h = d\<lparr>files := fs, fdvars := g, reserved := reserved d @ map (\<lambda>p. (p, False)) ps\<rparr>"
    and g: "\<forall>i > 2. g i = fdvars d i" and ps: "set ps \<subseteq> {P0, P1, INPIPE}" "distinct ps"
    and fs: "length fs = length (files d)" "\<And>m f. file_at (files d) m = Some f \<Longrightarrow> file_at fs m = Some f"
  shows "\<exists>fs' g'. closefds h = Ok (h\<lparr>files := fs', fdvars := g'\<rparr>) \<and> (\<forall>i \<le> 2. g' i = g i) \<and> length fs' = length fs \<and>
    (None \<in> set fs \<longrightarrow> None \<in> set fs') \<and>
    (let k = d\<lparr>files := fs', fdvars := g'\<rparr> in values_ok k \<and>
      (\<forall>m. user_file k m = (if file_at (files d) m = None then file_at fs m else inherited d m)))"
proof -
  let ?g' = "\<lambda>i. if (FdVar i, True) \<in> set (reserved d) then -1 else g i"
  have vars: "(p, c) \<in> set (reserved d) \<Longrightarrow> \<exists>i > 2. p = FdVar i" for p c
    using d unfolding only_fdvars_def ptrs_def by force
  have dist: "distinct (map fst (reserved d))" using d by (simp add: only_fdvars_def values_ok_def)
  have one: "(p, c) \<in> set (reserved d) \<Longrightarrow> (p, c') \<in> set (reserved d) \<Longrightarrow> c = c'" for p c c'
    using dist by (metis eq_key_imp_eq_value)
  have mem: "(FdVar i, True) \<in> set (reserved h) \<longleftrightarrow> (FdVar i, True) \<in> set (reserved d)" for i by (auto simp: h)
  have flds: "fdvars h = g" "files h = fs" by (simp_all add: h)
  have "\<forall>(p, c) \<in> set (reserved h). \<exists>i. p = FdVar i" using vars ps(1) by (auto simp: h)
  moreover have "distinct (map fst (reserved h))"
    using dist ps vars by (auto simp: h comp_def) fastforce
  ultimately obtain fs' where c: "closefds_loop (reserved h) h = Ok (h\<lparr>files := fs', fdvars := ?g'\<rparr>)" "length fs' = length fs"
    "\<And>m. file_at fs' m = (if \<exists>i. (FdVar i, True) \<in> set (reserved d) \<and> g i = m \<and> 3 \<le> m then None else file_at fs m)"
    using closefds_loop_eq [of "reserved h" h] unfolding mem flds by blast
  let ?k = "d\<lparr>files := fs', fdvars := ?g'\<rparr>"
  have get: "getfd ?k p = (if (p, True) \<in> set (reserved d) then Some (-1) else getfd d p)" if "p \<in> ptrs d" for p
    using that g vars by (force simp: ptrs_def getfd_def split: fdptr.splits)
  have g_get: "(FdVar i, c) \<in> set (reserved d) \<Longrightarrow> getfd d (FdVar i) = Some (g i)" for i c
    using vars [of "FdVar i" c] g by (auto simp: getfd_def)
  have ok: "p \<in> ptrs d \<Longrightarrow> q \<in> ptrs d \<Longrightarrow> p \<noteq> q \<Longrightarrow> getfd d p = getfd d q \<Longrightarrow> getfd d p = Some (-1)" for p q
    using d unfolding only_fdvars_def values_ok_def by blast
  have isopen: "p \<in> ptrs d \<Longrightarrow> getfd d p = Some m \<Longrightarrow> m = -1 \<or> file_at (files d) m \<noteq> None" for p m
    using d unfolding only_fdvars_def values_ok_def by fastforce
  have closed: "(\<exists>i. (FdVar i, True) \<in> set (reserved d) \<and> g i = m \<and> 3 \<le> m) \<longleftrightarrow>
      (\<exists>p. (p, True) \<in> set (reserved d) \<and> getfd d p = Some m \<and> 3 \<le> m)" for m
    using g_get vars by (metis option.inject)
  have in_ptrs: "(p, c) \<in> set (reserved d) \<Longrightarrow> p \<in> ptrs d" for p c by (force simp: ptrs_def)
  have either: "p \<in> ptrs d \<Longrightarrow> (p, True) \<in> set (reserved d) \<or> (p, False) \<in> set (reserved d)" for p
    by (auto simp: ptrs_def) (metis (full_types))
  have "values_ok ?k"
    unfolding values_ok_def
  proof (intro conjI ballI impI)
    show "distinct (map fst (reserved ?k))" using dist by simp
    have pk: "ptrs ?k = ptrs d" by (simp add: ptrs_def)
    fix p assume "p \<in> ptrs ?k"
    then have p: "p \<in> ptrs d" by (simp add: pk)
    then obtain v where v: "getfd d p = Some v" using d unfolding only_fdvars_def values_ok_def by blast
    show "\<exists>v. getfd ?k p = Some v \<and> (v = -1 \<or> file_at (files ?k) v \<noteq> None)"
    proof (cases "(p, True) \<in> set (reserved d) \<or> v = -1")
      case False
      then have "file_at (files d) v \<noteq> None" using isopen [OF p v] by blast
      moreover have "\<not> (\<exists>q. (q, True) \<in> set (reserved d) \<and> getfd d q = Some v \<and> 3 \<le> v)"
        using ok [OF p] in_ptrs v False by (metis option.inject)
      ultimately show ?thesis using False v fs(2) [of v] get [OF p] c(3) [of v] unfolding closed by auto
    qed (auto simp: get [OF p] v)
    fix q assume "q \<in> ptrs ?k" and eq: "p \<noteq> q" "getfd ?k p = getfd ?k q"
    then have "q \<in> ptrs d" by (simp add: pk)
    then show "getfd ?k p = Some (-1)" using get p ok [OF p _ eq(1)] eq(2) by (auto split: if_splits)
  qed
  moreover have "user_file ?k m = (if file_at (files d) m = None then file_at fs m else inherited d m)" for m
  proof -
    have inh: "(\<exists>(p, c) \<in> set (reserved d). getfd d p = Some m \<and> (c \<longrightarrow> 3 \<le> m)) \<longleftrightarrow>
        (\<exists>p. (p, False) \<in> set (reserved d) \<and> getfd d p = Some m) \<or> (\<exists>p. (p, True) \<in> set (reserved d) \<and> getfd d p = Some m \<and> 3 \<le> m)"
      by (auto simp: Bex_def ex_bool_eq)
    have hidden: "(\<exists>p \<in> ptrs ?k. getfd ?k p = Some m) \<longleftrightarrow> (\<exists>p. (p, False) \<in> set (reserved d) \<and> getfd d p = Some m)" if "m \<noteq> -1"
    proof -
      have pk: "ptrs ?k = ptrs d" by (simp add: ptrs_def)
      have "p \<in> ptrs d \<and> getfd ?k p = Some m \<longleftrightarrow> (p, False) \<in> set (reserved d) \<and> getfd d p = Some m" for p
        using get [of p] one [of p True False] that in_ptrs [of p] either [of p] by (auto split: if_splits)
      then show ?thesis unfolding pk by blast
    qed
    show ?thesis
    proof (cases "m = -1")
      case False
      have "file_at (files d) m = None \<Longrightarrow> (p, c) \<in> set (reserved d) \<Longrightarrow> getfd d p \<noteq> Some m" for p c
        using isopen [of p m] in_ptrs False by blast
      then show ?thesis
        unfolding user_file_def hidden [OF False] inherited_def inh using c(3) [of m] fs(2) [of m] unfolding closed by auto
    qed (simp add: user_file_def inherited_def)
  qed
  moreover have "closefds h = Ok (h\<lparr>files := fs', fdvars := ?g'\<rparr>)"
  proof -
    have e: "deftab h = []" using d by (simp add: h only_fdvars_def)
    then have "h\<lparr>deftab := []\<rparr> = h" by (cases h) simp
    moreover have "remapfds h = Ok (h\<lparr>deftab := []\<rparr>)" by (simp add: remapfds_def e)
    ultimately have "remapfds h = Ok h" by (simp only:)
    then show ?thesis using c(1) by (simp add: closefds_def)
  qed
  moreover have "i \<le> 2 \<Longrightarrow> ?g' i = g i" for i using vars [of "FdVar i" True] by auto
  moreover have "None \<in> set fs \<longrightarrow> None \<in> set fs'" unfolding free_file using c(2,3) by auto
  ultimately show ?thesis using c(2) unfolding Let_def by blast
qed

section \<open>Forking with a pipe\<close>

lemma efork_parent:
  assumes "proc_list st as" "mask_ok (ttymask st)" "0 < pid" "pid \<notin> ppid ` set (jobs st as)"
  shows "\<exists>st' x. efork S K T pid True background pgid cmd st = Ok (pid, st') \<and> proc_list st' (x # as) \<and> same_rest st st' \<and>
    jobs st' (x # as) = new_job S (cell_junk K (unused st)) pid background (if pgid = -1 then shell_pgid S else pgid) cmd # jobs st as"
proof -
  obtain st' x where f: "efork S K T pid True background pgid cmd st = Ok (pid, st')" "proc_list st' (x # as)"
    "jobs st' (x # as) = new_job S (cell_junk K (unused st)) pid background (if pgid = -1 then shell_pgid S else pgid) cmd # jobs st as"
    using fork_adds_process [OF assms, of S K T background pgid cmd] by blast
  then have "same_rest st st'"
    using fork_parent_rest [of S K pid background "if pgid = -1 then shell_pgid S else pgid" cmd st pid st'] assms(3)
    by (simp add: efork_def Let_def)
  with f show ?thesis by blast
qed

lemma proc_list_fds [simp]: "proc_list (st\<lparr>fds := d\<rparr>) as = proc_list st as" "jobs (st\<lparr>fds := d\<rparr>) as = jobs st as"
  by (simp_all add: proc_list_def jobs_def job_at_def)

definition registering :: "'f sh \<Rightarrow> fdptr list \<Rightarrow> 'f sh" where
  "registering st ps = st\<lparr>fds := (fds st)\<lparr>reserved := reserved (fds st) @ map (\<lambda>p. (p, False)) ps\<rparr>\<rparr>"

text \<open>\<open>pipefork\<close> up to the call of \<open>fork\<close>.\<close>

lemma pipefork_eq:
  assumes "2 \<le> free_count (files (fds st))" "{P0, P1, INPIPE} \<inter> ptrs (fds st) = {}"
  shows "\<exists>a b. a \<noteq> b \<and> a < length (files (fds st)) \<and> b < length (files (fds st)) \<and> files (fds st) ! a = None \<and>
    files (fds st) ! b = None \<and> first_free (files (fds st)) = Some a \<and> pipefork S K T r caller n extra pgid cmd st =
      (let ps = [P0, P1] @ (if extra then [INPIPE] else []) in
       case efork S K T r True False pgid cmd (registering (st\<lparr>fds := with_pipe n a b (fds st)\<rparr>) ps) of
         Ok (pid, st) \<Rightarrow> obind (on_each unregisterfd ps st) (\<lambda>st. Ok (pid, st))
       | Throw (Exn e, st) \<Rightarrow> obind (on_each unregisterfd ps st) (\<lambda>st. Throw (Exn e, st))
       | other \<Rightarrow> other)"
proof -
  let ?ps = "[P0, P1] @ (if extra then [INPIPE] else [])"
  obtain a b where o: "a \<noteq> b" "a < length (files (fds st))" "b < length (files (fds st))" "files (fds st) ! a = None"
    "files (fds st) ! b = None" "first_free (files (fds st)) = Some a" "open_pipe caller n st = Ok (st\<lparr>fds := with_pipe n a b (fds st)\<rparr>)"
    using open_pipe_ok [OF assms(1), of caller n] by blast
  have "on_each (\<lambda>p. registerfd p False) ?ps (st\<lparr>fds := with_pipe n a b (fds st)\<rparr>) =
      Ok (registering (st\<lparr>fds := with_pipe n a b (fds st)\<rparr>) ?ps)"
    unfolding registering_def using assms(2) by (intro register_each) (auto simp: with_pipe_def ptrs_def image_iff)
  with o show ?thesis by (intro exI [of _ a] exI [of _ b]) (simp add: pipefork_def Let_def)
qed

lemma pipe_vars: "ps = [P0, P1] @ (if extra then [INPIPE] else []) \<Longrightarrow> ps = [P0, P1] \<or> ps = [P0, P1, INPIPE]"
  by simp

lemma pipefork_parent:
  assumes "2 \<le> free_count (files (fds st))" "{P0, P1, INPIPE} \<inter> ptrs (fds st) = {}"
    and "proc_list st as" "mask_ok (ttymask st)" "0 < pid" "pid \<notin> ppid ` set (jobs st as)"
  shows "\<exists>st' x a b. pipefork S K T pid caller n extra pgid cmd st = Ok (pid, st') \<and> proc_list st' (x # as) \<and>
    jobs st' (x # as) = new_job S (cell_junk K (unused st)) pid False (if pgid = -1 then shell_pgid S else pgid) cmd # jobs st as \<and>
    a \<noteq> b \<and> a < length (files (fds st)) \<and> b < length (files (fds st)) \<and> files (fds st) ! a = None \<and> files (fds st) ! b = None \<and>
    fds st' = with_pipe n a b (fds st) \<and> sigs st' = sigs st \<and> mask_ok (ttymask st')"
proof -
  define ps where "ps = [P0, P1] @ (if extra then [INPIPE] else [])"
  obtain a b where o: "a \<noteq> b" "a < length (files (fds st))" "b < length (files (fds st))" "files (fds st) ! a = None"
    "files (fds st) ! b = None" "pipefork S K T pid caller n extra pgid cmd st =
       (case efork S K T pid True False pgid cmd (registering (st\<lparr>fds := with_pipe n a b (fds st)\<rparr>) ps) of
         Ok (pid, st) \<Rightarrow> obind (on_each unregisterfd ps st) (\<lambda>st. Ok (pid, st))
       | Throw (Exn e, st) \<Rightarrow> obind (on_each unregisterfd ps st) (\<lambda>st. Throw (Exn e, st))
       | other \<Rightarrow> other)"
    using pipefork_eq [OF assms(1,2), of S K T pid caller n extra pgid cmd] unfolding Let_def ps_def [symmetric] by blast
  let ?st = "registering (st\<lparr>fds := with_pipe n a b (fds st)\<rparr>) ps"
  have "proc_list ?st as" "mask_ok (ttymask ?st)" "pid \<notin> ppid ` set (jobs ?st as)" "unused ?st = unused st"
    using assms by (simp_all add: registering_def)
  then obtain st1 x where e: "efork S K T pid True False pgid cmd ?st = Ok (pid, st1)" "proc_list st1 (x # as)" "same_rest ?st st1"
    "jobs st1 (x # as) = new_job S (cell_junk K (unused st)) pid False (if pgid = -1 then shell_pgid S else pgid) cmd # jobs st as"
    using efork_parent [of ?st as pid S K T False pgid cmd] assms(5) by (auto simp: registering_def)
  have r: "fds st1 = (with_pipe n a b (fds st))\<lparr>reserved := reserved (fds st) @ map (\<lambda>p. (p, False)) ps\<rparr>"
    "sigs st1 = sigs st" "mask_ok (ttymask st1)"
    using e(3) assms(4) by (simp_all add: same_rest_def registering_def with_pipe_def)
  have "on_each unregisterfd ps st1 = Ok (st1\<lparr>fds := (fds st1)\<lparr>reserved := reserved (fds st)\<rparr>\<rparr>)"
    using assms(2) by (intro unregister_pipe [where c = False] pipe_vars [OF ps_def]) (simp_all add: r ptrs_def)
  moreover have "(fds st1)\<lparr>reserved := reserved (fds st)\<rparr> = with_pipe n a b (fds st)"
    by (simp add: r with_pipe_def)
  ultimately have "pipefork S K T pid caller n extra pgid cmd st = Ok (pid, st1\<lparr>fds := with_pipe n a b (fds st)\<rparr>)"
    using o(6) e(1) by simp
  with o(1-5) e(2,4) r show ?thesis
    by (intro exI [of _ "st1\<lparr>fds := with_pipe n a b (fds st)\<rparr>"] exI [of _ x] exI [of _ a] exI [of _ b]) simp
qed

lemma pipefork_child:
  assumes d: "only_fdvars d" and e: "fds st = d\<lparr>files := fs, fdvars := g\<rparr>" "\<forall>i > 2. g i = fdvars d i"
    and fs: "length fs = length (files d)" "\<And>m f. file_at (files d) m = Some f \<Longrightarrow> file_at fs m = Some f" "2 \<le> free_count fs"
    and ok: "mask_ok (ttymask st)" "length (sigeffects (sigs st)) = NSIG"
  shows "\<exists>st' a b k. pipefork S K T 0 caller n extra pgid cmd st = Ok (0, st') \<and>
    a \<noteq> b \<and> a < length fs \<and> b < length fs \<and> fs ! a = None \<and> fs ! b = None \<and> first_free fs = Some a \<and>
    fds st' = k \<and> var_at 0 st' = int a \<and> var_at 1 st' = int b \<and> var_at 2 st' = g 2 \<and>
    values_ok k \<and> reserved k = reserved d \<and> length (files k) = length fs \<and> (3 \<le> free_count fs \<longrightarrow> None \<in> set (files k)) \<and>
    (\<forall>m. user_file k m =
      (if file_at (files d) m = None then file_at (fs[a := Some (ReadEnd n), b := Some (WriteEnd n)]) m else inherited d m))"
proof -
  define ps where "ps = [P0, P1] @ (if extra then [INPIPE] else [])"
  have ps: "set ps \<subseteq> {P0, P1, INPIPE}" "distinct ps" by (auto simp: ps_def)
  have no: "{P0, P1, INPIPE} \<inter> ptrs d = {}" using d by (auto simp: only_fdvars_def)
  have f: "files (fds st) = fs" "reserved (fds st) = reserved d" "ptrs (fds st) = ptrs d" by (simp_all add: e ptrs_def)
  obtain a b where o: "a \<noteq> b" "a < length fs" "b < length fs" "fs ! a = None" "fs ! b = None" "first_free fs = Some a"
    "pipefork S K T 0 caller n extra pgid cmd st =
       (case efork S K T 0 True False pgid cmd (registering (st\<lparr>fds := with_pipe n a b (fds st)\<rparr>) ps) of
         Ok (pid, st) \<Rightarrow> obind (on_each unregisterfd ps st) (\<lambda>st. Ok (pid, st))
       | Throw (Exn e, st) \<Rightarrow> obind (on_each unregisterfd ps st) (\<lambda>st. Throw (Exn e, st))
       | other \<Rightarrow> other)"
    using pipefork_eq [of st S K T 0 caller n extra pgid cmd] fs(3) no unfolding Let_def ps_def [symmetric] f by blast
  let ?fs = "fs[a := Some (ReadEnd n), b := Some (WriteEnd n)]" and ?g = "g(0 := int a, 1 := int b)"
  let ?st = "registering (st\<lparr>fds := with_pipe n a b (fds st)\<rparr>) ps"
  let ?h = "d\<lparr>files := ?fs, fdvars := ?g, reserved := reserved d @ map (\<lambda>p. (p, False)) ps\<rparr>"
  have h: "fds ?st = ?h" by (simp add: registering_def with_pipe_def e)
  have keep: "file_at (files d) m = Some f \<Longrightarrow> file_at ?fs m = Some f" for m f
    using fs(2) [of m f] o(1-5) by (auto simp: file_at_def nth_list_update split: if_splits)
  obtain fs' g' where c: "closefds ?h = Ok (?h\<lparr>files := fs', fdvars := g'\<rparr>)" "\<forall>i \<le> 2. g' i = ?g i" "length fs' = length ?fs"
    "None \<in> set ?fs \<longrightarrow> None \<in> set fs'" "values_ok (d\<lparr>files := fs', fdvars := g'\<rparr>)"
    "\<forall>m. user_file (d\<lparr>files := fs', fdvars := g'\<rparr>) m = (if file_at (files d) m = None then file_at ?fs m else inherited d m)"
    using closed_view [OF d refl _ ps, of ?g ?fs] e(2) fs(1) keep unfolding Let_def by fastforce
  obtain st1 where f1: "efork S K T 0 True False pgid cmd ?st = Ok (0, st1)" "fds st1 = ?h\<lparr>files := fs', fdvars := g'\<rparr>"
    using fork_child_ok [of ?st "?h\<lparr>files := fs', fdvars := g'\<rparr>" S K T False pgid cmd] ok c(1) h by (auto simp: registering_def)
  have "on_each unregisterfd ps st1 = Ok (st1\<lparr>fds := (fds st1)\<lparr>reserved := reserved d\<rparr>\<rparr>)"
    using no by (intro unregister_pipe [where c = False] pipe_vars [OF ps_def]) (simp_all add: f1 ptrs_def)
  moreover have "(fds st1)\<lparr>reserved := reserved d\<rparr> = d\<lparr>files := fs', fdvars := g'\<rparr>" by (simp add: f1)
  ultimately have "pipefork S K T 0 caller n extra pgid cmd st = Ok (0, st1\<lparr>fds := d\<lparr>files := fs', fdvars := g'\<rparr>\<rparr>)"
    using o(7) f1(1) by simp
  moreover have "3 \<le> free_count fs \<longrightarrow> None \<in> set ?fs"
    using o(1-5) by (simp add: free_count_update flip: free_count_pos)
  ultimately show ?thesis using o(1-6) c
    by (intro exI [of _ "st1\<lparr>fds := d\<lparr>files := fs', fdvars := g'\<rparr>\<rparr>"] exI [of _ a] exI [of _ b] exI [of _ "d\<lparr>files := fs', fdvars := g'\<rparr>"])
      (simp add: var_at_def)
qed

text \<open>Moving a descriptor of the child to where the command expects it.\<close>

lemma move_fd:
  assumes k: "values_ok k" "None \<in> set (files k)" and user: "0 \<le> user" "nat user < length (files k)" and f: "user_file k real = Some f"
  shows "\<exists>k1 k'. releasefd user k = Ok k1 \<and> mvfd real user k1 = Ok k' \<and> values_ok k' \<and> reserved k' = reserved k \<and>
    length (files k') = length (files k) \<and> None \<in> set (files k') \<and>
    (\<forall>m. user_file k' m = (if m = user then Some f else if m = real then None else user_file k m)) \<and>
    (\<forall>i. FdVar i \<notin> ptrs k \<longrightarrow> fdvars k' i = fdvars k i)"
proof -
  have real: "file_at (files k) real = Some f" "\<forall>p \<in> ptrs k. getfd k p \<noteq> Some real"
    using f by (auto simp: user_file_def split: if_splits)
  then have pos: "0 \<le> real" using file_at_range [OF real(1)] by blast
  obtain k' where k': "dodeferred real user k = Ok k'" "values_ok k'" "reserved k' = reserved k" "length (files k') = length (files k)"
    "None \<in> set (files k')" "\<forall>p. p \<notin> ptrs k \<longrightarrow> getfd k' p = getfd k p"
    "\<forall>m. user_file k' m = (if m = user then file_at (files k) real else if m = real then None else user_file k m)"
    using dodeferred_ok [OF k user, of real] real by auto
  have "fdvars k' i = fdvars k i" if "FdVar i \<notin> ptrs k" for i
    using k'(6) that by (force simp: getfd_def)
  moreover obtain k1 where "releasefd user k = Ok k1" "mvfd real user k1 = Ok k'"
    using k'(1) user(1) pos by (auto simp: dodeferred_def obind_Ok)
  ultimately show ?thesis using k' real(1) by auto
qed

lemma child_input_ok:
  assumes "values_ok (fds st)" "None \<in> set (files (fds st))" "0 \<le> infd" "nat infd < length (files (fds st))"
    and "user_file (fds st) (var_at 2 st) = Some f"
  shows "\<exists>k. child_input infd st = Ok (st\<lparr>fds := k\<rparr>) \<and> values_ok k \<and> reserved k = reserved (fds st) \<and>
    length (files k) = length (files (fds st)) \<and> None \<in> set (files k) \<and>
    (\<forall>m. user_file k m = (if m = infd then Some f else if m = var_at 2 st then None else user_file (fds st) m)) \<and>
    (\<forall>i. FdVar i \<notin> ptrs (fds st) \<longrightarrow> fdvars k i = fdvars (fds st) i)"
proof -
  have "var_at 2 st \<noteq> -1" "infd \<noteq> -1" using assms(3,5) by (auto simp: user_file_def split: if_splits)
  then show ?thesis using move_fd [OF assms] by (auto simp: child_input_def on_fds_def)
qed

lemma child_output_ok:
  assumes "values_ok (fds st)" "None \<in> set (files (fds st))" "getnumber ''$&pipe'' (gs out) = Ok fd" "0 \<le> fd" "nat fd < length (files (fds st))"
    and "user_file (fds st) (var_at 1 st) = Some f" "user_file (fds st) (var_at 0 st) \<noteq> None" "var_at 0 st \<noteq> fd"
  shows "\<exists>st'. child_output gs out st = Ok st' \<and>
    (\<forall>m. user_file (fds st') m = (if m = fd then Some f else if m = var_at 0 st \<or> m = var_at 1 st then None else user_file (fds st) m))"
proof -
  obtain k1 k where k: "releasefd fd (fds st) = Ok k1" "mvfd (var_at 1 st) fd k1 = Ok k"
    "\<forall>m. user_file k m = (if m = fd then Some f else if m = var_at 1 st then None else user_file (fds st) m)"
    using move_fd [OF assms(1,2,4,5,6)] by blast
  have "user_file (k\<lparr>files := os_close (files k) (var_at 0 st)\<rparr>) m = (if m = var_at 0 st then None else user_file k m)" for m
    by (simp add: user_file_def ptrs_def file_at_close)
  then show ?thesis using k assms(3,8) by (simp add: child_output_def on_fds_def close_fd_def)
qed

section \<open>Pipelines connect their commands\<close>

text \<open>The list of a pipeline: a command, and what each of the others reads and writes.\<close>

fun pipeline :: "es_term \<Rightarrow> (es_term \<times> es_term \<times> es_term) list \<Rightarrow> terms" where
  "pipeline t [] = [t]"
| "pipeline t ((out, inn, u) # stages) = t # out # inn # pipeline u stages"

definition commands :: "es_term \<Rightarrow> (es_term \<times> es_term \<times> es_term) list \<Rightarrow> terms" where
  "commands t stages = t # map (\<lambda>(out, inn, u). u) stages"

definition port :: "(es_term \<Rightarrow> string) \<Rightarrow> es_term \<Rightarrow> int" where
  "port gs t = (case getnumber ''$&pipe'' (gs t) of Ok n \<Rightarrow> n | _ \<Rightarrow> -1)"

text \<open>The numbers of descriptors are those of files that are open.\<close>

definition ports_ok :: "(es_term \<Rightarrow> string) \<Rightarrow> 'f option list \<Rightarrow> (es_term \<times> es_term \<times> es_term) list \<Rightarrow> bool" where
  "ports_ok gs fs stages \<longleftrightarrow> (\<forall>(out, inn, u) \<in> set stages. \<forall>t \<in> {out, inn}.
     getnumber ''$&pipe'' (gs t) = Ok (port gs t) \<and> file_at fs (port gs t) \<noteq> None)"

text \<open>
  The view \<open>v\<close> of the command \<open>j\<close>, with its input from the pipe before it and its output to the pipe behind it; \<open>n\<close> pipes and
  the input of the first command come from what is left of the stages.
\<close>

definition connected :: "(es_term \<Rightarrow> string) \<Rightarrow> nat \<Rightarrow> int option \<Rightarrow> (es_term \<times> es_term \<times> es_term) list \<Rightarrow> nat \<Rightarrow>
    (int \<Rightarrow> 'f pfile option) \<Rightarrow> int \<Rightarrow> 'f pfile option" where
  "connected gs n first stages j v =
     (let v = (case (if j = 0 then first else Some (port gs (fst (snd (stages ! (j - 1)))))) of
                 None \<Rightarrow> v | Some infd \<Rightarrow> v(infd := Some (ReadEnd (n + j - 1))))
      in if j < length stages then v(port gs (fst (stages ! j)) := Some (WriteEnd (n + j))) else v)"

lemma connected_Suc: "connected gs n first ((out, inn, u) # stages) (Suc j) v = connected gs (Suc n) (Some (port gs inn)) stages j v"
  by (cases j) (simp_all add: connected_def Let_def)

text \<open>The descriptors of the shell between two calls of \<open>fork\<close>: those of the start, and the end of the last pipe for the next command.\<close>

definition feeding :: "'f pfile fdstate \<Rightarrow> nat \<Rightarrow> nat option \<Rightarrow> 'f pfile fdstate \<Rightarrow> bool" where
  "feeding d n inp e \<longleftrightarrow>
     (\<exists>g. e = d\<lparr>files := (case inp of None \<Rightarrow> files d | Some c \<Rightarrow> (files d)[c := Some (ReadEnd (n - 1))]), fdvars := g\<rparr> \<and>
       (\<forall>i > 2. g i = fdvars d i) \<and> g 2 = (case inp of None \<Rightarrow> -1 | Some c \<Rightarrow> int c)) \<and>
     (\<forall>c. inp = Some c \<longrightarrow> c < length (files d) \<and> files d ! c = None)"

lemma feedingE:
  assumes "feeding d n inp e"
  obtains fs g where "e = d\<lparr>files := fs, fdvars := g\<rparr>" "\<forall>i > 2. g i = fdvars d i" "g 2 = (case inp of None \<Rightarrow> -1 | Some c \<Rightarrow> int c)"
    "length fs = length (files d)" "\<And>m f. file_at (files d) m = Some f \<Longrightarrow> file_at fs m = Some f" "free_count (files d) - 1 \<le> free_count fs"
    "\<And>m. file_at (files d) m = None \<Longrightarrow>
       file_at fs m = (case inp of None \<Rightarrow> None | Some c \<Rightarrow> if m = int c then Some (ReadEnd (n - 1)) else None)"
    "fs = (case inp of None \<Rightarrow> files d | Some c \<Rightarrow> (files d)[c := Some (ReadEnd (n - 1))])"
    "\<And>c. inp = Some c \<Longrightarrow> c < length (files d) \<and> files d ! c = None"
proof -
  let ?fs = "case inp of None \<Rightarrow> files d | Some c \<Rightarrow> (files d)[c := Some (ReadEnd (n - 1))]"
  obtain g where g: "e = d\<lparr>files := ?fs, fdvars := g\<rparr>" "\<forall>i > 2. g i = fdvars d i" "g 2 = (case inp of None \<Rightarrow> -1 | Some c \<Rightarrow> int c)"
    using assms unfolding feeding_def by blast
  have c: "inp = Some c \<Longrightarrow> c < length (files d) \<and> files d ! c = None" for c using assms by (simp add: feeding_def)
  show ?thesis
  proof (rule that [OF g])
    show "file_at ?fs m = Some f" if "file_at (files d) m = Some f" for m f
      using that c by (auto simp: file_at_def nth_list_update split: option.split if_splits)
    show "free_count (files d) - 1 \<le> free_count ?fs" using c by (auto simp: free_count_update split: option.split)
    show "file_at ?fs m = (case inp of None \<Rightarrow> None | Some c \<Rightarrow> if m = int c then Some (ReadEnd (n - 1)) else None)"
      if "file_at (files d) m = None" for m
      using that c by (auto simp: file_at_update split: option.split)
  qed (use c in \<open>auto split: option.split\<close>)
qed

text \<open>The last command of a pipeline.\<close>

lemma last_command:
  assumes d: "only_fdvars d" "4 \<le> free_count (files d)" and e: "feeding d n inp (fds st)"
    and ok: "mask_ok (ttymask st)" "length (sigeffects (sigs st)) = NSIG" and infd: "inp \<noteq> None \<Longrightarrow> file_at (files d) infd \<noteq> None"
  shows "\<exists>st'. obind (efork S K T 0 True False pgid cmd st) (\<lambda>(pid, st).
      if pid = 0 then obind (child_input infd st) (\<lambda>st. Ok (Inl (Evaluates [t] True st))) else q pid st) =
        Ok (Inl (Evaluates [t] True st')) \<and>
    user_file (fds st') = connected gs n (map_option (\<lambda>_. infd) inp) [] 0 (inherited d)"
proof -
  obtain fs g where fs: "fds st = d\<lparr>files := fs, fdvars := g\<rparr>" "\<forall>i > 2. g i = fdvars d i" "g 2 = (case inp of None \<Rightarrow> -1 | Some c \<Rightarrow> int c)"
    "length fs = length (files d)" "\<And>m f. file_at (files d) m = Some f \<Longrightarrow> file_at fs m = Some f" "free_count (files d) - 1 \<le> free_count fs"
    "\<And>m. file_at (files d) m = None \<Longrightarrow>
       file_at fs m = (case inp of None \<Rightarrow> None | Some c \<Rightarrow> if m = int c then Some (ReadEnd (n - 1)) else None)"
    "fs = (case inp of None \<Rightarrow> files d | Some c \<Rightarrow> (files d)[c := Some (ReadEnd (n - 1))])"
    "\<And>c. inp = Some c \<Longrightarrow> c < length (files d) \<and> files d ! c = None"
    by (rule feedingE [OF e]) (rule that; assumption)
  obtain fs' g' where c: "closefds (fds st) = Ok ((fds st)\<lparr>files := fs', fdvars := g'\<rparr>)" "g' 2 = g 2" "length fs' = length fs"
    "None \<in> set fs \<longrightarrow> None \<in> set fs'" "values_ok (d\<lparr>files := fs', fdvars := g'\<rparr>)"
    "\<And>m. user_file (d\<lparr>files := fs', fdvars := g'\<rparr>) m = (if file_at (files d) m = None then file_at fs m else inherited d m)"
    using closed_view [where h = "fds st" and fs = fs and g = g and ps = "[]", OF d(1) _ fs(2) _ _ fs(4,5)] fs(1) unfolding Let_def by auto
  let ?k = "d\<lparr>files := fs', fdvars := g'\<rparr>"
  obtain st1 where f: "efork S K T 0 True False pgid cmd st = Ok (0, st1)" "fds st1 = ?k"
    using fork_child_ok [OF ok c(1), of S K T False pgid cmd] fs(1) by auto
  show ?thesis
  proof (cases inp)
    case None
    have "child_input infd st1 = Ok st1" using f(2) c(2) fs(3) None by (simp add: child_input_def var_at_def)
    moreover have "user_file ?k = inherited d"
      using c(6) fs(7) None by (auto simp: fun_eq_iff inherited_def)
    ultimately show ?thesis using f None by (simp add: connected_def)
  next
    case (Some i)
    have i: "i < length (files d)" "files d ! i = None" using fs(9) [OF Some] by simp_all
    then have free: "file_at (files d) (int i) = None" by (simp add: file_at_def)
    then have v: "var_at 2 st1 = int i" "user_file ?k (int i) = Some (ReadEnd (n - 1))"
      using f(2) c(2,6) fs(3) fs(7) [of "int i"] Some by (simp_all add: var_at_def)
    obtain x where x: "file_at (files d) infd = Some x" using infd Some by auto
    have "free_count fs \<noteq> 0" using fs(6) d(2) by linarith
    then have "None \<in> set fs'" using c(4) free_count_pos [of fs] by simp
    then obtain k where k: "child_input infd st1 = Ok (st1\<lparr>fds := k\<rparr>)"
      "\<forall>m. user_file k m = (if m = infd then Some (ReadEnd (n - 1)) else if m = int i then None else user_file ?k m)"
      using child_input_ok [of st1 infd "ReadEnd (n - 1)"] f(2) c(3,5) fs(4) v file_at_range [OF x] by auto
    have "user_file k m = ((inherited d)(infd := Some (ReadEnd (n - 1)))) m" for m
      using k(2) c(6) [of m] fs(7) [of m] Some free by (simp add: inherited_def)
    then have "user_file k = (inherited d)(infd := Some (ReadEnd (n - 1)))" by blast
    then show ?thesis using f(1) k(1) Some by (simp add: connected_def)
  qed
qed

text \<open>A command in front of another.\<close>

lemma inner_command:
  assumes d: "only_fdvars d" "4 \<le> free_count (files d)" and e: "feeding d n inp (fds st)"
    and ok: "mask_ok (ttymask st)" "length (sigeffects (sigs st)) = NSIG" and infd: "inp \<noteq> None \<Longrightarrow> file_at (files d) infd \<noteq> None"
    and out: "getnumber ''$&pipe'' (gs out) = Ok fd" "file_at (files d) fd \<noteq> None"
  shows "\<exists>st'. obind (pipefork S K T 0 caller n True pgid cmd st) (\<lambda>(pid, st).
      if pid = 0 then
        obind (child_input infd st) (\<lambda>st. obind (child_output gs out st) (\<lambda>st. Ok (Inl (Evaluates [t] True st))))
      else q pid st) = Ok (Inl (Evaluates [t] True st')) \<and>
    user_file (fds st') = connected gs n (map_option (\<lambda>_. infd) inp) ((out, inn, u) # stages) 0 (inherited d)"
proof -
  obtain fs g where fs: "fds st = d\<lparr>files := fs, fdvars := g\<rparr>" "\<forall>i > 2. g i = fdvars d i" "g 2 = (case inp of None \<Rightarrow> -1 | Some c \<Rightarrow> int c)"
    "length fs = length (files d)" "\<And>m f. file_at (files d) m = Some f \<Longrightarrow> file_at fs m = Some f" "free_count (files d) - 1 \<le> free_count fs"
    "\<And>m. file_at (files d) m = None \<Longrightarrow>
       file_at fs m = (case inp of None \<Rightarrow> None | Some c \<Rightarrow> if m = int c then Some (ReadEnd (n - 1)) else None)"
    "fs = (case inp of None \<Rightarrow> files d | Some c \<Rightarrow> (files d)[c := Some (ReadEnd (n - 1))])"
    "\<And>c. inp = Some c \<Longrightarrow> c < length (files d) \<and> files d ! c = None"
    by (rule feedingE [OF e]) (rule that; assumption)
  have room: "2 \<le> free_count fs" "3 \<le> free_count fs" using d(2) fs(6) by linarith+
  obtain st1 a b k where p: "pipefork S K T 0 caller n True pgid cmd st = Ok (0, st1)" "a \<noteq> b" "a < length fs" "b < length fs"
    "fs ! a = None" "fs ! b = None" "fds st1 = k" "var_at 0 st1 = int a" "var_at 1 st1 = int b" "var_at 2 st1 = g 2" "values_ok k"
    "reserved k = reserved d" "length (files k) = length fs" "3 \<le> free_count fs \<longrightarrow> None \<in> set (files k)"
    "\<And>m. user_file k m =
      (if file_at (files d) m = None then file_at (fs[a := Some (ReadEnd n), b := Some (WriteEnd n)]) m else inherited d m)"
    using pipefork_child [OF d(1) fs(1,2,4,5) room(1) ok, of S K T caller n True pgid cmd] by blast
  have free: "file_at (files d) (int a) = None" "file_at (files d) (int b) = None"
  proof -
    have fr: "file_at (files d) m = None" if "file_at fs m = None" for m using fs(5) [of m] that by (cases "file_at (files d) m") auto
    show "file_at (files d) (int a) = None" "file_at (files d) (int b) = None" using p(3-6) by (rule_tac fr, simp add: file_at_def)+
  qed
  have no: "FdVar 0 \<notin> ptrs k" "FdVar 1 \<notin> ptrs k"
    using d(1) p(12) by (auto simp: only_fdvars_def ptrs_def)
  have new: "file_at (fs[a := Some (ReadEnd n), b := Some (WriteEnd n)]) m =
      (if m = int b then Some (WriteEnd n) else if m = int a then Some (ReadEnd n) else file_at fs m)" for m
    using p(2-4) by (auto simp: file_at_update)
  let ?v = "case inp of None \<Rightarrow> inherited d | Some c \<Rightarrow> (inherited d)(infd := Some (ReadEnd (n - 1)))"
  obtain st2 where c: "child_input infd st1 = Ok st2" "values_ok (fds st2)" "None \<in> set (files (fds st2))" "length (files (fds st2)) = length fs"
    "var_at 0 st2 = int a" "var_at 1 st2 = int b"
    "\<And>m. user_file (fds st2) m = (if m = int b then Some (WriteEnd n) else if m = int a then Some (ReadEnd n) else ?v m)"
  proof (cases inp)
    case None
    have "user_file k m = (if m = int b then Some (WriteEnd n) else if m = int a then Some (ReadEnd n) else inherited d m)" for m
      using p(15) [of m] new [of m] free fs(7) [of m] None by (auto simp: inherited_def)
    moreover have "child_input infd st1 = Ok st1" using p(10) fs(3) None by (simp add: child_input_def)
    ultimately show ?thesis using that [of st1] p room(2) None by simp
  next
    case (Some i)
    have i: "i < length (files d)" "files d ! i = None" using fs(9) [OF Some] by simp_all
    then have ifree: "file_at (files d) (int i) = None" by (simp add: file_at_def)
    have ii: "file_at fs (int i) = Some (ReadEnd (n - 1))" using fs(7) [OF ifree] Some by simp
    then have ne: "i \<noteq> a" "i \<noteq> b" using p(5,6) by (auto simp: file_at_def split: if_splits)
    have v: "var_at 2 st1 = int i" "user_file k (int i) = Some (ReadEnd (n - 1))"
      using p(10,15) fs(3) Some new ifree ii ne by simp_all
    obtain x where x: "file_at (files d) infd = Some x" using infd Some by auto
    obtain k' where k': "child_input infd st1 = Ok (st1\<lparr>fds := k'\<rparr>)" "values_ok k'" "length (files k') = length (files k)" "None \<in> set (files k')"
      "\<forall>m. user_file k' m = (if m = infd then Some (ReadEnd (n - 1)) else if m = int i then None else user_file k m)"
      "\<forall>i. FdVar i \<notin> ptrs k \<longrightarrow> fdvars k' i = fdvars k i"
      using child_input_ok [of st1 infd "ReadEnd (n - 1)"] p(7,11,13,14) fs(4) v file_at_range [OF x] room(2) by auto
    have "user_file k' m = (if m = int b then Some (WriteEnd n) else if m = int a then Some (ReadEnd n) else ?v m)" for m
      using k'(5) p(15) [of m] new [of m] free ifree fs(7) [of m] x ne Some by (auto simp: inherited_def)
    then show ?thesis
      using that [of "st1\<lparr>fds := k'\<rparr>"] k' p(7-9,13) no Some by (auto simp: var_at_def)
  qed
  obtain x where x: "file_at (files d) fd = Some x" using out(2) by auto
  then have ne: "fd \<noteq> int a" "fd \<noteq> int b" using free by auto
  have pre: "0 \<le> fd" "nat fd < length (files (fds st2))" "user_file (fds st2) (var_at 1 st2) = Some (WriteEnd n)"
    "user_file (fds st2) (var_at 0 st2) \<noteq> None" "var_at 0 st2 \<noteq> fd"
    using file_at_range [OF x] fs(4) c(4-7) p(2) ne by simp_all
  obtain st3 where o: "child_output gs out st2 = Ok st3"
    "\<forall>m. user_file (fds st3) m = (if m = fd then Some (WriteEnd n) else if m = int a \<or> m = int b then None else user_file (fds st2) m)"
    using child_output_ok [where gs = gs and out = out and fd = fd, OF c(2,3) out(1) pre]
    unfolding c(5,6) by (elim exE conjE) (rule that)
  have "?v m = None" if "file_at (files d) m = None" for m
    using that infd by (cases inp) (auto simp: inherited_def)
  then have "?v (int a) = None" "?v (int b) = None" using free by blast+
  then have "user_file (fds st3) m = (?v(fd := Some (WriteEnd n))) m" for m
    using o(2) c(7) [of m] by simp
  then have "user_file (fds st3) = ?v(fd := Some (WriteEnd n))" by blast
  moreover have "port gs out = fd" by (simp add: port_def out)
  ultimately show ?thesis using p(1) c(1) o(1) by (auto simp: connected_def split: option.split)
qed

lemma next_pipe:
  assumes e: "feeding d n inp e" and ab: "a \<noteq> b" "a < length (files e)" "b < length (files e)" "files e ! a = None" "files e ! b = None"
    and e': "e' = (with_pipe n a b e)\<lparr>files := os_close (os_close (files (with_pipe n a b e)) (case inp of None \<Rightarrow> -1 | Some c \<Rightarrow> int c)) (int b),
      fdvars := (fdvars (with_pipe n a b e))(2 := int a)\<rparr>"
  shows "feeding d (Suc n) (Some a) e'"
proof -
  obtain fs g where fs: "e = d\<lparr>files := fs, fdvars := g\<rparr>" "\<forall>i > 2. g i = fdvars d i" "g 2 = (case inp of None \<Rightarrow> -1 | Some c \<Rightarrow> int c)"
    "length fs = length (files d)" "\<And>m f. file_at (files d) m = Some f \<Longrightarrow> file_at fs m = Some f" "free_count (files d) - 1 \<le> free_count fs"
    "\<And>m. file_at (files d) m = None \<Longrightarrow>
       file_at fs m = (case inp of None \<Rightarrow> None | Some c \<Rightarrow> if m = int c then Some (ReadEnd (n - 1)) else None)"
    "fs = (case inp of None \<Rightarrow> files d | Some c \<Rightarrow> (files d)[c := Some (ReadEnd (n - 1))])"
    "\<And>c. inp = Some c \<Longrightarrow> c < length (files d) \<and> files d ! c = None"
    by (rule feedingE [OF e]) (rule that; assumption)
  have a: "a < length (files d)" "files d ! a = None"
    using ab fs(1,4,8,9) by (auto simp: nth_list_update split: option.splits if_splits)
  have b: "files d ! b = None" using ab fs(1,4,8,9) by (auto simp: nth_list_update split: option.splits if_splits)
  have "os_close (os_close (fs[a := Some (ReadEnd n), b := Some (WriteEnd n)]) (case inp of None \<Rightarrow> -1 | Some c \<Rightarrow> int c)) (int b) =
      (files d)[a := Some (ReadEnd n)]"
  proof (rule nth_equalityI)
    show "length (os_close (os_close (fs[a := Some (ReadEnd n), b := Some (WriteEnd n)]) (case inp of None \<Rightarrow> -1 | Some c \<Rightarrow> int c)) (int b)) =
        length ((files d)[a := Some (ReadEnd n)])" by (simp add: fs(4))
    fix i
    assume "i < length (os_close (os_close (fs[a := Some (ReadEnd n), b := Some (WriteEnd n)]) (case inp of None \<Rightarrow> -1 | Some c \<Rightarrow> int c)) (int b))"
    then have "i < length (files d)" by (simp add: fs(4))
    then show "os_close (os_close (fs[a := Some (ReadEnd n), b := Some (WriteEnd n)]) (case inp of None \<Rightarrow> -1 | Some c \<Rightarrow> int c)) (int b) ! i =
        (files d)[a := Some (ReadEnd n)] ! i"
      using ab fs(1,4) fs(9) a b fs(8) by (cases inp) (auto simp: os_close_def nth_list_update split: if_splits)
  qed
  then have "e' = d\<lparr>files := (files d)[a := Some (ReadEnd n)], fdvars := g(0 := int a, 1 := int b, 2 := int a)\<rparr>"
    by (simp add: e' with_pipe_def fs(1))
  then show ?thesis unfolding feeding_def using a fs(2)
    by (intro conjI exI [of _ "g(0 := int a, 1 := int b, 2 := int a)"]) auto
qed

lemma pipe_loop_child:
  assumes d: "only_fdvars d" "4 \<le> free_count (files d)"
  shows "feeding d n inp (fds st) \<Longrightarrow> proc_list st as \<Longrightarrow> mask_ok (ttymask st) \<Longrightarrow> length (sigeffects (sigs st)) = NSIG \<Longrightarrow>
    (inp \<noteq> None \<Longrightarrow> file_at (files d) infd \<noteq> None) \<Longrightarrow> ports_ok gs (files d) stages \<Longrightarrow> j \<le> length stages \<Longrightarrow>
    (\<forall>i < j. 0 < forks (n + i) \<and> forks (n + i) \<notin> ppid ` set (jobs st as) \<and> (\<forall>i' < i. forks (n + i') \<noteq> forks (n + i))) \<Longrightarrow>
    forks (n + j) = 0 \<Longrightarrow>
    \<exists>st'. pipe_loop S K T gs forks n pgid infd (pipeline t stages) pids st = Ok (Inl (Evaluates [commands t stages ! j] True st')) \<and>
      user_file (fds st') = connected gs n (map_option (\<lambda>_. infd) inp) stages j (inherited d)"
proof (induction stages arbitrary: n inp st as infd j pgid t pids)
  case Nil
  have j: "j = 0" using Nil.prems(7) by simp
  show ?case using last_command [where S = S and K = K and T = T and pgid = pgid and cmd = "job_text gs [t]" and t = t and gs = gs and infd = infd
        and q = "\<lambda>pid st. Ok (Inr (pids @ [pid], close_fd (var_at 2 st) st))", OF d Nil.prems(1,3,4,5)] Nil.prems(9)
    by (simp add: j commands_def)
next
  case (Cons s stages)
  obtain out inn u where s: "s = (out, inn, u)" by (cases s)
  have ports: "getnumber ''$&pipe'' (gs out) = Ok (port gs out)" "file_at (files d) (port gs out) \<noteq> None"
    "getnumber ''$&pipe'' (gs inn) = Ok (port gs inn)" "file_at (files d) (port gs inn) \<noteq> None" "ports_ok gs (files d) stages"
    using Cons.prems(6) by (simp_all add: ports_ok_def s)
  show ?case
  proof (cases j)
    case 0
    show ?thesis using inner_command [where S = S and K = K and T = T and pgid = pgid and cmd = "job_text gs [t]" and t = t and gs = gs and infd = infd
        and out = out and fd = "port gs out" and inn = inn and u = u and stages = stages and caller = "''$&pipe''"
        and q = "\<lambda>pid st. let pgid = (if has_job_control S \<and> pgid = 0 then pid else pgid); st = close_fd (var_at 2 st) st
          in obind (on_throw st (getnumber ''$&pipe'' (gs inn))) (\<lambda>infd.
             pipe_loop S K T gs forks (n + 1) pgid infd (pipeline u stages) (pids @ [pid])
               (close_fd (var_at 1 st) (set_var 2 (var_at 0 st) st)))", OF d Cons.prems(1,3,4,5) ports(1,2)] Cons.prems(9)
      by (simp add: 0 s commands_def)
  next
    case (Suc j')
    obtain fs g where fs: "fds st = d\<lparr>files := fs, fdvars := g\<rparr>" "\<forall>i > 2. g i = fdvars d i"
      "g 2 = (case inp of None \<Rightarrow> -1 | Some c \<Rightarrow> int c)" "free_count (files d) - 1 \<le> free_count fs"
      by (rule feedingE [OF Cons.prems(1)]) (rule that; assumption)
    have pid: "0 < forks n" "forks n \<notin> ppid ` set (jobs st as)" using Cons.prems(8) Suc by force+
    have "2 \<le> free_count (files (fds st))" "{P0, P1, INPIPE} \<inter> ptrs (fds st) = {}"
      using d fs(1,4) by (auto simp: only_fdvars_def ptrs_def)
    then obtain st1 x a b where p: "pipefork S K T (forks n) ''$&pipe'' n True pgid (job_text gs [t]) st = Ok (forks n, st1)" "proc_list st1 (x # as)"
      "jobs st1 (x # as) = new_job S (cell_junk K (unused st)) (forks n) False (if pgid = -1 then shell_pgid S else pgid) (job_text gs [t]) # jobs st as"
      "a \<noteq> b" "a < length (files (fds st))" "b < length (files (fds st))" "files (fds st) ! a = None" "files (fds st) ! b = None"
      "fds st1 = with_pipe n a b (fds st)" "sigs st1 = sigs st" "mask_ok (ttymask st1)"
      using pipefork_parent [OF _ _ Cons.prems(2,3) pid, of S K T "''$&pipe''" n True pgid "job_text gs [t]"] by blast
    let ?st = "let st = close_fd (var_at 2 st1) st1 in close_fd (var_at 1 st) (set_var 2 (var_at 0 st) st)"
    let ?pgid = "if has_job_control S \<and> pgid = 0 then forks n else pgid"
    have f: "feeding d (Suc n) (Some a) (fds ?st)"
      using fs(1,3) p(9) by (intro next_pipe [OF Cons.prems(1) p(4-8)])
        (simp add: Let_def close_fd_def set_var_def var_at_def with_pipe_def)
    have "proc_list ?st (x # as) \<and> jobs ?st (x # as) = jobs st1 (x # as) \<and> sigs ?st = sigs st \<and> ttymask ?st = ttymask st1"
      using p(2,10) by (simp add: Let_def close_fd_def set_var_def)
    then have q: "proc_list ?st (x # as)" "mask_ok (ttymask ?st)" "length (sigeffects (sigs ?st)) = NSIG"
      "ppid ` set (jobs ?st (x # as)) = insert (forks n) (ppid ` set (jobs st as))"
      using p(3,11) Cons.prems(4) by (simp_all add: new_job_def)
    have later: "\<forall>i < j'. 0 < forks (Suc n + i) \<and> forks (Suc n + i) \<notin> ppid ` set (jobs ?st (x # as)) \<and>
        (\<forall>i' < i. forks (Suc n + i') \<noteq> forks (Suc n + i))"
      unfolding q(4)
    proof (intro allI impI)
      fix i assume "i < j'"
      then show "0 < forks (Suc n + i) \<and> forks (Suc n + i) \<notin> insert (forks n) (ppid ` set (jobs st as)) \<and>
          (\<forall>i' < i. forks (Suc n + i') \<noteq> forks (Suc n + i))"
        using Cons.prems(8) [rule_format, of "Suc i"] Suc by fastforce
    qed
    have "\<exists>st'. pipe_loop S K T gs forks (Suc n) ?pgid (port gs inn) (pipeline u stages) (pids @ [forks n]) ?st =
        Ok (Inl (Evaluates [commands u stages ! j'] True st')) \<and>
      user_file (fds st') = connected gs (Suc n) (map_option (\<lambda>_. port gs inn) (Some a)) stages j' (inherited d)"
      using Cons.prems(7,9) Suc by (intro Cons.IH [OF f q(1-3) ports(4,5) _ later]) (simp_all add: s)
    then show ?thesis
      using p(1) pid(1) ports(3) Suc by (simp add: s Let_def commands_def connected_Suc)
  qed
qed

text \<open>
  C20: the command \<open>k\<close> of a pipeline runs with the files that a child inherits from the shell, but reads the pipe before it and writes the pipe
  behind it at the descriptors that the pipeline names. No other descriptor refers to a pipe of the pipeline, so that
  each pipe has one reader and one writer. The numbers are those of open files, and none is redirected in the shell.
\<close>

theorem pipeline_connects:
  assumes "fd_inv (fds st)" "deftab (fds st) = []" "{P0, P1, INPIPE} \<inter> ptrs (fds st) = {}" "4 \<le> free_count (files (fds st))"
    and "proc_list st as" "mask_ok (ttymask st)" "length (sigeffects (sigs st)) = NSIG"
    and "ports_ok gs (files (fds st)) stages"
    and "k \<le> length stages" "forks k = 0" "\<forall>i < k. 0 < forks i \<and> forks i \<notin> ppid ` set (jobs st as)" "inj_on forks {..<k}"
  shows "\<exists>st'. prim_pipe S K T gs forks inchild (pipeline t stages) st = Ok (Inl (Evaluates [commands t stages ! k] True st')) \<and>
    user_file (fds st') = connected gs 0 None stages k (inherited (fds st))"
proof -
  let ?d = "fds st" and ?st = "set_var 2 (-1) st"
  have "feeding ?d 0 None (fds ?st)" by (auto simp: feeding_def set_var_def intro!: exI [of _ "(fdvars (fds st))(2 := -1)"])
  moreover have "proc_list ?st as" "mask_ok (ttymask ?st)" "length (sigeffects (sigs ?st)) = NSIG" "jobs ?st as = jobs st as"
    using assms(5-7) by (simp_all add: set_var_def)
  moreover have "\<forall>i < k. 0 < forks (0 + i) \<and> forks (0 + i) \<notin> ppid ` set (jobs st as) \<and> (\<forall>i' < i. forks (0 + i') \<noteq> forks (0 + i))"
    using assms(11,12) by (auto simp: inj_on_def)
  ultimately have "\<exists>st'. pipe_loop S K T gs forks 0 0 (-1) (pipeline t stages) [] ?st = Ok (Inl (Evaluates [commands t stages ! k] True st')) \<and>
      user_file (fds st') = connected gs 0 (map_option (\<lambda>_. -1) (None :: nat option)) stages k (inherited ?d)"
    using assms(8-10)
    by (intro pipe_loop_child [where n = 0 and inp = None and as = as, OF fd_inv_only [OF assms(1-3)] assms(4)]) simp_all
  moreover have "length (pipeline t stages) mod 3 = 1" by (induction stages arbitrary: t) (auto simp: mod_Suc)
  ultimately show ?thesis by (auto simp: prim_pipe_def)
qed

section \<open>Pipelines return the statuses\<close>

definition runnable :: "job \<Rightarrow> bool" where
  "runnable j \<longleftrightarrow> palive j \<and> \<not> pbackground j"

lemma finish_ids [simp]: "ppid (finish s m j) = ppid j" "ppgid (finish s m j) = ppgid j"
  by (simp_all add: finish_def)

definition waitable :: "job list \<Rightarrow> bool" where
  "waitable js \<longleftrightarrow> distinct (map ppid js) \<and> list_all (\<lambda>j. 0 < ppid j \<and> 0 \<le> ppgid j) js"

lemma waitable_after:
  assumes "waitable js" "map ppid js' = map ppid js" "map ppgid js' = map ppgid js"
  shows "waitable ((if b then id else filter palive) (map (\<lambda>i. if ppid i = p then finish s m i else i) js'))"
proof -
  let ?f = "\<lambda>i. if ppid i = p then finish s m i else i"
  have ids: "ppid \<circ> ?f = ppid" "ppgid \<circ> ?f = ppgid" by auto
  have "distinct (map ppid (map ?f js'))" unfolding map_map ids assms(2) using assms(1) by (simp add: waitable_def)
  moreover have "list_all ((<) 0) (map ppid (map ?f js')) \<and> list_all ((\<le>) 0) (map ppgid (map ?f js'))"
    unfolding map_map ids assms(2,3) using assms(1) by (simp add: waitable_def list_all_iff)
  ultimately have "waitable (map ?f js')" unfolding waitable_def by (auto simp: list_all_iff)
  then show ?thesis by (auto simp: waitable_def list_all_iff distinct_map_filter)
qed

lemma wait_loop_ok:
  assumes K: "quiet K" and answers: "\<forall>pid \<in> set pids. (\<forall>k. waitpid K k pid False = Changed pid (s pid)) \<and>
    (SIFSTOPPED (s pid) \<longrightarrow> WSTOPSIG (s pid) < NSIG)"
  shows "proc_list st as \<Longrightarrow> waitable (jobs st as) \<Longrightarrow> sane st \<Longrightarrow> mask_ok (ttymask st) \<Longrightarrow> distinct pids \<Longrightarrow>
    (\<forall>pid \<in> set pids. \<exists>j \<in> set (jobs st as). ppid j = pid \<and> runnable j) \<Longrightarrow>
    \<exists>st' bs. wait_loop S K T pids result st = Ok (concat (map (\<lambda>pid. status_term T (s pid)) (rev pids)) @ result, st') \<and>
      fds st' = fds st \<and> proc_list st' bs"
  using answers
proof (induction pids arbitrary: st as result)
  case (Cons pid pids)
  obtain j where j: "j \<in> set (jobs st as)" "ppid j = pid" "palive j" "\<not> pbackground j"
    using Cons.prems(6) by (auto simp: runnable_def)
  let ?js = "reap K (waits st) (jobs st as)"
  obtain st1 bs m where e: "ewait S K pid st = Ok (s pid, st1)" "proc_list st1 bs"
    "jobs st1 bs = (if isinteractive S then id else filter palive) (map (\<lambda>i. if ppid i = pid then finish (s pid) m i else i) ?js)"
    "sane st1" "mask_ok (ttymask st1)" "fds st1 = fds st"
    using ewait_returns [OF K Cons.prems(1) _ _ j(1,3,4), of "s pid" S] Cons.prems(2-4,7) j(2) by (auto simp: waitable_def)
  have w: "waitable (jobs st1 bs)" unfolding e(3) by (rule waitable_after [OF Cons.prems(2) reap_pids])
  have "\<exists>j \<in> set (jobs st1 bs). ppid j = q \<and> runnable j" if "q \<in> set pids" for q
  proof -
    have "\<exists>i \<in> set (jobs st as). ppid i = q \<and> runnable i" using Cons.prems(6) that by simp
    then obtain i where i: "i \<in> set (jobs st as)" "ppid i = q" "palive i" "\<not> pbackground i" by (auto simp: runnable_def)
    have "q \<noteq> pid" using Cons.prems(5) that by auto
    then have "i = (if ppid i = pid then finish (s pid) m i else i)" using i(2) by simp
    then have "i \<in> set (map (\<lambda>i. if ppid i = pid then finish (s pid) m i else i) ?js)"
      unfolding set_map by (rule image_eqI) (rule reap_front [OF i(1,4)])
    then have "i \<in> set (jobs st1 bs)" unfolding e(3) using i(3) by (cases "isinteractive S") simp_all
    then show ?thesis using i(2-4) unfolding runnable_def by blast
  qed
  then obtain st' bs' where "wait_loop S K T pids (status_term T (s pid) @ result) st1 =
      Ok (concat (map (\<lambda>pid. status_term T (s pid)) (rev pids)) @ status_term T (s pid) @ result, st')"
    "fds st' = fds st1" "proc_list st' bs'"
    using Cons.IH [OF e(2) w e(4,5)] Cons.prems(5,7) by fastforce
  then show ?case using e(1,6) by auto
qed auto

text \<open>The shell itself, when each call of \<open>fork\<close> gives a process.\<close>

lemma pipe_loop_parent:
  assumes d: "only_fdvars d" "4 \<le> free_count (files d)" and g: "0 \<le> shell_pgid S"
  shows "feeding d n inp (fds st) \<Longrightarrow> proc_list st as \<Longrightarrow> mask_ok (ttymask st) \<Longrightarrow> 0 \<le> pgid \<Longrightarrow> ports_ok gs (files d) stages \<Longrightarrow>
    waitable (jobs st as) \<Longrightarrow>
    (\<forall>i \<le> length stages. 0 < forks (n + i) \<and> forks (n + i) \<notin> ppid ` set (jobs st as) \<and> (\<forall>i' < i. forks (n + i') \<noteq> forks (n + i))) \<Longrightarrow>
    \<exists>st' bs js. pipe_loop S K T gs forks n pgid infd (pipeline t stages) pids st =
        Ok (Inr (pids @ map (\<lambda>i. forks (n + i)) [0..<Suc (length stages)], st')) \<and>
      files (fds st') = files d \<and> reserved (fds st') = reserved d \<and> deftab (fds st') = deftab d \<and> sigs st' = sigs st \<and> mask_ok (ttymask st') \<and>
      proc_list st' bs \<and> jobs st' bs = js @ jobs st as \<and> waitable (js @ jobs st as) \<and> list_all runnable js \<and>
      map ppid (rev js) = map (\<lambda>i. forks (n + i)) [0..<Suc (length stages)]"
proof (induction stages arbitrary: n inp st as infd pgid t pids)
  case Nil
  obtain fs h where fs: "fds st = d\<lparr>files := fs, fdvars := h\<rparr>" "h 2 = (case inp of None \<Rightarrow> -1 | Some c \<Rightarrow> int c)" "length fs = length (files d)"
    "fs = (case inp of None \<Rightarrow> files d | Some c \<Rightarrow> (files d)[c := Some (ReadEnd (n - 1))])"
    "\<And>c. inp = Some c \<Longrightarrow> c < length (files d) \<and> files d ! c = None"
    by (rule feedingE [OF Nil.prems(1)]) (rule that; assumption)
  have pid: "0 < forks n" "forks n \<notin> ppid ` set (jobs st as)" using Nil.prems(7) by force+
  let ?j = "new_job S (cell_junk K (unused st)) (forks n) False (if pgid = -1 then shell_pgid S else pgid) (job_text gs [t])"
  obtain st1 x where e: "efork S K T (forks n) True False pgid (job_text gs [t]) st = Ok (forks n, st1)" "proc_list st1 (x # as)" "same_rest st st1"
    "jobs st1 (x # as) = ?j # jobs st as"
    using efork_parent [OF Nil.prems(2,3) pid] by blast
  let ?st = "close_fd (var_at 2 st1) st1"
  have f: "fds st1 = fds st" "sigs st1 = sigs st" "mask_ok (ttymask st1)" using e(3) Nil.prems(3) by (simp_all add: same_rest_def)
  have c: "os_close fs (h 2) = files d" using fs(2,4) fs(5) by (cases inp) (auto simp: os_close_def, metis list_update_id)
  have "waitable (?j # jobs st as)" "runnable ?j" "ppid ?j = forks n"
    using Nil.prems(4,6) pid g by (auto simp: waitable_def new_job_def new_group_def runnable_def image_iff)
  then show ?case
    using e(1,2,4) f c pid fs(1) by (intro exI [of _ ?st] exI [of _ "x # as"] exI [of _ "[?j]"])
      (simp add: close_fd_def var_at_def)
next
  case (Cons s stages)
  obtain out inn u where s: "s = (out, inn, u)" by (cases s)
  have ports: "getnumber ''$&pipe'' (gs inn) = Ok (port gs inn)" "ports_ok gs (files d) stages"
    using Cons.prems(5) by (simp_all add: ports_ok_def s)
  obtain fs h where fs: "fds st = d\<lparr>files := fs, fdvars := h\<rparr>" "\<forall>i > 2. h i = fdvars d i"
    "h 2 = (case inp of None \<Rightarrow> -1 | Some c \<Rightarrow> int c)" "free_count (files d) - 1 \<le> free_count fs"
    by (rule feedingE [OF Cons.prems(1)]) (rule that; assumption)
  have pid: "0 < forks n" "forks n \<notin> ppid ` set (jobs st as)" using Cons.prems(7) by force+
  have "2 \<le> free_count (files (fds st))" "{P0, P1, INPIPE} \<inter> ptrs (fds st) = {}"
    using d fs(1,4) by (auto simp: only_fdvars_def ptrs_def)
  let ?j = "new_job S (cell_junk K (unused st)) (forks n) False (if pgid = -1 then shell_pgid S else pgid) (job_text gs [t])"
  obtain st1 x a b where p: "pipefork S K T (forks n) ''$&pipe'' n True pgid (job_text gs [t]) st = Ok (forks n, st1)" "proc_list st1 (x # as)"
    "jobs st1 (x # as) = ?j # jobs st as"
    "a \<noteq> b" "a < length (files (fds st))" "b < length (files (fds st))" "files (fds st) ! a = None" "files (fds st) ! b = None"
    "fds st1 = with_pipe n a b (fds st)" "sigs st1 = sigs st" "mask_ok (ttymask st1)"
    using pipefork_parent [OF \<open>2 \<le> _\<close> \<open>_ = {}\<close> Cons.prems(2,3) pid, of S K T "''$&pipe''" n True pgid "job_text gs [t]"] by blast
  let ?st = "let st = close_fd (var_at 2 st1) st1 in close_fd (var_at 1 st) (set_var 2 (var_at 0 st) st)"
  let ?pgid = "if has_job_control S \<and> pgid = 0 then forks n else pgid"
  have f: "feeding d (Suc n) (Some a) (fds ?st)"
    using fs(1,3) p(9) by (intro next_pipe [OF Cons.prems(1) p(4-8)])
      (simp add: Let_def close_fd_def set_var_def var_at_def with_pipe_def)
  have q: "proc_list ?st (x # as)" "jobs ?st (x # as) = ?j # jobs st as" "sigs ?st = sigs st" "mask_ok (ttymask ?st)"
    using p(2,3,10,11) by (simp_all add: Let_def close_fd_def set_var_def)
  have j: "waitable (?j # jobs st as)" "runnable ?j" "ppid ?j = forks n"
    using Cons.prems(4,6) pid g by (auto simp: waitable_def new_job_def new_group_def runnable_def image_iff)
  moreover have "\<forall>i \<le> length stages. 0 < forks (Suc n + i) \<and> forks (Suc n + i) \<notin> ppid ` set (jobs ?st (x # as)) \<and>
      (\<forall>i' < i. forks (Suc n + i') \<noteq> forks (Suc n + i))"
  proof (intro allI impI)
    fix i assume "i \<le> length stages"
    then show "0 < forks (Suc n + i) \<and> forks (Suc n + i) \<notin> ppid ` set (jobs ?st (x # as)) \<and> (\<forall>i' < i. forks (Suc n + i') \<noteq> forks (Suc n + i))"
      using Cons.prems(7) [rule_format, of "Suc i"] j(3) unfolding q(2) by fastforce
  qed
  moreover have "0 \<le> ?pgid" "waitable (jobs ?st (x # as))" using Cons.prems(4) pid(1) j(1) q(2) by simp_all
  ultimately obtain st' bs js where r: "pipe_loop S K T gs forks (Suc n) ?pgid (port gs inn) (pipeline u stages) (pids @ [forks n]) ?st =
      Ok (Inr ((pids @ [forks n]) @ map (\<lambda>i. forks (Suc n + i)) [0..<Suc (length stages)], st'))"
    "files (fds st') = files d" "reserved (fds st') = reserved d" "deftab (fds st') = deftab d" "sigs st' = sigs st" "mask_ok (ttymask st')"
    "proc_list st' bs" "jobs st' bs = js @ ?j # jobs st as" "waitable (js @ ?j # jobs st as)" "list_all runnable js"
    "map ppid (rev js) = map (\<lambda>i. forks (Suc n + i)) [0..<Suc (length stages)]"
    using Cons.IH [OF f q(1,4) _ ports(2), of ?pgid "port gs inn" u "pids @ [forks n]"] unfolding q(2,3) by blast
  have m: "map (\<lambda>i. forks (n + i)) [0..<Suc (Suc (length stages))] = forks n # map (\<lambda>i. forks (Suc n + i)) [0..<Suc (length stages)]"
    by (simp add: upt_conv_Cons map_Suc_upt [symmetric] del: upt_Suc)
  show ?case
    using r p(1) pid(1) ports(1) j by (intro exI [of _ st'] exI [of _ bs] exI [of _ "js @ [?j]"]) (simp add: s Let_def m del: upt_Suc)
qed

text \<open>
  C21: the shell that runs a pipeline waits for all of its commands and returns their statuses in the order of the commands, or exits
  with the exit status of this list in a child. No end of a pipe is left open.
\<close>

theorem pipeline_returns_statuses:
  assumes "fd_inv (fds st)" "deftab (fds st) = []" "{P0, P1, INPIPE} \<inter> ptrs (fds st) = {}" "4 \<le> free_count (files (fds st))"
    and "proc_list st as" "mask_ok (ttymask st)" "sane st" "waitable (jobs st as)" "ports_ok gs (files (fds st)) stages" "0 \<le> shell_pgid S"
    and "\<forall>i \<le> length stages. 0 < forks i \<and> forks i \<notin> ppid ` set (jobs st as)" "inj_on forks {..length stages}"
    and "quiet K" "\<forall>i \<le> length stages. (\<forall>k. waitpid K k (forks i) False = Changed (forks i) (s i)) \<and>
      (SIFSTOPPED (s i) \<longrightarrow> WSTOPSIG (s i) < NSIG)"
  shows "\<exists>st'. (let result = concat (map (\<lambda>i. status_term T (s i)) [0..<Suc (length stages)]) in
      prim_pipe S K T gs forks inchild (pipeline t stages) st =
        (if inchild then Throw (Exit (exitstatus result), st') else Ok (Inr (result, st')))) \<and>
    files (fds st') = files (fds st)"
proof -
  let ?d = "fds st" and ?st = "set_var 2 (-1) st" and ?pids = "map forks [0..<Suc (length stages)]"
  have "feeding ?d 0 None (fds ?st)" by (auto simp: feeding_def set_var_def intro!: exI [of _ "(fdvars (fds st))(2 := -1)"])
  moreover have e: "proc_list ?st as" "mask_ok (ttymask ?st)" "jobs ?st as = jobs st as" "sigs ?st = sigs st"
    using assms(5,6) by (simp_all add: set_var_def)
  moreover have "\<forall>i \<le> length stages. 0 < forks (0 + i) \<and> forks (0 + i) \<notin> ppid ` set (jobs ?st as) \<and> (\<forall>i' < i. forks (0 + i') \<noteq> forks (0 + i))"
    using assms(11,12) e(3) by (auto simp: inj_on_def)
  ultimately obtain st1 bs js where r: "pipe_loop S K T gs forks 0 0 (-1) (pipeline t stages) [] ?st = Ok (Inr (?pids, st1))"
    "files (fds st1) = files ?d" "sigs st1 = sigs st" "mask_ok (ttymask st1)" "proc_list st1 bs" "jobs st1 bs = js @ jobs st as"
    "waitable (js @ jobs st as)" "list_all runnable js" "map ppid (rev js) = ?pids"
    using pipe_loop_parent [OF fd_inv_only [OF assms(1-3)] assms(4,10), of 0 None ?st as 0 gs stages forks K T "-1" t "[]"] assms(8,9)
    by auto
  define s' where "s' = (\<lambda>pid. s (the_inv_into {..length stages} forks pid))"
  have s': "s' (forks i) = s i" if "i \<le> length stages" for i
    using the_inv_into_f_f [OF assms(12)] that by (simp add: s'_def)
  have "distinct ?pids"
    by (simp only: distinct_map distinct_upt set_upt simp_thms) (use assms(12) in \<open>auto simp: inj_on_def\<close>)
  moreover have "\<forall>pid \<in> set (rev ?pids). \<exists>j \<in> set (jobs st1 bs). ppid j = pid \<and> runnable j"
  proof
    fix pid assume "pid \<in> set (rev ?pids)"
    then have "pid \<in> ppid ` set js" using arg_cong [OF r(9), of set] by simp
    then show "\<exists>j \<in> set (jobs st1 bs). ppid j = pid \<and> runnable j" using r(6,8) by (auto simp: list_all_iff)
  qed
  moreover have "\<forall>pid \<in> set (rev ?pids). (\<forall>k. waitpid K k pid False = Changed pid (s' pid)) \<and> (SIFSTOPPED (s' pid) \<longrightarrow> WSTOPSIG (s' pid) < NSIG)"
    using assms(14) s' by auto
  moreover have "sane st1" "waitable (jobs st1 bs)" using assms(7) r(3,6,7) by (simp_all add: sane_def)
  ultimately obtain st' where w: "wait_loop S K T (rev ?pids) [] st1 =
      Ok (concat (map (\<lambda>pid. status_term T (s' pid)) (rev (rev ?pids))) @ [], st')" "fds st' = fds st1"
    using wait_loop_ok [OF assms(13) _ r(5) _ _ r(4), of "rev ?pids" s' S T "[]"] by auto
  have m: "map ((\<lambda>pid. status_term T (s' pid)) \<circ> forks) [0..<Suc (length stages)] = map (\<lambda>i. status_term T (s i)) [0..<Suc (length stages)]"
    by (rule map_cong) (auto simp: s')
  have "wait_loop S K T (rev ?pids) [] st1 = Ok (concat (map (\<lambda>i. status_term T (s i)) [0..<Suc (length stages)]), st')"
    using w(1) unfolding rev_rev_ident map_map m append_Nil2 .
  moreover have "length (pipeline t stages) mod 3 = 1" by (induction stages arbitrary: t) (auto simp: mod_Suc)
  ultimately show ?thesis using r(1,2) w(2)
    by (intro exI [of _ st']) (simp add: prim_pipe_def Let_def del: upt_Suc)
qed

section \<open>Command substitution\<close>

text \<open>The text that calls of \<open>read\<close> deliver up to the end of the file.\<close>

fun delivered :: "readans list \<Rightarrow> string option" where
  "delivered [] = None"
| "delivered (Bytes s # rs) = (if s = [] then Some [] else map_option ((@) s) (delivered rs))"
| "delivered (Interrupted # rs) = delivered rs"
| "delivered (ReadError e # rs) = None"

lemma split_loop_append:
  "split_loop coal P (s @ t) b v = (case split_loop coal P s b v of (b', v') \<Rightarrow> split_loop coal P t b' v')"
  by (induction coal P s b v rule: split_loop.induct) (auto split: option.split)

lemma bqinput_loop_eq:
  assumes "delivered reads = Some s" "coalesce sp" "\<not> splitchars sp"
  shows "bqinput_loop reads sp = Ok (Inr (case split_loop True (isifs sp) s (buffer sp) (value_rev sp) of
    (b, v) \<Rightarrow> sp\<lparr>value_rev := v, buffer := b\<rparr>))"
  using assms
proof (induction reads arbitrary: s sp rule: delivered.induct)
  case (2 r rs)
  show ?case
  proof (cases "r = []")
    case False
    then obtain s' where s': "delivered rs = Some s'" "s = r @ s'" using "2.prems"(1) by auto
    obtain b v where bv: "split_loop True (isifs sp) r (buffer sp) (value_rev sp) = (b, v)" by fastforce
    let ?sp = "sp\<lparr>value_rev := v, buffer := b\<rparr>"
    have "splitstring r False sp = Ok ?sp" using "2.prems"(2,3) bv by (simp add: splitstring_def)
    moreover have "bqinput_loop rs ?sp = Ok (Inr (case split_loop True (isifs ?sp) s' (buffer ?sp) (value_rev ?sp) of
        (b, v) \<Rightarrow> ?sp\<lparr>value_rev := v, buffer := b\<rparr>))"
      using "2.IH" [OF False s'(1), of ?sp] "2.prems"(2,3) by simp
    ultimately show ?thesis using False s'(2) bv by (simp add: split_loop_append split: prod.split)
  qed (use 2 in simp)
qed simp_all

text \<open>The words do not depend on the sizes of the pieces that are read. A NUL ends a word.\<close>

lemma bqinput_eq:
  assumes "delivered reads = Some s" "split_inv sp"
  shows "\<exists>sp'. bqinput sep reads sp = Ok (Inr (filter (\<lambda>w. w \<noteq> []) (fields_of (\<lambda>c. c = nul \<or> c \<in> set sep) s), sp')) \<and> split_inv sp'"
proof -
  let ?sp = "startsplit sep True sp"
  have sp: "isifs ?sp = sep_table sep" "split_inv ?sp" "coalesce ?sp" "\<not> splitchars ?sp" "buffer ?sp = None" "value_rev ?sp = []"
    using startsplit_table [OF assms(2), of sep True] by (simp_all add: startsplit_def Let_def)
  obtain b v where bv: "split_loop True (sep_table sep) s None [] = (b, v)" by fastforce
  have l: "bqinput_loop reads ?sp = Ok (Inr (?sp\<lparr>value_rev := v, buffer := b\<rparr>))"
    using bqinput_loop_eq [OF assms(1) sp(3,4)] sp(1,5,6) bv by simp
  have "rev (buf_words b @ v) = filter (\<lambda>w. w \<noteq> []) (fields_of (sep_table sep) s)"
    using split_loop_coalesce [where b = None and P = "sep_table sep" and s = s and val = "[]"] bv by simp
  moreover have "fields_of (sep_table sep) s = fields_of (\<lambda>c. c = nul \<or> c \<in> set sep) s"
    by (rule fields_of_cong) (simp add: sep_table_def)
  ultimately show ?thesis using l sp(2)
    by (auto simp: bqinput_def endsplit_def buf_words_def reverse_eq split_inv_def Let_def split: option.splits)
qed

lemma with_pipe_closed:
  assumes "a \<noteq> b" "a < length (files d)" "b < length (files d)" "files d ! a = None" "files d ! b = None"
  shows "os_close (os_close (files (with_pipe n a b d)) (int b)) (int a) = files d"
    "os_close (os_close (files (with_pipe n a b d)) (int a)) (int b) = files d"
  using assms by (auto simp: with_pipe_def os_close_def list_eq_iff_nth_eq nth_list_update)

text \<open>
  C22: a command substitution returns the status of the command and then the words of what it writes, which are those between the
  separators, however the text arrives. Its pipe is closed.
\<close>

theorem backquote_yields_words:
  assumes "2 \<le> free_count (files (fds st))" "{P0, P1, INPIPE} \<inter> ptrs (fds st) = {}"
    and "proc_list st as" "mask_ok (ttymask st)" "sane st" "waitable (jobs st as)" "0 < pid" "pid \<notin> ppid ` set (jobs st as)" "0 \<le> shell_pgid S"
    and "quiet K" "\<forall>k. waitpid K k pid False = Changed pid s" "SIFSTOPPED s \<longrightarrow> WSTOPSIG s < NSIG"
    and "split_inv sp" "delivered reads = Some output"
  shows "\<exists>st' sp'. prim_backquote S K T gs pid n reads (t # lp) sp st =
      Ok (Inr (status_term T s @ map Str (filter (\<lambda>w. w \<noteq> []) (fields_of (\<lambda>c. c = nul \<or> c \<in> set (gs t)) output)), sp', st')) \<and>
    files (fds st') = files (fds st) \<and> split_inv sp'"
proof -
  let ?j = "new_job S (cell_junk K (unused st)) pid False 0 (job_text gs lp)"
  obtain st1 x a b where p: "pipefork S K T pid ''$&backquote'' n False 0 (job_text gs lp) st = Ok (pid, st1)" "proc_list st1 (x # as)"
    "jobs st1 (x # as) = ?j # jobs st as" "a \<noteq> b" "a < length (files (fds st))" "b < length (files (fds st))"
    "files (fds st) ! a = None" "files (fds st) ! b = None" "fds st1 = with_pipe n a b (fds st)" "sigs st1 = sigs st" "mask_ok (ttymask st1)"
    using pipefork_parent [OF assms(1-4,7,8), of S K T "''$&backquote''" n False 0 "job_text gs lp"] by auto
  obtain sp' where w: "bqinput (gs t) reads sp = Ok (Inr (filter (\<lambda>w. w \<noteq> []) (fields_of (\<lambda>c. c = nul \<or> c \<in> set (gs t)) output), sp'))" "split_inv sp'"
    using bqinput_eq [OF assms(14,13), of "gs t"] by blast
  let ?st = "close_fd (var_at 0 st1) (close_fd (var_at 1 st1) st1)"
  have v: "var_at 0 st1 = int a" "var_at 1 st1 = int b" by (simp_all add: var_at_def p(9) with_pipe_def)
  have f: "files (fds ?st) = files (fds st)" unfolding v using with_pipe_closed [OF p(4-8), of n] by (simp add: close_fd_def p(9))
  have j: "waitable (?j # jobs st as)" "ppid ?j = pid" "palive ?j" "\<not> pbackground ?j"
    using assms(6-9) by (auto simp: waitable_def new_job_def new_group_def image_iff)
  have "proc_list ?st (x # as)" "jobs ?st (x # as) = ?j # jobs st as" "sane ?st" "mask_ok (ttymask ?st)"
    using p(2,3,10,11) assms(5) by (simp_all add: close_fd_def sane_def)
  then obtain st' where e: "ewait S K pid ?st = Ok (s, st')" "fds st' = fds ?st"
    using ewait_returns [OF assms(10), of ?st "x # as" ?j s S] j assms(11,12) by (auto simp: waitable_def)
  then show ?thesis using p(1) w f assms(7) by (intro exI [of _ st'] exI [of _ sp']) (simp add: prim_backquote_def Let_def)
qed

text \<open>
  The command of a substitution runs with the files that a child inherits, and writes the pipe; but when the standard output is closed,
  so that the reading end gets its number, this end is closed after the writing end has taken its place, and the output is lost.
\<close>

theorem backquote_writes_pipe:
  assumes "fd_inv (fds st)" "deftab (fds st) = []" "{P0, P1, INPIPE} \<inter> ptrs (fds st) = {}" "2 \<le> free_count (files (fds st))"
    and "mask_ok (ttymask st)" "length (sigeffects (sigs st)) = NSIG" "1 < length (files (fds st))"
  shows "\<exists>st'. prim_backquote S K T gs 0 n reads (t # lp) sp st = Ok (Inl (Evaluates lp True st')) \<and>
    (file_at (files (fds st)) 1 \<noteq> None \<longrightarrow> (\<forall>p c. (p, c) \<in> set (reserved (fds st)) \<longrightarrow> getfd (fds st) p \<noteq> Some 1) \<longrightarrow>
      user_file (fds st') = (inherited (fds st))(1 := Some (WriteEnd n))) \<and>
    (first_free (files (fds st)) = Some 1 \<longrightarrow> user_file (fds st') 1 = None)"
proof -
  let ?d = "fds st" and ?fs = "files (fds st)"
  have d: "only_fdvars ?d" by (rule fd_inv_only [OF assms(1-3)])
  obtain st1 a b k where p: "pipefork S K T 0 ''$&backquote'' n False 0 (job_text gs lp) st = Ok (0, st1)" "a \<noteq> b" "a < length ?fs"
    "b < length ?fs" "?fs ! a = None" "?fs ! b = None" "first_free ?fs = Some a" "fds st1 = k" "var_at 0 st1 = int a" "var_at 1 st1 = int b"
    "length (files k) = length ?fs"
    "\<And>m. user_file k m =
      (if file_at ?fs m = None then file_at (?fs[a := Some (ReadEnd n), b := Some (WriteEnd n)]) m else inherited ?d m)"
    using pipefork_child [where S = S and K = K and T = T and caller = "''$&backquote''" and n = n and extra = False and pgid = 0 and
        cmd = "job_text gs lp" and d = ?d and fs = ?fs and g = "fdvars ?d", OF d _ _ refl _ assms(4,5,6)]
    by auto
  have free: "file_at ?fs (int a) = None" "file_at ?fs (int b) = None" using p(3-6) by (simp_all add: file_at_def)
  have "user_file k (int b) = Some (WriteEnd n)" using p(4,12) free(2) by (simp add: file_at_update)
  then have b: "file_at (files k) (int b) = Some (WriteEnd n)" by (simp add: user_file_def split: if_splits)
  define fs where "fs = (if b = 1 then files k else os_close ((files k)[1 := Some (WriteEnd n)]) (int b))"
  have m: "mvfd (int b) 1 k = Ok (k\<lparr>files := fs\<rparr>)"
    using mvfd_ok [of "int b" 1 k "WriteEnd n"] b p(11) assms(7) by (auto simp: fs_def mvfd_def)
  have fs: "file_at fs m = (if m = 1 then Some (WriteEnd n) else if m = int b then None else file_at (files k) m)" for m
    using b p(11) assms(7) by (auto simp: fs_def file_at_close file_at_update)
  let ?k = "k\<lparr>files := os_close fs (int a)\<rparr>"
  define hidden where "hidden m \<longleftrightarrow> (\<exists>p \<in> ptrs k. getfd k p = Some m)" for m
  have u: "user_file ?k m = (if hidden m \<or> m = int a then None else file_at fs m)"
    "user_file k m = (if hidden m then None else file_at (files k) m)" for m
    by (simp_all add: user_file_def ptrs_def file_at_close hidden_def)
  have r: "prim_backquote S K T gs 0 n reads (t # lp) sp st = Ok (Inl (Evaluates lp True (st1\<lparr>fds := ?k\<rparr>)))"
    using p(1,8-10) m by (simp add: prim_backquote_def Let_def on_fds_def close_fd_def)
  have "user_file ?k = (inherited ?d)(1 := Some (WriteEnd n))"
    if "file_at ?fs 1 \<noteq> None" "\<forall>p c. (p, c) \<in> set (reserved ?d) \<longrightarrow> getfd ?d p \<noteq> Some 1"
  proof
    fix m
    have one: "inherited ?d 1 \<noteq> None" using that unfolding inherited_def by (auto split: if_splits)
    then have "\<not> hidden 1" using p(12) [of 1] u(2) [of 1] that(1) by (auto split: if_splits)
    moreover have "int a \<noteq> 1" "int b \<noteq> 1" using that(1) free by auto
    moreover have "user_file k m = inherited ?d m" if "m \<noteq> int a" "m \<noteq> int b"
      using p(4) p(12) [of m] that by (auto simp: file_at_update inherited_def)
    moreover have "inherited ?d (int a) = None" "inherited ?d (int b) = None" using free by (simp_all add: inherited_def)
    ultimately show "user_file ?k m = ((inherited ?d)(1 := Some (WriteEnd n))) m"
      using u [of m] fs [of m] by (cases "m = int a"; cases "m = int b") (auto split: if_splits)
  qed
  moreover have "user_file ?k 1 = None" if "first_free ?fs = Some 1"
    using u [of 1] p(7) that by simp
  ultimately show ?thesis using r by (intro exI [of _ "st1\<lparr>fds := ?k\<rparr>"]) simp
qed

section \<open>A line of input\<close>

text \<open>Calls of \<open>read\<close> for one byte each, some of them interrupted, that deliver a text.\<close>

definition spells :: "readans list \<Rightarrow> string \<Rightarrow> bool" where
  "spells rs s \<longleftrightarrow> filter (\<lambda>r. r \<noteq> Interrupted) rs = map (\<lambda>c. Bytes [c]) s"

lemma read_loop_spells:
  assumes "spells rs s" "CHR 0x0A \<notin> set s"
  shows "read_loop (rs @ end # rest) acc = read_loop (end # rest) (acc @ s)"
  using assms
proof (induction rs arbitrary: s acc)
  case (Cons r rs)
  show ?case
  proof (cases "r = Interrupted")
    case True
    then show ?thesis using Cons.IH [of s acc] Cons.prems
      by (simp add: spells_def read_loop.simps [of "Interrupted # rs @ end # rest"] read_loop.simps [of "rs @ end # rest"])
  next
    case False
    then obtain c s' where s: "s = c # s'" "r = Bytes [c]" "spells rs s'" using Cons.prems(1) by (auto simp: spells_def map_eq_Cons_conv)
    then show ?thesis using Cons.IH [of s' "acc @ [c]"] Cons.prems(2)
      by (auto simp: read_loop.simps [of "Bytes [c] # rs @ end # rest"])
  qed
qed (simp add: spells_def)

text \<open>
  C23: \<open>read\<close> returns the text up to the next newline and consumes nothing behind it; at the end of the file it returns what there is,
  or the empty list if there is nothing. But a line with a NUL fails an assertion.
\<close>

theorem read_takes_line:
  assumes "inputs (fdmap (fds st) 0) = rs @ Bytes (if eof then [] else [CHR 0x0A]) # rest" "spells rs s" "CHR 0x0A \<notin> set s"
  shows "prim_read inputs st =
    (if eof \<and> s = [] then Ok ([], rest) else if nul \<in> set s then Abort else Ok ([Str s], rest))"
  using read_loop_spells [OF assms(2,3), of "Bytes (if eof then [] else [CHR 0x0A])" rest "[]"]
  by (auto simp: prim_read_def assms(1) read_loop.simps [of "Bytes (if eof then [] else [CHR 0x0A]) # rest"])

text \<open>\<open>writeto\<close> never returns: when its command does, an assertion fails.\<close>

theorem writeto_never_returns: "prim_writeto S K T gs pid n bound list st \<noteq> Ok (Inr r)"
proof
  assume "prim_writeto S K T gs pid n bound list st = Ok (Inr r)"
  then show False
    by (auto simp: prim_writeto_def obind_Ok Let_def argcount_def split: list.splits if_splits sum.splits) (metis sum.exhaust)
qed

section \<open>Examples\<close>

text \<open>A shell that reads its commands from descriptor 0 and is not interactive; the processes 7, 8 and 9 end with the statuses 1, 0 and 2.\<close>

definition plain_shell :: "string sh" where
  "plain_shell =
     \<lparr>cells = (\<lambda>_. None), proclist = None, unused = 0,
      sigs = \<lparr>caught = replicate NSIG False, sigcount = 0, sigeffects = replicate NSIG sig_default,
        dispositions = replicate NSIG SIG_DFL, blocked = 0, hasforked = False, interrupted = False, slow = False,
        sigint_newline = True, eprinted = []\<rparr>,
      ttymask = no_mask {}, tty_pgid = 1, tty_modes = 0, groups = [], continued = [], waits = 0, handlers = 1,
      fds = \<lparr>files = [Some (Plain ''in''), Some (Plain ''out''), Some (Plain ''err''), None, None, None, None, None],
        deftab = [], defmax = 0, reserved = [(FdVar 3, True)], fdvars = (\<lambda>i. if i = 3 then 0 else -1)\<rparr>\<rparr>"

definition three_ends :: kernel where
  "three_ends = a_kernel\<lparr>waitpid := (\<lambda>k pid nohang.
     if pid = 7 then Changed 7 0x100 else if pid = 8 then Changed 8 0 else if pid = 9 then Changed 9 0x200 else Nothing)\<rparr>"

definition plain_text :: "es_term \<Rightarrow> string" where
  "plain_text t = (case t of Str s \<Rightarrow> s | Clos c \<Rightarrow> [])"

definition two_more :: "(es_term \<times> es_term \<times> es_term) list" where
  "two_more = [(Str ''1'', Str ''0'', Str ''sort''), (Str ''1'', Str ''0'', Str ''uniq'')]"

lemma plain_shell_ok:
  "fd_inv (fds plain_shell)" "deftab (fds plain_shell) = []" "{P0, P1, INPIPE} \<inter> ptrs (fds plain_shell) = {}"
  "4 \<le> free_count (files (fds plain_shell))" "proc_list plain_shell []" "mask_ok (ttymask plain_shell)" "sane plain_shell"
  "jobs plain_shell [] = []" "waitable []" "length (sigeffects (sigs plain_shell)) = NSIG"
  by (simp_all add: plain_shell_def fd_inv_from_def values_ok_def ptrs_def getfd_def file_at_def free_count_def proc_list_def mask_ok_def
      no_mask_def sane_def jobs_def waitable_def)

lemma two_more_ok: "ports_ok plain_text (files (fds plain_shell)) two_more" "port plain_text (Str ''0'') = 0" "port plain_text (Str ''1'') = 1"
proof -
  have n: "getnumber ''$&pipe'' ''0'' = Ok 0" "getnumber ''$&pipe'' ''1'' = Ok 1" by code_simp+
  then show "ports_ok plain_text (files (fds plain_shell)) two_more" "port plain_text (Str ''0'') = 0" "port plain_text (Str ''1'') = 1"
    by (simp_all add: ports_ok_def two_more_def port_def plain_text_def plain_shell_def file_at_def)
qed

theorem pipeline_connects_witness:
  "\<exists>st'. prim_pipe (a_shell False) three_ends a_table plain_text (\<lambda>i. [7, 0] ! i) False (pipeline (Str ''ls'') two_more) plain_shell =
      Ok (Inl (Evaluates [Str ''sort''] True st')) \<and>
    map (user_file (fds st')) [0, 1, 2, 3, 4] = [Some (ReadEnd 0), Some (WriteEnd 1), Some (Plain ''err''), None, None]"
proof -
  have "inherited (fds plain_shell) 2 = Some (Plain ''err'')" "inherited (fds plain_shell) 3 = None" "inherited (fds plain_shell) 4 = None"
    by (simp_all add: inherited_def plain_shell_def getfd_def file_at_def)
  moreover have "inj_on (\<lambda>i. [7, 0] ! i :: int) {..<1}" by (simp add: inj_on_def)
  moreover obtain st' where
    "prim_pipe (a_shell False) three_ends a_table plain_text (\<lambda>i. [7, 0] ! i) False (pipeline (Str ''ls'') two_more) plain_shell =
      Ok (Inl (Evaluates [Str ''sort''] True st'))"
    "user_file (fds st') = (inherited (fds plain_shell))(0 \<mapsto> ReadEnd 0, 1 \<mapsto> WriteEnd 1)"
    using pipeline_connects [OF plain_shell_ok(1-6,10) two_more_ok(1), of 1 "\<lambda>i. [7, 0] ! i" "a_shell False" three_ends a_table False "Str ''ls''"]
      calculation by (auto simp: plain_shell_ok(8) commands_def connected_def two_more_def two_more_ok)
  ultimately show ?thesis by (intro exI [of _ st']) simp
qed

theorem pipeline_returns_statuses_witness:
  "\<exists>st'. prim_pipe (a_shell False) three_ends a_table plain_text (\<lambda>i. [7, 8, 9] ! i) False (pipeline (Str ''ls'') two_more) plain_shell =
      Ok (Inr ([Str ''1'', Str ''0'', Str ''2''], st')) \<and> files (fds st') = files (fds plain_shell)"
proof -
  have t: "status_term a_table 0x100 = [Str ''1'']" "status_term a_table 0 = [Str ''0'']" "status_term a_table 0x200 = [Str ''2'']"
    by code_simp+
  have le: "i \<le> Suc (Suc 0) \<longleftrightarrow> i = 0 \<or> i = 1 \<or> i = 2" for i :: nat by auto
  let ?forks = "\<lambda>i. [7, 8, 9] ! i :: int" and ?s = "\<lambda>i. [0x100, 0, 0x200] ! i :: 32 word"
  have "quiet three_ends" by (simp add: quiet_def three_ends_def)
  moreover have "\<not> SIFSTOPPED 0x100" "\<not> SIFSTOPPED 0" "\<not> SIFSTOPPED 0x200" by (simp_all add: SIFSTOPPED_def)
  then have "\<forall>i \<le> length two_more. (\<forall>k. waitpid three_ends k (?forks i) False = Changed (?forks i) (?s i)) \<and>
      (SIFSTOPPED (?s i) \<longrightarrow> WSTOPSIG (?s i) < NSIG)"
    by (auto simp: two_more_def le three_ends_def)
  moreover have "\<forall>i \<le> length two_more. 0 < ?forks i \<and> ?forks i \<notin> ppid ` set (jobs plain_shell [])" "inj_on ?forks {..length two_more}"
    by (auto simp: two_more_def le plain_shell_ok(8) inj_on_def)
  moreover have "waitable (jobs plain_shell [])" "0 \<le> shell_pgid (a_shell False)" by (simp_all add: plain_shell_ok(8,9) a_shell_def)
  moreover have "concat (map (\<lambda>i. status_term a_table (?s i)) [0..<Suc (length two_more)]) = [Str ''1'', Str ''0'', Str ''2'']"
    by (simp add: two_more_def t)
  ultimately show ?thesis
    using pipeline_returns_statuses [OF plain_shell_ok(1-7) _ two_more_ok(1), of "a_shell False" ?forks three_ends ?s a_table False "Str ''ls''"]
    by simp
qed

theorem backquote_yields_words_witness:
  "\<exists>st' sp'. prim_backquote (a_shell False) three_ends a_table plain_text 7 0 [Bytes ''a b'', Interrupted, Bytes ''c  d'', Bytes []]
      [Str '' '', Str ''ls''] split_start plain_shell = Ok (Inr ([Str ''1'', Str ''a'', Str ''bc'', Str ''d''], sp', st'))"
proof -
  have t: "status_term a_table 0x100 = [Str ''1'']" by code_simp
  have "quiet three_ends" "\<forall>k. waitpid three_ends k 7 False = Changed 7 0x100" "\<not> SIFSTOPPED 0x100"
    by (simp_all add: quiet_def three_ends_def SIFSTOPPED_def)
  moreover have "nonempty (fields_of (\<lambda>c. c = nul \<or> c = CHR '' '') ''a bc  d'') = [''a'', ''bc'', ''d'']" by code_simp
  moreover have "split_inv split_start" by (simp add: split_inv_def split_start_def)
  ultimately show ?thesis
    using backquote_yields_words [OF _ plain_shell_ok(3,5,6,7), of 7 "a_shell False" three_ends "0x100" split_start
        "[Bytes ''a b'', Interrupted, Bytes ''c  d'', Bytes []]" "''a bc  d''" a_table plain_text 0 "Str '' ''" "[Str ''ls'']"] plain_shell_ok(4)
    by (simp add: plain_shell_ok(8,9) t plain_text_def a_shell_def) blast
qed

theorem backquote_writes_pipe_witness:
  "\<exists>st'. prim_backquote (a_shell False) three_ends a_table plain_text 0 0 [] [Str '' '', Str ''ls''] split_start plain_shell =
      Ok (Inl (Evaluates [Str ''ls''] True st')) \<and> user_file (fds st') 1 = Some (WriteEnd 0)"
proof -
  have r: "reserved (fds plain_shell) = [(FdVar 3, True)]" "getfd (fds plain_shell) (FdVar 3) = Some 0" "file_at (files (fds plain_shell)) 1 \<noteq> None"
    "1 < length (files (fds plain_shell))"
    by (simp_all add: plain_shell_def getfd_def file_at_def)
  show ?thesis
    using backquote_writes_pipe [OF plain_shell_ok(1-3) _ plain_shell_ok(6,10) r(4), of "a_shell False" three_ends a_table plain_text 0 "[]"
        "Str '' ''" "[Str ''ls'']" split_start] plain_shell_ok(4) r
    by auto
qed

theorem read_takes_line_witness:
  "prim_read (\<lambda>fd. [Bytes ''a'', Interrupted, Bytes ''b'', Bytes [CHR 0x0A], Bytes ''c'']) plain_shell = Ok ([Str ''ab''], [Bytes ''c''])"
  using read_takes_line [of "\<lambda>fd. [Bytes ''a'', Interrupted, Bytes ''b'', Bytes [CHR 0x0A], Bytes ''c'']" plain_shell
      "[Bytes ''a'', Interrupted, Bytes ''b'']" False "[Bytes ''c'']" "''ab''"]
  by (simp add: spells_def nul_def)

text \<open>
  When a descriptor that a pipeline names is free in the shell, it may be that of an end of a pipe: here the second command is to read
  at 5, which is the number of the reading end that it closes.
\<close>

theorem pipe_ends_cross:
  "(case prim_pipe (a_shell False) three_ends a_table plain_text (\<lambda>i. [7, 0] ! i) False
      [Str ''ls'', Str ''1'', Str ''4'', Str ''sort'', Str ''1'', Str ''0'', Str ''uniq''] plain_shell of
      Ok (Inl (Evaluates list inchild st)) \<Rightarrow> Some (list, map (user_file (fds st)) [1, 4]) | _ \<Rightarrow> None) =
    Some ([Str ''sort''], [Some (WriteEnd 1), None])"
  by code_simp

text \<open>
  The variable \<open>inpipe\<close> is registered when the shell forks with a pipe, but not for the last command. Here the output of the pipeline
  goes to a file at descriptor 4, by a redirection that the shell has deferred, and 4 is the number that the reading end has.
  The last command gets the file as its input.
\<close>

definition redirected_shell :: "string sh" where
  "redirected_shell = plain_shell\<lparr>fds := (fds plain_shell)\<lparr>files := (files (fds plain_shell))[3 := Some (Plain ''file'')],
     deftab := [(3, 4)], defmax := 10, reserved := [(FdVar 3, True), (DeferSlot 0, True)]\<rparr>\<rparr>"

theorem deferred_redirection_takes_pipe:
  "(case prim_pipe (a_shell False) three_ends a_table plain_text (\<lambda>i. [7, 0] ! i) False
      [Str ''ls'', Str ''1'', Str ''0'', Str ''sort''] redirected_shell of
      Ok (Inl (Evaluates list inchild st)) \<Rightarrow> Some (list, map (user_file (fds st)) [0, 1, 4]) | _ \<Rightarrow> None) =
    Some ([Str ''sort''], [Some (Plain ''file''), Some (Plain ''out''), None])"
  by code_simp

end
