(* ===== verification/Gc.thy ===== *)
theory Gc
  imports Values
begin

text \<open>
  The copying collector, \<open>src/gc.c\<close>, with the copy and scan functions of every kind of object that the
  shell allocates. A space is the list of the addresses of the objects in it, in the order of their
  allocation, with the bytes that are used and the bytes there are; the chain of spaces starts with the one
  that allocation works on. An address stands for the place of an object; a pointer is an address, or
  \<^const>\<open>None\<close> for NULL. Pointers to static data are addresses that are in no space. Sizes are those of a machine
  with pointers of 8 bytes. The options \<open>GCPROTECT\<close>, \<open>GCALWAYS\<close>, \<open>GCVERBOSE\<close> and \<open>GCINFO\<close> are off, as by default.
\<close>

section \<open>Objects\<close>

type_synonym ptr = "nat option"

datatype NodeKind =
    kAssign | kCall | kClosure | kConcat | kFor | kLambda | kLet | kList | kLocal
  | kMatch | kExtract | kPrim | kQword | kThunk | kVar | kVarsub | kWord | kRedir | kPipe

text \<open>What a tag tells of an object and what the object holds; \<open>GUntagged\<close> is one that was allocated without a tag.\<close>

datatype gcobj =
    GString string
  | GTerm (str: ptr) (closure: ptr)
  | GList (term_of: ptr) (next_of: ptr)
  | GClosure (tree_of: ptr) (binding_of: ptr)
  | GBinding (name_of: ptr) (defn_of: ptr) (bnext_of: ptr)
  | GVar (vdefn_of: ptr) (env_of: ptr) (flags_of: nat)
  | GTree1 NodeKind ptr
  | GTree2 NodeKind ptr ptr
  | GVector nat "ptr list"
  | GDict int "(ptr \<times> ptr) list"
  | GStrList ptr ptr
  | GUntagged nat

definition ALIGN :: "nat \<Rightarrow> nat" where
  "ALIGN n = (n + 7) div 8 * 8"

text \<open>The bytes of an object. The list of a vector has \<open>alloclen + 1\<close> elements, of which the first number says how many are in use.\<close>

fun nbytes :: "gcobj \<Rightarrow> nat" where
  "nbytes (GString s) = length s + 1"
| "nbytes (GTerm s c) = 16"
| "nbytes (GList t n) = 16"
| "nbytes (GClosure t b) = 16"
| "nbytes (GBinding n d b) = 24"
| "nbytes (GVar d e f) = 24"
| "nbytes (GTree1 k p) = 16"
| "nbytes (GTree2 k p q) = 24"
| "nbytes (GVector used ps) = 8 + 8 * length ps"
| "nbytes (GDict remain t) = 8 + 16 * length t"
| "nbytes (GStrList s n) = 16"
| "nbytes (GUntagged n) = n"

section \<open>State\<close>

datatype cell = Obj gcobj | Forwarded nat

record space =
  current :: nat
  top :: nat
  contents :: "nat list"

record gcstate =
  memory :: "nat \<Rightarrow> cell option"
  next_addr :: nat
  new_spaces :: "space list"
  old_spaces :: "space list"
  minspace :: nat
  gcblocked :: int
  rootlist :: "ptr list"
  globalrootlist :: "ptr list"
  rebound :: bool

text \<open>A run that does not return in time lacks fuel.\<close>

type_synonym 'a gcrun = "(stop, 'a) outcome_of"

definition MIN_minspace :: nat where
  "MIN_minspace = 10000"

definition newspace :: "nat \<Rightarrow> space" where
  "newspace m = \<lparr>current = 0, top = ALIGN m, contents = []\<rparr>"

definition isinspace :: "space list \<Rightarrow> ptr \<Rightarrow> bool" where
  "isinspace sps p = (case p of None \<Rightarrow> False | Some a \<Rightarrow> list_ex (\<lambda>sp. a \<in> set (contents sp)) sps)"

section \<open>Allocation\<close>

text \<open>The bytes that \<open>gcalloc\<close> takes for an object, and what it does when there is room.\<close>

definition room_for :: "nat \<Rightarrow> nat" where
  "room_for n = ALIGN (n + 8)"

definition place :: "gcobj \<Rightarrow> space \<Rightarrow> space list \<Rightarrow> gcstate \<Rightarrow> nat \<times> gcstate" where
  "place ob sp sps st =
     (next_addr st,
      st\<lparr>memory := (memory st)(next_addr st \<mapsto> Obj ob), next_addr := Suc (next_addr st),
        new_spaces := sp\<lparr>current := current sp + room_for (nbytes ob), contents := contents sp @ [next_addr st]\<rparr> # sps\<rparr>)"

definition grow_minspace :: "nat \<Rightarrow> gcstate \<Rightarrow> gcstate" where
  "grow_minspace n st = (if minspace st < n then st\<lparr>minspace := n + 8\<rparr> else st)"

text \<open>The loop of \<open>gcalloc\<close> while collections are blocked, with fuel for its turns.\<close>

fun gcalloc_blocked :: "nat \<Rightarrow> gcobj \<Rightarrow> gcstate \<Rightarrow> (nat \<times> gcstate) gcrun" where
  "gcalloc_blocked n ob st =
     (case new_spaces st of
        [] \<Rightarrow> Undef
      | sp # sps \<Rightarrow>
          if current sp + room_for (nbytes ob) \<le> top sp then Ok (place ob sp sps st)
          else let st = grow_minspace (nbytes ob) st; st = st\<lparr>new_spaces := newspace (minspace st) # sp # sps\<rparr> in
            (case n of 0 \<Rightarrow> Throw OutOfFuel | Suc n \<Rightarrow> gcalloc_blocked n ob st))"

declare gcalloc_blocked.simps [simp del]

section \<open>Forwarding\<close>

text \<open>\<open>forward\<close>; the copy functions allocate an object of the size of the old one and copy its bytes.\<close>

definition copy :: "gcobj \<Rightarrow> gcstate \<Rightarrow> (nat \<times> gcstate) gcrun" where
  "copy ob st = gcalloc_blocked 1 ob st"

definition forward :: "ptr \<Rightarrow> gcstate \<Rightarrow> (ptr \<times> gcstate) gcrun" where
  "forward p st =
     (if \<not> isinspace (old_spaces st) p then Ok (p, st)
      else case memory st (the p) of
          None \<Rightarrow> Undef
        | Some (Forwarded b) \<Rightarrow> Ok (Some b, st)
        | Some (Obj (GUntagged n)) \<Rightarrow> Abort
        | Some (Obj ob) \<Rightarrow>
            obind (copy ob st) (\<lambda>(b, st). Ok (Some b, st\<lparr>memory := (memory st)(the p \<mapsto> Forwarded b)\<rparr>)))"

fun forward_list :: "ptr list \<Rightarrow> gcstate \<Rightarrow> (ptr list \<times> gcstate) gcrun" where
  "forward_list [] st = Ok ([], st)"
| "forward_list (p # ps) st =
     obind (forward p st) (\<lambda>(p, st). obind (forward_list ps st) (\<lambda>(ps, st). Ok (p # ps, st)))"

fun forward_table :: "(ptr \<times> ptr) list \<Rightarrow> gcstate \<Rightarrow> ((ptr \<times> ptr) list \<times> gcstate) gcrun" where
  "forward_table [] st = Ok ([], st)"
| "forward_table ((name, value) # t) st =
     obind (forward name st) (\<lambda>(name, st).
     obind (forward value st) (\<lambda>(value, st).
     obind (forward_table t st) (\<lambda>(t, st). Ok ((name, value) # t, st))))"

definition var_hasbindings :: nat where "var_hasbindings = 1"

definition one_child :: "NodeKind \<Rightarrow> bool" where
  "one_child k \<longleftrightarrow> k \<in> {kPrim, kWord, kQword, kCall, kThunk, kVar}"

definition two_children :: "NodeKind \<Rightarrow> bool" where
  "two_children k \<longleftrightarrow> k \<in> {kAssign, kConcat, kClosure, kFor, kLambda, kLet, kList, kLocal, kVarsub, kMatch, kExtract}"

text \<open>The scan functions: the object with its pointers forwarded, in the order of the code.\<close>

definition StringScan :: "string \<Rightarrow> gcstate \<Rightarrow> (gcobj \<times> gcstate) gcrun" where
  "StringScan s st = Ok (GString s, st)"

definition TermScan :: "ptr \<Rightarrow> ptr \<Rightarrow> gcstate \<Rightarrow> (gcobj \<times> gcstate) gcrun" where
  "TermScan s c st =
     obind (forward c st) (\<lambda>(c, st). obind (forward s st) (\<lambda>(s, st). Ok (GTerm s c, st)))"

definition ListScan :: "ptr \<Rightarrow> ptr \<Rightarrow> gcstate \<Rightarrow> (gcobj \<times> gcstate) gcrun" where
  "ListScan t n st =
     obind (forward t st) (\<lambda>(t, st). obind (forward n st) (\<lambda>(n, st). Ok (GList t n, st)))"

definition ClosureScan :: "ptr \<Rightarrow> ptr \<Rightarrow> gcstate \<Rightarrow> (gcobj \<times> gcstate) gcrun" where
  "ClosureScan t b st =
     obind (forward t st) (\<lambda>(t, st). obind (forward b st) (\<lambda>(b, st). Ok (GClosure t b, st)))"

definition BindingScan :: "ptr \<Rightarrow> ptr \<Rightarrow> ptr \<Rightarrow> gcstate \<Rightarrow> (gcobj \<times> gcstate) gcrun" where
  "BindingScan n d b st =
     obind (forward n st) (\<lambda>(n, st). obind (forward d st) (\<lambda>(d, st). obind (forward b st) (\<lambda>(b, st).
     Ok (GBinding n d b, st))))"

definition VarScan :: "ptr \<Rightarrow> ptr \<Rightarrow> nat \<Rightarrow> gcstate \<Rightarrow> (gcobj \<times> gcstate) gcrun" where
  "VarScan d e f st =
     obind (forward d st) (\<lambda>(d, st).
     if f AND var_hasbindings \<noteq> 0 \<and> rebound st then Ok (GVar d None f, st)
     else obind (forward e st) (\<lambda>(e, st). Ok (GVar d e f, st)))"

definition Tree1Scan :: "NodeKind \<Rightarrow> ptr \<Rightarrow> gcstate \<Rightarrow> (gcobj \<times> gcstate) gcrun" where
  "Tree1Scan k p st =
     (if one_child k then obind (forward p st) (\<lambda>(p, st). Ok (GTree1 k p, st)) else Abort)"

definition Tree2Scan :: "NodeKind \<Rightarrow> ptr \<Rightarrow> ptr \<Rightarrow> gcstate \<Rightarrow> (gcobj \<times> gcstate) gcrun" where
  "Tree2Scan k p q st =
     (if two_children k
      then obind (forward p st) (\<lambda>(p, st). obind (forward q st) (\<lambda>(q, st). Ok (GTree2 k p q, st))) else Abort)"

text \<open>The elements of a vector up to its count, the one that ends it included; there is room for as many at least.\<close>

definition VectorScan :: "nat \<Rightarrow> ptr list \<Rightarrow> gcstate \<Rightarrow> (gcobj \<times> gcstate) gcrun" where
  "VectorScan used ps st =
     (if length ps \<le> used then Undef
      else obind (forward_list (take (used + 1) ps) st) (\<lambda>(qs, st). Ok (GVector used (qs @ drop (used + 1) ps), st)))"

definition DictScan :: "int \<Rightarrow> (ptr \<times> ptr) list \<Rightarrow> gcstate \<Rightarrow> (gcobj \<times> gcstate) gcrun" where
  "DictScan remain t st = obind (forward_table t st) (\<lambda>(t, st). Ok (GDict remain t, st))"

definition StrListScan :: "ptr \<Rightarrow> ptr \<Rightarrow> gcstate \<Rightarrow> (gcobj \<times> gcstate) gcrun" where
  "StrListScan s n st =
     obind (forward s st) (\<lambda>(s, st). obind (forward n st) (\<lambda>(n, st). Ok (GStrList s n, st)))"

lemmas scan_defs = StringScan_def TermScan_def ListScan_def ClosureScan_def BindingScan_def VarScan_def Tree1Scan_def
  Tree2Scan_def VectorScan_def DictScan_def StrListScan_def

text \<open>The scan function of an object's tag; an object without a tag has none.\<close>

fun scan :: "gcobj \<Rightarrow> gcstate \<Rightarrow> (gcobj \<times> gcstate) gcrun" where
  "scan (GString s) = StringScan s"
| "scan (GTerm s c) = TermScan s c"
| "scan (GList t n) = ListScan t n"
| "scan (GClosure t b) = ClosureScan t b"
| "scan (GBinding n d b) = BindingScan n d b"
| "scan (GVar d e f) = VarScan d e f"
| "scan (GTree1 k p) = Tree1Scan k p"
| "scan (GTree2 k p q) = Tree2Scan k p q"
| "scan (GVector used ps) = VectorScan used ps"
| "scan (GDict remain t) = DictScan remain t"
| "scan (GStrList s n) = StrListScan s n"
| "scan (GUntagged n) = (\<lambda>st. Undef)"

section \<open>Collection\<close>

text \<open>\<open>scanroots\<close>, for one of the two lists of roots: each root points to what it is forwarded to.\<close>

definition scanroots :: "(gcstate \<Rightarrow> ptr list) \<Rightarrow> (ptr list \<Rightarrow> gcstate \<Rightarrow> gcstate) \<Rightarrow> gcstate \<Rightarrow> gcstate gcrun" where
  "scanroots roots set_roots st =
     obind (forward_list (roots st) st) (\<lambda>(ps, st). Ok (set_roots ps st))"

text \<open>
  The inner loop of \<open>scanspace\<close> for one space, the \<open>k\<close>-th from the end of the chain, from its object number \<open>i\<close>
  on; the space may grow while it is scanned. The fuel counts objects.
\<close>

fun scan_objects :: "nat \<Rightarrow> nat \<Rightarrow> nat \<Rightarrow> gcstate \<Rightarrow> gcstate gcrun" where
  "scan_objects n k i st =
     (let sp = rev (new_spaces st) ! k in
      if length (contents sp) \<le> i then Ok st
      else case n of
        0 \<Rightarrow> Throw OutOfFuel
      | Suc n \<Rightarrow>
          (let a = contents sp ! i in
           case memory st a of
             Some (Obj ob) \<Rightarrow>
               obind (scan ob st) (\<lambda>(ob, st). scan_objects n k (Suc i) (st\<lparr>memory := (memory st)(a \<mapsto> Obj ob)\<rparr>))
           | _ \<Rightarrow> Undef))"

declare scan_objects.simps [simp del]

text \<open>The spaces from \<open>front\<close> on down to those that are scanned already, and the rounds of \<open>scanspace\<close>.\<close>

fun scan_spaces :: "nat \<Rightarrow> nat \<Rightarrow> nat \<Rightarrow> gcstate \<Rightarrow> gcstate gcrun" where
  "scan_spaces n 0 scanned st = Ok st"
| "scan_spaces n (Suc k) scanned st =
     (if k < scanned then Ok st else obind (scan_objects n k 0 st) (scan_spaces n k scanned))"

fun scanspace :: "nat \<Rightarrow> nat \<Rightarrow> gcstate \<Rightarrow> gcstate gcrun" where
  "scanspace n scanned st =
     (let front = length (new_spaces st) in
      obind (scan_spaces n front scanned st) (\<lambda>st.
      if length (new_spaces st) = front then Ok st
      else case n of 0 \<Rightarrow> Throw OutOfFuel | Suc n \<Rightarrow> scanspace n front st))"

declare scanspace.simps [simp del]

text \<open>The objects of some spaces; their number bounds what a collection can copy.\<close>

definition objects :: "space list \<Rightarrow> nat list" where
  "objects sps = concat (map contents sps)"

definition deprecate :: "gcstate \<Rightarrow> gcstate" where
  "deprecate st =
     st\<lparr>memory := (\<lambda>a. if a \<in> set (objects (old_spaces st)) then None else memory st a), old_spaces := []\<rparr>"

definition adjust_minspace :: "gcstate \<Rightarrow> gcstate" where
  "adjust_minspace st =
     (let livedata = sum_list (map current (new_spaces st)) in
      if minspace st < livedata * 2 then st\<lparr>minspace := livedata * 4\<rparr>
      else if livedata * 12 < minspace st \<and> MIN_minspace * 2 < minspace st then st\<lparr>minspace := minspace st div 2\<rparr>
      else st)"

text \<open>One turn of the loop of \<open>gc\<close> when it is not blocked.\<close>

definition collect :: "gcstate \<Rightarrow> gcstate gcrun" where
  "collect st =
     (if new_spaces st = [] \<or> old_spaces st \<noteq> [] then Abort
      else
        let st = st\<lparr>gcblocked := gcblocked st + 1, old_spaces := new_spaces st, new_spaces := [newspace (minspace st)]\<rparr>
        in obind (scanroots rootlist (\<lambda>ps st. st\<lparr>rootlist := ps\<rparr>) st) (\<lambda>st.
        obind (scanroots globalrootlist (\<lambda>ps st. st\<lparr>globalrootlist := ps\<rparr>) st) (\<lambda>st.
        obind (scanspace (Suc (length (objects (old_spaces st)))) 0 st) (\<lambda>st.
        let st = adjust_minspace (deprecate st) in Ok (st\<lparr>gcblocked := gcblocked st - 1\<rparr>)))))"

fun gc :: "nat \<Rightarrow> gcstate \<Rightarrow> gcstate gcrun" where
  "gc n st =
     (if gcblocked st < 0 then Abort
      else if 0 < gcblocked st then Ok st
      else obind (collect st) (\<lambda>st.
        if tl (new_spaces st) = [] then Ok st
        else case n of 0 \<Rightarrow> Throw OutOfFuel | Suc n \<Rightarrow> gc n st))"

declare gc.simps [simp del]

text \<open>\<open>gcalloc\<close> from outside, and the functions that block collections.\<close>

fun gcalloc :: "nat \<Rightarrow> gcobj \<Rightarrow> gcstate \<Rightarrow> (nat \<times> gcstate) gcrun" where
  "gcalloc n ob st =
     (case new_spaces st of
        [] \<Rightarrow> Undef
      | sp # sps \<Rightarrow>
          if current sp + room_for (nbytes ob) \<le> top sp then Ok (place ob sp sps st)
          else let st = grow_minspace (nbytes ob) st in
            obind (if gcblocked st \<noteq> 0 then Ok (st\<lparr>new_spaces := newspace (minspace st) # sp # sps\<rparr>) else gc n st) (\<lambda>st.
            case n of 0 \<Rightarrow> Throw OutOfFuel | Suc n \<Rightarrow> gcalloc n ob st))"

declare gcalloc.simps [simp del]

definition gcdisable :: "gcstate \<Rightarrow> gcstate gcrun" where
  "gcdisable st = (if gcblocked st < 0 then Abort else Ok (st\<lparr>gcblocked := gcblocked st + 1\<rparr>))"

definition gcenable :: "nat \<Rightarrow> gcstate \<Rightarrow> gcstate gcrun" where
  "gcenable n st =
     (if gcblocked st \<le> 0 then Abort
      else let st = st\<lparr>gcblocked := gcblocked st - 1\<rparr> in
        if new_spaces st = [] then Undef
        else if gcblocked st = 0 \<and> tl (new_spaces st) \<noteq> [] then gc n st else Ok st)"

definition gcreserve :: "nat \<Rightarrow> nat \<Rightarrow> gcstate \<Rightarrow> gcstate gcrun" where
  "gcreserve n minfree st =
     (case new_spaces st of
        [] \<Rightarrow> Undef
      | sp # _ \<Rightarrow>
          if top sp - current sp < minfree
          then gc n (if minspace st < minfree then st\<lparr>minspace := minfree\<rparr> else st)
          else Ok st)"

definition gcisblocked :: "gcstate \<Rightarrow> bool gcrun" where
  "gcisblocked st = (if gcblocked st < 0 then Abort else Ok (gcblocked st \<noteq> 0))"

definition initgc :: "gcstate" where
  "initgc = \<lparr>memory = (\<lambda>_. None), next_addr = 0, new_spaces = [newspace MIN_minspace], old_spaces = [],
     minspace = MIN_minspace, gcblocked = 0, rootlist = [], globalrootlist = [], rebound = False\<rparr>"

text \<open>
  A string is made with collections blocked, and is a root when they are enabled again. Memory that holds a string
  holds no NUL but the last, which the code asserts.
\<close>

definition gcndup :: "nat \<Rightarrow> string \<Rightarrow> gcstate \<Rightarrow> (ptr \<times> gcstate) gcrun" where
  "gcndup n s st =
     obind (gcdisable st) (\<lambda>st.
     obind (gcalloc n (GString s) st) (\<lambda>(a, st).
     if nul \<in> set s then Abort
     else obind (gcenable n (st\<lparr>rootlist := Some a # rootlist st\<rparr>)) (\<lambda>st.
       Ok (hd (rootlist st), st\<lparr>rootlist := tl (rootlist st)\<rparr>))))"

definition gcdup :: "nat \<Rightarrow> string \<Rightarrow> gcstate \<Rightarrow> (ptr \<times> gcstate) gcrun" where
  "gcdup n s st = gcndup n (takeWhile (\<lambda>c. c \<noteq> nul) s) st"

section \<open>Objects and their pointers\<close>

text \<open>The pointers that a scan forwards, in order, and the object with others in their place.\<close>

fun fields :: "bool \<Rightarrow> gcobj \<Rightarrow> ptr list" where
  "fields rb (GString s) = []"
| "fields rb (GTerm s c) = [c, s]"
| "fields rb (GList t n) = [t, n]"
| "fields rb (GClosure t b) = [t, b]"
| "fields rb (GBinding n d b) = [n, d, b]"
| "fields rb (GVar d e f) = (if f AND var_hasbindings \<noteq> 0 \<and> rb then [d] else [d, e])"
| "fields rb (GTree1 k p) = [p]"
| "fields rb (GTree2 k p q) = [p, q]"
| "fields rb (GVector used ps) = take (used + 1) ps"
| "fields rb (GDict remain t) = concat (map (\<lambda>(n, v). [n, v]) t)"
| "fields rb (GStrList s n) = [s, n]"
| "fields rb (GUntagged n) = []"

fun map_ptrs :: "bool \<Rightarrow> (ptr \<Rightarrow> ptr) \<Rightarrow> gcobj \<Rightarrow> gcobj" where
  "map_ptrs rb f (GTerm s c) = GTerm (f s) (f c)"
| "map_ptrs rb f (GList t n) = GList (f t) (f n)"
| "map_ptrs rb f (GClosure t b) = GClosure (f t) (f b)"
| "map_ptrs rb f (GBinding n d b) = GBinding (f n) (f d) (f b)"
| "map_ptrs rb f (GVar d e flags) =
     (if flags AND var_hasbindings \<noteq> 0 \<and> rb then GVar (f d) None flags else GVar (f d) (f e) flags)"
| "map_ptrs rb f (GTree1 k p) = GTree1 k (f p)"
| "map_ptrs rb f (GTree2 k p q) = GTree2 k (f p) (f q)"
| "map_ptrs rb f (GVector used ps) = GVector used (map f (take (used + 1) ps) @ drop (used + 1) ps)"
| "map_ptrs rb f (GDict remain t) = GDict remain (map (\<lambda>(n, v). (f n, f v)) t)"
| "map_ptrs rb f (GStrList s n) = GStrList (f s) (f n)"
| "map_ptrs rb f ob = ob"

text \<open>Objects whose scan function does not fail.\<close>

fun well_tagged :: "gcobj \<Rightarrow> bool" where
  "well_tagged (GTree1 k p) = one_child k"
| "well_tagged (GTree2 k p q) = two_children k"
| "well_tagged (GVector used ps) = (used < length ps)"
| "well_tagged (GUntagged n) = False"
| "well_tagged ob = True"

lemma map_ptrs_cong: "(\<And>p. p \<in> set (fields rb ob) \<Longrightarrow> f p = g p) \<Longrightarrow> map_ptrs rb f ob = map_ptrs rb g ob"
  by (cases ob) (auto split: if_splits intro!: bexI)

section \<open>A collection that fits\<close>

definition obj_at :: "gcstate \<Rightarrow> nat \<Rightarrow> gcobj" where
  "obj_at st a = (case memory st a of Some (Obj ob) \<Rightarrow> ob | _ \<Rightarrow> GUntagged 0)"

text \<open>The objects that a collection which starts in this state finds, and those of them that it can reach from the roots.\<close>

definition held :: "gcstate \<Rightarrow> nat set" where
  "held s = set (objects (new_spaces s))"

inductive_set reach :: "gcstate \<Rightarrow> nat set" for s where
  root: "Some a \<in> set (rootlist s @ globalrootlist s) \<Longrightarrow> a \<in> held s \<Longrightarrow> a \<in> reach s"
| step: "a \<in> reach s \<Longrightarrow> Some b \<in> set (fields (rebound s) (obj_at s a)) \<Longrightarrow> b \<in> held s \<Longrightarrow> b \<in> reach s"

lemma isinspace_objects: "isinspace sps p \<longleftrightarrow> (\<exists>a. p = Some a \<and> a \<in> set (objects sps))"
  by (auto simp: isinspace_def objects_def list_ex_iff split: option.splits)

text \<open>Every object is well tagged and below the next address.\<close>

definition sound :: "gcstate \<Rightarrow> bool" where
  "sound s \<longleftrightarrow> (\<forall>a \<in> held s. a < next_addr s \<and> well_tagged (obj_at s a))"

text \<open>The room that an object takes; what can be reached fits in one new space.\<close>

definition need :: "gcstate \<Rightarrow> nat \<Rightarrow> nat" where
  "need st a = room_for (nbytes (obj_at st a))"

definition fits :: "gcstate \<Rightarrow> bool" where
  "fits s \<longleftrightarrow> (\<Sum>a \<in> reach s. need s a) \<le> ALIGN (minspace s)"

text \<open>The new addresses of the objects \<open>as\<close>, which are copied in this order.\<close>

definition moved :: "gcstate \<Rightarrow> nat list \<Rightarrow> nat \<Rightarrow> nat option" where
  "moved s as = map_of (zip as [next_addr s..<next_addr s + length as])"

definition ren :: "gcstate \<Rightarrow> nat list \<Rightarrow> ptr \<Rightarrow> ptr" where
  "ren s as p = (case p of None \<Rightarrow> None | Some a \<Rightarrow> (case moved s as a of None \<Rightarrow> Some a | Some b \<Rightarrow> Some b))"

text \<open>A pointer whose object is among the objects \<open>as\<close>, unless it points elsewhere.\<close>

definition known :: "gcstate \<Rightarrow> nat list \<Rightarrow> ptr \<Rightarrow> bool" where
  "known s as p \<longleftrightarrow> (\<forall>a \<in> held s. p = Some a \<longrightarrow> a \<in> set as)"

text \<open>
  The state in the middle of a collection that was started in \<open>s\<close>: the objects \<open>as\<close> have been copied, and the
  first \<open>i\<close> of them have been scanned.
\<close>

definition midway :: "gcstate \<Rightarrow> nat list \<Rightarrow> nat \<Rightarrow> gcstate \<Rightarrow> bool" where
  "midway s as i st \<longleftrightarrow> distinct as \<and> set as \<subseteq> reach s \<and> i \<le> length as \<and>
     old_spaces st = new_spaces s \<and> rebound st = rebound s \<and> minspace st = minspace s \<and> gcblocked st = gcblocked s + 1 \<and>
     next_addr st = next_addr s + length as \<and>
     new_spaces st = [\<lparr>current = sum_list (map (need s) as), top = ALIGN (minspace s),
       contents = [next_addr s..<next_addr s + length as]\<rparr>] \<and>
     (\<forall>k < i. \<forall>p \<in> set (fields (rebound s) (obj_at s (as ! k))). known s as p) \<and>
     (\<forall>a. a < next_addr s \<longrightarrow> memory st a = (case moved s as a of Some b \<Rightarrow> Some (Forwarded b) | None \<Rightarrow> memory s a)) \<and>
     (\<forall>k < length as. memory st (next_addr s + k) =
       Some (Obj (if k < i then map_ptrs (rebound s) (ren s as) (obj_at s (as ! k)) else obj_at s (as ! k))))"

lemma reach_held: "reach s \<subseteq> held s"
  by (auto elim: reach.cases)

lemma finite_reach: "finite (reach s)"
  by (rule finite_subset [OF reach_held]) (simp add: held_def)

lemma moved_append: "moved s (as @ xs) a = (case moved s as a of Some b \<Rightarrow> Some b
    | None \<Rightarrow> map_of (zip xs [next_addr s + length as..<next_addr s + length as + length xs]) a)"
proof -
  let ?u = "[next_addr s..<next_addr s + length as]" and ?v = "[next_addr s + length as..<next_addr s + length as + length xs]"
  have "[next_addr s..<next_addr s + length (as @ xs)] = ?u @ ?v"
    by (simp only: length_append add.assoc [symmetric]) (rule upt_add_eq_append, simp)
  moreover have "zip (as @ xs) (?u @ ?v) = zip as ?u @ zip xs ?v" by (rule zip_append) simp
  ultimately have "moved s (as @ xs) = map_of (zip xs ?v) ++ map_of (zip as ?u)"
    by (simp only: moved_def) (rule map_of_append)
  then show ?thesis by (simp only: moved_def map_add_def)
qed

lemma moved_None: "moved s as a = None \<longleftrightarrow> a \<notin> set as"
  by (simp add: moved_def map_of_zip_is_None)

lemma moved_new: "a \<notin> set xs \<Longrightarrow> moved s (as @ xs) a = moved s as a"
  by (simp add: moved_append map_of_zip_is_None split: option.split)

lemma moved_kept: "a \<in> set as \<Longrightarrow> moved s (as @ xs) a = moved s as a"
  using moved_None [of s as a] by (auto simp: moved_append split: option.split)

lemma moved_one: "a \<notin> set as \<Longrightarrow> moved s (as @ [a]) x = (if x = a then Some (next_addr s + length as) else moved s as x)"
  using moved_None [of s as a] by (cases "x = a") (simp_all add: moved_append split: option.split)

lemma ren_append: "p = None \<or> the p \<in> set as \<or> the p \<notin> set xs \<Longrightarrow> ren s (as @ xs) p = ren s as p"
  by (cases p) (auto simp: ren_def moved_new moved_kept)

lemma moved_nth: "distinct as \<Longrightarrow> k < length as \<Longrightarrow> moved s as (as ! k) = Some (next_addr s + k)"
  unfolding moved_def by (rule map_of_is_SomeI) (auto simp: in_set_zip intro!: exI [of _ k])

lemma known_append: "known s as p \<Longrightarrow> known s (as @ xs) p"
  by (auto simp: known_def)

lemma ren_known: "known s as p \<Longrightarrow> set xs \<subseteq> reach s \<Longrightarrow> ren s (as @ xs) p = ren s as p"
  using reach_held [of s] by (intro ren_append) (cases p, auto simp: known_def)

lemma midway_scanned:
  assumes "midway s as i st" "set xs \<subseteq> reach s" "k < i"
  shows "map_ptrs (rebound s) (ren s (as @ xs)) (obj_at s (as ! k)) = map_ptrs (rebound s) (ren s as) (obj_at s (as ! k))"
  by (rule map_ptrs_cong, rule ren_known) (use assms in \<open>auto simp: midway_def\<close>)

lemma need_fits: "fits s \<Longrightarrow> distinct as \<Longrightarrow> set as \<subseteq> reach s \<Longrightarrow> sum_list (map (need s) as) \<le> ALIGN (minspace s)"
  using sum_mono2 [OF finite_reach, of "set as" s "need s"] by (simp add: fits_def sum_list_distinct_conv_sum_set)

text \<open>Copying one object more.\<close>

lemma copy_midway:
  assumes m: "midway s as i st" and a: "a \<in> reach s" "a \<notin> set as" and s: "sound s" "fits s"
  shows "\<exists>st'. forward (Some a) st = Ok (ren s (as @ [a]) (Some a), st') \<and> midway s (as @ [a]) i st' \<and>
    rootlist st' = rootlist st \<and> globalrootlist st' = globalrootlist st"
proof -
  let ?b = "next_addr s + length as"
  have h: "a \<in> held s" using a(1) reach_held by blast
  have lt: "a < next_addr s" and wt: "well_tagged (obj_at s a)" using s h by (auto simp: sound_def)
  then obtain ob where ob: "memory s a = Some (Obj ob)" "obj_at s a = ob" "well_tagged ob"
    by (auto simp: obj_at_def split: option.splits cell.splits)
  have mem: "memory st a = Some (Obj ob)" using m lt a(2) ob(1) by (auto simp: midway_def moved_None split: option.splits)
  have old: "isinspace (old_spaces st) (Some a)" using h m by (auto simp: midway_def isinspace_objects held_def)
  let ?sp = "\<lparr>current = sum_list (map (need s) as), top = ALIGN (minspace s), contents = [next_addr s..<?b]\<rparr>"
  have n: "next_addr st = ?b" "new_spaces st = [?sp]" using m by (auto simp: midway_def)
  have "sum_list (map (need s) (as @ [a])) \<le> ALIGN (minspace s)" using m a by (intro need_fits [OF s(2)]) (auto simp: midway_def)
  then have fit: "sum_list (map (need s) as) + room_for (nbytes ob) \<le> ALIGN (minspace s)" using ob by (simp add: need_def)
  let ?st1 = "snd (place ob ?sp [] st)"
  have c: "copy ob st = Ok (?b, ?st1)" using n fit by (simp add: copy_def gcalloc_blocked.simps place_def)
  let ?st2 = "?st1\<lparr>memory := (memory ?st1)(a \<mapsto> Forwarded ?b)\<rparr>"
  have f: "forward (Some a) st = Ok (Some ?b, ?st2)"
    using old mem c ob(3) by (cases ob) (auto simp: forward_def)
  have nw: "moved s (as @ [a]) x = (if x = a then Some ?b else moved s as x)" for x by (rule moved_one [OF a(2)])
  have rn: "ren s (as @ [a]) (Some a) = Some ?b" by (simp add: ren_def nw)
  have "midway s (as @ [a]) i ?st2"
    unfolding midway_def
  proof (intro conjI allI impI ballI)
    fix x assume "x < next_addr s"
    then show "memory ?st2 x = (case moved s (as @ [a]) x of Some b \<Rightarrow> Some (Forwarded b) | None \<Rightarrow> memory s x)"
      using m n by (auto simp: nw place_def midway_def)
  next
    fix k p assume "k < i" "p \<in> set (fields (rebound s) (obj_at s ((as @ [a]) ! k)))"
    then show "known s (as @ [a]) p" using m by (intro known_append) (auto simp: midway_def nth_append)
  next
    fix k assume k: "k < length (as @ [a])"
    have ne: "next_addr s + k \<noteq> a" using lt by simp
    show "memory ?st2 (next_addr s + k) = Some (Obj (if k < i
        then map_ptrs (rebound s) (ren s (as @ [a])) (obj_at s ((as @ [a]) ! k)) else obj_at s ((as @ [a]) ! k)))"
    proof (cases "k = length as")
      case True
      then show ?thesis using m n ne ob(2) by (simp add: place_def midway_def)
    next
      case False
      then show ?thesis using m n ne k midway_scanned [OF m, of "[a]" k] a(1)
        by (auto simp: place_def midway_def nth_append)
    qed
  qed (use m n a ob(2) in \<open>auto simp: midway_def place_def need_def nth_append\<close>)
  then show ?thesis using f rn by (intro exI [of _ ?st2]) (simp add: place_def)
qed

section \<open>Forwarding and scanning in the middle of a collection\<close>

text \<open>What a step of a collection makes of the middle state.\<close>

definition goes_on :: "gcstate \<Rightarrow> nat list \<Rightarrow> nat \<Rightarrow> gcstate \<Rightarrow> nat list \<Rightarrow> gcstate \<Rightarrow> bool" where
  "goes_on s as i st xs st' \<longleftrightarrow> midway s (as @ xs) i st' \<and> set xs \<subseteq> reach s \<and>
     rootlist st' = rootlist st \<and> globalrootlist st' = globalrootlist st"

lemma goes_on_refl: "midway s as i st \<Longrightarrow> goes_on s as i st [] st"
  by (simp add: goes_on_def)

lemma goes_on_trans: "goes_on s as i st xs st' \<Longrightarrow> goes_on s (as @ xs) i st' ys st'' \<Longrightarrow> goes_on s as i st (xs @ ys) st''"
  by (simp add: goes_on_def)

lemma forward_midway:
  assumes m: "midway s as i st" and s: "sound s" "fits s" and p: "known s (sorted_list_of_set (reach s)) p"
  shows "\<exists>xs st'. forward p st = Ok (ren s (as @ xs) p, st') \<and> goes_on s as i st xs st' \<and> known s (as @ xs) p"
proof (cases "isinspace (old_spaces st) p")
  case False
  then have n: "p = Some a \<Longrightarrow> a \<notin> held s" for a using m by (auto simp: midway_def isinspace_objects held_def)
  then have k: "known s as p" by (auto simp: known_def)
  have "the p \<notin> set as \<or> p = None" using n m reach_held [of s] by (cases p) (auto simp: midway_def)
  then have "ren s as p = p" using moved_None [of s as "the p"] by (cases p) (auto simp: ren_def)
  then show ?thesis using False k goes_on_refl [OF m] by (intro exI [of _ "[]"] exI [of _ st]) (simp add: forward_def)
next
  case True
  then obtain a where a: "p = Some a" "a \<in> held s" using m by (auto simp: midway_def isinspace_objects held_def)
  then have r: "a \<in> reach s" using p by (auto simp: known_def finite_reach)
  show ?thesis
  proof (cases "a \<in> set as")
    case False
    from copy_midway [OF m r this s] obtain st' where "forward (Some a) st = Ok (ren s (as @ [a]) (Some a), st')"
      "midway s (as @ [a]) i st'" "rootlist st' = rootlist st" "globalrootlist st' = globalrootlist st" by blast
    then show ?thesis using a r by (intro exI [of _ "[a]"] exI [of _ st']) (simp add: goes_on_def known_def)
  next
    case in_as: True
    have "a < next_addr s" using s(1) a(2) by (auto simp: sound_def)
    moreover obtain b where b: "moved s as a = Some b" using in_as moved_None [of s as a] by auto
    ultimately have "memory st a = Some (Forwarded b)" using m by (simp add: midway_def)
    then show ?thesis using a True b in_as goes_on_refl [OF m]
      by (intro exI [of _ "[]"] exI [of _ st]) (simp add: forward_def ren_def known_def)
  qed
qed

lemma forward_list_midway:
  "midway s as i st \<Longrightarrow> sound s \<Longrightarrow> fits s \<Longrightarrow> \<forall>p \<in> set ps. known s (sorted_list_of_set (reach s)) p \<Longrightarrow>
    \<exists>xs st'. forward_list ps st = Ok (map (ren s (as @ xs)) ps, st') \<and> goes_on s as i st xs st' \<and> (\<forall>p \<in> set ps. known s (as @ xs) p)"
proof (induction ps arbitrary: as st)
  case Nil
  then show ?case by (intro exI [of _ "[]"] exI [of _ st]) (simp add: goes_on_refl)
next
  case (Cons p ps)
  from forward_midway [OF Cons.prems(1-3)] Cons.prems(4) obtain xs st1
    where 1: "forward p st = Ok (ren s (as @ xs) p, st1)" "goes_on s as i st xs st1" "known s (as @ xs) p" by force
  have "midway s (as @ xs) i st1" using 1(2) by (simp add: goes_on_def)
  from Cons.IH [OF this Cons.prems(2,3)] Cons.prems(4) obtain ys st2
    where 2: "forward_list ps st1 = Ok (map (ren s ((as @ xs) @ ys)) ps, st2)" "goes_on s (as @ xs) i st1 ys st2"
      "\<forall>p \<in> set ps. known s ((as @ xs) @ ys) p" by force
  have "ren s ((as @ xs) @ ys) p = ren s (as @ xs) p" using 1(3) 2(2) by (intro ren_known) (auto simp: goes_on_def)
  then show ?case using 1 2 goes_on_trans [OF 1(2) 2(2)] known_append [OF 1(3), of ys]
    by (intro exI [of _ "xs @ ys"] exI [of _ st2]) simp
qed

text \<open>A scan forwards the fields.\<close>

lemma copy_rebound: "gcalloc_blocked n ob st = Ok (b, st') \<Longrightarrow> rebound st' = rebound st"
  by (induction n ob st rule: gcalloc_blocked.induct, subst (asm) (2) gcalloc_blocked.simps)
    (auto simp: place_def grow_minspace_def Let_def split: list.splits if_splits nat.splits)

lemma forward_rebound: "forward p st = Ok (q, st') \<Longrightarrow> rebound st' = rebound st"
  by (auto simp: forward_def copy_def obind_Ok dest!: copy_rebound split: if_splits option.splits cell.splits gcobj.splits)

lemma forward_table_list:
  "forward_list (concat (map (\<lambda>(n, v). [n, v]) t)) st = Ok (map f (concat (map (\<lambda>(n, v). [n, v]) t)), st') \<Longrightarrow>
    forward_table t st = Ok (map (\<lambda>(n, v). (f n, f v)) t, st')"
  by (induction t st rule: forward_table.induct) (auto simp: obind_Ok)

lemma scan_fields:
  assumes "well_tagged ob" "forward_list (fields (rebound st) ob) st = Ok (map f (fields (rebound st) ob), st')"
  shows "scan ob st = Ok (map_ptrs (rebound st) f ob, st')"
  using assms by (cases ob) (auto simp: scan_defs obind_Ok dest: forward_rebound forward_table_list split: if_splits)

lemma fields_reached:
  assumes "a \<in> reach s" "p \<in> set (fields (rebound s) (obj_at s a))"
  shows "known s (sorted_list_of_set (reach s)) p"
  using reach.step [OF assms(1)] assms(2) by (auto simp: known_def finite_reach)

lemma scan_midway:
  assumes m: "midway s as i st" and i: "i < length as" and s: "sound s" "fits s"
  shows "\<exists>xs ob st'. memory st (next_addr s + i) = Some (Obj (obj_at s (as ! i))) \<and> scan (obj_at s (as ! i)) st = Ok (ob, st') \<and>
    goes_on s as i st xs st' \<and> midway s (as @ xs) (Suc i) (st'\<lparr>memory := (memory st')(next_addr s + i \<mapsto> Obj ob)\<rparr>)"
proof -
  let ?ob = "obj_at s (as ! i)" and ?rb = "rebound s"
  have r: "as ! i \<in> reach s" using m nth_mem [OF i] by (auto simp: midway_def)
  then have wt: "well_tagged ?ob" using s(1) reach_held by (auto simp: sound_def)
  have rb: "rebound st = ?rb" using m by (simp add: midway_def)
  obtain xs st' where f: "forward_list (fields ?rb ?ob) st = Ok (map (ren s (as @ xs)) (fields ?rb ?ob), st')"
      "goes_on s as i st xs st'" "\<forall>p \<in> set (fields ?rb ?ob). known s (as @ xs) p"
    using forward_list_midway [OF m s] fields_reached [OF r] by blast
  let ?new = "map_ptrs ?rb (ren s (as @ xs)) ?ob"
  have "scan ?ob st = Ok (?new, st')" using scan_fields [OF wt, of st "ren s (as @ xs)" st'] f(1) by (simp add: rb)
  moreover have "midway s (as @ xs) (Suc i) (st'\<lparr>memory := (memory st')(next_addr s + i \<mapsto> Obj ?new)\<rparr>)"
    unfolding midway_def
  proof (intro conjI allI impI ballI)
    fix k p assume k: "k < Suc i" "p \<in> set (fields ?rb (obj_at s ((as @ xs) ! k)))"
    then show "known s (as @ xs) p"
      using f(2,3) i by (cases "k = i") (auto simp: goes_on_def midway_def nth_append less_Suc_eq)
  next
    fix x assume "x < next_addr s"
    then show "memory (st'\<lparr>memory := (memory st')(next_addr s + i \<mapsto> Obj ?new)\<rparr>) x =
      (case moved s (as @ xs) x of Some b \<Rightarrow> Some (Forwarded b) | None \<Rightarrow> memory s x)"
      using f(2) by (simp add: goes_on_def midway_def)
  next
    fix k assume "k < length (as @ xs)"
    then show "memory (st'\<lparr>memory := (memory st')(next_addr s + i \<mapsto> Obj ?new)\<rparr>) (next_addr s + k) =
      Some (Obj (if k < Suc i then map_ptrs ?rb (ren s (as @ xs)) (obj_at s ((as @ xs) ! k)) else obj_at s ((as @ xs) ! k)))"
      using f(2) i by (cases "k = i") (auto simp: goes_on_def midway_def nth_append less_Suc_eq)
  qed (use f(2) i in \<open>auto simp: goes_on_def midway_def\<close>)
  moreover have "memory st (next_addr s + i) = Some (Obj ?ob)" using m i by (simp add: midway_def)
  ultimately show ?thesis using f(2) by blast
qed

lemma midway_length: "midway s as i st \<Longrightarrow> length as \<le> card (reach s)"
  using card_mono [OF finite_reach, of "set as"] by (auto simp: midway_def distinct_card)

lemma scan_objects_midway:
  "midway s as i st \<Longrightarrow> sound s \<Longrightarrow> fits s \<Longrightarrow> card (reach s) \<le> n + i \<Longrightarrow>
    \<exists>xs st'. scan_objects n 0 i st = Ok st' \<and> midway s (as @ xs) (length (as @ xs)) st' \<and>
      rootlist st' = rootlist st \<and> globalrootlist st' = globalrootlist st"
proof (induction n arbitrary: as i st)
  case (0 as i st)
  have "i = length as" using 0 midway_length [OF 0(1)] by (simp add: midway_def)
  then show ?case using 0
    by (intro exI [of _ "[]"] exI [of _ st]) (simp add: scan_objects.simps midway_def)
next
  case (Suc n as i st)
  show ?case
  proof (cases "i < length as")
    case False
    then have "i = length as" using Suc.prems(1) by (simp add: midway_def)
    then show ?thesis using Suc.prems(1)
      by (intro exI [of _ "[]"] exI [of _ st]) (simp add: scan_objects.simps midway_def)
  next
    case True
    from scan_midway [OF Suc.prems(1) True Suc.prems(2,3)] obtain xs ob st1
      where 1: "memory st (next_addr s + i) = Some (Obj (obj_at s (as ! i)))" "scan (obj_at s (as ! i)) st = Ok (ob, st1)"
        "goes_on s as i st xs st1" "midway s (as @ xs) (Suc i) (st1\<lparr>memory := (memory st1)(next_addr s + i \<mapsto> Obj ob)\<rparr>)" by blast
    let ?st2 = "st1\<lparr>memory := (memory st1)(next_addr s + i \<mapsto> Obj ob)\<rparr>"
    have "card (reach s) \<le> n + Suc i" using Suc.prems(4) by simp
    from Suc.IH [OF 1(4) Suc.prems(2,3) this] obtain ys st3 where 2: "scan_objects n 0 (Suc i) ?st2 = Ok st3"
      "midway s ((as @ xs) @ ys) (length ((as @ xs) @ ys)) st3" "rootlist st3 = rootlist ?st2" "globalrootlist st3 = globalrootlist ?st2" by blast
    have "new_spaces st = [\<lparr>current = sum_list (map (need s) as), top = ALIGN (minspace s),
       contents = [next_addr s..<next_addr s + length as]\<rparr>]" using Suc.prems(1) by (simp add: midway_def)
    then have "scan_objects (Suc n) 0 i st = Ok st3" using True 1(1,2) 2(1) by (simp add: scan_objects.simps)
    then show ?thesis using 1(3) 2 by (intro exI [of _ "xs @ ys"] exI [of _ st3]) (simp add: goes_on_def)
  qed
qed

text \<open>When everything that has been copied has been scanned, everything that can be reached has been copied.\<close>

lemma all_reached:
  assumes "midway s as (length as) st" "\<forall>p \<in> set (rootlist s @ globalrootlist s). known s as p"
  shows "set as = reach s"
proof
  show "reach s \<subseteq> set as"
  proof
    fix a assume "a \<in> reach s"
    then show "a \<in> set as"
    proof induction
      case (step a b)
      then obtain k where "k < length as" "a = as ! k" by (auto simp: in_set_conv_nth)
      then show ?case using step assms(1) by (auto simp: midway_def known_def)
    qed (use assms(2) in \<open>auto simp: known_def\<close>)
  qed
qed (use assms(1) in \<open>simp add: midway_def\<close>)

section \<open>What a collection keeps\<close>

text \<open>The pointer \<open>p\<close> after a collection that moves the object at \<open>a\<close> to \<open>f a\<close>.\<close>

definition follow :: "gcstate \<Rightarrow> (nat \<Rightarrow> nat) \<Rightarrow> ptr \<Rightarrow> ptr" where
  "follow s f p = (case p of Some a \<Rightarrow> if a \<in> held s then Some (f a) else p | None \<Rightarrow> None)"

text \<open>
  The state \<open>s'\<close> is \<open>s\<close> with the objects that can be reached, and no others, moved by \<open>f\<close> to one new space, and with every pointer
  to them changed accordingly.
\<close>

definition same_graph :: "gcstate \<Rightarrow> (nat \<Rightarrow> nat) \<Rightarrow> gcstate \<Rightarrow> bool" where
  "same_graph s f s' \<longleftrightarrow> inj_on f (reach s) \<and> held s' = f ` reach s \<and> length (new_spaces s') = 1 \<and>
     (\<forall>a \<in> reach s. obj_at s' (f a) = map_ptrs (rebound s) (follow s f) (obj_at s a)) \<and>
     rootlist s' = map (follow s f) (rootlist s) \<and> globalrootlist s' = map (follow s f) (globalrootlist s) \<and>
     (\<forall>a. a < next_addr s \<longrightarrow> memory s' a = (if a \<in> held s then None else memory s a))"

lemma set_objects: "a \<in> set (objects sps) \<longleftrightarrow> (\<exists>sp \<in> set sps. a \<in> set (contents sp))"
  by (simp add: objects_def)

lemma card_reach: "card (reach s) \<le> length (objects (new_spaces s))"
  using card_mono [OF _ reach_held, of s] card_length [of "objects (new_spaces s)"] by (simp add: held_def)

definition flip :: "gcstate \<Rightarrow> gcstate" where
  "flip s = s\<lparr>gcblocked := gcblocked s + 1, old_spaces := new_spaces s, new_spaces := [newspace (minspace s)]\<rparr>"

lemma midway_start: "midway s [] 0 (flip s)"
  by (simp add: midway_def flip_def newspace_def moved_def)

lemma midway_roots: "midway s as i (st\<lparr>rootlist := ps\<rparr>) = midway s as i st" "midway s as i (st\<lparr>globalrootlist := ps\<rparr>) = midway s as i st"
  by (simp_all add: midway_def)

lemma roots_reached: "p \<in> set (rootlist s @ globalrootlist s) \<Longrightarrow> known s (sorted_list_of_set (reach s)) p"
  using reach.root [of _ s] by (auto simp: known_def finite_reach)

text \<open>A collection up to the point where the old space is freed.\<close>

lemma traverse:
  assumes s: "sound s" "fits s"
  shows "\<exists>as st st1 st2. scanroots rootlist (\<lambda>ps st. st\<lparr>rootlist := ps\<rparr>) (flip s) = Ok st1 \<and>
    scanroots globalrootlist (\<lambda>ps st. st\<lparr>globalrootlist := ps\<rparr>) st1 = Ok st2 \<and>
    scanspace (Suc (length (objects (old_spaces st2)))) 0 st2 = Ok st \<and> midway s as (length as) st \<and> set as = reach s \<and>
    rootlist st = map (ren s as) (rootlist s) \<and> globalrootlist st = map (ren s as) (globalrootlist s)"
proof -
  let ?n = "length (objects (new_spaces s))"
  have "\<forall>p \<in> set (rootlist s). known s (sorted_list_of_set (reach s)) p" using roots_reached by auto
  from forward_list_midway [OF midway_start s this] obtain as st1
    where 1: "forward_list (rootlist s) (flip s) = Ok (map (ren s as) (rootlist s), st1)" "goes_on s [] 0 (flip s) as st1"
      "\<forall>p \<in> set (rootlist s). known s as p" by auto
  let ?st1 = "st1\<lparr>rootlist := map (ren s as) (rootlist s)\<rparr>"
  have m1: "midway s as 0 ?st1" using 1(2) by (simp add: goes_on_def midway_roots)
  have "\<forall>p \<in> set (globalrootlist s). known s (sorted_list_of_set (reach s)) p" using roots_reached by auto
  from forward_list_midway [OF m1 s this] obtain bs st2
    where 2: "forward_list (globalrootlist s) ?st1 = Ok (map (ren s (as @ bs)) (globalrootlist s), st2)" "goes_on s as 0 ?st1 bs st2"
      "\<forall>p \<in> set (globalrootlist s). known s (as @ bs) p" by blast
  let ?st2 = "st2\<lparr>globalrootlist := map (ren s (as @ bs)) (globalrootlist s)\<rparr>"
  have m2: "midway s (as @ bs) 0 ?st2" using 2(2) by (simp add: goes_on_def midway_roots)
  have "card (reach s) \<le> Suc ?n + 0" using card_reach [of s] by simp
  from scan_objects_midway [OF m2 s this] obtain cs st3 where 3: "scan_objects (Suc ?n) 0 0 ?st2 = Ok st3"
    "midway s ((as @ bs) @ cs) (length ((as @ bs) @ cs)) st3" "rootlist st3 = rootlist ?st2" "globalrootlist st3 = globalrootlist ?st2"
    by blast
  let ?as = "as @ bs @ cs"
  have sub: "set bs \<subseteq> reach s" "set cs \<subseteq> reach s" using 2(2) 3(2) by (auto simp: goes_on_def midway_def)
  have r: "ren s ?as p = ren s as p" "known s ?as p" if "p \<in> set (rootlist s)" for p
    using 1(3) that sub known_append [of s as p "bs @ cs"] ren_known [of s as p "bs @ cs"] by auto
  have g: "ren s ?as p = ren s (as @ bs) p" "known s ?as p" if "p \<in> set (globalrootlist s)" for p
    using 2(3) that sub known_append [of s "as @ bs" p cs] ren_known [of s "as @ bs" p cs] by auto
  have m3: "midway s ?as (length ?as) st3" using 3(2) by simp
  have all: "set ?as = reach s" by (rule all_reached [OF m3]) (use r g in auto)
  have old: "old_spaces ?st2 = new_spaces s" "length (new_spaces ?st2) = 1" "length (new_spaces st3) = 1"
    using m2 m3 by (simp_all add: midway_def)
  have sc: "scanspace (Suc ?n) 0 ?st2 = Ok st3"
    using old 3(1) by (subst scanspace.simps) (simp add: Let_def)
  have fl: "globalrootlist st1 = globalrootlist s" "rootlist (flip s) = rootlist s" "rootlist st2 = map (ren s as) (rootlist s)"
    using 1(2) 2(2) by (simp_all add: goes_on_def flip_def)
  show ?thesis
    using 1(1) 2(1) sc m3 all 3(3,4) fl old(1) r g
    by (intro exI [of _ ?as] exI [of _ st3] exI [of _ ?st1] exI [of _ ?st2]) (simp add: scanroots_def)
qed

lemma collect_eq:
  assumes s: "sound s" "fits s" "new_spaces s \<noteq> []" "old_spaces s = []"
  shows "\<exists>as st. collect s = Ok ((adjust_minspace (deprecate st))\<lparr>gcblocked := gcblocked s\<rparr>) \<and>
    midway s as (length as) st \<and> set as = reach s \<and>
    rootlist st = map (ren s as) (rootlist s) \<and> globalrootlist st = map (ren s as) (globalrootlist s)"
proof -
  from traverse [OF s(1,2)] obtain as st st1 st2 where t:
    "scanroots rootlist (\<lambda>ps st. st\<lparr>rootlist := ps\<rparr>) (flip s) = Ok st1"
    "scanroots globalrootlist (\<lambda>ps st. st\<lparr>globalrootlist := ps\<rparr>) st1 = Ok st2"
    "scanspace (Suc (length (objects (old_spaces st2)))) 0 st2 = Ok st" "midway s as (length as) st" "set as = reach s"
    "rootlist st = map (ren s as) (rootlist s)" "globalrootlist st = map (ren s as) (globalrootlist s)" by blast
  have "gcblocked (adjust_minspace (deprecate st)) = gcblocked s + 1"
    using t(4) by (simp add: midway_def adjust_minspace_def deprecate_def Let_def)
  then show ?thesis using t s(3,4) by (intro exI [of _ as] exI [of _ st]) (simp add: collect_def flip_def Let_def)
qed

lemma moved_inj: "inj_on (\<lambda>a. the (moved s as a)) (set as)" if "distinct as"
proof (rule inj_onI)
  fix x y assume xy: "x \<in> set as" "y \<in> set as" "the (moved s as x) = the (moved s as y)"
  then obtain j k where "j < length as" "x = as ! j" "k < length as" "y = as ! k" by (auto simp: in_set_conv_nth)
  then show "x = y" using xy(3) moved_nth [OF that, of j s] moved_nth [OF that, of k s] by simp
qed

lemma collected_graph:
  assumes m: "midway s as (length as) st" and all: "set as = reach s" and s: "sound s"
    and r: "rootlist st = map (ren s as) (rootlist s)" "globalrootlist st = map (ren s as) (globalrootlist s)"
  shows "same_graph s (\<lambda>a. the (moved s as a)) ((adjust_minspace (deprecate st))\<lparr>gcblocked := b\<rparr>)"
proof -
  let ?f = "\<lambda>a. the (moved s as a)" and ?s' = "(adjust_minspace (deprecate st))\<lparr>gcblocked := b\<rparr>"
  have dis: "distinct as" using m by (simp add: midway_def)
  have mv: "moved s as (as ! k) = Some (next_addr s + k)" if "k < length as" for k by (rule moved_nth [OF dis that])
  have adj: "new_spaces ?s' = new_spaces st" "memory ?s' = memory (deprecate st)" "rootlist ?s' = rootlist st"
    "globalrootlist ?s' = globalrootlist st"
    by (simp_all add: adjust_minspace_def deprecate_def Let_def)
  have dep: "memory ?s' a = (if a \<in> held s then None else memory st a)" for a
    using m adj(2) by (simp add: deprecate_def midway_def held_def)
  have high: "next_addr s + k \<notin> held s" for k using s by (auto simp: sound_def dest: bspec [of _ _ "next_addr s + k"])
  have ns: "new_spaces st = [\<lparr>current = sum_list (map (need s) as), top = ALIGN (minspace s),
      contents = [next_addr s..<next_addr s + length as]\<rparr>]" using m by (simp add: midway_def)
  have ren: "ren s as p = follow s ?f p" if "known s as p" for p
  proof (cases p)
    case (Some a)
    then show ?thesis using that all reach_held [of s] moved_None [of s as a]
      by (auto simp: ren_def follow_def known_def split: option.split)
  qed (simp add: ren_def follow_def)
  have "held ?s' = {next_addr s..<next_addr s + length as}" using adj(1) ns by (simp add: held_def objects_def)
  also have "\<dots> = ?f ` set as"
    using mv by (force simp: in_set_conv_nth image_iff dest: le_Suc_ex [of "next_addr s"])
  finally have held: "held ?s' = ?f ` reach s" using all by simp
  have objs: "obj_at ?s' (?f a) = map_ptrs (rebound s) (follow s ?f) (obj_at s a)" if "a \<in> reach s" for a
  proof -
    from that all obtain k where k: "k < length as" "a = as ! k" by (metis in_set_conv_nth)
    have "memory st (next_addr s + k) = Some (Obj (map_ptrs (rebound s) (ren s as) (obj_at s a)))" using m k by (simp add: midway_def)
    moreover have "map_ptrs (rebound s) (ren s as) (obj_at s a) = map_ptrs (rebound s) (follow s ?f) (obj_at s a)"
      by (rule map_ptrs_cong, rule ren) (use m k in \<open>simp add: midway_def\<close>)
    ultimately show ?thesis using k mv dep high by (simp add: obj_at_def)
  qed
  have known: "known s as p" if "p \<in> set (rootlist s @ globalrootlist s)" for p
    using roots_reached [OF that] all by (auto simp: known_def finite_reach)
  have low: "memory ?s' a = (if a \<in> held s then None else memory s a)" if "a < next_addr s" for a
    using that m dep [of a] all reach_held [of s] moved_None [of s as a] by (auto simp: midway_def)
  show ?thesis
    unfolding same_graph_def using moved_inj [OF dis, of s] all held adj ns objs r known ren low by auto
qed

lemma gc_eq:
  assumes s: "sound s" "fits s" "new_spaces s \<noteq> []" "old_spaces s = []" "gcblocked s = 0"
  shows "\<exists>f s'. gc n s = Ok s' \<and> same_graph s f s' \<and> gcblocked s' = 0 \<and> old_spaces s' = [] \<and>
    current (hd (new_spaces s')) = (\<Sum>a \<in> reach s. need s a) \<and> top (hd (new_spaces s')) = ALIGN (minspace s)"
proof -
  from collect_eq [OF s(1-4)] obtain as st where c: "collect s = Ok ((adjust_minspace (deprecate st))\<lparr>gcblocked := gcblocked s\<rparr>)"
    "midway s as (length as) st" "set as = reach s"
    "rootlist st = map (ren s as) (rootlist s)" "globalrootlist st = map (ren s as) (globalrootlist s)" by blast
  let ?s' = "(adjust_minspace (deprecate st))\<lparr>gcblocked := gcblocked s\<rparr>"
  have ns: "new_spaces ?s' = [\<lparr>current = sum_list (map (need s) as), top = ALIGN (minspace s),
      contents = [next_addr s..<next_addr s + length as]\<rparr>]" "old_spaces ?s' = []"
    using c(2) by (simp_all add: midway_def adjust_minspace_def deprecate_def Let_def)
  have "distinct as" using c(2) by (simp add: midway_def)
  then have "sum_list (map (need s) as) = (\<Sum>a \<in> reach s. need s a)" by (simp add: sum_list_distinct_conv_sum_set c(3))
  moreover have "gc n s = Ok ?s'" using c(1) s(5) ns by (subst gc.simps) simp
  ultimately show ?thesis using collected_graph [OF c(2,3) s(1) c(4,5), of "gcblocked s"] s(5) ns
    by (intro exI [of _ "\<lambda>a. the (moved s as a)"] exI [of _ ?s']) simp
qed

lemma same_graph_sound:
  assumes "same_graph s f s'" "sound s" "\<forall>a \<in> held s'. a < next_addr s'"
  shows "sound s'"
proof -
  have w: "well_tagged (map_ptrs rb g ob) = well_tagged ob" for rb g ob by (cases ob) auto
  show ?thesis using assms reach_held [of s] by (auto simp: sound_def same_graph_def w)
qed

section \<open>Properties\<close>

text \<open>
  C7: a collection keeps the graph of the objects that can be reached from the roots: each is copied once, with its
  pointers and the roots changed to the copies, objects that cannot be reached are not copied, the old space
  is freed, and the rest of the memory stays as it is. This holds when what can be reached fits in one space.
\<close>

theorem gc_keeps_reachable:
  assumes "sound s" "fits s" "new_spaces s \<noteq> []" "old_spaces s = []" "gcblocked s = 0"
  shows "\<exists>f s'. gc n s = Ok s' \<and> same_graph s f s' \<and> gcblocked s' = 0 \<and> old_spaces s' = []"
  using gc_eq [OF assms, of n] by (elim exE conjE) (intro exI conjI)

text \<open>
  Allocation when the space is full collects, keeps the graph, and places the new object in the room that
  was gained.
\<close>

theorem gcalloc_collects:
  assumes s: "sound s" "new_spaces s = sp # sps" "old_spaces s = []" "gcblocked s = 0"
    and full: "top sp < current sp + room_for (nbytes ob)"
    and room: "(\<Sum>a \<in> reach s. need s a) + room_for (nbytes ob) \<le> ALIGN (minspace (grow_minspace (nbytes ob) s))"
  shows "\<exists>f s' b st'. same_graph s f s' \<and> gcalloc (Suc n) ob s = Ok (b, st') \<and> place ob (hd (new_spaces s')) [] s' = (b, st')"
proof -
  let ?s = "grow_minspace (nbytes ob) s"
  have g: "held ?s = held s" "rootlist ?s = rootlist s" "globalrootlist ?s = globalrootlist s" "rebound ?s = rebound s"
    "memory ?s = memory s" "next_addr ?s = next_addr s" "new_spaces ?s = sp # sps" "old_spaces ?s = []" "gcblocked ?s = 0"
    using s by (simp_all add: grow_minspace_def held_def)
  have o: "obj_at ?s a = obj_at s a" "need ?s a = need s a" for a using g by (simp_all add: obj_at_def need_def)
  have "x \<in> reach ?s \<longleftrightarrow> x \<in> reach s" for x
  proof
    assume "x \<in> reach ?s" then show "x \<in> reach s" by induction (auto simp: g o intro: reach.intros)
  next
    assume "x \<in> reach s" then show "x \<in> reach ?s" by induction (auto simp: g o intro: reach.intros)
  qed
  then have r: "reach ?s = reach s" by blast
  have fits: "fits ?s" using room by (simp add: fits_def r o)
  have sound: "sound ?s" using s(1) by (simp add: sound_def g o)
  from gc_eq [OF sound fits, of "Suc n"] obtain f s' where gc: "gc (Suc n) ?s = Ok s'" "same_graph ?s f s'"
    "current (hd (new_spaces s')) = (\<Sum>a \<in> reach s. need s a)" "top (hd (new_spaces s')) = ALIGN (minspace ?s)"
    by (auto simp: g r o)
  have "follow ?s f = follow s f" by (rule ext) (simp only: follow_def g(1))
  then have same: "same_graph s f s'" using gc(2) by (simp add: same_graph_def g r o)
  then have "tl (new_spaces s') = []" "new_spaces s' \<noteq> []" by (auto simp: same_graph_def length_Suc_conv)
  then have ns: "new_spaces s' = [hd (new_spaces s')]" by (cases "new_spaces s'") auto
  have "gcalloc n ob s' = Ok (place ob (hd (new_spaces s')) [] s')"
    using gc(3,4) room by (subst gcalloc.simps, subst ns) simp
  then have "gcalloc (Suc n) ob s = Ok (place ob (hd (new_spaces s')) [] s')"
    using s full gc(1) by (subst gcalloc.simps) (simp add: g)
  then show ?thesis using same by (intro exI [of _ f] exI [of _ s'] exI conjI) (auto simp: place_def)
qed

text \<open>The loop of allocation while collections are blocked.\<close>

lemma gcalloc_loops:
  assumes "gcblocked st > 0" "new_spaces st = sp # sps" "top sp < current sp + room_for (nbytes ob)"
    and "nbytes ob \<le> minspace st" "ALIGN (minspace st) < room_for (nbytes ob)"
  shows "gcalloc n ob st = Throw OutOfFuel"
  using assms
proof (induction n arbitrary: st sp sps)
  case (Suc n)
  have "gcalloc n ob (st\<lparr>new_spaces := newspace (minspace st) # sp # sps\<rparr>) = Throw OutOfFuel"
    by (rule Suc.IH [of _ "newspace (minspace st)" "sp # sps"]) (use Suc.prems in \<open>auto simp: newspace_def\<close>)
  then show ?case using Suc.prems by (subst gcalloc.simps) (simp add: grow_minspace_def)
qed (subst gcalloc.simps, simp add: grow_minspace_def)

text \<open>
  C9: while collections are blocked, an object that does not fit goes to one new space. But the test for the size
  of the new space leaves out the tag: an object that fits in a space of \<open>minspace\<close> bytes only without its tag makes
  \<open>gcalloc\<close> allocate space after space for ever.
\<close>

theorem gcalloc_blocked_ends:
  assumes "gcblocked st > 0" "new_spaces st = sp # sps" "top sp < current sp + room_for (nbytes ob)"
  shows "if nbytes ob \<le> minspace st \<and> ALIGN (minspace st) < room_for (nbytes ob)
    then \<forall>n. gcalloc n ob st = Throw OutOfFuel
    else \<forall>n. gcalloc (Suc n) ob st = Ok (place ob (newspace (minspace (grow_minspace (nbytes ob) st))) (sp # sps)
        (grow_minspace (nbytes ob) st\<lparr>new_spaces := newspace (minspace (grow_minspace (nbytes ob) st)) # sp # sps\<rparr>))"
proof (cases "nbytes ob \<le> minspace st \<and> ALIGN (minspace st) < room_for (nbytes ob)")
  case True
  then show ?thesis using gcalloc_loops [OF assms] by simp
next
  case False
  let ?m = "minspace (grow_minspace (nbytes ob) st)"
  have "room_for (nbytes ob) \<le> ALIGN ?m" using False by (auto simp: grow_minspace_def room_for_def not_le)
  then have "gcalloc n ob (grow_minspace (nbytes ob) st\<lparr>new_spaces := newspace ?m # sp # sps\<rparr>) =
      Ok (place ob (newspace ?m) (sp # sps) (grow_minspace (nbytes ob) st\<lparr>new_spaces := newspace ?m # sp # sps\<rparr>))" for n
    by (subst gcalloc.simps) (simp add: newspace_def)
  moreover have "gcblocked (grow_minspace (nbytes ob) st) \<noteq> 0" "new_spaces (grow_minspace (nbytes ob) st) = sp # sps"
    using assms(1,2) by (auto simp: grow_minspace_def)
  ultimately have "gcalloc (Suc n) ob st = Ok (place ob (newspace ?m) (sp # sps) (grow_minspace (nbytes ob) st\<lparr>new_spaces := newspace ?m # sp # sps\<rparr>))"
    for n using assms(2,3) by (subst gcalloc.simps) (simp add: Let_def)
  then show ?thesis using False by (simp only: if_False simp_thms)
qed

lemma gc_string_root:
  assumes s: "sound st" "fits st" "new_spaces st \<noteq> []" "old_spaces st = []" "gcblocked st = 0"
    and r: "rootlist st = Some b # rs" "b \<in> held st" "obj_at st b = GString t"
  shows "\<exists>a st'. gc n st = Ok st' \<and> hd (rootlist st') = Some a \<and> memory st' a = Some (Obj (GString t)) \<and> rootlist st' \<noteq> []"
proof -
  from gc_eq [OF s] obtain f st' where g: "gc n st = Ok st'" "same_graph st f st'" by blast
  have "b \<in> reach st" by (rule reach.root) (use r in auto)
  then have "obj_at st' (f b) = GString t" using g(2) r(3) by (simp add: same_graph_def)
  then have "memory st' (f b) = Some (Obj (GString t))" by (simp add: obj_at_def split: option.splits cell.splits)
  moreover have "rootlist st' = Some (f b) # map (follow st f) rs" using g(2) r(1,2) by (simp add: same_graph_def follow_def)
  ultimately show ?thesis using g(1) by (intro exI [of _ "f b"] exI [of _ st']) simp
qed

text \<open>A new object that nothing points to but a root.\<close>

lemma new_root:
  assumes s: "sound st" and st': "memory st' = (memory st)(next_addr st \<mapsto> Obj ob)" "held st' = insert (next_addr st) (held st)"
      "rootlist st' = Some (next_addr st) # rootlist st" "globalrootlist st' = globalrootlist st" "rebound st' = rebound st"
      "next_addr st' = Suc (next_addr st)"
    and ob: "fields (rebound st) ob = []" "well_tagged ob"
  shows "sound st'" "reach st' \<subseteq> insert (next_addr st) (reach st)" "(\<Sum>a \<in> reach st'. need st' a) \<le> (\<Sum>a \<in> reach st. need st a) + room_for (nbytes ob)"
proof -
  let ?b = "next_addr st"
  have new: "?b \<notin> held st" using s by (auto simp: sound_def)
  have o: "obj_at st' ?b = ob" "a \<noteq> ?b \<Longrightarrow> obj_at st' a = obj_at st a" for a using st'(1) by (auto simp: obj_at_def)
  show "sound st'" using s ob(2) o st'(2,6) by (auto simp: sound_def less_Suc_eq)
  show sub: "reach st' \<subseteq> insert ?b (reach st)"
  proof
    fix x assume "x \<in> reach st'"
    then show "x \<in> insert ?b (reach st)"
    proof induction
      case (root a)
      then show ?case using st' by (auto intro: reach.root)
    next
      case (step a c)
      then show ?case using st' o ob(1) by (cases "a = ?b") (auto intro: reach.step)
    qed
  qed
  have "(\<Sum>a \<in> reach st'. need st' a) \<le> (\<Sum>a \<in> insert ?b (reach st). need st' a)"
    by (rule sum_mono2) (use sub finite_reach in auto)
  also have "\<dots> = need st' ?b + (\<Sum>a \<in> reach st. need st' a)"
    using new reach_held [of st] finite_reach by (subst sum.insert) auto
  also have "(\<Sum>a \<in> reach st. need st' a) = (\<Sum>a \<in> reach st. need st a)"
  proof (rule sum.cong)
    fix x assume "x \<in> reach st"
    then have "x \<noteq> ?b" using new reach_held [of st] by blast
    then show "need st' x = need st x" by (simp add: need_def o)
  qed simp
  finally show "(\<Sum>a \<in> reach st'. need st' a) \<le> (\<Sum>a \<in> reach st. need st a) + room_for (nbytes ob)"
    by (simp add: need_def o)
qed

text \<open>
  C8: a string that is made with collections blocked is there when they are enabled again: when that collects, the
  result is the address to which the root was changed.
\<close>

theorem gcndup_makes_string:
  assumes s: "sound st" "new_spaces st = sp # sps" "old_spaces st = []" "gcblocked st = 0" "nul \<notin> set t"
    and room: "(\<Sum>a \<in> reach st. need st a) + room_for (length t + 1) \<le> ALIGN (minspace st)"
  shows "\<exists>a st'. gcndup (Suc n) t st = Ok (Some a, st') \<and> memory st' a = Some (Obj (GString t))"
proof -
  let ?b = "next_addr st" and ?r = "room_for (length t + 1)" and ?m = "memory st"
  let ?ready = "\<lambda>st'. held st' = insert ?b (held st) \<and> memory st' = ?m(?b \<mapsto> Obj (GString t)) \<and> gcblocked st' = 1 \<and>
    next_addr st' = Suc ?b \<and> rootlist st' = rootlist st \<and> globalrootlist st' = globalrootlist st \<and> rebound st' = rebound st \<and>
    old_spaces st' = [] \<and> new_spaces st' \<noteq> [] \<and> minspace st' = minspace st"
  have fit: "?r \<le> ALIGN (minspace st)" using room by simp
  then have small: "grow_minspace (length t + 1) st' = st'" if "minspace st' = minspace st" for st'
    using that by (auto simp: grow_minspace_def room_for_def ALIGN_def)
  have "\<exists>st'. gcalloc (Suc n) (GString t) (st\<lparr>gcblocked := 1\<rparr>) = Ok (?b, st') \<and> ?ready st'"
    using s(2,3) fit small [of "st\<lparr>gcblocked := 1\<rparr>"]
    by (subst gcalloc.simps, cases n) (auto simp: gcalloc.simps place_def held_def objects_def newspace_def)
  then obtain st1 where g: "gcalloc (Suc n) (GString t) (st\<lparr>gcblocked := 1\<rparr>) = Ok (?b, st1)" "?ready st1" by blast
  let ?st2 = "st1\<lparr>rootlist := Some ?b # rootlist st, gcblocked := 0\<rparr>"
  have h: "held ?st2 = insert ?b (held st)" using g(2) by (simp add: held_def)
  have f: "fields rb (GString t) = []" "well_tagged (GString t)" for rb by simp_all
  have n: "sound ?st2" "(\<Sum>a \<in> reach ?st2. need ?st2 a) \<le> (\<Sum>a \<in> reach st. need st a) + ?r"
    using new_root [OF s(1), of ?st2 "GString t"] h g(2) by simp_all
  have fits: "fits ?st2" using n(2) room g(2) by (simp add: fits_def)
  have o: "obj_at ?st2 ?b = GString t" using g(2) by (simp add: obj_at_def)
  obtain a st3 where 3: "gc (Suc n) ?st2 = Ok st3" "hd (rootlist st3) = Some a" "memory st3 a = Some (Obj (GString t))"
    using gc_string_root [OF n(1) fits, of ?b "rootlist st" t "Suc n"] g(2) h o by auto
  have dis: "gcdisable st = Ok (st\<lparr>gcblocked := 1\<rparr>)" using s(4) by (simp add: gcdisable_def)
  have en: "gcenable (Suc n) (st1\<lparr>rootlist := Some ?b # rootlist st1\<rparr>) = (if tl (new_spaces st1) = [] then Ok ?st2 else Ok st3)"
    using g(2) 3(1) by (simp add: gcenable_def Let_def)
  show ?thesis
  proof (cases "tl (new_spaces st1) = []")
    case True
    then show ?thesis using dis g s(5) en by (simp add: gcndup_def)
  next
    case False
    then show ?thesis using dis g s(5) en 3 by (simp add: gcndup_def)
  qed
qed


section \<open>Examples\<close>

text \<open>A term in a list that a binding refers to, and a string that nothing refers to.\<close>

definition small_heap :: gcstate where
  "small_heap = initgc
     \<lparr>memory := [0 \<mapsto> Obj (GString ''junk''), 1 \<mapsto> Obj (GTerm (Some 9) None), 2 \<mapsto> Obj (GList (Some 1) None),
        3 \<mapsto> Obj (GBinding (Some 9) (Some 2) (Some 3))], next_addr := 4,
      new_spaces := [\<lparr>current = 96, top = 100, contents = [0, 1, 2, 3]\<rparr>], rootlist := [Some 3, None, Some 9], globalrootlist := [Some 2]\<rparr>"

lemma small_heap_held: "held small_heap = {0, 1, 2, 3}"
  by (auto simp: held_def small_heap_def objects_def)

lemma small_heap_sound: "sound small_heap"
  by (auto simp: sound_def small_heap_held) (auto simp: small_heap_def obj_at_def)

lemma small_heap_need: "need small_heap a \<le> 32"
  by (simp add: need_def obj_at_def small_heap_def initgc_def room_for_def ALIGN_def)

lemma small_heap_reach: "(\<Sum>a \<in> reach small_heap. need small_heap a) \<le> 128"
proof -
  have "card (reach small_heap) \<le> 4" using card_mono [OF _ reach_held, of small_heap] by (simp add: small_heap_held)
  moreover have "(\<Sum>a \<in> reach small_heap. need small_heap a) \<le> of_nat (card (reach small_heap)) * 32"
    by (rule sum_bounded_above) (rule small_heap_need)
  ultimately show ?thesis by simp
qed

lemma small_heap_fits: "fits small_heap"
proof -
  have "minspace small_heap = 10000" by (simp add: small_heap_def initgc_def MIN_minspace_def)
  then show ?thesis using small_heap_reach by (simp add: fits_def ALIGN_def)
qed

lemma gc_keeps_reachable_witness: "\<exists>f s'. gc 0 small_heap = Ok s' \<and> same_graph small_heap f s' \<and> gcblocked s' = 0 \<and> old_spaces s' = []"
  by (rule gc_keeps_reachable [OF small_heap_sound small_heap_fits]) (simp_all add: small_heap_def initgc_def)

lemma gcalloc_collects_witness:
  "\<exists>f s' b st'. same_graph small_heap f s' \<and> gcalloc (Suc 0) (GString ''new'') small_heap = Ok (b, st') \<and>
     place (GString ''new'') (hd (new_spaces s')) [] s' = (b, st')"
proof (rule gcalloc_collects [OF small_heap_sound])
  show "new_spaces small_heap = \<lparr>current = 96, top = 100, contents = [0, 1, 2, 3]\<rparr> # []" by (simp add: small_heap_def)
  have "minspace small_heap = 10000" by (simp add: small_heap_def initgc_def MIN_minspace_def)
  then show "(\<Sum>a \<in> reach small_heap. need small_heap a) + room_for (nbytes (GString ''new'')) \<le>
      ALIGN (minspace (grow_minspace (nbytes (GString ''new'')) small_heap))"
    using small_heap_reach by (simp add: grow_minspace_def room_for_def ALIGN_def)
qed (simp_all add: small_heap_def initgc_def room_for_def ALIGN_def)

lemma gcalloc_blocked_ends_witness:
  "(\<forall>n. gcalloc n (GUntagged 9996) (initgc\<lparr>gcblocked := 1\<rparr>) = Throw OutOfFuel) \<and>
   (\<forall>n. gcalloc (Suc n) (GUntagged 10010) (initgc\<lparr>gcblocked := 1\<rparr>) =
     Ok (place (GUntagged 10010) (newspace 10018) [newspace 10000]
       (initgc\<lparr>gcblocked := 1, minspace := 10018, new_spaces := [newspace 10018, newspace 10000]\<rparr>)))"
  using gcalloc_blocked_ends [of "initgc\<lparr>gcblocked := 1\<rparr>" "newspace 10000" "[]" "GUntagged 9996"]
    gcalloc_blocked_ends [of "initgc\<lparr>gcblocked := 1\<rparr>" "newspace 10000" "[]" "GUntagged 10010"]
  by (simp add: initgc_def newspace_def room_for_def ALIGN_def grow_minspace_def MIN_minspace_def)

lemma gcndup_makes_string_witness:
  "\<exists>a st'. gcndup (Suc 0) ''x'' small_heap = Ok (Some a, st') \<and> memory st' a = Some (Obj (GString ''x''))"
proof (rule gcndup_makes_string [OF small_heap_sound])
  have "minspace small_heap = 10000" by (simp add: small_heap_def initgc_def MIN_minspace_def)
  then show "(\<Sum>a \<in> reach small_heap. need small_heap a) + room_for (length ''x'' + 1) \<le> ALIGN (minspace small_heap)"
    using small_heap_reach by (simp add: room_for_def ALIGN_def)
qed (simp_all add: small_heap_def initgc_def nul_def)

section \<open>A collection that does not fit\<close>

text \<open>What a shell makes while collections are blocked, from its start on: a long string, a term, a list of it, and a binding to the list.\<close>

definition spilling_heap :: "string \<Rightarrow> gcstate gcrun" where
  "spilling_heap t =
     obind (gcdisable initgc) (\<lambda>st. obind (gcalloc 1 (GTerm None None) st) (\<lambda>(a, st).
     obind (gcalloc 1 (GList (Some a) None) st) (\<lambda>(b, st). obind (gcalloc 1 (GBinding None (Some b) None) st) (\<lambda>(c, st).
     obind (gcalloc 1 (GString t) st) (\<lambda>(d, st). Ok (st\<lparr>rootlist := [Some c, Some d]\<rparr>))))))"

text \<open>
  C10: when the objects do not fit in one space, a collection can lose objects that are reachable: \<open>scanspace\<close> does not
  come back to a space that grows while it scans an older one. Here the list stays in use, but its pointer
  is that of the old term, whose memory is free.
\<close>

theorem gc_loses_object:
  assumes "length t = 9967"
  shows "\<exists>st st' b c. spilling_heap t = Ok st \<and> memory st 0 = Some (Obj (GTerm None None)) \<and> gcenable 2 st = Ok st' \<and>
    hd (rootlist st') = Some c \<and> memory st' c = Some (Obj (GBinding None (Some b) None)) \<and>
    memory st' b = Some (Obj (GList (Some 0) None)) \<and> memory st' 0 = None"
proof -
  let ?A = "\<lparr>current = 80, top = 10000, contents = [0, 1, 2]\<rparr>" and ?B = "\<lparr>current = 9976, top = 10000, contents = [3]\<rparr>"
  let ?m = "[0 \<mapsto> Obj (GTerm None None), 1 \<mapsto> Obj (GList (Some 0) None), 2 \<mapsto> Obj (GBinding None (Some 1) None), 3 \<mapsto> Obj (GString t)]"
  let ?st = "initgc\<lparr>memory := ?m, next_addr := 4, new_spaces := [?B, ?A], gcblocked := 1, rootlist := [Some 2, Some 3]\<rparr>"
  have r: "room_for 9968 = 9976" "room_for 16 = 24" "room_for 24 = 32" "ALIGN 10000 = 10000"
    using assms by (simp_all add: room_for_def ALIGN_def)
  have nums: "(2::nat) = Suc (Suc 0)" "(3::nat) = Suc (Suc (Suc 0))" "(4::nat) = Suc (Suc (Suc (Suc 0)))" by simp_all
  have 1: "spilling_heap t = Ok ?st"
    by (simp add: spilling_heap_def gcdisable_def initgc_def gcalloc.simps place_def newspace_def MIN_minspace_def
        grow_minspace_def assms r nums)
  let ?A1 = "\<lparr>current = 32, top = 10000, contents = [4]\<rparr>" and ?B1 = "\<lparr>current = 10000, top = 10000, contents = [5, 6]\<rparr>"
  let ?m1 = "[4 \<mapsto> Obj (GBinding None (Some 6) None), 5 \<mapsto> Obj (GString t), 6 \<mapsto> Obj (GList (Some 0) None)]"
  let ?st1 = "initgc\<lparr>memory := ?m1, next_addr := 7, minspace := 40128, new_spaces := [?B1, ?A1], rootlist := [Some 4, Some 5]\<rparr>"
  note run = collect_def scanroots_def forward_def isinspace_def copy_def gcalloc_blocked.simps place_def newspace_def
    initgc_def MIN_minspace_def grow_minspace_def assms r objects_def scanspace.simps scan_objects.simps
    scan_defs deprecate_def adjust_minspace_def Let_def
  have 2: "collect (?st\<lparr>gcblocked := 0\<rparr>) = Ok ?st1"
    by (simp add: run) (auto simp: fun_eq_iff)
  let ?m2 = "[7 \<mapsto> Obj (GBinding None (Some 9) None), 8 \<mapsto> Obj (GString t), 9 \<mapsto> Obj (GList (Some 0) None)]"
  let ?st2 = "initgc\<lparr>memory := ?m2, next_addr := 10, minspace := 40128,
    new_spaces := [\<lparr>current = 10032, top = 40128, contents = [7, 8, 9]\<rparr>], rootlist := [Some 7, Some 8]\<rparr>"
  have "ALIGN 40128 = 40128" by (simp add: ALIGN_def)
  then have 3: "collect ?st1 = Ok ?st2"
    by (simp add: run) (auto simp: fun_eq_iff)
  have "gcenable 2 ?st = Ok ?st2"
    using 2 3 by (simp add: gcenable_def gc.simps initgc_def)
  then show ?thesis using 1
    by (intro exI [of _ ?st] exI [of _ ?st2] exI [of _ 9] exI [of _ 7]) simp
qed

lemma gc_loses_object_witness:
  "\<exists>t st st' b. spilling_heap t = Ok st \<and> memory st 0 \<noteq> None \<and> gcenable 2 st = Ok st' \<and>
    memory st' b = Some (Obj (GList (Some 0) None)) \<and> memory st' 0 = None"
  using gc_loses_object [OF length_replicate [of 9967 "CHR ''a''"]]
  by (elim exE conjE) (intro exI conjI, assumption, simp, assumption+)

end
