(* ===== verification/Input.thy ===== *)
theory Input
  imports Vars Token
begin

text \<open>
  Input, \<open>src/input.cpp\<close>: the buffers of an input source with the characters that are pushed back, the frames in which a
  source is parsed or run, the command that is made to complete a word, and the loop that reads a line. The
  bytes of a buffer are counted from \<open>bufbegin\<close>. What the files and the line editor, a library, answer is a sequence that the
  input carries; what the parser and the evaluator do is an argument.
\<close>

section \<open>Sources\<close>

text \<open>The functions a source is filled by.\<close>

datatype filler = FdFill | StringFill | EofFill | UngetFill

text \<open>The functions that clean up behind a source.\<close>

datatype cleaner = FdCleanup | StringCleanup

text \<open>
  What a call of \<open>eread\<close> or \<open>tty_read\<close> returns: some bytes, the end, an error with its message, that a signal came in between, or
  that an interrupt was typed in a line. With each comes the exception that \<open>SIGCHK\<close> throws then, if it does.
\<close>

datatype answer = Data string | AtEnd | Failed string | Interrupted | Ctrl_C

type_synonym answers = "(answer \<times> terms option) list"

definition MAXUNGET :: nat where "MAXUNGET = 2"
definition BUFSIZE :: nat where "BUFSIZE = 1024"

definition RUN_INTERACTIVE :: int where "RUN_INTERACTIVE = 4"
definition RUN_NOEXEC :: int where "RUN_NOEXEC = 8"
definition RUN_ECHOINPUT :: int where "RUN_ECHOINPUT = 16"
definition RUN_PRINTCMDS :: int where "RUN_PRINTCMDS = 32"
definition RUN_INTERRUPT :: int where "RUN_INTERRUPT = 128"

text \<open>
  An input; \<^const>\<open>None\<close> among the characters that are pushed back is \<open>EOF\<close>, and the last one is the first to come again.
  What is written to the standard error output is in \<open>shown\<close> (the echo) and \<open>warnings\<close>.
\<close>

record input =
  verbose :: bool
  fill :: filler
  rfill :: "filler option"
  cleaner :: cleaner
  iname :: string
  bytes :: string
  buf :: nat
  bufend :: nat
  rbuf :: "nat option"
  buflen :: nat
  ungets :: "char option list"
  ilineno :: nat
  ifd :: int
  runflags :: int
  source :: answers
  shown :: string
  warnings :: "string list"

type_synonym 'a irun = "(input, 'a) run"

definition locate :: "input \<Rightarrow> string \<Rightarrow> string" where
  "locate i s =
     (if runflags i AND RUN_INTERACTIVE \<noteq> 0 then s
      else iname i @ '':'' @ show_nat (ilineno i) @ '': '' @ s)"

definition warn :: "string \<Rightarrow> input \<Rightarrow> input" where
  "warn s i = i\<lparr>warnings := warnings i @ [''warning: '' @ locate i s]\<rparr>"

section \<open>Pushing back\<close>

definition ungetfill :: "input \<Rightarrow> char option irun" where
  "ungetfill i =
     (if ungets i = [] then Abort
      else
        let c = List.last (ungets i); i = i\<lparr>ungets := butlast (ungets i)\<rparr> in
        if ungets i \<noteq> [] then Ok (c, i)
        else case (rfill i, rbuf i) of
            (Some f, Some b) \<Rightarrow> Ok (c, i\<lparr>fill := f, rfill := None, buf := b, rbuf := None\<rparr>)
          | _ \<Rightarrow> Abort)"

text \<open>The flags \<open>g\<close> are those of the global \<open>input\<close>.\<close>

definition unget :: "int \<Rightarrow> char option \<Rightarrow> input \<Rightarrow> (stop \<times> input, input) outcome_of" where
  "unget g c i =
     (if ungets i \<noteq> [] then
        (if length (ungets i) < MAXUNGET then Ok (i\<lparr>ungets := ungets i @ [c]\<rparr>) else Abort)
      else if 0 < buf i \<and> c = Some (bytes i ! (buf i - 1)) \<and> g AND RUN_ECHOINPUT = 0 then Ok (i\<lparr>buf := buf i - 1\<rparr>)
      else if rfill i \<noteq> None \<or> rbuf i \<noteq> None then Abort
      else Ok (i\<lparr>rfill := Some (fill i), fill := UngetFill, rbuf := Some (buf i), buf := bufend i, ungets := [c]\<rparr>))"

section \<open>Filling\<close>

definition eoffill :: "input \<Rightarrow> char option irun" where
  "eoffill i = (if ifd i = -1 then Ok (None, i) else Abort)"

definition stringfill :: "input \<Rightarrow> char option irun" where
  "stringfill i = Ok (None, i\<lparr>fill := EofFill\<rparr>)"

text \<open>The room of the buffer, doubled until a line fits.\<close>

function grow :: "nat \<Rightarrow> nat \<Rightarrow> nat" where
  "grow n len = (if 0 < n \<and> n < len then grow (n * 2) len else n)"
  by auto
termination by (relation "measure (\<lambda>(n, len). len - n)") auto

declare grow.simps [simp del]

definition end_of_file :: "input \<Rightarrow> input" where
  "end_of_file i = i\<lparr>ifd := -1, fill := EofFill, runflags := runflags i AND NOT RUN_INTERACTIVE\<rparr>"

definition filled :: "string \<Rightarrow> input \<Rightarrow> char option irun" where
  "filled s i = Ok (Some (hd s), i\<lparr>bytes := s, buf := 1, bufend := length s\<rparr>)"

text \<open>
  The bytes that a call gives, and the input behind the call. A file gives at most as many bytes as the buffer has
  room for and the others later; for a line the buffer grows.
\<close>

definition from_tty :: "input \<Rightarrow> bool" where
  "from_tty i \<longleftrightarrow> runflags i AND RUN_INTERACTIVE \<noteq> 0"

definition given :: "input \<Rightarrow> string \<Rightarrow> string" where
  "given i s = (if from_tty i then s else take (buflen i) s)"

definition received :: "answer \<Rightarrow> answers \<Rightarrow> input \<Rightarrow> input" where
  "received a rs i = (case a of
       Data s \<Rightarrow>
         if from_tty i then i\<lparr>source := rs, buflen := grow (buflen i) (length s)\<rparr>
         else i\<lparr>source := (if length s \<le> buflen i then rs else (Data (drop (buflen i) s), None) # rs)\<rparr>
     | Ctrl_C \<Rightarrow> i\<lparr>source := rs, runflags := runflags i OR RUN_INTERRUPT\<rparr>
     | _ \<Rightarrow> i\<lparr>source := rs\<rparr>)"

text \<open>The loop of \<open>fdfill\<close>; a file whose answers have all been given is at its end.\<close>

fun fdfill_loop :: "answers \<Rightarrow> input \<Rightarrow> char option irun" where
  "fdfill_loop [] i = Ok (None, end_of_file (i\<lparr>source := []\<rparr>))"
| "fdfill_loop ((a, Some e) # rs) i = Throw (Exn e, received a rs i)"
| "fdfill_loop ((Interrupted, None) # rs) i = fdfill_loop rs (received Interrupted rs i)"
| "fdfill_loop ((AtEnd, None) # rs) i = Ok (None, end_of_file (received AtEnd rs i))"
| "fdfill_loop ((Failed msg, None) # rs) i =
     Throw (Exn (fail_exn ''$&parse'' (iname i @ '': '' @ msg)), end_of_file (received (Failed msg) rs i))"
| "fdfill_loop ((Data s, None) # rs) i =
     (if given i s = [] then Ok (None, end_of_file (received (Data s) rs i))
      else filled (given i s) (received (Data s) rs i))"
| "fdfill_loop ((Ctrl_C, None) # rs) i = filled [nul, nl_char] (received Ctrl_C rs i)"

definition fdfill :: "input \<Rightarrow> char option irun" where
  "fdfill i = (if buf i \<noteq> bufend i \<or> ifd i < 0 then Abort else fdfill_loop (source i) i)"

definition fill_input :: "input \<Rightarrow> char option irun" where
  "fill_input i = (case fill i of
     FdFill \<Rightarrow> fdfill i | StringFill \<Rightarrow> stringfill i | EofFill \<Rightarrow> eoffill i | UngetFill \<Rightarrow> ungetfill i)"

section \<open>Getting characters\<close>

definition next_char :: "input \<Rightarrow> char option irun" where
  "next_char i =
     (if buf i < bufend i then Ok (Some (bytes i ! buf i), i\<lparr>buf := buf i + 1\<rparr>) else fill_input i)"

text \<open>What an input can still give, which becomes less with each character.\<close>

fun volume :: "answers \<Rightarrow> nat" where
  "volume [] = 0"
| "volume ((a, signal) # rs) = (case a of Data s \<Rightarrow> length s | Ctrl_C \<Rightarrow> 2 | _ \<Rightarrow> 0) + volume rs"

definition remaining :: "input \<Rightarrow> nat" where
  "remaining i = length (ungets i) + (bufend i - buf i) + volume (source i) +
     (if fill i = UngetFill then case rbuf i of None \<Rightarrow> 0 | Some b \<Rightarrow> bufend i - b else 0)"

lemma received_same: "ungets (received a rs i) = ungets i" "fill (received a rs i) = fill i"
  by (simp_all add: received_def split: answer.split)

lemma fdfill_loop_remaining:
  "fdfill_loop rs i = Ok (Some c, i') \<Longrightarrow> ungets i' = ungets i \<and> fill i' = fill i \<and> bufend i' - buf i' + volume (source i') < volume rs"
proof (induction rs i rule: fdfill_loop.induct)
  case (6 s rs i)
  then have "given i s \<noteq> []" "i' = (received (Data s) rs i)\<lparr>bytes := given i s, buf := 1, bufend := length (given i s)\<rparr>"
    by (auto simp: filled_def split: if_splits)
  moreover from this have "length (given i s) - 1 + volume (source (received (Data s) rs i)) < length s + volume rs"
    by (cases s) (auto simp: given_def received_def split: if_splits)
  ultimately show ?case by (simp add: received_same)
next
  case (7 rs i)
  then show ?case by (auto simp: filled_def received_def)
qed (auto simp: received_same)

lemma next_char_remaining:
  assumes "next_char i = Ok (Some c, i')"
  shows "remaining i' < remaining i"
proof (cases "buf i < bufend i")
  case True
  then show ?thesis using assms by (auto simp: next_char_def remaining_def split: option.splits)
next
  case False
  then have f: "fill_input i = Ok (Some c, i')" using assms by (simp add: next_char_def)
  show ?thesis
  proof (cases "fill i")
    case FdFill
    then have "fdfill_loop (source i) i = Ok (Some c, i')" using f by (auto simp: fill_input_def fdfill_def split: if_splits)
    from fdfill_loop_remaining [OF this] show ?thesis using FdFill by (auto simp: remaining_def)
  next
    case UngetFill
    then show ?thesis using f False
      by (auto simp: fill_input_def ungetfill_def Let_def remaining_def split: if_splits option.splits)
  qed (use f in \<open>auto simp: fill_input_def eoffill_def stringfill_def split: if_splits\<close>)
qed

lemma warn_remaining: "remaining (warn m i) = remaining i"
  by (cases "rbuf i") (simp_all add: remaining_def warn_def)

text \<open>
  \<open>get\<close> leaves out NULs, with a warning, unless the NUL stands for an interrupt. It ends because each turn of its loop uses up some of
  the input.
\<close>

function get :: "input \<Rightarrow> char option irun" where
  "get i =
     (case next_char i of
        Ok (c, i') \<Rightarrow>
          if c \<noteq> Some nul then Ok (c, i')
          else if runflags i' AND RUN_INTERRUPT \<noteq> 0 then Ok (Some nul, i'\<lparr>runflags := runflags i' AND NOT RUN_INTERRUPT\<rparr>)
          else get (warn ''null character ignored'' i')
      | Throw e \<Rightarrow> Throw e | Abort \<Rightarrow> Abort | Undef \<Rightarrow> Undef)"
  by auto
termination
proof (relation "measure remaining", goal_cases)
  case (2 i r c i')
  then have "next_char i = Ok (Some nul, i')" by simp
  from next_char_remaining [OF this]
  have "remaining i' < remaining i" .
  then show ?case by (simp only: in_measure prod.case warn_remaining)
qed simp

declare get.simps [simp del]

definition getverbose :: "input \<Rightarrow> char option irun" where
  "getverbose i =
     (if fill i = UngetFill then get i
      else obind (get i) (\<lambda>(c, i). Ok (c, case c of None \<Rightarrow> i | Some d \<Rightarrow> i\<lparr>shown := shown i @ [d]\<rparr>)))"

definition GETC :: "input \<Rightarrow> char option irun" where
  "GETC i = (if verbose i then getverbose i else get i)"

section \<open>The characters to come\<close>

text \<open>The characters that the answers of a file bring: NULs are left out except for those that stand for an interrupt.\<close>

fun arriving :: "answers \<Rightarrow> string" where
  "arriving [] = []"
| "arriving ((Data s, signal) # rs) = (if s = [] then [] else filter (\<lambda>c. c \<noteq> nul) s @ arriving rs)"
| "arriving ((Interrupted, signal) # rs) = arriving rs"
| "arriving ((Ctrl_C, signal) # rs) = [nul, nl_char] @ arriving rs"
| "arriving ((AtEnd, signal) # rs) = []"
| "arriving ((Failed msg, signal) # rs) = []"

text \<open>The filler and the place in the buffer behind the characters that are pushed back.\<close>

definition filler_of :: "input \<Rightarrow> filler" where
  "filler_of i = (if ungets i = [] then fill i else the (rfill i))"

definition place_of :: "input \<Rightarrow> nat" where
  "place_of i = (if ungets i = [] then buf i else the (rbuf i))"

definition unread :: "input \<Rightarrow> string" where
  "unread i = filter (\<lambda>c. c \<noteq> nul) (drop (place_of i) (take (bufend i) (bytes i))) @
     (if filler_of i = FdFill then arriving (source i) else [])"

definition pending :: "input \<Rightarrow> char option list" where
  "pending i = rev (ungets i) @ map Some (unread i)"

definition input_ok :: "input \<Rightarrow> bool" where
  "input_ok i \<longleftrightarrow>
     (if ungets i = [] then fill i \<noteq> UngetFill \<and> rfill i = None \<and> rbuf i = None
      else fill i = UngetFill \<and> rfill i \<notin> {None, Some UngetFill} \<and> rbuf i \<noteq> None \<and> buf i = bufend i) \<and>
     length (ungets i) \<le> MAXUNGET \<and> Some nul \<notin> set (ungets i) \<and> place_of i \<le> bufend i \<and> bufend i \<le> length (bytes i) \<and>
     (filler_of i = FdFill \<longrightarrow> 0 \<le> ifd i \<and> 0 < buflen i) \<and> (filler_of i \<in> {StringFill, EofFill} \<longrightarrow> ifd i = -1) \<and>
     runflags i AND RUN_INTERRUPT = 0"

text \<open>Files that are read without an error, and without a signal whose handler throws an exception.\<close>

definition calm :: "answers \<Rightarrow> bool" where
  "calm rs \<longleftrightarrow> (\<forall>(a, signal) \<in> set rs. signal = None \<and> (\<forall>msg. a \<noteq> Failed msg))"

lemma grow_pos: "0 < n \<Longrightarrow> 0 < grow n len"
  by (induction n len rule: grow.induct) (subst grow.simps, auto)

lemma grow_ge: "0 < n \<Longrightarrow> len \<le> grow n len"
  by (induction n len rule: grow.induct) (subst grow.simps, auto)

section \<open>Getting refines the sequence of characters\<close>

lemma flag_cleared: "(f AND NOT k) AND k = 0" for f k :: int
  by (simp add: and.assoc)

lemma flag_kept: "f AND k = 0 \<Longrightarrow> (f AND NOT l) AND k = 0" for f k l :: int
  by (metis and.assoc and.commute and_zero_eq)

lemma flag_absent: "f AND k = 0 \<Longrightarrow> f AND NOT k = f" for f k :: int
proof -
  assume "f AND k = 0"
  then have "f AND NOT k = (f AND k) OR (f AND NOT k)" by simp
  also have "\<dots> = f AND (k OR NOT k)" by (simp only: bit.conj_disj_distrib)
  finally show ?thesis by simp
qed

lemma flag_set: "(f OR k) AND k = k" for f k :: int
  by (rule bit_eqI) (auto simp: bit_and_iff bit_or_iff)

definition cleared :: "input \<Rightarrow> input" where
  "cleared i = i\<lparr>runflags := runflags i AND NOT RUN_INTERRUPT\<rparr>"

lemma cleared_simps [simp]:
  "ungets (cleared i) = ungets i" "fill (cleared i) = fill i" "rfill (cleared i) = rfill i" "rbuf (cleared i) = rbuf i"
  "buf (cleared i) = buf i" "bufend (cleared i) = bufend i" "bytes (cleared i) = bytes i" "ifd (cleared i) = ifd i"
  "buflen (cleared i) = buflen i" "source (cleared i) = source i" "runflags (cleared i) AND RUN_INTERRUPT = 0"
  "filler_of (cleared i) = filler_of i" "place_of (cleared i) = place_of i" "unread (cleared i) = unread i"
  "pending (cleared i) = pending i" "shown (cleared i) = shown i" "verbose (cleared i) = verbose i"
  by (simp_all add: cleared_def filler_of_def place_of_def unread_def pending_def flag_cleared)

lemma cleared_same: "runflags i AND RUN_INTERRUPT = 0 \<Longrightarrow> cleared i = i"
  by (simp add: cleared_def flag_absent)

text \<open>What is read behind a byte \<open>c\<close> of an input \<open>i\<close>: nothing is lost but a NUL that does not stand for an interrupt.\<close>

definition reads :: "char option \<Rightarrow> char option list \<Rightarrow> input \<Rightarrow> bool" where
  "reads c cs i \<longleftrightarrow> input_ok (cleared i) \<and> calm (source i) \<and>
     (runflags i AND RUN_INTERRUPT \<noteq> 0 \<longrightarrow> c = Some nul) \<and>
     (if c = Some nul \<and> runflags i AND RUN_INTERRUPT = 0 then pending i = cs
      else cs = c # pending i \<or> c = None \<and> cs = [] \<and> pending i = [])"

lemma arriving_received:
  assumes "s \<noteq> []" "0 < buflen i"
  shows "filter (\<lambda>c. c \<noteq> nul) (given i s) @ arriving (source (received (Data s) rs i)) = arriving ((Data s, None) # rs)"
proof (cases "from_tty i \<or> length s \<le> buflen i")
  case True
  then show ?thesis using assms by (auto simp: given_def received_def)
next
  case False
  then have "filter (\<lambda>c. c \<noteq> nul) (take (buflen i) s) @ filter (\<lambda>c. c \<noteq> nul) (drop (buflen i) s) = filter (\<lambda>c. c \<noteq> nul) s"
    by (simp flip: filter_append)
  then show ?thesis using False assms by (simp add: given_def received_def del: filter_append)
qed

lemma fdfill_loop_reads:
  "calm rs \<Longrightarrow> input_ok i \<Longrightarrow> ungets i = [] \<Longrightarrow> fill i = FdFill \<Longrightarrow> buf i = bufend i \<Longrightarrow>
    \<exists>c i'. fdfill_loop rs i = Ok (c, i') \<and> reads c (map Some (arriving rs)) i' \<and> shown i' = shown i \<and> verbose i' = verbose i \<and> fill i' \<noteq> UngetFill \<and>
      (case c of None \<Rightarrow> [] | Some d \<Rightarrow> if d = nul \<and> runflags i' AND RUN_INTERRUPT = 0 then [] else [d]) @ unread i' = arriving rs"
proof (induction rs i rule: fdfill_loop.induct)
  case (3 rs i)
  have "calm rs" "input_ok (received Interrupted rs i)" "ungets (received Interrupted rs i) = []" "fill (received Interrupted rs i) = FdFill"
    "buf (received Interrupted rs i) = bufend (received Interrupted rs i)"
    using 3 by (auto simp: calm_def received_def input_ok_def filler_of_def place_of_def)
  from 3(1) [OF this] show ?case by (simp add: received_def)
next
  case (6 s rs i)
  show ?case
  proof (cases "s = []")
    case True
    then show ?thesis using 6
      by (auto simp: given_def received_def end_of_file_def reads_def input_ok_def filler_of_def place_of_def pending_def unread_def calm_def
          flag_kept cleared_def)
  next
    case False
    have b: "0 < buflen i" using 6 by (simp add: input_ok_def filler_of_def)
    then have g: "given i s \<noteq> []" using False by (simp add: given_def)
    let ?r = "received (Data s) rs i"
    let ?i = "?r\<lparr>bytes := given i s, buf := 1, bufend := length (given i s)\<rparr>"
    have ri: "runflags i AND RUN_INTERRUPT = 0" "rfill i = None" "rbuf i = None" "0 \<le> ifd i" using 6 by (auto simp: input_ok_def filler_of_def)
    have r: "ungets ?r = []" "fill ?r = FdFill" "rfill ?r = None" "rbuf ?r = None" "ifd ?r = ifd i" "runflags ?r = runflags i" "0 < buflen ?r"
      "shown ?r = shown i" "verbose ?r = verbose i" "calm (source ?r)"
      using 6 b ri grow_pos [OF b] by (auto simp: received_def calm_def)
    have ok: "input_ok ?i" using r ri g by (simp add: input_ok_def filler_of_def place_of_def Suc_le_eq)
    have a: "filter (\<lambda>c. c \<noteq> nul) (given i s) @ arriving (source ?r) = arriving ((Data s, None) # rs)"
      by (rule arriving_received [OF False b])
    have u: "unread ?i = filter (\<lambda>c. c \<noteq> nul) (tl (given i s)) @ arriving (source ?r)" using r
      by (simp add: unread_def filler_of_def place_of_def drop_Suc)
    have p: "pending ?i = map Some (unread ?i)" using r by (simp add: pending_def)
    obtain d ds where gd: "given i s = d # ds" using g by (cases "given i s") auto
    have "fdfill_loop ((Data s, None) # rs) i = Ok (Some d, ?i)" using g gd by (simp add: filled_def)
    moreover have al: "arriving ((Data s, None) # rs) = (if d = nul then [] else [d]) @ unread ?i"
      using u a gd by (auto simp del: arriving.simps)
    moreover have "reads (Some d) (map Some (arriving ((Data s, None) # rs))) ?i"
      using ok ri(1) r p by (simp add: reads_def cleared_same al del: arriving.simps)
    ultimately show ?thesis using r ri(1) by (intro exI [of _ "Some d"] exI [of _ ?i]) (simp del: fdfill_loop.simps arriving.simps)
  qed
next
  case (7 rs i)
  let ?r = "received Ctrl_C rs i"
  let ?i = "?r\<lparr>bytes := [nul, nl_char], buf := 1, bufend := 2\<rparr>"
  have f: "runflags ?i AND RUN_INTERRUPT \<noteq> 0" by (simp add: received_def flag_set) (simp add: RUN_INTERRUPT_def)
  have u: "unread ?i = nl_char # arriving rs"
    using 7 by (simp add: received_def unread_def filler_of_def place_of_def char_defs numeral_2_eq_2)
  moreover have "pending ?i = map Some (unread ?i)" using 7 by (simp add: received_def pending_def)
  moreover have "input_ok (cleared ?i)"
    using 7 by (auto simp: input_ok_def received_def filler_of_def place_of_def)
  ultimately have "reads (Some nul) (map Some (arriving ((Ctrl_C, None) # rs))) ?i"
    using 7 f by (auto simp: reads_def calm_def received_def)
  moreover have "fdfill_loop ((Ctrl_C, None) # rs) i = Ok (Some nul, ?i)" by (simp add: filled_def)
  ultimately show ?case using u f 7 by (intro exI [of _ "Some nul"] exI [of _ ?i]) (simp add: received_def)
qed (auto simp: reads_def end_of_file_def received_def calm_def input_ok_def filler_of_def place_of_def pending_def unread_def
    flag_kept cleared_def)

lemma next_char_reads:
  assumes i: "input_ok i" "calm (source i)"
  shows "\<exists>c i'. next_char i = Ok (c, i') \<and> reads c (pending i) i' \<and> shown i' = shown i \<and> verbose i' = verbose i \<and>
    (fill i \<noteq> UngetFill \<longrightarrow> fill i' \<noteq> UngetFill) \<and>
    (if fill i = UngetFill then unread i' = unread i
     else (case c of None \<Rightarrow> [] | Some d \<Rightarrow> if d = nul \<and> runflags i' AND RUN_INTERRUPT = 0 then [] else [d]) @ unread i' = unread i)"
proof (cases "ungets i = []")
  case False
  then have u: "fill i = UngetFill" "buf i = bufend i" "rfill i \<notin> {None, Some UngetFill}" "rbuf i \<noteq> None" using i by (auto simp: input_ok_def)
  then obtain f b where fb: "rfill i = Some f" "rbuf i = Some b" "f \<noteq> UngetFill" by auto
  obtain cs c where cs: "ungets i = cs @ [c]" using False by (metis rev_exhaust)
  have f: "next_char i = ungetfill i" using u by (simp add: next_char_def fill_input_def)
  show ?thesis
  proof (cases "cs = []")
    case True
    let ?i = "i\<lparr>ungets := [], fill := f, rfill := None, buf := b, rbuf := None\<rparr>"
    have "ungetfill i = Ok (c, ?i)" using cs True fb by (simp add: ungetfill_def)
    moreover have "input_ok ?i" "unread ?i = unread i" using i cs True fb by (auto simp: input_ok_def filler_of_def place_of_def unread_def)
    moreover have "runflags i AND RUN_INTERRUPT = 0" "c \<noteq> Some nul" using i cs by (auto simp: input_ok_def)
    ultimately show ?thesis using f u(1) i(2) cs True
      by (intro exI [of _ c] exI [of _ ?i]) (simp add: reads_def cleared_same pending_def)
  next
    case ne: False
    let ?i = "i\<lparr>ungets := cs\<rparr>"
    have "ungetfill i = Ok (c, ?i)" using cs ne by (simp add: ungetfill_def)
    moreover have "input_ok ?i" "unread ?i = unread i" using i cs ne u by (auto simp: input_ok_def filler_of_def place_of_def unread_def)
    moreover have "runflags i AND RUN_INTERRUPT = 0" "c \<noteq> Some nul" using i cs by (auto simp: input_ok_def)
    ultimately show ?thesis using f u(1) i(2) cs
      by (intro exI [of _ c] exI [of _ ?i]) (simp add: reads_def cleared_same pending_def)
  qed
next
  case True
  then have u: "fill i \<noteq> UngetFill" "rfill i = None" "rbuf i = None" "runflags i AND RUN_INTERRUPT = 0" using i by (auto simp: input_ok_def)
  show ?thesis
  proof (cases "buf i < bufend i")
    case lt: True
    let ?i = "i\<lparr>buf := buf i + 1\<rparr>"
    have "bufend i \<le> length (bytes i)" using i by (simp add: input_ok_def)
    then have d: "drop (buf i) (take (bufend i) (bytes i)) = bytes i ! buf i # drop (buf i + 1) (take (bufend i) (bytes i))"
      using lt by (simp add: Cons_nth_drop_Suc [symmetric])
    have "input_ok ?i" using i lt True u by (auto simp: input_ok_def filler_of_def place_of_def)
    moreover have eq: "(if bytes i ! buf i = nul then [] else [bytes i ! buf i]) @ unread ?i = unread i"
      using True d by (simp add: unread_def place_of_def filler_of_def)
    moreover have "reads (Some (bytes i ! buf i)) (pending i) ?i"
      using calculation(1) i(2) u True eq [symmetric] by (auto simp: reads_def cleared_same pending_def)
    ultimately show ?thesis using lt u by (intro exI [of _ "Some (bytes i ! buf i)"] exI [of _ ?i]) (simp add: next_char_def)
  next
    case ge: False
    then have e: "buf i = bufend i" using i True by (simp add: input_ok_def place_of_def)
    have n: "next_char i = fill_input i" using ge by (simp add: next_char_def)
    show ?thesis
    proof (cases "fill i")
      case FdFill
      have ifd: "0 \<le> ifd i" using i FdFill True by (simp add: input_ok_def filler_of_def)
      have ur: "unread i = arriving (source i)" "pending i = map Some (arriving (source i))"
        using True e FdFill by (simp_all add: unread_def place_of_def filler_of_def pending_def)
      have "next_char i = fdfill_loop (source i) i" using n FdFill e ifd by (simp add: fill_input_def fdfill_def)
      then show ?thesis using fdfill_loop_reads [OF i(2,1) True FdFill e] FdFill by (simp add: ur)
    next
      case StringFill
      then show ?thesis using n True e i u
        by (auto simp: fill_input_def stringfill_def reads_def pending_def unread_def place_of_def filler_of_def cleared_same input_ok_def
            cleared_def flag_absent)
    next
      case EofFill
      then show ?thesis using n True e i u
        by (auto simp: fill_input_def eoffill_def reads_def pending_def unread_def place_of_def filler_of_def cleared_same input_ok_def)
    qed (use u in simp)
  qed
qed

lemma warn_simps [simp]:
  "input_ok (warn m i) = input_ok i" "source (warn m i) = source i" "pending (warn m i) = pending i" "unread (warn m i) = unread i"
  "shown (warn m i) = shown i" "verbose (warn m i) = verbose i" "fill (warn m i) = fill i"
  by (simp_all add: warn_def input_ok_def pending_def unread_def filler_of_def place_of_def)

lemma ungot_char:
  assumes "fill i = UngetFill" "input_ok i" "next_char i = Ok (c, i')"
  shows "c \<noteq> Some nul"
proof -
  have "ungets i \<noteq> []" "buf i = bufend i" "Some nul \<notin> set (ungets i)" using assms by (auto simp: input_ok_def split: if_splits)
  then have "c = List.last (ungets i)" "List.last (ungets i) \<in> set (ungets i)"
    using assms(1,3) by (auto simp: next_char_def fill_input_def ungetfill_def Let_def split: if_splits option.splits)
  then show ?thesis using \<open>Some nul \<notin> set (ungets i)\<close> by metis
qed

lemma get_reads:
  "input_ok i \<Longrightarrow> calm (source i) \<Longrightarrow> \<exists>c i'. get i = Ok (c, i') \<and> input_ok i' \<and> calm (source i') \<and>
    (pending i = c # pending i' \<or> c = None \<and> pending i = [] \<and> pending i' = []) \<and> shown i' = shown i \<and> verbose i' = verbose i \<and>
    (if fill i = UngetFill then unread i' = unread i else (case c of None \<Rightarrow> [] | Some d \<Rightarrow> [d]) @ unread i' = unread i)"
proof (induction i rule: get.induct)
  case (1 i)
  obtain c i1 where n: "next_char i = Ok (c, i1)" "reads c (pending i) i1" "shown i1 = shown i" "verbose i1 = verbose i"
    "fill i \<noteq> UngetFill \<longrightarrow> fill i1 \<noteq> UngetFill"
    "if fill i = UngetFill then unread i1 = unread i
     else (case c of None \<Rightarrow> [] | Some d \<Rightarrow> if d = nul \<and> runflags i1 AND RUN_INTERRUPT = 0 then [] else [d]) @ unread i1 = unread i"
    using next_char_reads [OF 1(2,3)] by blast
  show ?case
  proof (cases "c = Some nul \<and> runflags i1 AND RUN_INTERRUPT = 0")
    case False
    have g: "get i = Ok (c, cleared i1)"
      using n(1,2) False by (subst get.simps) (auto simp: reads_def cleared_def flag_absent)
    have "(case c of None \<Rightarrow> [] | Some d \<Rightarrow> if d = nul \<and> runflags i1 AND RUN_INTERRUPT = 0 then [] else [d]) =
      (case c of None \<Rightarrow> [] | Some d \<Rightarrow> [d])" using False by (auto split: option.split)
    then show ?thesis using g n False by (intro exI [of _ c] exI [of _ "cleared i1"]) (auto simp: reads_def)
  next
    case True
    then have r: "input_ok i1" "calm (source i1)" "pending i1 = pending i" using n(2) by (auto simp: reads_def cleared_same)
    have nf: "fill i \<noteq> UngetFill" using True ungot_char [OF _ 1(2) n(1)] by blast
    have u: "unread i1 = unread i" using n(6) nf True by simp
    let ?w = "warn ''null character ignored'' i1"
    have g: "get i = get ?w" using n(1) True by (subst get.simps) simp
    have f: "fill i1 \<noteq> UngetFill" using n(5) nf by simp
    have "\<exists>c i'. get ?w = Ok (c, i') \<and> input_ok i' \<and> calm (source i') \<and>
      (pending ?w = c # pending i' \<or> c = None \<and> pending ?w = [] \<and> pending i' = []) \<and> shown i' = shown ?w \<and> verbose i' = verbose ?w \<and>
      (if fill ?w = UngetFill then unread i' = unread ?w else (case c of None \<Rightarrow> [] | Some d \<Rightarrow> [d]) @ unread i' = unread ?w)"
      by (rule 1(1) [OF n(1) refl]) (use True r in auto)
    then show ?thesis using g nf f u r n(3,4) by simp
  qed
qed

lemma unget_back:
  assumes i: "input_ok i" "length (ungets i) < MAXUNGET" "c \<noteq> Some nul"
  shows "\<exists>i'. unget g c i = Ok i' \<and> input_ok i' \<and> pending i' = c # pending i \<and> source i' = source i \<and> shown i' = shown i \<and>
    verbose i' = verbose i \<and> (g AND RUN_ECHOINPUT \<noteq> 0 \<longrightarrow> unread i' = unread i)"
proof (cases "ungets i = []")
  case False
  let ?i = "i\<lparr>ungets := ungets i @ [c]\<rparr>"
  have "unread ?i = unread i" using False by (simp add: unread_def filler_of_def place_of_def)
  moreover have "input_ok ?i" using i False by (auto simp: input_ok_def filler_of_def place_of_def MAXUNGET_def)
  moreover have "unget g c i = Ok ?i" using False i(2) by (simp add: unget_def)
  ultimately show ?thesis using False by (intro exI [of _ ?i]) (simp add: pending_def)
next
  case True
  then have u: "fill i \<noteq> UngetFill" "rfill i = None" "rbuf i = None" "buf i \<le> bufend i" "bufend i \<le> length (bytes i)"
    using i by (auto simp: input_ok_def place_of_def)
  show ?thesis
  proof (cases "0 < buf i \<and> c = Some (bytes i ! (buf i - 1)) \<and> g AND RUN_ECHOINPUT = 0")
    case put: True
    let ?i = "i\<lparr>buf := buf i - 1\<rparr>"
    have "buf i - 1 < bufend i" using put u by linarith
    then have "drop (buf i - 1) (take (bufend i) (bytes i)) = bytes i ! (buf i - 1) # drop (buf i) (take (bufend i) (bytes i))"
      using u put Cons_nth_drop_Suc [of "buf i - 1" "take (bufend i) (bytes i)"] by simp
    then have "pending ?i = c # pending i" using True i(3) put by (simp add: pending_def unread_def place_of_def filler_of_def)
    moreover have "input_ok ?i" using i(1) u True by (auto simp: input_ok_def filler_of_def place_of_def)
    ultimately show ?thesis using True put by (intro exI [of _ ?i]) (simp add: unget_def)
  next
    case False
    let ?i = "i\<lparr>rfill := Some (fill i), fill := UngetFill, rbuf := Some (buf i), buf := bufend i, ungets := [c]\<rparr>"
    have "unread ?i = unread i" using True by (simp add: unread_def filler_of_def place_of_def)
    moreover have "unget g c i = Ok ?i" using True u(2,3) unfolding unget_def if_not_P [OF False] by simp
    moreover have "input_ok ?i" using i u True by (auto simp: input_ok_def filler_of_def place_of_def MAXUNGET_def)
    ultimately show ?thesis using True by (intro exI [of _ ?i]) (simp add: pending_def)
  qed
qed

lemma GETC_reads:
  assumes "input_ok i" "calm (source i)"
  shows "\<exists>c i'. GETC i = Ok (c, i') \<and> input_ok i' \<and> calm (source i') \<and>
    (pending i = c # pending i' \<or> c = None \<and> pending i = [] \<and> pending i' = []) \<and> verbose i' = verbose i \<and>
    (verbose i \<longrightarrow> shown i' @ unread i' = shown i @ unread i)"
proof -
  obtain c i' where g: "get i = Ok (c, i')" "input_ok i'" "calm (source i')"
    "pending i = c # pending i' \<or> c = None \<and> pending i = [] \<and> pending i' = []" "shown i' = shown i" "verbose i' = verbose i"
    "if fill i = UngetFill then unread i' = unread i else (case c of None \<Rightarrow> [] | Some d \<Rightarrow> [d]) @ unread i' = unread i"
    using get_reads [OF assms] by blast
  have s: "input_ok (i'\<lparr>shown := t\<rparr>) = input_ok i'" "pending (i'\<lparr>shown := t\<rparr>) = pending i'" "unread (i'\<lparr>shown := t\<rparr>) = unread i'" for t
    by (simp_all add: input_ok_def pending_def unread_def filler_of_def place_of_def)
  show ?thesis
  proof (cases "verbose i \<and> fill i \<noteq> UngetFill")
    case True
    let ?i = "case c of None \<Rightarrow> i' | Some d \<Rightarrow> i'\<lparr>shown := shown i' @ [d]\<rparr>"
    have "GETC i = Ok (c, ?i)" using True g(1) by (simp add: GETC_def getverbose_def)
    moreover have "shown ?i @ unread ?i = shown i @ unread i" using True g(5,7) by (cases c) (auto simp: s)
    ultimately show ?thesis using g by (intro exI [of _ c] exI [of _ ?i]) (cases c, auto simp: s)
  next
    case False
    then have "GETC i = Ok (c, i')" using g(1) by (auto simp: GETC_def getverbose_def)
    then show ?thesis using g False by (intro exI [of _ c] exI [of _ i']) auto
  qed
qed

section \<open>Sources of characters\<close>

text \<open>What a reader of characters asks of its source: the operations and the characters that are still to come.\<close>

fun read_chars :: "('s \<Rightarrow> ('e, char option \<times> 's) outcome_of) \<Rightarrow> nat \<Rightarrow> 's \<Rightarrow> ('e, char option list \<times> 's) outcome_of" where
  "read_chars getchar 0 s = Ok ([], s)"
| "read_chars getchar (Suc n) s = obind (getchar s) (\<lambda>(c, s). obind (read_chars getchar n s) (\<lambda>(cs, s). Ok (c # cs, s)))"

locale character_source =
  fixes getchar :: "'s \<Rightarrow> ('e, char option \<times> 's) outcome_of"
    and ungetchar :: "char option \<Rightarrow> 's \<Rightarrow> ('e, 's) outcome_of"
    and coming :: "'s \<Rightarrow> char option list"
    and good :: "'s \<Rightarrow> bool" and room :: "char option \<Rightarrow> 's \<Rightarrow> bool"
  assumes getchar: "good s \<Longrightarrow> \<exists>c s'. getchar s = Ok (c, s') \<and> good s' \<and>
      (coming s = c # coming s' \<or> c = None \<and> coming s = [] \<and> coming s' = [])"
    and ungetchar: "good s \<Longrightarrow> room c s \<Longrightarrow> \<exists>s'. ungetchar c s = Ok s' \<and> good s' \<and> coming s' = c # coming s"
begin

lemma read_chars_coming:
  "good s \<Longrightarrow> \<exists>s'. read_chars getchar n s = Ok (take n (coming s @ replicate n None), s') \<and> good s' \<and> coming s' = drop n (coming s)"
proof (induction n arbitrary: s)
  case (Suc n)
  obtain c s1 where g: "getchar s = Ok (c, s1)" "good s1" "coming s = c # coming s1 \<or> c = None \<and> coming s = [] \<and> coming s1 = []"
    using getchar [OF Suc.prems] by blast
  obtain s2 where r: "read_chars getchar n s1 = Ok (take n (coming s1 @ replicate n None), s2)" "good s2" "coming s2 = drop n (coming s1)"
    using Suc.IH [OF g(2)] by blast
  have "take n (coming s1 @ replicate (Suc n) None) = take n (coming s1 @ replicate n None)" by (simp add: replicate_append_same [symmetric])
  then show ?case using g r by (intro exI [of _ s2]) auto
qed simp

text \<open>A character that is put back comes again.\<close>

lemma put_back:
  assumes "good s" "room c s"
  shows "\<exists>s' s''. ungetchar c s = Ok s' \<and> getchar s' = Ok (c, s'') \<and> good s'' \<and> coming s'' = coming s"
proof -
  obtain s' where u: "ungetchar c s = Ok s'" "good s'" "coming s' = c # coming s" using ungetchar [OF assms] by blast
  then show ?thesis using getchar [OF u(2)] by auto
qed

end

text \<open>The input as it is, and the rest of the input as a list, on which the lexical analyser works.\<close>

definition quiet_input :: "input \<Rightarrow> bool" where
  "quiet_input i \<longleftrightarrow> input_ok i \<and> calm (source i)"

definition unget_room :: "char option \<Rightarrow> input \<Rightarrow> bool" where
  "unget_room c i \<longleftrightarrow> length (ungets i) < MAXUNGET \<and> c \<noteq> Some nul"

interpretation buffered: character_source GETC "unget g" pending quiet_input unget_room for g
proof
  fix i assume "quiet_input i"
  then show "\<exists>c i'. GETC i = Ok (c, i') \<and> quiet_input i' \<and> (pending i = c # pending i' \<or> c = None \<and> pending i = [] \<and> pending i' = [])"
    using GETC_reads [of i] by (auto simp: quiet_input_def)
next
  fix i c assume "quiet_input i" "unget_room c i"
  then show "\<exists>i'. unget g c i = Ok i' \<and> quiet_input i' \<and> pending i' = c # pending i"
    using unget_back [of i c g] by (auto simp: quiet_input_def unget_room_def)
qed

definition list_getc :: "string \<Rightarrow> (stop, char option \<times> string) outcome_of" where
  "list_getc s = Ok (getc s)"

definition list_ungetc :: "char option \<Rightarrow> string \<Rightarrow> (stop, string) outcome_of" where
  "list_ungetc c s = (case c of None \<Rightarrow> Ok s | Some c \<Rightarrow> Ok (c # s))"

interpretation listed: character_source list_getc list_ungetc "map Some" "\<lambda>_. True" "\<lambda>c _. c \<noteq> None"
  by unfold_locales (auto simp: list_getc_def list_ungetc_def getc_def split: list.splits)

section \<open>Opening sources\<close>

text \<open>The inputs that \<open>runstring\<close> and \<open>runfd\<close> set up; the flags are set by \<open>runinput\<close>.\<close>

definition blank_input :: input where
  "blank_input = \<lparr>verbose = False, fill = EofFill, rfill = None, cleaner = FdCleanup, iname = [], bytes = [], buf = 0, bufend = 0, rbuf = None,
     buflen = 0, ungets = [], ilineno = 1, ifd = 0, runflags = 0, source = [], shown = [], warnings = []\<rparr>"

definition string_input :: "string \<Rightarrow> string option \<Rightarrow> input" where
  "string_input str name = blank_input\<lparr>ifd := -1, cleaner := StringCleanup, iname := (case name of None \<Rightarrow> str | Some n \<Rightarrow> n), fill := StringFill,
     buflen := length str, bytes := str, bufend := length str\<rparr>"

definition fd_input :: "int \<Rightarrow> string option \<Rightarrow> answers \<Rightarrow> input" where
  "fd_input fd name answers = blank_input\<lparr>fill := FdFill, ifd := fd, buflen := BUFSIZE,
     iname := (case name of None \<Rightarrow> ''fd '' @ show_int fd | Some n \<Rightarrow> n), source := answers\<rparr>"

text \<open>What is to come of a source in which \<open>runinput\<close> has set the flags.\<close>

definition start_input :: "int \<Rightarrow> input \<Rightarrow> input" where
  "start_input fl i = i\<lparr>runflags := fl, verbose := (fl AND RUN_ECHOINPUT \<noteq> 0)\<rparr>"

lemma start_string:
  assumes "fl AND RUN_INTERRUPT = 0" "nul \<notin> set str"
  shows "quiet_input (start_input fl (string_input str name)) \<and> pending (start_input fl (string_input str name)) = map Some str"
proof -
  have "filter (\<lambda>c. c \<noteq> nul) str = str" using assms(2) by (simp add: filter_id_conv) (metis)
  then show ?thesis using assms(1)
    by (simp add: start_input_def string_input_def blank_input_def quiet_input_def input_ok_def calm_def pending_def unread_def
        filler_of_def place_of_def MAXUNGET_def)
qed

lemma start_fd:
  assumes "fl AND RUN_INTERRUPT = 0" "0 \<le> fd" "calm answers"
  shows "quiet_input (start_input fl (fd_input fd name answers)) \<and>
    pending (start_input fl (fd_input fd name answers)) = map Some (arriving answers)"
  using assms by (simp add: start_input_def fd_input_def blank_input_def quiet_input_def input_ok_def pending_def unread_def
      filler_of_def place_of_def MAXUNGET_def BUFSIZE_def)

section \<open>Properties of reading\<close>

text \<open>
  C14: reading characters from an input yields the characters that are pushed back, those in the buffer and those that the file
  gives, in this order and with NULs left out, and then the end of the file.
\<close>

theorem input_delivers_in_order:
  assumes "quiet_input i"
  shows "\<exists>i'. read_chars GETC n i = Ok (take n (pending i @ replicate n None), i') \<and> quiet_input i' \<and> pending i' = drop n (pending i)"
  using buffered.read_chars_coming [OF assms] .

text \<open>
  A character that is pushed back, the end of the file too, is the next one that is read, and what follows it is
  not changed.
\<close>

theorem unget_then_get:
  assumes "quiet_input i" "length (ungets i) < MAXUNGET" "c \<noteq> Some nul"
  shows "\<exists>i' i''. unget g c i = Ok i' \<and> GETC i' = Ok (c, i'') \<and> quiet_input i'' \<and> pending i'' = pending i"
  using buffered.put_back [of i c g] assms by (simp add: unget_room_def)

text \<open>
  C15: the characters of a script do not depend on where they come from: a string that is run, and a file
  that gives the same text in pieces of any size, with interrupted calls in between, are read as the list that the
  lexical analysis works on.
\<close>

theorem string_and_file_agree:
  assumes "fl AND RUN_INTERRUPT = 0" "nul \<notin> set str" "0 \<le> fd" "calm answers" "arriving answers = str"
  shows "\<exists>cs i i' r. read_chars list_getc n str = Ok (cs, r) \<and>
    read_chars GETC n (start_input fl (string_input str name)) = Ok (cs, i) \<and> pending i = map Some r \<and>
    read_chars GETC n (start_input fl (fd_input fd name' answers)) = Ok (cs, i') \<and> pending i' = map Some r"
proof -
  have q: "quiet_input (start_input fl (string_input str name))" "pending (start_input fl (string_input str name)) = map Some str"
    "quiet_input (start_input fl (fd_input fd name' answers))" "pending (start_input fl (fd_input fd name' answers)) = map Some str"
    using start_string [OF assms(1,2)] start_fd [OF assms(1,3,4)] assms(5) by auto
  show ?thesis
    using buffered.read_chars_coming [OF q(1), of n] buffered.read_chars_coming [OF q(3), of n] listed.read_chars_coming [where s = str and n = n]
    by (auto simp: q(2,4))
qed

text \<open>The operations of the analysis on an input whose characters are echoed.\<close>

inductive echo_step :: "input \<Rightarrow> input \<Rightarrow> bool" where
  getting: "GETC i = Ok (c, i') \<Longrightarrow> echo_step i i'"
| ungetting: "unget_room c i \<Longrightarrow> g AND RUN_ECHOINPUT \<noteq> 0 \<Longrightarrow> unget g c i = Ok i' \<Longrightarrow> echo_step i i'"

lemma echo_step_keeps:
  assumes "echo_step i i'" "quiet_input i" "verbose i"
  shows "quiet_input i' \<and> verbose i' \<and> shown i' @ unread i' = shown i @ unread i"
  using assms
proof cases
  case (getting c)
  then show ?thesis using GETC_reads [of i] assms(2,3) by (auto simp: quiet_input_def)
next
  case (ungetting c g)
  then show ?thesis using unget_back [of i c g] assms(2,3) by (auto simp: quiet_input_def unget_room_def)
qed

text \<open>
  With \<open>-v\<close> each character is echoed once, when it is read for the first time, however often it is pushed back: what has been
  shown and what is not yet read are always the whole text.
\<close>

theorem echo_shows_once:
  assumes "echo_step\<^sup>*\<^sup>* i i'" "quiet_input i" "verbose i"
  shows "shown i' @ unread i' = shown i @ unread i \<and> quiet_input i'"
proof -
  have "quiet_input i' \<and> verbose i' \<and> shown i' @ unread i' = shown i @ unread i"
    using assms by (induction rule: rtranclp_induct) (auto dest: echo_step_keeps)
  then show ?thesis by simp
qed

section \<open>The command for a completion\<close>

datatype CompleteType =
    COMPLETE_ANY | COMPLETE_FILES | COMPLETE_DIRS | COMPLETE_EXES | COMPLETE_HIST | COMPLETE_SCAN
  | COMPLETE_ENV | COMPLETE_FZF | COMPLETE_HELP | COMPLETE_MAN | COMPLETE_NEXT

text \<open>
  \<open>copy_term\<close>: \<open>s\<close> is what has been written, and \<open>off\<close> is its length. The loop leaves the characters from number
  \<open>i\<close> on that it has not copied; it stops at the last one, or when there is no room.
\<close>

fun copy_loop :: "nat \<Rightarrow> string \<Rightarrow> string \<Rightarrow> string \<times> string" where
  "copy_loop lim s [] = (s, [])"
| "copy_loop lim s [c] = (s, [c])"
| "copy_loop lim s (c # d # t) =
     (if lim - 3 \<le> length s then (s, c # d # t)
      else copy_loop lim (s @ (if c = squote then [squote, c] else [c])) (d # t))"

definition copy_rest :: "nat \<Rightarrow> string \<Rightarrow> string \<Rightarrow> string" where
  "copy_rest lim s t =
     (case copy_loop lim s t of (s, r) \<Rightarrow> s @ (if r \<noteq> [] \<and> hd r \<noteq> squote then [hd r] else []) @ [squote])"

definition copy_term :: "string \<Rightarrow> nat \<Rightarrow> string \<Rightarrow> string" where
  "copy_term s lim t =
     (if t = [] \<or> t = [squote] then s @ [squote, squote]
      else if hd t \<noteq> squote then
        (if length t > 1 then copy_rest lim (s @ [squote, hd t]) (tl t) else s @ [squote, hd t, squote])
      else copy_rest lim s (tl t))"

text \<open>The function that completes: one for the command, or the default for the type of completion.\<close>

definition complete_function :: "(string \<Rightarrow> bool) \<Rightarrow> CompleteType \<Rightarrow> string \<Rightarrow> string option" where
  "complete_function defined ctype arg0 =
     (let known = (\<lambda>f. if defined (''fn-'' @ f) then Some f else None) in
      case ctype of
        COMPLETE_FZF \<Rightarrow> known ''default_complete''
      | COMPLETE_HIST \<Rightarrow> known ''_history_complete''
      | COMPLETE_HELP \<Rightarrow> known ''_help_complete''
      | COMPLETE_MAN \<Rightarrow> known ''_man_complete''
      | COMPLETE_NEXT \<Rightarrow> known ''_next_complete''
      | _ \<Rightarrow> (if defined (''fn-'' @ arg0 @ ''_complete'') then Some (arg0 @ ''_complete'') else known ''default_complete''))"

fun complete_name :: "CompleteType \<Rightarrow> string" where
  "complete_name COMPLETE_ANY = ''any''" | "complete_name COMPLETE_FILES = ''files''"
| "complete_name COMPLETE_DIRS = ''dirs''" | "complete_name COMPLETE_EXES = ''exes''"
| "complete_name COMPLETE_HIST = ''hist''" | "complete_name COMPLETE_SCAN = ''scan''"
| "complete_name COMPLETE_ENV = ''env''" | "complete_name COMPLETE_FZF = ''fzf''"
| "complete_name COMPLETE_HELP = ''help''" | "complete_name COMPLETE_MAN = ''man''"
| "complete_name COMPLETE_NEXT = ''next''"

definition digit_char :: "nat \<Rightarrow> char" where
  "digit_char n = char_of (n + 48)"

text \<open>The number of the argument, counted from 1; \<open>n\<close> counts from 0.\<close>

definition arg_number :: "nat \<Rightarrow> string" where
  "arg_number n =
     (let n = n + 1 in
      (if 100 < n then [digit_char (n div 100)] else []) @ (if 10 < n then [digit_char (n div 10 mod 10)] else []) @
      [digit_char (n mod 10)])"

definition cmd_size :: nat where "cmd_size = 1024"

fun copy_args :: "string \<Rightarrow> string list \<Rightarrow> string" where
  "copy_args s [] = s"
| "copy_args s (a # as) =
     (if cmd_size < length s + 4 + length a + 2 then s
      else copy_args (copy_term (s @ '' '') (cmd_size - 6) a) as)"

text \<open>
  \<open>tty_completion\<close>: the command that calls the function, for the term that is completed, its number and the words of the line;
  \<open>Internal\<close> leaves the completion to the line editor. The words are pieces of the line, \<open>func\<close> has room for 128 bytes.
\<close>

datatype completion = Broken | Internal | Command string

definition tty_completion :: "(string \<Rightarrow> bool) \<Rightarrow> CompleteType \<Rightarrow> string option \<Rightarrow> (nat \<times> string list) option \<Rightarrow> completion" where
  "tty_completion defined ctype trm cmd =
     (case (trm, cmd) of
        (Some t, Some (arg_num, args)) \<Rightarrow>
          if args = [] \<or> hd args = [] \<or> length (hd args) > 128 - 16 then Broken
          else (case complete_function defined ctype (hd args) of
              None \<Rightarrow> Internal
            | Some fn \<Rightarrow>
                let s = ''compreply = <={'' @ fn @ '' '' @ complete_name ctype @ '' '';
                    s = copy_term s (cmd_size - 10) t @ '' '' @ arg_number arg_num
                in Command (copy_args s args @ ''}'' @ [nl_char]))
      | _ \<Rightarrow> Broken)"

section \<open>Properties of the command\<close>

lemma copy_loop_length: "length (fst (copy_loop lim s t)) \<le> Max {length s, lim - 2}"
proof (induction lim s t rule: copy_loop.induct)
  case (3 lim s c d t)
  then show ?case by (auto simp: max_def split: if_splits)
qed auto

lemma copy_term_length:
  assumes "3 \<le> lim"
  shows "length (copy_term s lim t) \<le> Max {length s + 4, lim}" "length t \<le> 1 \<Longrightarrow> length (copy_term s lim t) \<le> length s + 3"
proof -
  have r: "length (copy_rest lim s t) \<le> Max {length s + 2, lim}" for s t
    using copy_loop_length [of lim s t] assms by (auto simp: copy_rest_def max_def split: prod.splits if_splits)
  show "length (copy_term s lim t) \<le> Max {length s + 4, lim}"
    using r [of "s @ [squote, hd t]" "tl t"] r [of s "tl t"] by (auto simp: copy_term_def max_def split: if_splits)
  assume "length t \<le> 1"
  then have "t = [] \<or> (\<exists>c. t = [c])" by (cases t) auto
  then show "length (copy_term s lim t) \<le> length s + 3" by (auto simp: copy_term_def)
qed

lemma copy_args_length: "length s \<le> cmd_size - 3 \<Longrightarrow> length (copy_args s as) \<le> cmd_size - 3"
proof (induction s as rule: copy_args.induct)
  case (2 s a as)
  show ?case
  proof (cases "cmd_size < length s + 4 + length a + 2")
    case True
    then show ?thesis using 2(2) by simp
  next
    case False
    have "length (copy_term (s @ '' '') (cmd_size - 6) a) \<le> cmd_size - 3"
    proof (cases "length a \<le> 1")
      case True
      then show ?thesis using copy_term_length(2) [of "cmd_size - 6" a "s @ '' ''"] False
        by (cases "length a") (auto simp: cmd_size_def copy_term_def)
    next
      case long: False
      then show ?thesis using copy_term_length(1) [of "cmd_size - 6" "s @ '' ''" a] False by (auto simp: cmd_size_def)
    qed
    then show ?thesis using 2(1) [OF False] False by simp
  qed
qed simp

lemma complete_function_length:
  "complete_function defined ctype arg0 = Some fn \<Longrightarrow> length fn \<le> Max {length arg0 + 9, 17}"
  by (cases ctype) (auto simp: complete_function_def Let_def split: if_splits)

text \<open>
  C18: the command for a completion fits in its buffer of 1024 bytes, with the NUL behind it, whatever the line is,
  when the term that is completed fits in its own buffer. What is written is never taken back, so that no write before the last goes
  farther.
\<close>

theorem completion_fits:
  assumes "tty_completion defined ctype (Some t) (Some (arg_num, args)) = Command s" "length t < 128"
  shows "length s + 1 \<le> cmd_size"
proof -
  obtain fn where fn: "complete_function defined ctype (hd args) = Some fn" "length (hd args) \<le> 112"
    and s: "s = copy_args (copy_term (''compreply = <={'' @ fn @ '' '' @ complete_name ctype @ '' '') (cmd_size - 10) t @ '' '' @ arg_number arg_num) args
      @ ''}'' @ [nl_char]"
    using assms(1) by (auto simp: tty_completion_def Let_def split: if_splits option.splits)
  let ?p = "''compreply = <={'' @ fn @ '' '' @ complete_name ctype @ '' ''"
  have "length fn \<le> 121" using complete_function_length [OF fn(1)] fn(2) by (auto simp: max_def split: if_splits)
  moreover have "length (complete_name ctype) \<le> 5" by (cases ctype) auto
  ultimately have p: "length ?p \<le> 143" by simp
  have "length (arg_number arg_num) \<le> 3" by (simp add: arg_number_def Let_def)
  moreover have "length (copy_term ?p (cmd_size - 10) t) \<le> 1014"
    using copy_term_length(1) [of "cmd_size - 10" ?p t] p by (auto simp: cmd_size_def max_def split: if_splits)
  ultimately have "length (copy_args (copy_term ?p (cmd_size - 10) t @ '' '' @ arg_number arg_num) args) \<le> cmd_size - 3"
    by (intro copy_args_length) (auto simp: cmd_size_def)
  then show ?thesis by (simp add: s cmd_size_def)
qed

text \<open>A word without the quotes at its ends.\<close>

definition strip_end :: "string \<Rightarrow> string" where
  "strip_end t = (if t \<noteq> [] \<and> List.last t = squote then butlast t else t)"

definition stripped :: "string \<Rightarrow> string" where
  "stripped t = (if t \<noteq> [] \<and> hd t = squote then strip_end (tl t) else strip_end t)"

definition doubled :: "string \<Rightarrow> string" where
  "doubled t = concat (map (\<lambda>c. if c = squote then [squote, c] else [c]) t)"

lemma Sconv_loop_doubled: "\<forall>c \<in> set t. isprint c \<Longrightarrow> Sconv_loop Quoted t = doubled t @ [squote]"
  by (induction t) (auto simp: doubled_def squote_def)

lemma copy_loop_doubled:
  "t \<noteq> [] \<Longrightarrow> length s + 2 * length t + 3 \<le> lim \<Longrightarrow> copy_loop lim s t = (s @ doubled (butlast t), [List.last t])"
  by (induction lim s t rule: copy_loop.induct) (auto simp: doubled_def)

lemma copy_rest_doubled:
  assumes "t \<noteq> []" "length s + 2 * length t + 3 \<le> lim"
  shows "copy_rest lim s t = s @ doubled (strip_end t) @ [squote]"
proof -
  have "doubled t = doubled (butlast t) @ (if List.last t = squote then [squote, squote] else [List.last t])"
    by (subst append_butlast_last_id [OF assms(1), symmetric]) (simp add: doubled_def)
  then show ?thesis using assms copy_loop_doubled [OF assms] by (simp add: copy_rest_def strip_end_def)
qed

text \<open>
  C19: the words of a line are quoted for the command as \<open>%S\<close> quotes them, without the quotes they have at their ends; but the opening
  quote is not written for a word that starts with one, so that such a word breaks the command.
\<close>

theorem copy_term_quotes:
  assumes "\<forall>c \<in> set t. isprint c" "length s + 2 * length t + 5 \<le> lim" "t \<noteq> [squote]"
  shows "copy_term s lim t = s @ (if t \<noteq> [] \<and> hd t = squote then tl (Sconv True (stripped t)) else Sconv True (stripped t))"
proof -
  have "set (stripped t) \<subseteq> set t" by (cases t) (auto simp: stripped_def strip_end_def dest: in_set_butlastD)
  then have p: "\<forall>c \<in> set (stripped t). isprint c" using assms(1) by blast
  note S = Sconv_quoted [OF p] Sconv_loop_doubled [OF p]
  consider "t = []" | c where "t = [c]" "c \<noteq> squote" | c d u where "t = c # d # u" using assms(3) by (cases t; cases "tl t") auto
  then show ?thesis
  proof cases
    case 1
    then show ?thesis using S by (simp add: copy_term_def stripped_def strip_end_def doubled_def)
  next
    case 2
    then show ?thesis using S by (simp add: copy_term_def stripped_def strip_end_def doubled_def)
  next
    case (3 c d u)
    show ?thesis
    proof (cases "c = squote")
      case True
      then show ?thesis using S 3 assms(2) by (simp add: copy_term_def stripped_def copy_rest_doubled)
    next
      case False
      have "doubled (strip_end t) = c # doubled (strip_end (d # u))" using False 3 by (simp add: strip_end_def doubled_def)
      then show ?thesis using S 3 False assms(2) by (simp add: copy_term_def stripped_def copy_rest_doubled)
    qed
  qed
qed

text \<open>The number of the argument is right but for the tenth and the hundredth one, which lose their first digit.\<close>

theorem arg_number_digits:
  assumes "n < 999"
  shows "arg_number n = (if n = 9 then ''0'' else if n = 99 then ''00'' else show_nat (n + 1))"
proof -
  define m where "m = n + 1"
  have one: "show_nat k = [digit_char k]" if "k < 10" for k using that by (subst show_nat.simps) (simp add: digit_char_def add.commute)
  have more: "show_nat k = show_nat (k div 10) @ [digit_char (k mod 10)]" if "10 \<le> k" for k
    using that by (subst show_nat.simps) (simp add: digit_char_def add.commute)
  have "n = 9 \<longleftrightarrow> m = 10" "n = 99 \<longleftrightarrow> m = 100" "m < 1000" "0 < m" using assms by (auto simp: m_def)
  moreover have "arg_number n = (if 100 < m then [digit_char (m div 100)] else []) @ (if 10 < m then [digit_char (m div 10 mod 10)] else []) @
      [digit_char (m mod 10)]" by (simp add: arg_number_def Let_def m_def)
  moreover have "show_nat m = (if 100 \<le> m then [digit_char (m div 100)] else []) @ (if 10 \<le> m then [digit_char (m div 10 mod 10)] else []) @
      [digit_char (m mod 10)]"
  proof -
    consider "m < 10" | "10 \<le> m" "m < 100" | "100 \<le> m" by linarith
    then show ?thesis
    proof cases
      case 3
      have d: "m div 10 div 10 = m div 100" by (simp add: div_mult2_eq [symmetric])
      have "show_nat m = show_nat (m div 100) @ [digit_char (m div 10 mod 10)] @ [digit_char (m mod 10)]"
        using 3 more [of m] more [of "m div 10"] by (simp add: d)
      then show ?thesis using 3 \<open>m < 1000\<close> one [of "m div 100"] by simp
    qed (use one [of m] one [of "m div 10"] more [of m] in simp_all)
  qed
  moreover have "digit_char 0 = CHR ''0''" by code_simp
  moreover have "show_nat (n + 1) = show_nat m" by (simp only: m_def)
  ultimately show ?thesis by (auto simp del: show_nat.simps)
qed

section \<open>Reading a line\<close>

text \<open>
  One turn of the loop of \<open>tty_read\<close>: what \<open>lc_tty_get_line\<close> returns, the state of the line editor then, the line, whether
  \<open>errno\<close> is \<open>EINTR\<close>, the completion that was asked for, and the same of \<open>lc_tty_poll_wait\<close>.
\<close>

datatype line_status =
    LINE_STATUS_COMPLETE | LINE_STATUS_INTERRUPT | LINE_STATUS_SUSPEND | LINE_STATUS_BAD_INPUT | LINE_STATUS_BAD_PROMPT
  | LINE_STATUS_BAD_CURSOR | LINE_STATUS_WR_FAIL | LINE_STATUS_RD_FAIL | LINE_STATUS_OTHER

record tty_turn =
  got :: int
  lc_status :: line_status
  line :: string
  eintr :: bool
  completed :: completion
  polled :: int
  poll_eintr :: bool
  poll_status :: line_status

datatype tty_end = Line string | Completion string | Signalled | Stopped line_status

text \<open>The loop, which goes on when it returns \<^const>\<open>None\<close> for a turn; a list of turns that does not end it is one that waits.\<close>

definition tty_turn :: "tty_turn \<Rightarrow> tty_end option" where
  "tty_turn t =
     (if got t < 0 then Some (Stopped (lc_status t))
      else if got t > 0 then Some (Line (line t))
      else case (if lc_status t = LINE_STATUS_COMPLETE then completed t else Internal) of
          Command s \<Rightarrow> Some (Completion s)
        | _ \<Rightarrow>
            if eintr t then Some Signalled
            else if lc_status t = LINE_STATUS_INTERRUPT then Some (Stopped LINE_STATUS_INTERRUPT)
            else if polled t < 0 then Some (Stopped (poll_status t))
            else if polled t = 0 \<and> poll_eintr t then Some Signalled
            else if poll_status t = LINE_STATUS_INTERRUPT then Some (Stopped LINE_STATUS_INTERRUPT)
            else None)"

fun tty_loop :: "tty_turn list \<Rightarrow> tty_end option" where
  "tty_loop [] = None"
| "tty_loop (t # ts) = (case tty_turn t of None \<Rightarrow> tty_loop ts | Some r \<Rightarrow> Some r)"

text \<open>The calls of the line editor with an effect that lasts, and the globals of the terminal.\<close>

datatype tty_call = FlushHistory | PushHistory string | BreakHistory | AddCompletion string | SetContinue bool

record terminal =
  is_prompt2 :: bool
  is_completion :: bool
  heredoc_input :: bool
  calls :: "tty_call list"

definition prepare_line :: "string list \<Rightarrow> terminal \<Rightarrow> terminal" where
  "prepare_line compreply T =
     T\<lparr>is_completion := False,
       calls := calls T @ (if \<not> is_prompt2 T \<and> \<not> is_completion T then [FlushHistory] else []) @
         (if is_completion T then map AddCompletion (filter (\<lambda>s. s \<noteq> []) compreply) else []) @ [SetContinue (is_prompt2 T)]\<rparr>"

definition tty_answer :: "tty_end \<Rightarrow> terminal \<Rightarrow> answer \<times> string option \<times> terminal" where
  "tty_answer r T = (case r of
       Line s \<Rightarrow> (Data (s @ [nl_char]), None, T\<lparr>calls := calls T @ [if heredoc_input T then BreakHistory else PushHistory s]\<rparr>)
     | Completion s \<Rightarrow> (Data s, None, T\<lparr>is_completion := True\<rparr>)
     | Signalled \<Rightarrow> (Interrupted, None, T)
     | Stopped st \<Rightarrow>
         (case st of
            LINE_STATUS_BAD_INPUT \<Rightarrow> (Interrupted, Some ''Linecook: Bad UTF8 Input'', T)
          | LINE_STATUS_BAD_PROMPT \<Rightarrow> (Interrupted, Some ''Linecook: Invalid Prompt'', T)
          | LINE_STATUS_BAD_CURSOR \<Rightarrow> (Interrupted, Some ''Linecook: Bad Cursor Position'', T)
          | LINE_STATUS_WR_FAIL \<Rightarrow> (AtEnd, None, T)
          | LINE_STATUS_RD_FAIL \<Rightarrow> (AtEnd, None, T)
          | LINE_STATUS_SUSPEND \<Rightarrow> (Ctrl_C, None, T)
          | LINE_STATUS_INTERRUPT \<Rightarrow> (Ctrl_C, None, T)
          | _ \<Rightarrow> (Interrupted, None, T)))"

text \<open>\<open>tty_read\<close> on a terminal that is initialized: the answer, a warning, and the terminal. Turns that lack an end leave it waiting.\<close>

definition tty_read :: "string list \<Rightarrow> tty_turn list \<Rightarrow> terminal \<Rightarrow> (answer \<times> string option \<times> terminal) option" where
  "tty_read compreply turns T = map_option (\<lambda>r. tty_answer r (prepare_line compreply T)) (tty_loop turns)"

section \<open>Completion by the names of variables\<close>

definition scan_dict_fn_complete :: "string \<Rightarrow> string option" where
  "scan_dict_fn_complete key = (if hasprefix key ''fn-'' then Some (drop 3 key) else None)"

text \<open>A name of 1023 characters or more does not fit with its dollar sign, and is offered without it, with a length that includes the NUL.\<close>

definition scan_dict_env_complete :: "string \<Rightarrow> string option" where
  "scan_dict_env_complete key =
     (if \<not> hasprefix key ''fn-'' then Some (if length key + 1 < 1024 then CHR ''$'' # key else key @ [nul])
      else if hasprefix key ''fn-$'' then Some (drop 3 key) else None)"

definition dict_names :: "var dict \<Rightarrow> string list" where
  "dict_names d = List.map_filter (\<lambda>e. case e of Entry name v \<Rightarrow> Some name | _ \<Rightarrow> None) (table d)"

text \<open>\<open>tty_complete\<close>: the type of the completion and what it offers, before the files that the library adds, if it does.\<close>

definition tty_complete :: "var dict \<Rightarrow> CompleteType \<Rightarrow> string \<Rightarrow> nat \<Rightarrow> nat \<Rightarrow> CompleteType \<times> string list \<times> bool" where
  "tty_complete d ctype text off len =
     (if ctype \<noteq> COMPLETE_ANY then (ctype, [], True)
      else if off = 0 \<or> text ! (off - 1) = CHR ''{''
      then (COMPLETE_EXES, List.map_filter scan_dict_fn_complete (dict_names d), True)
      else if 0 < len \<and> text ! off = CHR ''$''
      then (COMPLETE_ENV, List.map_filter scan_dict_env_complete (dict_names d), False)
      else if 2 \<le> off + len \<and> text ! 0 = CHR ''c'' \<and> text ! 1 = CHR ''d'' \<and> (off + len = 2 \<or> text ! 2 = CHR '' '')
      then (COMPLETE_DIRS, [], True)
      else (ctype, [], True))"

section \<open>Small operations\<close>

text \<open>\<open>setevalstatus\<close>: the number that is shown for the status.\<close>

definition evalstatus :: "string option \<Rightarrow> int" where
  "evalstatus status = (case status of
       None \<Rightarrow> 0
     | Some s \<Rightarrow>
         let neg = (s \<noteq> [] \<and> hd s = CHR ''-''); s = (if neg then tl s else s) in
         if s \<noteq> [] \<and> isdigit (hd s) then atoi s * (if neg then -1 else 1) else 0)"

text \<open>\<open>stdgetenv\<close>: the first string of the environment with the name in front of its first equals sign.\<close>

fun stdgetenv :: "string list \<Rightarrow> string \<Rightarrow> string option" where
  "stdgetenv [] name = None"
| "stdgetenv (c # envs) name =
     (let np = takeWhile (\<lambda>c. c \<noteq> CHR ''='') name in
      if hasprefix c np \<and> length np < length c \<and> c ! length np = CHR ''='' then Some (drop (length np + 1) c)
      else stdgetenv envs name)"

text \<open>
  \<open>keybind\<close> before the terminal is there: the bytes it asks for and those that it writes, for a structure of 24 bytes and
  pointers of 8.
\<close>

definition keybind_room :: "string list \<Rightarrow> nat" where
  "keybind_room args = 24 * 8 * length args + sum_list (map (\<lambda>a. length a + 1) args)"

definition keybind_used :: "string list \<Rightarrow> nat" where
  "keybind_used args = 24 + 8 * length args + sum_list (map (\<lambda>a. length a + 1) args)"

definition keybind :: "bool \<Rightarrow> string list \<Rightarrow> string list list \<Rightarrow> string list list option" where
  "keybind tty args queue =
     (if tty then Some queue else if keybind_room args < keybind_used args then None else Some (queue @ [args]))"

text \<open>Saving a key binding overflows the memory that it allocates if, and only if, there are no arguments.\<close>

lemma keybind_overflow: "keybind False args queue = None \<longleftrightarrow> args = []"
  by (cases args) (simp_all add: keybind_def keybind_room_def keybind_used_def)

lemma stdgetenv_finds:
  assumes "CHR ''='' \<notin> set name" "\<forall>e \<in> set before. \<not> hasprefix e (name @ ''='')"
  shows "stdgetenv (before @ (name @ ''='' @ value) # after) name = Some value"
proof -
  have np: "takeWhile (\<lambda>c. c \<noteq> CHR ''='') name = name" using assms(1) by (simp add: takeWhile_eq_all_conv) metis
  have "hasprefix e name \<and> length name < length e \<and> e ! length name = CHR ''='' \<longleftrightarrow> hasprefix e (name @ ''='')" for e
  proof -
    have p: "hasprefix s p \<longleftrightarrow> (\<exists>r. s = p @ r)" for s p by (metis hasprefix_def append_eq_conv_conj append_take_drop_id)
    show ?thesis
    proof
      assume "hasprefix e name \<and> length name < length e \<and> e ! length name = CHR ''=''"
      then obtain r where "e = name @ r" "r \<noteq> []" "hd r = CHR ''=''" by (auto simp: p nth_append hd_conv_nth)
      then show "hasprefix e (name @ ''='')" by (cases r) (auto simp: p)
    qed (auto simp: p nth_append)
  qed
  then show ?thesis using assms(2) by (induction before) (auto simp: np Let_def hasprefix_def nth_append)
qed

section \<open>The chain of inputs\<close>

text \<open>
  The state in which inputs are parsed and run: the variables of the shell, the chain of inputs that starts with the global
  \<open>input\<close>, the first error of the parser, the prompts, and the descriptors that were closed.
\<close>

record istate = vstate +
  chain :: "input list"
  perror :: "string option"
  prompt :: "string option list"
  prompt2 :: bool
  closed :: "int list"

definition MAX_PROMPT_COUNT :: nat where "MAX_PROMPT_COUNT = 16"
definition EVAL_INCHILD :: int where "EVAL_INCHILD = 1"
definition EVAL_EXITONFALSE :: int where "EVAL_EXITONFALSE = 2"

definition isinteractive :: "istate \<Rightarrow> bool" where
  "isinteractive st = (case chain st of [] \<Rightarrow> False | i # _ \<Rightarrow> runflags i AND RUN_INTERACTIVE \<noteq> 0)"

definition yyerror :: "string \<Rightarrow> istate \<Rightarrow> istate upd" where
  "yyerror s st = (case chain st of
       [] \<Rightarrow> if perror st = None then Undef else Ok st
     | i # _ \<Rightarrow> Ok (if perror st = None then st\<lparr>perror := Some (locate i s)\<rparr> else st))"

definition resetparser :: "istate \<Rightarrow> istate" where
  "resetparser st = st\<lparr>perror := None\<rparr>"

text \<open>\<open>fdcleanup\<close> and \<open>stringcleanup\<close>; the memory of the buffer goes with the input.\<close>

definition cleanup :: "input \<Rightarrow> istate \<Rightarrow> istate" where
  "cleanup i st = (if cleaner i = FdCleanup \<and> ifd i \<noteq> -1 then st\<lparr>closed := closed st @ [ifd i]\<rparr> else st)"

text \<open>
  An exception handler: the local bindings that were pushed since are taken off, by \<open>throw_exception\<close>.
\<close>

fun unwind_pushes :: "'z vstate_scheme evaluator \<Rightarrow> nat \<Rightarrow> 'z vstate_scheme \<Rightarrow> 'z vstate_scheme upd" where
  "unwind_pushes ev 0 st = Ok st"
| "unwind_pushes ev (Suc k) st = obind (varpop ev (length (pushlist st)) st) (unwind_pushes ev k)"

definition with_handler :: "istate evaluator \<Rightarrow> istate \<Rightarrow> (istate, 'a) run \<Rightarrow> (terms \<Rightarrow> istate \<Rightarrow> (istate, 'a) run) \<Rightarrow> (istate, 'a) run" where
  "with_handler ev st0 run catch = (case run of
     Throw (Exn e, st) \<Rightarrow> obind (unwind_pushes ev (length (pushlist st) - length (pushlist st0)) st) (catch e)
   | r \<Rightarrow> r)"

text \<open>
  What an exception does: it cleans up behind the global input, takes it off the chain and goes on. Without one, the input \<open>in\<close>,
  which is the one above the chain \<open>below\<close>, is cleaned up, and the chain is \<open>below\<close>.
\<close>

definition leave_by_exception :: "terms \<Rightarrow> istate \<Rightarrow> (istate, 'a) run" where
  "leave_by_exception e st = (case chain st of
       [] \<Rightarrow> Undef
     | i # is \<Rightarrow> Throw (Exn e, cleanup i (st\<lparr>chain := is\<rparr>)))"

definition leave :: "nat \<Rightarrow> 'a \<Rightarrow> istate \<Rightarrow> (istate, 'a) run" where
  "leave below result st =
     (if length (chain st) \<le> below then Undef
      else let k = length (chain st) - below in
        Ok (result, cleanup (chain st ! (k - 1)) (st\<lparr>chain := drop k (chain st)\<rparr>)))"

section \<open>Parsing an input\<close>

text \<open>The parser is an argument: it returns whether it failed, and the tree.\<close>

type_synonym yyparser = "istate \<Rightarrow> (istate, bool \<times> tree) run"

definition set_prompts :: "string list option \<Rightarrow> string option list" where
  "set_prompts pr =
     (let ps = map Some (take MAX_PROMPT_COUNT (case pr of None \<Rightarrow> [] | Some ps \<Rightarrow> ps))
      in ps @ replicate (MAX_PROMPT_COUNT - length ps) None)"

definition parse :: "yyparser \<Rightarrow> string list option \<Rightarrow> istate \<Rightarrow> (istate, tree) run" where
  "parse yyparse pr st =
     (if perror st \<noteq> None then Abort
      else case chain st of
        [] \<Rightarrow> Undef
      | i # _ \<Rightarrow>
          if fill i = EofFill then Throw (Exn [Str ''eof''], st)
          else obind (yyparse (st\<lparr>prompt2 := False, prompt := set_prompts pr\<rparr>)) (\<lambda>((failed, tree), st).
            if failed \<or> perror st \<noteq> None then
              (case perror st of
                 None \<Rightarrow> Abort
               | Some e \<Rightarrow> Throw (Exn (fail_exn ''$&parse'' e), st\<lparr>perror := None\<rparr>))
            else Ok (tree, st)))"

text \<open>Getting a character from the input above the chain \<open>below\<close>.\<close>

definition get_above :: "nat \<Rightarrow> istate \<Rightarrow> (istate, char option) run" where
  "get_above below st =
     (if length (chain st) \<le> below then Undef
      else let k = length (chain st) - below - 1 in
        (case get (chain st ! k) of
           Ok (c, i) \<Rightarrow> Ok (c, st\<lparr>chain := (chain st)[k := i]\<rparr>)
         | Throw (e, i) \<Rightarrow> Throw (e, st\<lparr>chain := (chain st)[k := i]\<rparr>)
         | Abort \<Rightarrow> Abort | Undef \<Rightarrow> Undef))"

definition parseinput :: "istate evaluator \<Rightarrow> yyparser \<Rightarrow> input \<Rightarrow> istate \<Rightarrow> (istate, tree) run" where
  "parseinput ev yyparse i st =
     (let st1 = st\<lparr>chain := start_input 0 i # chain st\<rparr>; below = length (chain st) in
      obind (with_handler ev st1
          (obind (parse yyparse None st1) (\<lambda>(result, st).
           obind (get_above below st) (\<lambda>(c, st).
           if c \<noteq> None then Throw (Exn (fail_exn ''$&parse'' ''more than one value in term''), st)
           else Ok (result, st))))
          leave_by_exception)
        (\<lambda>(result, st). leave below result st))"

definition parsestring :: "istate evaluator \<Rightarrow> yyparser \<Rightarrow> string \<Rightarrow> istate \<Rightarrow> (istate, tree) run" where
  "parsestring ev yyparse str st = parseinput ev yyparse (string_input str None) st"

section \<open>Running an input\<close>

definition dispatcher :: "int \<Rightarrow> string" where
  "dispatcher fl =
     ''fn-%'' @ (if fl AND RUN_NOEXEC \<noteq> 0 then ''no'' else []) @ ''eval-'' @ (if fl AND RUN_PRINTCMDS \<noteq> 0 then [] else ''no'') @ ''print''"

text \<open>
  \<open>runinput\<close>: the evaluation of a list with flags, and the primitive \<open>batchloop\<close>, are arguments.
\<close>

definition run_loop :: "(int \<Rightarrow> istate evaluator) \<Rightarrow> (int \<Rightarrow> istate \<Rightarrow> (istate, terms) run) \<Rightarrow> int \<Rightarrow> istate \<Rightarrow> (istate, terms) run" where
  "run_loop ev batchloop fl st =
     obind (varlookup st (dispatcher fl) None) (\<lambda>dispatch.
     let dispatch = (if fl AND EVAL_EXITONFALSE \<noteq> 0 then Str ''%exit-on-false'' # dispatch else dispatch) in
     obind (varpush (ev 0) ''fn-%dispatch'' dispatch st) (\<lambda>st.
     let n = length (pushlist st) in
     obind (varlookup st (if fl AND RUN_INTERACTIVE \<noteq> 0 then ''fn-%interactive-loop'' else ''fn-%batch-loop'') None) (\<lambda>repl.
     obind (if repl = [] then batchloop fl st else ev fl repl st) (\<lambda>(result, st).
     obind (varpop (ev 0) n st) (\<lambda>st. Ok (result, st))))))"

definition runinput :: "(int \<Rightarrow> istate evaluator) \<Rightarrow> (int \<Rightarrow> istate \<Rightarrow> (istate, terms) run) \<Rightarrow> input \<Rightarrow> int \<Rightarrow> istate \<Rightarrow> (istate, terms) run" where
  "runinput ev batchloop i fl st =
     (let fl = fl AND NOT EVAL_INCHILD; st1 = st\<lparr>chain := start_input fl i # chain st\<rparr> in
      obind (with_handler (ev 0) st1 (run_loop ev batchloop fl st1) leave_by_exception)
        (\<lambda>(result, st'). leave (length (chain st)) result st'))"

definition runfd :: "(int \<Rightarrow> istate evaluator) \<Rightarrow> (int \<Rightarrow> istate \<Rightarrow> (istate, terms) run) \<Rightarrow> int \<Rightarrow> string option \<Rightarrow> answers \<Rightarrow> int \<Rightarrow> istate \<Rightarrow> (istate, terms) run" where
  "runfd ev batchloop fd name answers fl st = runinput ev batchloop (fd_input fd name answers) fl st"

definition runstring :: "(int \<Rightarrow> istate evaluator) \<Rightarrow> (int \<Rightarrow> istate \<Rightarrow> (istate, terms) run) \<Rightarrow> string \<Rightarrow> string option \<Rightarrow> int \<Rightarrow> istate \<Rightarrow> (istate, terms) run" where
  "runstring ev batchloop str name fl st = runinput ev batchloop (string_input str name) fl st"

text \<open>\<open>esgetenv\<close>, the \<open>getenv\<close> that libraries call: the text of a variable, which is kept in a dictionary of its own.\<close>

definition esgetenv :: "(es_term \<Rightarrow> string) \<Rightarrow> string \<Rightarrow> string dict \<Rightarrow> istate \<Rightarrow> (stop \<times> istate, string option \<times> string dict) outcome_of" where
  "esgetenv gs name envdict st =
     obind (varlookup st name None) (\<lambda>v.
     if v = [] then Ok (None, envdict)
     else obind (odict (dictput envdict name (Some (Wconv gs v)))) (\<lambda>d. Ok (Some (Wconv gs v), d)))"

definition initinput :: "istate \<Rightarrow> istate" where
  "initinput st = st\<lparr>chain := []\<rparr>"

section \<open>What is kept whatever happens\<close>

definition kept :: "('a \<Rightarrow> 's) \<Rightarrow> ('s \<Rightarrow> bool) \<Rightarrow> (stop \<times> 's, 'a) outcome_of \<Rightarrow> bool" where
  "kept f P m = (case m of Ok x \<Rightarrow> P (f x) | Throw (e, st) \<Rightarrow> P st | _ \<Rightarrow> True)"

lemma kept_obind:
  assumes "kept f P m" "\<And>x. m = Ok x \<Longrightarrow> P (f x) \<Longrightarrow> kept g P (h x)"
  shows "kept g P (obind m h)"
  using assms by (cases m) (auto simp: kept_def split: prod.splits)

text \<open>Operations that leave the state as it is when they throw an exception.\<close>

definition leaves :: "'s \<Rightarrow> (stop \<times> 's, 'a) outcome_of \<Rightarrow> bool" where
  "leaves st m \<longleftrightarrow> (\<forall>e st'. m = Throw (e, st') \<longrightarrow> st' = st)"

lemma leaves_simps [simp]: "leaves st (Ok x)" "leaves st Abort" "leaves st Undef" "leaves st (Throw (e, st))"
  by (simp_all add: leaves_def)

lemma leaves_on_throw [simp]: "leaves st (on_throw st m)"
  by (cases m) (auto simp: leaves_def)

lemma leaves_odict [simp]: "leaves st (odict d)"
  by (cases d) (auto simp: leaves_def odict_def)

lemma leaves_obind: "leaves st m \<Longrightarrow> (\<And>x. leaves st (f x)) \<Longrightarrow> leaves st (obind m f)"
  by (cases m) (auto simp: leaves_def)

lemma leaves_isexported [simp]: "leaves st (isexported st name)"
  by (auto simp: isexported_def intro!: leaves_obind split: option.split)

lemma leaves_varlookup_name: "leaves st (varlookup_name st name b)"
  unfolding varlookup_name_def by (intro leaves_obind) (auto intro!: leaves_obind split: option.split)

lemma leaves_varlookup [simp]: "leaves st (varlookup st name b)"
  by (auto simp: varlookup_def intro!: leaves_obind leaves_varlookup_name)

lemma leaves_varlookup2 [simp]: "leaves st (varlookup2 st n1 n2 b)"
  unfolding varlookup2_def by (intro leaves_obind) (auto intro!: leaves_obind split: option.split)

lemma kept_throws:
  assumes "leaves st m" "P st" "\<And>x. m = Ok x \<Longrightarrow> kept g P (h x)"
  shows "kept g P (obind m h)"
  using assms by (cases m) (auto simp: kept_def leaves_def split: prod.splits)

lemma kept_Ok [simp]: "kept f P (Ok x) = P (f x)"
  by (simp add: kept_def)

text \<open>A property of the chain of inputs is kept by the operations on variables when evaluation keeps it.\<close>

definition chain_is :: "(input list \<Rightarrow> bool) \<Rightarrow> istate \<Rightarrow> bool" where
  "chain_is Q st \<longleftrightarrow> Q (chain st)"

lemma chain_is_simps [simp]:
  "chain_is Q (st\<lparr>vars := v\<rparr>) = chain_is Q st" "chain_is Q (st\<lparr>pushlist := p\<rparr>) = chain_is Q st"
  "chain_is Q (st\<lparr>isdirty := b\<rparr>) = chain_is Q st" "chain_is Q (st\<lparr>vars := v, pushlist := p\<rparr>) = chain_is Q st"
  by (simp_all add: chain_is_def)

lemma kept_push_global: "chain_is Q st \<Longrightarrow> kept id (chain_is Q) (push_global name defn st)" for st :: istate
  unfolding push_global_def by (rule kept_throws [of st]) (auto intro!: kept_throws [of st] split: option.split)

lemma kept_pop_global: "chain_is Q st \<Longrightarrow> kept id (chain_is Q) (pop_global p defn st)" for st :: istate
  unfolding pop_global_def
  by (rule kept_throws [of st]) (auto intro!: kept_throws [of st] leaves_obind split: option.split)

lemma kept_mark_dirty: "chain_is Q st \<Longrightarrow> kept id (chain_is Q) (mark_dirty name st)" for st :: istate
  unfolding mark_dirty_def by (rule kept_throws [of st]) auto

lemma kept_callsettor:
  fixes st :: istate
  assumes ev: "\<And>list st. chain_is Q st \<Longrightarrow> kept snd (chain_is Q) (ev list st)" and st: "chain_is Q st"
  shows "kept snd (chain_is Q) (callsettor ev name defn st)"
proof -
  have "kept snd (chain_is Q) (obind (varpush0 ''0'' [Str name] st) (\<lambda>st.
      let n = length (pushlist st) in
      obind (ev (settor @ defn) st) (\<lambda>(lp, st). obind (varpop0 n st) (\<lambda>st. Ok (listcopy lp, st)))))" for settor
  proof (rule kept_obind [where f = id and P = "chain_is Q"])
    show "kept id (chain_is Q) (varpush0 ''0'' [Str name] st)"
      unfolding varpush0_def by (rule kept_throws [of st]) (simp_all add: st kept_push_global)
    fix st1 assume "chain_is Q (id st1)"
    then have e: "kept snd (chain_is Q) (ev (settor @ defn) st1)" using ev by simp
    show "kept snd (chain_is Q) (let n = length (pushlist st1) in
      obind (ev (settor @ defn) st1) (\<lambda>(lp, st). obind (varpop0 n st) (\<lambda>st. Ok (listcopy lp, st))))"
      unfolding Let_def
      by (rule kept_obind [OF e])
        (auto intro!: kept_obind [where f = id and P = "chain_is Q"] kept_pop_global simp: varpop0_def Let_def kept_def [of _ _ Abort] split: prod.split)
  qed
  then show ?thesis unfolding callsettor_def using st by (auto intro!: kept_throws [of st])
qed

lemma kept_varpush:
  fixes st :: istate
  assumes ev: "\<And>list st. chain_is Q st \<Longrightarrow> kept snd (chain_is Q) (ev list st)" and st: "chain_is Q st"
  shows "kept id (chain_is Q) (varpush ev name defn st)"
  unfolding varpush_def
proof (rule kept_throws [of st])
  show "kept id (chain_is Q) (obind (mark_dirty name st) (\<lambda>st. obind (callsettor ev name defn st) (\<lambda>(defn, st). push_global name defn st)))"
    by (rule kept_obind [OF kept_mark_dirty [OF st]], rule kept_obind [OF kept_callsettor [OF ev]])
      (auto simp: kept_push_global split: prod.split)
qed (simp_all add: st)

lemma kept_varpop:
  fixes st :: istate
  assumes ev: "\<And>list st. chain_is Q st \<Longrightarrow> kept snd (chain_is Q) (ev list st)" and st: "chain_is Q st"
  shows "kept id (chain_is Q) (varpop ev n st)"
proof -
  have "kept id (chain_is Q) (obind (mark_dirty (pname p) st) (\<lambda>st.
      obind (callsettor ev (pname p) (pdefn p) st) (\<lambda>(defn, st). pop_global p defn st)))" for p
    by (rule kept_obind [OF kept_mark_dirty [OF st]], rule kept_obind [OF kept_callsettor [OF ev]])
      (auto simp: kept_pop_global split: prod.split)
  then show ?thesis by (simp add: varpop_def Let_def kept_def [of _ _ Abort])
qed

lemma kept_unwind:
  fixes st :: istate
  assumes ev: "\<And>list st. chain_is Q st \<Longrightarrow> kept snd (chain_is Q) (ev list st)"
  shows "chain_is Q st \<Longrightarrow> kept id (chain_is Q) (unwind_pushes ev k st)"
proof (induction k arbitrary: st)
  case (Suc k)
  then show ?case by (auto intro!: kept_obind [OF kept_varpop [OF ev Suc.prems]] Suc.IH)
qed simp

section \<open>Inputs are left as they were entered\<close>

text \<open>The chain \<open>below\<close> with one input above it, whose state may have changed.\<close>

definition above :: "input list \<Rightarrow> istate \<Rightarrow> bool" where
  "above below = chain_is (\<lambda>is. \<exists>j. is = j # below)"

text \<open>Evaluation reads from the global input, and leaves the chain behind it as it is.\<close>

definition keeps_chain :: "(istate \<Rightarrow> (istate, 'a) run) \<Rightarrow> bool" where
  "keeps_chain m \<longleftrightarrow> (\<forall>below st. above below st \<longrightarrow> kept snd (above below) (m st))"

text \<open>What it is to leave an input: it is cleaned up, and the chain below is the global input again.\<close>

definition left :: "input list \<Rightarrow> istate \<Rightarrow> bool" where
  "left below st' \<longleftrightarrow> (\<exists>i st. chain st = i # below \<and> st' = cleanup i (st\<lparr>chain := below\<rparr>))"

text \<open>
  How a frame ends: the input is left, or an exception came from a settor function while the local bindings of the frame were
  taken off. Then the handler of the frame, which is off the stack already, does not run.
\<close>

definition frame_ends :: "istate evaluator \<Rightarrow> input list \<Rightarrow> (istate, 'a) run \<Rightarrow> bool" where
  "frame_ends ev below m \<longleftrightarrow> (case m of
       Ok (x, st') \<Rightarrow> left below st'
     | Throw (Exn e, st') \<Rightarrow> left below st' \<or> (\<exists>k st. above below st \<and> unwind_pushes ev k st = Throw (Exn e, st'))
     | _ \<Rightarrow> True)"

lemma leave_by_exception_left: "above below st \<Longrightarrow> \<exists>st'. leave_by_exception e st = Throw (Exn e, st') \<and> left below st'"
proof -
  assume "above below st"
  then obtain i where "chain st = i # below" by (auto simp: above_def chain_is_def)
  then show ?thesis unfolding leave_by_exception_def left_def by auto
qed

lemma leave_left: "above below st \<Longrightarrow> \<exists>st'. leave (length below) x st = Ok (x, st') \<and> left below st'"
proof -
  assume "above below st"
  then obtain i where "chain st = i # below" by (auto simp: above_def chain_is_def)
  then show ?thesis unfolding leave_def left_def by auto
qed

lemma frame:
  fixes run :: "(istate, 'a) run"
  assumes ev: "\<And>list. keeps_chain (ev list)" and run: "kept snd (above below) run"
  shows "frame_ends ev below (obind (with_handler ev st0 run leave_by_exception) (\<lambda>(x, st). leave (length below) x st))"
proof (cases run)
  case (Ok y)
  then obtain x st where "y = (x, st)" "above below st" using run by (cases y) (auto simp: kept_def)
  then show ?thesis using leave_left [of below st x] Ok by (auto simp: with_handler_def frame_ends_def)
next
  case (Throw y)
  then obtain e st where y: "y = (e, st)" "above below st" using run by (cases y) (auto simp: kept_def)
  show ?thesis
  proof (cases e)
    case (Exn e)
    let ?k = "length (pushlist st) - length (pushlist st0)"
    have "kept id (above below) (unwind_pushes ev ?k st)"
      using kept_unwind [of _ ev st ?k] ev y(2) unfolding above_def keeps_chain_def by blast
    moreover have w: "with_handler ev st0 run leave_by_exception = obind (unwind_pushes ev ?k st) (leave_by_exception e)"
      using Throw Exn y by (simp add: with_handler_def)
    ultimately show ?thesis
    proof (cases "unwind_pushes ev ?k st")
      case (Ok st1)
      then have "above below st1" using \<open>kept id _ _\<close> by (simp add: kept_def)
      then obtain st' where "leave_by_exception e st1 = (Throw (Exn e, st') :: (istate, 'a) run)" "left below st'"
        using leave_by_exception_left by blast
      then show ?thesis using w Ok by (simp add: frame_ends_def)
    next
      case thrown: (Throw z)
      then show ?thesis using w y(2) by (cases z) (auto simp: frame_ends_def split: stop.split)
    qed (simp_all add: w frame_ends_def)
  qed (use Throw y in \<open>simp_all add: with_handler_def frame_ends_def\<close>)
qed (simp_all add: with_handler_def frame_ends_def)

lemma run_loop_keeps:
  assumes ev: "\<And>fl list. keeps_chain (ev fl list)" and loop: "\<And>fl. keeps_chain (batchloop fl)"
  shows "above below st \<Longrightarrow> kept snd (above below) (run_loop ev batchloop fl st)"
proof -
  assume st: "above below st"
  note e = ev [unfolded keeps_chain_def above_def, rule_format]
  have l: "kept snd (above below) (batchloop fl st)" "kept snd (above below) (ev fl list st)" if "above below st" for list st
    using that loop ev by (auto simp: keeps_chain_def)
  show ?thesis unfolding run_loop_def Let_def
  proof (rule kept_throws [of st])
    fix dispatch
    let ?d = "if fl AND EVAL_EXITONFALSE \<noteq> 0 then Str ''%exit-on-false'' # dispatch else dispatch"
    let ?name = "if fl AND RUN_INTERACTIVE \<noteq> 0 then ''fn-%interactive-loop'' else ''fn-%batch-loop''"
    have p: "kept id (above below) (varpush (ev 0) ''fn-%dispatch'' ?d st)"
      unfolding above_def by (rule kept_varpush) (use e st above_def in auto)
    show "kept snd (above below) (obind (varpush (ev 0) ''fn-%dispatch'' ?d st) (\<lambda>st.
        obind (varlookup st ?name None) (\<lambda>repl. obind (if repl = [] then batchloop fl st else ev fl repl st) (\<lambda>(result, st').
        obind (varpop (ev 0) (length (pushlist st)) st') (\<lambda>st. Ok (result, st))))))"
    proof (rule kept_obind [OF p])
      fix st1 assume "above below (id st1)"
      then have st1: "above below st1" by simp
      show "kept snd (above below) (obind (varlookup st1 ?name None) (\<lambda>repl. obind (if repl = [] then batchloop fl st1 else ev fl repl st1)
          (\<lambda>(result, st'). obind (varpop (ev 0) (length (pushlist st1)) st') (\<lambda>st. Ok (result, st)))))"
      proof (rule kept_throws [of st1])
        fix repl
        have m: "kept snd (above below) (if repl = [] then batchloop fl st1 else ev fl repl st1)" using l [OF st1] by simp
        have pop: "kept id (above below) (varpop (ev 0) n st2)" if "above below st2" for n st2
          unfolding above_def by (rule kept_varpop) (use e that above_def in auto)
        show "kept snd (above below) (obind (if repl = [] then batchloop fl st1 else ev fl repl st1)
          (\<lambda>(result, st'). obind (varpop (ev 0) (length (pushlist st1)) st') (\<lambda>st. Ok (result, st))))"
          by (rule kept_obind [OF m]) (auto intro!: kept_obind [OF pop])
      qed (simp_all add: st1)
    qed
  qed (simp_all add: st)
qed


text \<open>
  C17: a string is parsed to one tree: what the parser leaves of it is an error, as is what the parser itself reports, and
  whatever the outcome the error is forgotten and the input that was read before is the global one again.
\<close>

theorem parsestring_whole:
  assumes "perror st = None"
    and yy: "yyparse (st\<lparr>chain := start_input 0 (string_input str None) # chain st, prompt2 := False, prompt := replicate 16 None\<rparr>) =
      Ok ((failed, t), st2)"
    and st2: "chain st2 = j # chain st" "length (pushlist st2) = length (pushlist st)" "quiet_input j" "failed \<longrightarrow> perror st2 \<noteq> None"
  shows "\<exists>st'. chain st' = chain st \<and> perror st' = None \<and> pushlist st' = pushlist st2 \<and> parsestring ev yyparse str st =
    (case perror st2 of
       Some e \<Rightarrow> Throw (Exn (fail_exn ''$&parse'' e), st')
     | None \<Rightarrow> if pending j = [] then Ok (t, st')
         else if hd (pending j) = None then Ok (t, st')
         else Throw (Exn (fail_exn ''$&parse'' ''more than one value in term''), st'))"
proof -
  have p: "set_prompts None = replicate 16 None" by (simp add: set_prompts_def MAX_PROMPT_COUNT_def)
  have f: "fill (start_input 0 (string_input str None)) \<noteq> EofFill" by (simp add: start_input_def string_input_def)
  obtain c j' where g: "get j = Ok (c, j')" "pending j = c # pending j' \<or> c = None \<and> pending j = []"
    using get_reads [of j] st2(3) by (auto simp: quiet_input_def)
  have cl: "chain (cleanup i s) = chain s" "perror (cleanup i s) = perror s" "pushlist (cleanup i s) = pushlist s" for i s
    by (simp_all add: cleanup_def)
  note run = parsestring_def parseinput_def parse_def with_handler_def leave_by_exception_def leave_def get_above_def Let_def
  show ?thesis
  proof (cases "perror st2")
    case (Some e)
    then show ?thesis using assms(1) yy st2 f
      by (intro exI [of _ "cleanup j (st2\<lparr>perror := None, chain := chain st\<rparr>)"]) (simp add: run p cl)
  next
    case None
    let ?st = "cleanup j' (st2\<lparr>chain := chain st\<rparr>)"
    have "parsestring ev yyparse str st = (if c = None then Ok (t, ?st)
        else Throw (Exn (fail_exn ''$&parse'' ''more than one value in term''), ?st))"
      using None assms(1) yy st2 f g(1) by (simp add: run p)
    then show ?thesis using None g(2) by (intro exI [of _ ?st]) (auto simp: cl)
  qed
qed

section \<open>Examples\<close>

definition piecewise :: answers where
  "piecewise = [(Data ''l'', None), (Interrupted, None), (Data [nul, CHR ''s''], None)]"

lemma piecewise_calm: "calm piecewise" "arriving piecewise = ''ls''"
  by (auto simp: calm_def piecewise_def nul_def)

lemma input_delivers_in_order_witness:
  "\<exists>i'. read_chars GETC 3 (start_input 0 (fd_input 3 None piecewise)) = Ok ([Some CHR ''l'', Some CHR ''s'', None], i') \<and> quiet_input i' \<and>
     pending i' = []"
proof -
  have s: "quiet_input (start_input 0 (fd_input 3 None piecewise))" "pending (start_input 0 (fd_input 3 None piecewise)) = map Some ''ls''"
    using start_fd [of 0 3 piecewise None] piecewise_calm by simp_all
  show ?thesis using input_delivers_in_order [OF s(1), of 3] by (simp add: s(2) numeral_3_eq_3)
qed

lemma unget_then_get_witness:
  "\<exists>i' i''. unget 0 (Some CHR ''x'') (start_input 0 (string_input ''ls'' None)) = Ok i' \<and> GETC i' = Ok (Some CHR ''x'', i'') \<and> quiet_input i'' \<and>
     pending i'' = map Some ''ls''"
proof -
  have s: "quiet_input (start_input 0 (string_input ''ls'' None))" "pending (start_input 0 (string_input ''ls'' None)) = map Some ''ls''"
    using start_string [of 0 "''ls''" None] by (simp_all add: nul_def)
  show ?thesis unfolding s(2) [symmetric]
    by (rule unget_then_get [OF s(1)]) (simp_all add: start_input_def string_input_def blank_input_def MAXUNGET_def nul_def)
qed

lemma string_and_file_agree_witness:
  "\<exists>cs i i' r. read_chars list_getc 3 ''ls'' = Ok (cs, r) \<and>
    read_chars GETC 3 (start_input 0 (string_input ''ls'' None)) = Ok (cs, i) \<and> pending i = map Some r \<and>
    read_chars GETC 3 (start_input 0 (fd_input 3 None piecewise)) = Ok (cs, i') \<and> pending i' = map Some r"
  by (rule string_and_file_agree) (simp_all add: piecewise_calm nul_def)

lemma echo_shows_once_witness:
  "\<exists>c i1 i2. GETC (start_input 16 (string_input ''ls'' None)) = Ok (c, i1) \<and> unget 16 (Some CHR ''l'') i1 = Ok i2 \<and>
     shown i2 @ unread i2 = ''ls''"
proof -
  let ?i = "start_input 16 (string_input ''ls'' None)"
  have s: "quiet_input ?i" "verbose ?i" "shown ?i @ unread ?i = ''ls''"
    using start_string [of 16 "''ls''" None]
    by (simp_all add: nul_def RUN_INTERRUPT_def) (simp_all add: start_input_def string_input_def blank_input_def RUN_ECHOINPUT_def unread_def
      filler_of_def place_of_def nul_def)
  obtain c i1 where g: "GETC ?i = Ok (c, i1)" using GETC_reads [of ?i] s(1) by (auto simp: quiet_input_def)
  then have g1: "i1 = ?i\<lparr>buf := 1, shown := ''l''\<rparr>"
    by (simp add: GETC_def getverbose_def get.simps next_char_def start_input_def string_input_def blank_input_def RUN_ECHOINPUT_def nul_def)
  obtain i2 where u: "unget 16 (Some CHR ''l'') i1 = Ok i2"
    by (simp add: g1 unget_def start_input_def string_input_def blank_input_def RUN_ECHOINPUT_def)
  have "unget_room (Some CHR ''l'') i1"
    by (simp add: g1 unget_room_def start_input_def string_input_def blank_input_def MAXUNGET_def nul_def)
  then have "echo_step\<^sup>*\<^sup>* ?i i2"
    using echo_step.getting [OF g] echo_step.ungetting [of "Some CHR ''l''" i1 16 i2] u by (auto simp: RUN_ECHOINPUT_def)
  from echo_shows_once [OF this s(1,2)] s(3) g u show ?thesis by auto
qed

lemma completion_fits_witness:
  "tty_completion (\<lambda>_. True) COMPLETE_ANY (Some ''x'') (Some (1, [''ls'', ''x''])) =
     Command (''compreply = <={ls_complete any '' @ [squote] @ ''x'' @ [squote] @ '' 2 '' @ [squote] @ ''ls'' @ [squote] @ '' '' @ [squote] @ ''x'' @
       [squote] @ ''}'' @ [nl_char]) \<and>
   length (''compreply = <={ls_complete any '' @ [squote] @ ''x'' @ [squote] @ '' 2 '' @ [squote] @ ''ls'' @ [squote] @ '' '' @ [squote] @ ''x'' @
       [squote] @ ''}'' @ [nl_char]) + 1 \<le> cmd_size"
proof
  show t: "tty_completion (\<lambda>_. True) COMPLETE_ANY (Some ''x'') (Some (1, [''ls'', ''x''])) =
     Command (''compreply = <={ls_complete any '' @ [squote] @ ''x'' @ [squote] @ '' 2 '' @ [squote] @ ''ls'' @ [squote] @ '' '' @ [squote] @ ''x'' @
       [squote] @ ''}'' @ [nl_char])"
    by code_simp
  show "length (''compreply = <={ls_complete any '' @ [squote] @ ''x'' @ [squote] @ '' 2 '' @ [squote] @ ''ls'' @ [squote] @ '' '' @ [squote] @ ''x'' @
       [squote] @ ''}'' @ [nl_char]) + 1 \<le> cmd_size"
    by (rule completion_fits [OF t]) simp
qed

lemma copy_term_quotes_witness:
  "copy_term ''f '' 99 ''it'' = ''f '' @ [squote] @ ''it'' @ [squote] \<and>
   copy_term ''f '' 99 ([squote] @ ''it'' @ [squote]) = ''f '' @ ''it'' @ [squote]"
proof -
  have "Sconv True ''it'' = [squote] @ ''it'' @ [squote]" by code_simp
  then show ?thesis
    using copy_term_quotes [of "''it''" "''f ''" 99] copy_term_quotes [of "[squote] @ ''it'' @ [squote]" "''f ''" 99]
    by (simp add: stripped_def strip_end_def isprint_def uchar_def char_defs)
qed

lemma arg_number_digits_witness: "arg_number 9 = ''0'' \<and> arg_number 99 = ''00'' \<and> arg_number 41 = show_nat 42"
  using arg_number_digits [of 9] arg_number_digits [of 99] arg_number_digits [of 41] by simp

definition idle :: istate where
  "idle = vstate.extend (blank \<lparr>dsize = 0, remain = 0, table = []\<rparr>)
     \<lparr>chain = [string_input ''outer'' None], perror = None, prompt = [], prompt2 = False, closed = []\<rparr>"

definition echo_args :: "int \<Rightarrow> istate evaluator" where
  "echo_args fl list st = Ok (list, st)"

definition get_one :: "int \<Rightarrow> istate \<Rightarrow> (istate, terms) run" where
  "get_one fl st = obind (get_above (length (chain st) - 1) st) (\<lambda>(c, st). Ok (ltrue, st))"

lemma echo_args_keeps: "keeps_chain (echo_args fl list)"
  by (simp add: keeps_chain_def echo_args_def)

lemma get_one_keeps: "keeps_chain (get_one fl)"
  unfolding keeps_chain_def
proof (intro allI impI)
  fix below st assume "above below st"
  then obtain j where "chain st = j # below" by (auto simp: above_def chain_is_def)
  then show "kept snd (above below) (get_one fl st)"
    by (cases "get j") (auto simp: get_one_def get_above_def Let_def kept_def above_def chain_is_def split: prod.splits)
qed


text \<open>A parser that takes one character of its input.\<close>

definition take_one :: yyparser where
  "take_one st = (case chain st of [] \<Rightarrow> Undef | j # js \<Rightarrow> Ok ((False, nWord (take 1 (bytes j))), st\<lparr>chain := j\<lparr>buf := 1\<rparr> # js\<rparr>))"

lemma parsestring_whole_witness:
  "(\<exists>st'. parsestring (echo_args 0) take_one ''a'' idle = Ok (nWord ''a'', st') \<and> chain st' = chain idle) \<and>
   (\<exists>st'. parsestring (echo_args 0) take_one ''ab'' idle = Throw (Exn (fail_exn ''$&parse'' ''more than one value in term''), st') \<and>
      chain st' = chain idle)"
proof -
  let ?j = "\<lambda>s. (start_input 0 (string_input s None))\<lparr>buf := 1\<rparr>"
  let ?st = "\<lambda>s. idle\<lparr>chain := ?j s # chain idle, prompt2 := False, prompt := replicate 16 None\<rparr>"
  have i: "perror idle = None" by (simp add: idle_def vstate.extend_def)
  have y: "take_one (idle\<lparr>chain := start_input 0 (string_input s None) # chain idle, prompt2 := False, prompt := replicate 16 None\<rparr>) =
      Ok ((False, nWord (take 1 s)), ?st s)" for s
    by (simp add: take_one_def start_input_def string_input_def)
  have q: "quiet_input (?j ''a'')" "pending (?j ''a'') = []" "quiet_input (?j ''ab'')" "pending (?j ''ab'') = [Some CHR ''b'']"
    by (simp_all add: quiet_input_def input_ok_def calm_def pending_def unread_def filler_of_def place_of_def start_input_def string_input_def
        blank_input_def MAXUNGET_def nul_def)
  have e: "perror (?st s) = None" for s using i by simp
  have w: "\<exists>st'. chain st' = chain idle \<and> perror st' = None \<and> pushlist st' = pushlist (?st s) \<and> parsestring (echo_args 0) take_one s idle =
    (if pending (?j s) = [] then Ok (nWord (take 1 s), st') else if hd (pending (?j s)) = None then Ok (nWord (take 1 s), st')
     else Throw (Exn (fail_exn ''$&parse'' ''more than one value in term''), st'))" if "quiet_input (?j s)" for s
    using parsestring_whole [where st = idle and yyparse = take_one and str = s and ?st2.0 = "?st s" and j = "?j s" and
        failed = False and t = "nWord (take 1 s)" and ev = "echo_args 0", OF i y] that by (simp add: i)
  have "\<exists>st'. chain st' = chain idle \<and> parsestring (echo_args 0) take_one ''a'' idle = Ok (nWord ''a'', st')"
    using w [OF q(1)] unfolding q(2) by auto
  moreover have "\<exists>st'. chain st' = chain idle \<and> parsestring (echo_args 0) take_one ''ab'' idle =
      Throw (Exn (fail_exn ''$&parse'' ''more than one value in term''), st')"
    using w [OF q(3)] unfolding q(4) by auto
  ultimately show ?thesis by blast
qed

end
