(* ===== verification/Glob.thy ===== *)
theory Glob
  imports Match
begin

text \<open>
  The parts of \<open>src/glom.cpp\<close> and \<open>src/glob.cpp\<close> that evaluate nothing: concatenation of lists with
  and without quoting, subscripts, and the expansion of wildcards over a file system. A list of terms
  with its list of quoting flags (\<open>StrList\<close>), which the code keeps at the same length, is a list of
  pairs. The walk over the tree that calls them is in \<open>Eval\<close>.
\<close>

section \<open>Concatenation\<close>

definition catterm :: "(es_term \<Rightarrow> string) \<Rightarrow> es_term \<Rightarrow> es_term \<Rightarrow> es_term" where
  "catterm gs t1 t2 = (case termcat gs (Some t1) (Some t2) of Some t \<Rightarrow> t | None \<Rightarrow> Str [])"

fun concat_list :: "(es_term \<Rightarrow> string) \<Rightarrow> terms \<Rightarrow> terms \<Rightarrow> terms" where
  "concat_list gs [] list2 = []"
| "concat_list gs (t # list1) list2 = map (catterm gs t) list2 @ concat_list gs list1 list2"

text \<open>The flags that a quote stands for on a string of length \<open>n\<close>.\<close>

definition flags_of :: "quote \<Rightarrow> nat \<Rightarrow> string" where
  "flags_of q n = (case q of
     QUOTED \<Rightarrow> replicate n (CHR ''q'') | UNQUOTED \<Rightarrow> replicate n (CHR ''r'') | Flags f \<Rightarrow> f)"

definition qcat :: "(es_term \<Rightarrow> string) \<Rightarrow> quote \<Rightarrow> quote \<Rightarrow> es_term \<Rightarrow> es_term \<Rightarrow> quote" where
  "qcat gs q1 q2 t1 t2 =
     (if q1 = QUOTED \<and> q2 = QUOTED then QUOTED
      else if q1 = UNQUOTED \<and> q2 = UNQUOTED then UNQUOTED
      else Flags (flags_of q1 (length (gs t1)) @ flags_of q2 (length (gs t2))))"

fun qconcat :: "(es_term \<Rightarrow> string) \<Rightarrow> (es_term \<times> quote) list \<Rightarrow> (es_term \<times> quote) list \<Rightarrow> (es_term \<times> quote) list" where
  "qconcat gs [] l2 = []"
| "qconcat gs ((t, q) # l1) l2 = map (\<lambda>(u, r). (catterm gs t u, qcat gs q r t u)) l2 @ qconcat gs l1 l2"

section \<open>Subscripts\<close>

text \<open>
  The state of the loop: the cell \<open>current\<close>, its number \<open>counter\<close>, and the result. \<open>sub_take\<close> is its
  last part, which goes back to the front of the list when it has passed \<open>lo\<close>.
\<close>

type_synonym sub_state = "terms \<times> int \<times> terms"

definition sub_take :: "terms \<Rightarrow> int \<Rightarrow> int \<Rightarrow> int \<Rightarrow> sub_state \<Rightarrow> sub_state" where
  "sub_take list len lo hi = (\<lambda>(current, counter, result).
     if len < lo then (current, counter, result)
     else
       let (current, counter) = (if lo < counter then (list, 1) else (current, counter));
           current = drop (nat (lo - counter)) current;
           n = nat (hi - lo + 1)
       in (drop n current, lo + int n, result @ take n current))"

definition sub_number :: "(es_term \<Rightarrow> string) \<Rightarrow> es_term \<Rightarrow> int outcome" where
  "sub_number gs t =
     (let n = int_of_long (atoi (gs t)) in
      if n < 1 then Throw (fail_exn ''es:subscript'' (''bad subscript: '' @ gs t)) else Ok n)"

text \<open>\<open>mid_range\<close>: the upper bound and the subscripts behind it.\<close>

definition sub_upper :: "(es_term \<Rightarrow> string) \<Rightarrow> int \<Rightarrow> terms \<Rightarrow> (int \<times> terms) outcome" where
  "sub_upper gs len subs =
     (case subs of
        [] \<Rightarrow> Ok (len, [])
      | t # rest \<Rightarrow> obind (sub_number gs t) (\<lambda>hi. Ok (if len < hi then len else hi, rest)))"

lemma sub_upper_length [simp]: "sub_upper gs len subs = Ok (hi, rest) \<Longrightarrow> length rest \<le> length subs"
  by (auto simp: sub_upper_def obind_Ok split: list.splits)

text \<open>\<open>fuel\<close> bounds the number of subscripts.\<close>

fun subscript_loop :: "nat \<Rightarrow> (es_term \<Rightarrow> string) \<Rightarrow> terms \<Rightarrow> int \<Rightarrow> terms \<Rightarrow> sub_state \<Rightarrow> terms outcome" where
  "subscript_loop fuel gs list len [] st = Ok (snd (snd st))"
| "subscript_loop 0 gs list len (t # subs) st = Undef"
| "subscript_loop (Suc fuel) gs list len (t # subs) st =
     obind (sub_number gs t) (\<lambda>lo.
     obind (if subs \<noteq> [] \<and> gs (hd subs) = ''...'' then sub_upper gs len (tl subs) else Ok (lo, subs)) (\<lambda>(hi, subs).
     subscript_loop fuel gs list len subs (sub_take list len lo hi st)))"

definition subscript :: "(es_term \<Rightarrow> string) \<Rightarrow> terms \<Rightarrow> terms \<Rightarrow> terms outcome" where
  "subscript gs list subs =
     (let len = list_length list in
      if subs \<noteq> [] \<and> gs (hd subs) = ''...'' then
        obind (sub_upper gs len (tl subs)) (\<lambda>(hi, subs).
        subscript_loop (length subs) gs list len subs (sub_take list len 1 hi (list, 1, [])))
      else subscript_loop (length subs) gs list len subs (list, 1, []))"

section \<open>Wildcards\<close>

text \<open>
  The file system: which names are directories (\<open>stat\<close>), which exist (\<open>lstat\<close>), and the entries of a
  directory, \<^const>\<open>None\<close> when it cannot be read. \<open>mem\<close> is the memory behind the array \<open>UNQUOTED\<close>, which
  \<open>match\<close> may read.
\<close>

record fsys =
  is_dir :: "string \<Rightarrow> bool"
  file_exists :: "string \<Rightarrow> bool"
  dirents :: "string \<Rightarrow> string list option"

definition hastilde :: "string \<Rightarrow> quote \<Rightarrow> bool" where
  "hastilde s q \<longleftrightarrow> s \<noteq> [] \<and> hd s = CHR 0x7E \<and> israw q"

definition ishiddenfile :: "string \<Rightarrow> bool" where
  "ishiddenfile s \<longleftrightarrow> s \<noteq> [] \<and> hd s = CHR ''.''"

definition dirmatch :: "(nat \<Rightarrow> char) \<Rightarrow> fsys \<Rightarrow> string \<Rightarrow> string \<Rightarrow> string \<Rightarrow> quote \<Rightarrow> string list" where
  "dirmatch mem fs prefix dirname pattern q =
     (if \<not> is_dir fs dirname then []
      else if \<not> haswild pattern q then
        (if file_exists fs (prefix @ pattern) then [prefix @ pattern] else [])
      else case dirents fs dirname of
        None \<Rightarrow> []
      | Some es \<Rightarrow> map (\<lambda>name. prefix @ name)
          (filter (\<lambda>name. match mem name pattern q \<and>
              (\<not> ishiddenfile name \<or> pattern \<noteq> [] \<and> hd pattern = CHR ''.'')) es))"

definition slashes :: "nat \<Rightarrow> string" where
  "slashes n = replicate n (CHR ''/'')"

fun listglob :: "(nat \<Rightarrow> char) \<Rightarrow> fsys \<Rightarrow> string list \<Rightarrow> string \<Rightarrow> quote \<Rightarrow> nat \<Rightarrow> string list" where
  "listglob mem fs [] pattern q slashcount = []"
| "listglob mem fs (dir # list) pattern q slashcount =
     dirmatch mem fs (dir @ slashes slashcount) dir pattern q @ listglob mem fs list pattern q slashcount"

definition slash :: "char \<Rightarrow> bool" where
  "slash c \<longleftrightarrow> c = CHR ''/''"

text \<open>
  The loop of \<open>glob1\<close> over the components of the path; \<open>s\<close> and \<open>q\<close> are the rests of the pattern and of
  its flags. It ends because each component takes a character.
\<close>

function glob1_loop :: "(nat \<Rightarrow> char) \<Rightarrow> fsys \<Rightarrow> string \<Rightarrow> string \<Rightarrow> string list \<Rightarrow> string list" where
  "glob1_loop mem fs s q matched =
     (if s = [] then matched
      else
        let slashcount = length (takeWhile slash s);
            s1 = drop slashcount s; q1 = drop slashcount q;
            n = length (takeWhile (\<lambda>c. \<not> slash c) s1);
            matched = listglob mem fs matched (take n s1) (Flags (take n q1)) slashcount
        in if matched = [] then [] else glob1_loop mem fs (drop n s1) (drop n q1) matched)"
  by auto
termination
proof (relation "measure (\<lambda>(mem, fs, s, q, matched). length s)", goal_cases)
  case (2 mem fs s q matched k s1 q1 n matched')
  then show ?case by (cases s; cases "slash (hd s)") auto
qed simp

declare glob1_loop.simps [simp del]

definition glob1 :: "(nat \<Rightarrow> char) \<Rightarrow> fsys \<Rightarrow> string \<Rightarrow> quote \<Rightarrow> string list" where
  "glob1 mem fs pattern quote =
     (let q = flags_of quote (length pattern);
          n = length (if pattern \<noteq> [] \<and> slash (hd pattern) then takeWhile slash pattern
                      else takeWhile (\<lambda>c. \<not> slash c) pattern);
          dir = take n pattern; s = drop n pattern
      in if s = [] then dirmatch mem fs [] ''.'' dir (Flags (take n q))
         else glob1_loop mem fs s (drop n q)
           (if slash (hd pattern) then [dir] else dirmatch mem fs [] ''.'' dir (Flags (take n q))))"

fun glob0 :: "(nat \<Rightarrow> char) \<Rightarrow> fsys \<Rightarrow> (es_term \<Rightarrow> string) \<Rightarrow> (es_term \<times> quote) list \<Rightarrow> terms" where
  "glob0 mem fs gs [] = []"
| "glob0 mem fs gs ((t, q) # list) =
     (if q = QUOTED \<or> \<not> haswild (gs t) q then [t]
      else let expand1 = glob1 mem fs (gs t) q in
           if expand1 = [] then [t] else sortlist gs (map Str expand1)) @ glob0 mem fs gs list"

text \<open>The second half of \<open>expandhome\<close>: the word and its flags with the directory \<open>home\<close> in front.\<close>

definition tilde_user :: "string \<Rightarrow> nat" where
  "tilde_user s = 1 + length (takeWhile (\<lambda>c. c \<noteq> CHR ''/'') (tl s))"

definition tilde_join :: "string \<Rightarrow> quote \<Rightarrow> string \<Rightarrow> string \<times> quote" where
  "tilde_join s q home =
     (let n = tilde_user s in
      if n = length s then (home, QUOTED)
      else (home @ drop n s,
        case q of
          UNQUOTED \<Rightarrow> Flags (replicate (length home) (CHR ''q'') @ replicate (length s - n) (CHR ''r''))
        | Flags f \<Rightarrow> if CHR ''r'' \<notin> set f then QUOTED
                     else Flags (replicate (length home) (CHR ''q'') @ take (length s - n) (drop n f))
        | QUOTED \<Rightarrow> QUOTED))"

section \<open>Subscripts as ranges\<close>

text \<open>What the subscripts say, without the list: the ranges they select, or the first bad one.\<close>

fun ranges_loop :: "nat \<Rightarrow> (es_term \<Rightarrow> string) \<Rightarrow> int \<Rightarrow> terms \<Rightarrow> (int \<times> int) list outcome" where
  "ranges_loop fuel gs len [] = Ok []"
| "ranges_loop 0 gs len (t # subs) = Undef"
| "ranges_loop (Suc fuel) gs len (t # subs) =
     obind (sub_number gs t) (\<lambda>lo.
     obind (if subs \<noteq> [] \<and> gs (hd subs) = ''...'' then sub_upper gs len (tl subs) else Ok (lo, subs)) (\<lambda>(hi, subs).
     obind (ranges_loop fuel gs len subs) (\<lambda>rs. Ok ((lo, hi) # rs))))"

definition sub_ranges :: "(es_term \<Rightarrow> string) \<Rightarrow> int \<Rightarrow> terms \<Rightarrow> (int \<times> int) list outcome" where
  "sub_ranges gs len subs =
     (if subs \<noteq> [] \<and> gs (hd subs) = ''...'' then
        obind (sub_upper gs len (tl subs)) (\<lambda>(hi, subs).
        obind (ranges_loop (length subs) gs len subs) (\<lambda>rs. Ok ((1, hi) # rs)))
      else ranges_loop (length subs) gs len subs)"

definition slice :: "'a list \<Rightarrow> int \<times> int \<Rightarrow> 'a list" where
  "slice xs = (\<lambda>(lo, hi). take (nat (hi - lo + 1)) (drop (nat (lo - 1)) xs))"

definition sub_inv :: "terms \<Rightarrow> sub_state \<Rightarrow> bool" where
  "sub_inv list = (\<lambda>(current, counter, result). 1 \<le> counter \<and> current = drop (nat (counter - 1)) list)"

lemma sub_take_slice:
  assumes "sub_inv list (current, counter, result)" "1 \<le> lo"
  shows "sub_inv list (sub_take list (int (length list)) lo hi (current, counter, result)) \<and>
    snd (snd (sub_take list (int (length list)) lo hi (current, counter, result))) = result @ slice list (lo, hi)"
proof (cases "int (length list) < lo")
  case True
  then show ?thesis using assms by (auto simp: sub_take_def slice_def)
next
  case False
  have "drop (nat (lo - counter)) (drop (nat (counter - 1)) list) = drop (nat (lo - 1)) list" if "counter \<le> lo"
  proof -
    have "nat (lo - counter) + nat (counter - 1) = nat (lo - 1)" using that assms by (auto simp: sub_inv_def)
    then show ?thesis by (simp add: add.commute)
  qed
  moreover have "drop (nat (hi - lo + 1)) (drop (nat (lo - 1)) list) = drop (nat (lo + int (nat (hi - lo + 1)) - 1)) list"
  proof -
    have "nat (hi - lo + 1) + nat (lo - 1) = nat (lo + int (nat (hi - lo + 1)) - 1)" using assms(2) by linarith
    then show ?thesis by (simp add: add.commute)
  qed
  ultimately show ?thesis using False assms
    by (auto simp: sub_take_def slice_def sub_inv_def Let_def simp del: drop_drop)
qed

lemma sub_number_pos: "sub_number gs t = Ok n \<Longrightarrow> 1 \<le> n"
  by (auto simp: sub_number_def Let_def split: if_splits)

lemma subscript_loop_ranges:
  assumes "sub_inv list st" "length subs \<le> fuel"
  shows "subscript_loop fuel gs list (int (length list)) subs st =
    obind (ranges_loop fuel gs (int (length list)) subs) (\<lambda>rs. Ok (snd (snd st) @ concat (map (slice list) rs)))"
  using assms
proof (induction fuel arbitrary: subs st)
  case (Suc fuel)
  obtain current counter result where st: "st = (current, counter, result)" by (cases st)
  show ?case
  proof (cases subs)
    case (Cons t subs')
    show ?thesis
    proof (cases "sub_number gs t")
      case (Ok lo)
      let ?len = "int (length list)"
      let ?m = "if subs' \<noteq> [] \<and> gs (hd subs') = ''...'' then sub_upper gs ?len (tl subs') else Ok (lo, subs')"
      show ?thesis
      proof (cases ?m)
        case m: (Ok x)
        obtain hi r where x: "x = (hi, r)" by force
        have "length r \<le> fuel" using m Suc.prems(2) unfolding x Cons
          by (auto split: if_splits dest!: sub_upper_length)
        moreover note sub_take_slice [OF Suc.prems(1) [unfolded st] sub_number_pos [OF Ok], of hi]
        ultimately show ?thesis using Suc.IH [of "sub_take list ?len lo hi st" r] Ok m
          unfolding x Cons st by (simp add: obind_assoc)
      qed (simp_all add: Cons Ok)
    qed (simp_all add: Cons)
  qed simp
qed simp

lemma subscript_ranges_eq:
  "subscript gs list subs = obind (sub_ranges gs (int (length list)) subs) (\<lambda>rs. Ok (concat (map (slice list) rs)))"
proof (cases "subs \<noteq> [] \<and> gs (hd subs) = ''...''")
  case True
  let ?len = "int (length list)"
  have inv: "sub_inv list (list, 1, [])" by (simp add: sub_inv_def)
  show ?thesis
  proof (cases "sub_upper gs ?len (tl subs)")
    case (Ok x)
    obtain hi r where x: "x = (hi, r)" by force
    show ?thesis using True Ok sub_take_slice [OF inv, of 1 hi]
        subscript_loop_ranges [of list "sub_take list ?len 1 hi (list, 1, [])" r "length r" gs]
      unfolding x by (simp add: subscript_def sub_ranges_def obind_assoc)
  qed (use True in \<open>simp_all add: subscript_def sub_ranges_def\<close>)
next
  case False
  have "sub_inv list (list, 1, [])" by (simp add: sub_inv_def)
  then show ?thesis using False subscript_loop_ranges [of list "(list, 1, [])" subs "length subs" gs]
    by (auto simp: subscript_def sub_ranges_def)
qed

lemma sub_upper_total: "(\<exists>x. sub_upper gs len subs = Ok x) \<or> (\<exists>e. sub_upper gs len subs = Throw e)"
  by (auto simp: sub_upper_def sub_number_def Let_def split: list.split)

lemma ranges_loop_total:
  "length subs \<le> fuel \<Longrightarrow> (\<exists>x. ranges_loop fuel gs len subs = Ok x) \<or> (\<exists>e. ranges_loop fuel gs len subs = Throw e)"
proof (induction fuel arbitrary: subs)
  case (Suc fuel)
  show ?case
  proof (cases subs)
    case (Cons t r)
    show ?thesis
    proof (cases "sub_number gs t")
      case (Ok lo)
      consider "\<not> (r \<noteq> [] \<and> gs (hd r) = ''...'')"
        | hi r' where "r \<noteq> [] \<and> gs (hd r) = ''...''" "sub_upper gs len (tl r) = Ok (hi, r')"
        | e where "r \<noteq> [] \<and> gs (hd r) = ''...''" "sub_upper gs len (tl r) = Throw e"
        using sub_upper_total [of gs len "tl r"] by (metis surj_pair)
      then show ?thesis
      proof cases
        case 1
        then show ?thesis using Suc.IH [of r] Suc.prems Ok unfolding Cons by auto
      next
        case 2
        then have "length r' \<le> fuel" using Suc.prems sub_upper_length [OF 2(2)] unfolding Cons by simp
        then show ?thesis using Suc.IH [of r'] 2 Ok unfolding Cons by auto
      qed (simp_all add: Cons Ok)
    qed (auto simp: Cons sub_number_def Let_def split: if_splits)
  qed simp
qed simp

section \<open>Quoting under concatenation\<close>

definition quote_fits :: "(es_term \<Rightarrow> string) \<Rightarrow> es_term \<times> quote \<Rightarrow> bool" where
  "quote_fits gs = (\<lambda>(t, q). \<forall>f. q = Flags f \<longrightarrow> length f = length (gs t))"

lemma catterm_gs: "(\<And>s. gs (Str s) = s) \<Longrightarrow> gs (catterm gs t u) = gs t @ gs u"
  by (simp add: catterm_def termcat_def)

lemma length_flags_of: "quote_fits gs (t, q) \<Longrightarrow> length (flags_of q (length (gs t))) = length (gs t)"
  by (cases q) (auto simp: flags_of_def quote_fits_def)

lemma qconcat_terms: "map fst (qconcat gs l1 l2) = concat_list gs (map fst l1) (map fst l2)"
  by (induction gs l1 l2 rule: qconcat.induct) (auto simp: case_prod_beta comp_def)

lemma qconcat_fits:
  assumes "\<And>s. gs (Str s) = s" "\<forall>x \<in> set l1. quote_fits gs x" "\<forall>x \<in> set l2. quote_fits gs x"
  shows "\<forall>x \<in> set (qconcat gs l1 l2). quote_fits gs x"
  using assms(2)
proof (induction l1)
  case (Cons x l1)
  obtain t q where x: "x = (t, q)" by force
  have "quote_fits gs (catterm gs t u, qcat gs q r t u)" if "(u, r) \<in> set l2" for u r
  proof -
    have "quote_fits gs (t, q)" "quote_fits gs (u, r)" using Cons.prems assms(3) that x by auto
    then have "length (flags_of q (length (gs t))) = length (gs t)" "length (flags_of r (length (gs u))) = length (gs u)"
      by (simp_all only: length_flags_of)
    then show ?thesis unfolding quote_fits_def qcat_def by (simp add: catterm_gs [of gs, OF assms(1)])
  qed
  then show ?case using Cons x by auto
qed simp

lemma flags_same:
  "quote_fits gs (t, q) \<Longrightarrow> quote_fits gs (u, r) \<Longrightarrow>
     flags_of (qcat gs q r t u) (length (gs t) + length (gs u)) = flags_of q (length (gs t)) @ flags_of r (length (gs u))"
  by (auto simp: qcat_def flags_of_def replicate_add)

section \<open>Paths that match\<close>

text \<open>
  The names that a path pattern stands for, from the directory \<open>d\<close> on: each step takes one component
  with the slashes in front of it, and an entry of the directory that matches it.
\<close>

inductive path_step :: "(nat \<Rightarrow> char) \<Rightarrow> fsys \<Rightarrow> string \<Rightarrow> string \<Rightarrow> string \<Rightarrow> string \<Rightarrow> string \<Rightarrow> string \<Rightarrow> bool"
  for mem fs where
  step: "k = length (takeWhile slash s) \<Longrightarrow> n = length (takeWhile (\<lambda>c. \<not> slash c) (drop k s)) \<Longrightarrow> s \<noteq> [] \<Longrightarrow>
     e \<in> set (dirmatch mem fs (d @ slashes k) d (take n (drop k s)) (Flags (take n (drop k q)))) \<Longrightarrow>
     path_step mem fs s q d (drop (k + n) s) (drop (k + n) q) e"

inductive_cases path_stepE: "path_step mem fs s q d s' q' e"
inductive_simps path_step_nil: "path_step mem fs [] q d s' q' e"

inductive path_matches :: "(nat \<Rightarrow> char) \<Rightarrow> fsys \<Rightarrow> string \<Rightarrow> string \<Rightarrow> string \<Rightarrow> string \<Rightarrow> bool"
  for mem fs where
  whole: "path_matches mem fs [] q d d"
| component: "path_step mem fs s q d s' q' e \<Longrightarrow> path_matches mem fs s' q' e r \<Longrightarrow> path_matches mem fs s q d r"

lemma path_matches_nil: "path_matches mem fs [] q d r \<longleftrightarrow> r = d"
  by (auto elim: path_matches.cases intro: path_matches.whole simp: path_step_nil)

lemma listglob_set:
  "e \<in> set (listglob mem fs ds pat q k) \<longleftrightarrow> (\<exists>d \<in> set ds. e \<in> set (dirmatch mem fs (d @ slashes k) d pat q))"
  by (induction ds) auto

lemma glob1_loop_matches:
  "r \<in> set (glob1_loop mem fs s q matched) \<longleftrightarrow> (\<exists>d \<in> set matched. path_matches mem fs s q d r)"
proof (induction mem fs s q matched rule: glob1_loop.induct)
  case (1 mem fs s q matched)
  show ?case
  proof (cases "s = []")
    case True
    then show ?thesis by (subst glob1_loop.simps) (simp add: path_matches_nil)
  next
    case False
    define k where "k = length (takeWhile slash s)"
    define n where "n = length (takeWhile (\<lambda>c. \<not> slash c) (drop k s))"
    let ?m = "listglob mem fs matched (take n (drop k s)) (Flags (take n (drop k q))) k"
    have pm: "path_matches mem fs s q d r \<longleftrightarrow> (\<exists>e. e \<in> set (dirmatch mem fs (d @ slashes k) d (take n (drop k s))
        (Flags (take n (drop k q)))) \<and> path_matches mem fs (drop (k + n) s) (drop (k + n) q) e r)" for d
      using False by (auto elim!: path_matches.cases [of mem fs s q d r] path_stepE
        intro: path_matches.component path_step.intros simp: k_def n_def)
    have ds: "drop n (drop k s) = drop (k + n) s" "drop n (drop k q) = drop (k + n) q"
      by (simp_all add: add.commute)
    have m: "(\<exists>d \<in> set matched. path_matches mem fs s q d r) \<longleftrightarrow>
        (\<exists>e \<in> set ?m. path_matches mem fs (drop n (drop k s)) (drop n (drop k q)) e r)"
      unfolding pm ds Bex_def listglob_set by blast
    have loop: "glob1_loop mem fs s q matched = (if ?m = [] then [] else glob1_loop mem fs (drop n (drop k s)) (drop n (drop k q)) ?m)"
      using False by (subst glob1_loop.simps) (simp add: Let_def k_def n_def)
    show ?thesis
    proof (cases "?m = []")
      case True
      then show ?thesis using loop m by simp
    next
      case ne: False
      then show ?thesis using "1.IH" [OF False refl refl refl refl refl] loop m unfolding k_def n_def by simp
    qed
  qed
qed

definition path_expands :: "(nat \<Rightarrow> char) \<Rightarrow> fsys \<Rightarrow> string \<Rightarrow> quote \<Rightarrow> string \<Rightarrow> bool" where
  "path_expands mem fs pattern quote r \<longleftrightarrow>
     (let absolute = pattern \<noteq> [] \<and> slash (hd pattern);
          n = length (takeWhile (\<lambda>c. slash c = absolute) pattern);
          q = flags_of quote (length pattern);
          front = (if absolute then {take n pattern}
                   else set (dirmatch mem fs [] ''.'' (take n pattern) (Flags (take n q))))
      in if drop n pattern = [] then r \<in> set (dirmatch mem fs [] ''.'' (take n pattern) (Flags (take n q)))
         else \<exists>d \<in> front. path_matches mem fs (drop n pattern) (drop n q) d r)"

lemma glob1_expands: "r \<in> set (glob1 mem fs pattern quote) \<longleftrightarrow> path_expands mem fs pattern quote r"
proof (cases "pattern \<noteq> [] \<and> slash (hd pattern)")
  case True
  then show ?thesis by (simp add: glob1_def path_expands_def Let_def glob1_loop_matches)
next
  case False
  then have s: "\<not> slash (hd pattern)" if "drop n pattern \<noteq> []" for n using that by auto
  show ?thesis using False by (auto simp: glob1_def path_expands_def Let_def glob1_loop_matches dest: s)
qed

lemma glob0_append: "glob0 mem fs gs (xs @ ys) = glob0 mem fs gs xs @ glob0 mem fs gs ys"
  by (induction mem fs gs xs rule: glob0.induct) (auto simp: Let_def)

section \<open>Properties\<close>


text \<open>
  Concatenation keeps the quoting. The quoted product has the terms of the plain product, flags as
  long as its words, and at each place of a word the quoting that its part had.
\<close>

theorem concatenation_keeps_quoting:
  assumes "\<And>s. gs (Str s) = s" and "\<forall>x \<in> set l1. quote_fits gs x" and "\<forall>x \<in> set l2. quote_fits gs x"
  shows "map fst (qconcat gs l1 l2) = concat_list gs (map fst l1) (map fst l2) \<and>
    (\<forall>x \<in> set (qconcat gs l1 l2). quote_fits gs x) \<and>
    (\<forall>(t, q) \<in> set l1. \<forall>(u, r) \<in> set l2. gs (catterm gs t u) = gs t @ gs u \<and>
      flags_of (qcat gs q r t u) (length (gs (catterm gs t u))) =
        flags_of q (length (gs t)) @ flags_of r (length (gs u)))"
proof (intro conjI)
  show "map fst (qconcat gs l1 l2) = concat_list gs (map fst l1) (map fst l2)" by (rule qconcat_terms)
  show "\<forall>x \<in> set (qconcat gs l1 l2). quote_fits gs x" by (rule qconcat_fits [of gs, OF assms])
  have "gs (catterm gs t u) = gs t @ gs u \<and>
      flags_of (qcat gs q r t u) (length (gs (catterm gs t u))) = flags_of q (length (gs t)) @ flags_of r (length (gs u))"
    if "(t, q) \<in> set l1" "(u, r) \<in> set l2" for t q u r
  proof -
    have "quote_fits gs (t, q)" "quote_fits gs (u, r)" using that assms(2,3) by blast+
    then show ?thesis by (simp add: catterm_gs [of gs, OF assms(1)] flags_same)
  qed
  then show "\<forall>(t, q) \<in> set l1. \<forall>(u, r) \<in> set l2. gs (catterm gs t u) = gs t @ gs u \<and>
      flags_of (qcat gs q r t u) (length (gs (catterm gs t u))) =
        flags_of q (length (gs t)) @ flags_of r (length (gs u))" by blast
qed


definition text_or_nil :: "es_term \<Rightarrow> string" where
  "text_or_nil t = (case t of Str s \<Rightarrow> s | Clos c \<Rightarrow> [])"

definition two_files :: fsys where
  "two_files = \<lparr>is_dir = (\<lambda>d. d = ''.''), file_exists = (\<lambda>f. f = ''b.c'' \<or> f = ''a.c''),
     dirents = (\<lambda>d. if d = ''.'' then Some [''.'', ''..'', ''b.c'', ''a.c'', ''x.h''] else None)\<rparr>"

theorem concatenation_keeps_quoting_witness:
  "map fst (qconcat text_or_nil [(Str ''a'', QUOTED)] [(Str ''*'', UNQUOTED), (Str ''b'', QUOTED)]) =
     concat_list text_or_nil [Str ''a''] [Str ''*'', Str ''b'']"
proof -
  have "map fst (qconcat text_or_nil [(Str ''a'', QUOTED)] [(Str ''*'', UNQUOTED), (Str ''b'', QUOTED)]) =
      concat_list text_or_nil (map fst [(Str ''a'', QUOTED)]) (map fst [(Str ''*'', UNQUOTED), (Str ''b'', QUOTED)])"
    by (rule concatenation_keeps_quoting [THEN conjunct1]) (simp_all add: text_or_nil_def quote_fits_def)
  then show ?thesis by simp
qed

end
