(* ===== verification/Glom.thy ===== *)
theory Glom
  imports Vars Glob
begin

text \<open>
  From trees to lists: the walks \<open>glom1\<close> and \<open>glom2\<close> of \<open>src/glom.cpp\<close>, the prepass of \<open>src/glob.cpp\<close>
  with its tilde expansion, the bindings and closures of \<open>src/closure.c\<close>, \<open>getclosure\<close> of \<open>src/term.c\<close>
  and the handlers of \<open>src/except.c\<close>.

  The walks and \<open>walk\<close> and \<open>eval\<close> of \<open>Eval\<close> call each other. Each function takes the ones it may re-enter
  as arguments: \<open>wk\<close> for \<open>walk\<close> and \<open>ev\<close> for \<open>eval\<close>. A run that stops with an exception, by \<open>exit\<close> or out
  of fuel carries the state it leaves.
\<close>

section \<open>State and surroundings\<close>

record estate = vstate +
  evaldepth :: nat
  maxevaldepth :: nat

definition MAXmaxevaldepth :: nat where
  "MAXmaxevaldepth = 0xffffffff"

definition MINmaxevaldepth :: nat where
  "MINmaxevaldepth = 100"

record evflags =
  inchild :: bool
  exitonfalse :: bool

definition noflags :: evflags where
  "noflags = \<lparr>inchild = False, exitonfalse = False\<rparr>"

type_synonym 'a ev = "(estate, 'a) run"
type_synonym walker = "tree \<Rightarrow> ref \<Rightarrow> evflags \<Rightarrow> estate \<Rightarrow> terms ev"
type_synonym caller = "terms \<Rightarrow> ref \<Rightarrow> evflags \<Rightarrow> estate \<Rightarrow> terms ev"

text \<open>
  What evaluation relies on: the depth of the C stack, which printing a closure may use up; the parser
  (\<open>parsestring\<close>, \<^const>\<open>TNull\<close> when there is nothing to parse); the memory behind \<open>UNQUOTED\<close>; the file
  system; \<open>checkexecutable\<close>; running a program with arguments and environment (\<open>fork\<close>, \<open>execve\<close> and waiting,
  or just \<open>execve\<close> in a child), which gives its wait status; the names of signals;
  the home directories of users; and the primitives that
  are not modelled in \<open>Eval\<close>.
\<close>

record host =
  cstack :: nat
  parsestring :: "string \<Rightarrow> tree outcome"
  memory :: "nat \<Rightarrow> char"
  filesys :: fsys
  checkexecutable :: "string \<Rightarrow> string option"
  spawn :: "string \<Rightarrow> string list \<Rightarrow> string list \<Rightarrow> bool \<Rightarrow> estate \<Rightarrow> 32 word ev"
  signame :: "int \<Rightarrow> string"
  home_dir :: "string \<Rightarrow> string option"
  sysprim :: "string \<Rightarrow> caller option"

text \<open>
  \<open>getstr\<close> of \<open>Conv\<close>. Where it fails, for a closure that is nested too deep or holds a tree that cannot
  be printed, the program would crash; here the text is then empty.
\<close>

definition term_text :: "host \<Rightarrow> store \<Rightarrow> es_term \<Rightarrow> string" where
  "term_text H h t = (case getstr (cstack H) h t of Ok s \<Rightarrow> s | _ \<Rightarrow> [])"

abbreviation gs :: "host \<Rightarrow> estate \<Rightarrow> es_term \<Rightarrow> string" where
  "gs H st \<equiv> term_text H (heap st)"

definition efail :: "estate \<Rightarrow> string \<Rightarrow> string \<Rightarrow> 'a ev" where
  "efail st from msg = Throw (Exn (fail_exn from msg), st)"

text \<open>An evaluator of lists as \<open>callsettor\<close> uses it: no bindings and no flags.\<close>

definition vev :: "caller \<Rightarrow> estate evaluator" where
  "vev ev = (\<lambda>list st. ev list None noflags st)"

section \<open>Bindings\<close>

definition mkbinding :: "string \<Rightarrow> terms \<Rightarrow> ref \<Rightarrow> estate \<Rightarrow> ref ev" where
  "mkbinding name defn next st =
     obind (on_throw st (validatevar name)) (\<lambda>_.
     Ok (Some (length (heap st)), st\<lparr>heap := heap st @ [\<lparr>bname = name, bdefn = defn, bnext = next\<rparr>]\<rparr>))"

fun bind_all :: "(string \<times> terms) list \<Rightarrow> ref \<Rightarrow> estate \<Rightarrow> ref ev" where
  "bind_all [] b st = Ok (b, st)"
| "bind_all ((name, defn) # rest) b st = obind (mkbinding name defn b st) (\<lambda>(b, st). bind_all rest b st)"

text \<open>
  How values are spread over variables, in \<open>assign\<close>, \<open>letbindings\<close> and \<open>bindargs\<close>: one each, the last
  variable takes the rest, and where there are no more values the variables are empty.
\<close>

fun spread :: "'a list \<Rightarrow> terms \<Rightarrow> ('a \<times> terms) list" where
  "spread [] values = []"
| "spread (v # vs) values =
     (if values = [] then (v, []) # spread vs []
      else if vs = [] \<or> tl values = [] then (v, values) # spread vs []
      else (v, [hd values]) # spread vs (tl values))"

fun params_of :: "tree \<Rightarrow> string list option" where
  "params_of TNull = Some []"
| "params_of (nList (nWord s) rest) = map_option (Cons s) (params_of rest)"
| "params_of (nList (nQword s) rest) = map_option (Cons s) (params_of rest)"
| "params_of t = None"

definition bindargs :: "tree \<Rightarrow> terms \<Rightarrow> ref \<Rightarrow> estate \<Rightarrow> ref ev" where
  "bindargs params args b st =
     (if params = TNull then mkbinding ''*'' args b st
      else case params_of params of
        None \<Rightarrow> Abort
      | Some names \<Rightarrow> bind_all (spread names args) b st)"

section \<open>Closures in strings\<close>

text \<open>
  \<open>extract\<close> and \<open>extractbindings\<close>: the bindings in a tree of \<open>%closure\<close>. A value of a binding that is the
  closure itself (\<open>$&nestedbinding\<close>) is \<^const>\<open>None\<close> until the closure is made. The \<open>chain\<close> of closures in
  the making has one element: \<open>extract\<close> does not parse the strings it finds. The cells of the bindings are
  made after all of them are read; a tree that is not a list where the code expects one fails an assertion.
\<close>

fun revtree_loop :: "tree \<Rightarrow> tree list \<Rightarrow> tree list option" where
  "revtree_loop TNull prev = Some prev"
| "revtree_loop (nList a b) prev = revtree_loop b (a # prev)"
| "revtree_loop t prev = None"

definition nested_count :: "tree list \<Rightarrow> int option" where
  "nested_count ws = (case ws of
     nWord s # _ \<Rightarrow> let n = int_of_long (atoi s) in if n < 0 then None else Some n
   | _ \<Rightarrow> None)"

fun extract_values :: "tree list \<Rightarrow> es_term option list \<Rightarrow> es_term option list outcome" where
  "extract_values [] list = Ok list"
| "extract_values (nWord s # ws) list = extract_values ws (Some (Str s) # list)"
| "extract_values (nQword s # ws) list = extract_values ws (Some (Str s) # list)"
| "extract_values (nPrim p # ws) list =
     (if p = ''nestedbinding'' then
        if ws \<noteq> [] \<and> hd ws = TNull then Undef
        else (case nested_count ws of
           None \<Rightarrow> Throw (fail_exn ''$&parse'' ''improper use of $&nestedbinding'')
         | Some n \<Rightarrow>
             if n = 0 then extract_values (tl ws) (None # list)
             else Throw (fail_exn ''$&parse'' (''bad count in $&nestedbinding: '' @ show_nat (nat n))))
      else Throw (fail_exn ''$&parse'' (''bad unquoted primitive in %closure: $&'' @ p)))"
| "extract_values (TNull # ws) list = Undef"
| "extract_values (t # ws) list = Abort"

fun word_of_tree :: "tree \<Rightarrow> string option" where
  "word_of_tree (nWord s) = Some s" | "word_of_tree (nQword s) = Some s" | "word_of_tree t = None"

fun extract_defs :: "tree \<Rightarrow> (string \<times> es_term option list) list outcome" where
  "extract_defs TNull = Ok []"
| "extract_defs (nList TNull rest) = extract_defs rest"
| "extract_defs (nList defn rest) =
     (case word_of_tree (CAR defn) of
        None \<Rightarrow> if CAR defn = TNull then Undef else Abort
      | Some name \<Rightarrow>
          (case revtree_loop (CDR defn) [] of
             None \<Rightarrow> Abort
           | Some ws \<Rightarrow>
               obind (extract_values ws []) (\<lambda>list. obind (validatevar name) (\<lambda>_.
               obind (extract_defs rest) (\<lambda>defs. Ok ((name, list) # defs))))))"
| "extract_defs t = Abort"

definition strip_list :: "tree \<Rightarrow> tree" where
  "strip_list t = (case t of nList a TNull \<Rightarrow> a | _ \<Rightarrow> t)"

lemma strip_list_less [termination_simp]: "size (strip_list t) \<le> size t"
  by (auto simp: strip_list_def split: tree.splits)

fun extract_all :: "tree \<Rightarrow> ((string \<times> es_term option list) list \<times> tree) outcome" where
  "extract_all (nClosure a b) =
     obind (extract_defs a) (\<lambda>defs. obind (extract_all (strip_list b)) (\<lambda>(more_defs, t). Ok (defs @ more_defs, t)))"
| "extract_all t = Ok ([], t)"

fun chain_cells :: "nat \<Rightarrow> ref \<Rightarrow> (string \<times> terms) list \<Rightarrow> store" where
  "chain_cells n b [] = []"
| "chain_cells n b ((name, defn) # rest) = \<lparr>bname = name, bdefn = defn, bnext = b\<rparr> # chain_cells (n + 1) (Some n) rest"

definition extractbindings :: "tree \<Rightarrow> estate \<Rightarrow> closure ev" where
  "extractbindings t st =
     obind (on_throw st (extract_all (strip_list t))) (\<lambda>(defs, t).
     let b = (if defs = [] then None else Some (length (heap st) + length defs - 1)); c = Closure b t;
         defs = map (\<lambda>(name, list). (name, map (\<lambda>v. case v of None \<Rightarrow> Clos c | Some t \<Rightarrow> t) list)) defs
     in Ok (c, st\<lparr>heap := heap st @ chain_cells (length (heap st)) None defs\<rparr>))"

text \<open>\<open>getclosure\<close>: a string in closure syntax is parsed. The closure that the code then keeps in the
  term, in place of the string, is not kept here.\<close>

definition isfunction :: "string \<Rightarrow> bool" where
  "isfunction s \<longleftrightarrow> s \<noteq> [] \<and>
     ((hd s = CHR 0x7B \<or> hd s = CHR 0x40) \<and> last s = CHR 0x7D \<or> take 2 s = ''$&'' \<or> hasprefix s ''%closure'')"

definition getclosure :: "host \<Rightarrow> es_term \<Rightarrow> estate \<Rightarrow> closure option ev" where
  "getclosure H t st = (case t of
     Clos c \<Rightarrow> Ok (Some c, st)
   | Str s \<Rightarrow>
       if \<not> isfunction s then Ok (None, st)
       else obind (on_throw st (parsestring H s)) (\<lambda>np.
         if np = TNull then Ok (None, st)
         else obind (extractbindings np st) (\<lambda>(c, st). Ok (Some c, st))))"

section \<open>Handlers\<close>

text \<open>
  \<open>throw_exception\<close> pops the local bindings down to those of the handler, with its settor functions run
  under the handler above, and resets the depth. Nothing runs between the throw and the handler, so the
  model does it at the handler: \<open>n\<close> bindings and depth \<open>d\<close> are the ones the handler has recorded.
\<close>

fun unwind :: "caller \<Rightarrow> nat \<Rightarrow> estate \<Rightarrow> estate upd" where
  "unwind ev 0 st = Ok st"
| "unwind ev (Suc k) st = obind (varpop (vev ev) (length (pushlist st)) st) (unwind ev k)"

definition handle :: "caller \<Rightarrow> estate \<Rightarrow> terms ev \<Rightarrow> (terms \<Rightarrow> estate \<Rightarrow> terms ev) \<Rightarrow> terms ev" where
  "handle ev st0 run catch = (case run of
     Throw (Exn e, st) \<Rightarrow>
       obind (unwind ev (length (pushlist st) - length (pushlist st0)) st) (\<lambda>st.
       catch e (st\<lparr>evaldepth := evaldepth st0\<rparr>))
   | r \<Rightarrow> r)"

definition rethrow :: "terms \<Rightarrow> estate \<Rightarrow> terms ev" where
  "rethrow e st = Throw (Exn e, st)"

definition catches :: "terms \<Rightarrow> string \<Rightarrow> bool" where
  "catches e name \<longleftrightarrow> e \<noteq> [] \<and> termeq (hd e) name"

section \<open>Glomming\<close>

fun node_kind :: "tree \<Rightarrow> nat" where
  "node_kind (nAssign a b) = 0" | "node_kind (nCall a) = 1" | "node_kind (nClosure a b) = 2"
| "node_kind (nConcat a b) = 3" | "node_kind (nFor a b) = 4" | "node_kind (nLambda a b) = 5"
| "node_kind (nLet a b) = 6" | "node_kind (nList a b) = 7" | "node_kind (nLocal a b) = 8"
| "node_kind (nMatch a b) = 9" | "node_kind (nExtract a b) = 10" | "node_kind (nPrim s) = 11"
| "node_kind (nQword s) = 12" | "node_kind (nThunk a) = 13" | "node_kind (nVar a) = 14"
| "node_kind (nVarsub a b) = 15" | "node_kind (nWord s) = 16" | "node_kind (nRedir a b) = 17"
| "node_kind (nPipe a b) = 18" | "node_kind TNull = 0"

definition lookup :: "string \<Rightarrow> ref \<Rightarrow> estate \<Rightarrow> terms ev" where
  "lookup name b st = obind (varlookup st name b) (\<lambda>v. Ok (v, st))"

fun glom_vars :: "host \<Rightarrow> terms \<Rightarrow> ref \<Rightarrow> estate \<Rightarrow> terms ev" where
  "glom_vars H [] b st = Ok ([], st)"
| "glom_vars H (t # var) b st =
     obind (lookup (gs H st t) b st) (\<lambda>(v, st). obind (glom_vars H var b st) (\<lambda>(r, st). Ok (listcopy v @ r, st)))"

fun glom1 :: "host \<Rightarrow> walker \<Rightarrow> tree \<Rightarrow> ref \<Rightarrow> estate \<Rightarrow> terms ev" where
  "glom1 H wk TNull b st = Ok ([], st)"
| "glom1 H wk (nQword s) b st = Ok ([Str s], st)"
| "glom1 H wk (nWord s) b st = Ok ([Str s], st)"
| "glom1 H wk (nThunk t) b st = Ok ([Clos (Closure b (nThunk t))], st)"
| "glom1 H wk (nLambda p t) b st = Ok ([Clos (Closure b (nLambda p t))], st)"
| "glom1 H wk (nPrim s) b st = Ok ([Clos (Closure None (nPrim s))], st)"
| "glom1 H wk (nVar t) b st = obind (glom1 H wk t b st) (\<lambda>(var, st). glom_vars H var b st)"
| "glom1 H wk (nVarsub t u) b st =
     obind (glom1 H wk t b st) (\<lambda>(list, st).
     if list = [] then efail st ''desh:glom'' ''null variable name in subscript''
     else if tl list \<noteq> [] then efail st ''desh:glom'' ''multi-word variable name in subscript''
     else obind (lookup (gs H st (hd list)) b st) (\<lambda>(v, st).
          obind (glom1 H wk u b st) (\<lambda>(sub, st).
          obind (on_throw st (subscript (gs H st) v sub)) (\<lambda>r. Ok (r, st)))))"
| "glom1 H wk (nCall t) b st = obind (wk t b noflags st) (\<lambda>(r, st). Ok (listcopy r, st))"
| "glom1 H wk (nList t u) b st =
     obind (glom1 H wk t b st) (\<lambda>(l, st). obind (glom1 H wk u b st) (\<lambda>(r, st). Ok (l @ r, st)))"
| "glom1 H wk (nConcat t u) b st =
     obind (glom1 H wk t b st) (\<lambda>(l, st). obind (glom1 H wk u b st) (\<lambda>(r, st).
     Ok (concat_list (gs H st) l r, st)))"
| "glom1 H wk t b st = efail st ''desh:glom'' (''glom1: bad node kind '' @ show_nat (node_kind t))"

fun glom2 :: "host \<Rightarrow> walker \<Rightarrow> tree \<Rightarrow> ref \<Rightarrow> estate \<Rightarrow> (es_term \<times> quote) list ev" where
  "glom2 H wk TNull b st = Ok ([], st)"
| "glom2 H wk (nWord s) b st = Ok ([(Str s, UNQUOTED)], st)"
| "glom2 H wk (nList t u) b st =
     obind (glom2 H wk t b st) (\<lambda>(l, st). obind (glom2 H wk u b st) (\<lambda>(r, st). Ok (l @ r, st)))"
| "glom2 H wk (nConcat t u) b st =
     obind (glom2 H wk t b st) (\<lambda>(l, st). obind (glom2 H wk u b st) (\<lambda>(r, st).
     Ok (qconcat (gs H st) l r, st)))"
| "glom2 H wk t b st = obind (glom1 H wk t b st) (\<lambda>(l, st). Ok (map (\<lambda>t. (t, QUOTED)) l, st))"

definition expandhome :: "host \<Rightarrow> caller \<Rightarrow> string \<Rightarrow> quote \<Rightarrow> estate \<Rightarrow> (string \<times> quote) ev" where
  "expandhome H ev s q st =
     obind (lookup ''fn-%home'' None st) (\<lambda>(fn, st).
     if fn = [] then Ok ((s, q), st)
     else let n = tilde_user s; user = (if n > 1 then [Str (take (n - 1) (tl s))] else []) in
       obind (ev (append_list fn user) None noflags st) (\<lambda>(list, st).
       case list of
         [] \<Rightarrow> Ok ((s, q), st)
       | [t] \<Rightarrow> Ok (tilde_join s q (gs H st t), st)
       | _ \<Rightarrow> efail st ''es:expandhome'' ''%home returned more than one value''))"

text \<open>The loop of \<open>glob\<close> over the ws, which expands tildes and looks for wildcards.\<close>

fun glob_prepass :: "host \<Rightarrow> caller \<Rightarrow> (es_term \<times> quote) list \<Rightarrow> estate \<Rightarrow> ((es_term \<times> quote) list \<times> bool) ev" where
  "glob_prepass H ev [] st = Ok (([], False), st)"
| "glob_prepass H ev ((t, q) # list) st =
     (if q = QUOTED then
        obind (glob_prepass H ev list st) (\<lambda>((r, wild), st). Ok (((t, q) # r, wild), st))
      else case t of
        Clos c \<Rightarrow> Abort
      | Str s \<Rightarrow>
          if \<not> (case q of Flags f \<Rightarrow> length f = length s | _ \<Rightarrow> True) then Abort
          else obind (if hastilde s q then expandhome H ev s q st else Ok ((s, q), st)) (\<lambda>((s, q), st).
            obind (glob_prepass H ev list st) (\<lambda>((r, wild), st). Ok (((Str s, q) # r, haswild s q \<or> wild), st))))"

definition glob :: "host \<Rightarrow> caller \<Rightarrow> (es_term \<times> quote) list \<Rightarrow> estate \<Rightarrow> terms ev" where
  "glob H ev list st =
     obind (glob_prepass H ev list st) (\<lambda>((list, doglobbing), st).
     Ok (if doglobbing then glob0 (memory H) (filesys H) (gs H st) list else map fst list, st))"

definition glom :: "host \<Rightarrow> walker \<Rightarrow> caller \<Rightarrow> tree \<Rightarrow> ref \<Rightarrow> bool \<Rightarrow> estate \<Rightarrow> terms ev" where
  "glom H wk ev t b globit st =
     (if globit then obind (glom2 H wk t b st) (\<lambda>(list, st). glob H ev list st) else glom1 H wk t b st)"

end
