(* ===== verification/Eval.thy ===== *)
theory Eval
  imports Glom
begin

text \<open>
  Evaluation: \<open>src/eval.c\<close> and the primitives of control flow and lists of \<open>src/prim-ctl.c\<close> and
  \<open>src/prim-etc.cpp\<close>, dispatched by \<open>prim\<close> of \<open>src/prim.c\<close>.

  The functions call each other in every way, and a shell program need not end. Each function takes the
  ones it may re-enter as arguments (\<open>wk\<close> for \<open>walk\<close>, \<open>ev\<close> for \<open>eval\<close>, \<open>rs\<close> for its label \<open>restart\<close>), and
  \<open>ewalk\<close>, \<open>eeval\<close> and \<open>erestart\<close> tie the knot with fuel.
\<close>

section \<open>Assignment and bindings\<close>

fun define_all :: "host \<Rightarrow> caller \<Rightarrow> (es_term \<times> terms) list \<Rightarrow> ref \<Rightarrow> estate \<Rightarrow> estate upd" where
  "define_all H ev [] b st = Ok st"
| "define_all H ev ((t, value) # rest) b st =
     obind (vardef (vev ev) (gs H st t) b value st) (define_all H ev rest b)"

definition assign :: "host \<Rightarrow> walker \<Rightarrow> caller \<Rightarrow> tree \<Rightarrow> tree \<Rightarrow> ref \<Rightarrow> estate \<Rightarrow> terms ev" where
  "assign H wk ev varform valueform b st =
     obind (glom H wk ev varform b False st) (\<lambda>(xs, st).
     if xs = [] then efail st ''es:assign'' ''null variable name''
     else obind (glom H wk ev valueform b True st) (\<lambda>(values, st).
          obind (define_all H ev (spread xs values) b st) (\<lambda>st. Ok (values, st))))"

definition validate_all :: "string list \<Rightarrow> estate \<Rightarrow> estate upd" where
  "validate_all names st = fold (\<lambda>name r. obind r (\<lambda>st. obind (on_throw st (validatevar name)) (\<lambda>_. Ok st))) names (Ok st)"

text \<open>
  \<open>letbindings\<close>: \<open>let_values\<close> computes the names and values in the context, in order, and the bindings are
  made from them on top of \<open>outer\<close>. \<open>local\<close> takes them, which \<open>reversebindings\<close> brings back in order.
\<close>

fun let_values :: "host \<Rightarrow> walker \<Rightarrow> caller \<Rightarrow> tree \<Rightarrow> ref \<Rightarrow> estate \<Rightarrow> (string \<times> terms) list ev" where
  "let_values H wk ev TNull ctx st = Ok ([], st)"
| "let_values H wk ev (nList TNull rest) ctx st = let_values H wk ev rest ctx st"
| "let_values H wk ev (nList (nAssign a v) rest) ctx st =
     obind (glom H wk ev a ctx False st) (\<lambda>(xs, st).
     obind (glom H wk ev v ctx True st) (\<lambda>(values, st).
     if xs = [] then efail st ''es:let'' ''null variable name''
     else let defs = map (\<lambda>(t, value). (gs H st t, value)) (spread xs values) in
       obind (validate_all (map fst defs) st) (\<lambda>st.
       obind (let_values H wk ev rest ctx st) (\<lambda>(others, st). Ok (defs @ others, st)))))"
| "let_values H wk ev t ctx st = Abort"

definition letbindings :: "host \<Rightarrow> walker \<Rightarrow> caller \<Rightarrow> tree \<Rightarrow> ref \<Rightarrow> ref \<Rightarrow> estate \<Rightarrow> ref ev" where
  "letbindings H wk ev defn outer ctx st =
     obind (let_values H wk ev defn ctx st) (\<lambda>(defs, st). bind_all defs outer st)"

fun localbind :: "walker \<Rightarrow> caller \<Rightarrow> (string \<times> terms) list \<Rightarrow> ref \<Rightarrow> tree \<Rightarrow> evflags \<Rightarrow> estate \<Rightarrow> terms ev" where
  "localbind wk ev [] lexical body evalflags st = wk body lexical evalflags st"
| "localbind wk ev ((name, defn) # rest) lexical body evalflags st =
     obind (varpush (vev ev) name defn st) (\<lambda>st.
     let n = length (pushlist st) in
     obind (localbind wk ev rest lexical body evalflags st) (\<lambda>(result, st).
     obind (varpop (vev ev) n st) (\<lambda>st. Ok (result, st))))"

definition local :: "host \<Rightarrow> walker \<Rightarrow> caller \<Rightarrow> tree \<Rightarrow> tree \<Rightarrow> ref \<Rightarrow> evflags \<Rightarrow> estate \<Rightarrow> terms ev" where
  "local H wk ev defn body b evalflags st =
     obind (let_values H wk ev defn b st) (\<lambda>(dynamic, st). localbind wk ev dynamic b body evalflags st)"

section \<open>Loops\<close>

text \<open>
  \<open>for\<close>: each assignment of the head is a group of names that shares one list (the others of its names
  have the list \<open>MULTIPLE\<close>). In every round each name takes the next value of its list, and the loop
  ends when no name has found one. \<open>for_rounds\<close> is the list of the bindings of all rounds.
\<close>

type_synonym group = "string list \<times> terms"

fun for_groups :: "host \<Rightarrow> walker \<Rightarrow> caller \<Rightarrow> tree \<Rightarrow> ref \<Rightarrow> estate \<Rightarrow> group list ev" where
  "for_groups H wk ev TNull outer st = Ok ([], st)"
| "for_groups H wk ev (nList TNull rest) outer st = for_groups H wk ev rest outer st"
| "for_groups H wk ev (nList (nAssign a v) rest) outer st =
     obind (glom H wk ev a outer False st) (\<lambda>(xs, st).
     obind (glom H wk ev v outer True st) (\<lambda>(list, st).
     if xs = [] then efail st ''es:for'' ''null variable name''
     else obind (validate_all (map (gs H st) xs) st) (\<lambda>st.
       obind (for_groups H wk ev rest outer st) (\<lambda>(others, st'). Ok ((map (gs H st) xs, list) # others, st')))))"
| "for_groups H wk ev t outer st = Abort"

fun take_values :: "string list \<Rightarrow> terms \<Rightarrow> (string \<times> terms) list \<times> terms" where
  "take_values [] items = ([], items)"
| "take_values (name # names) [] = (let (r, items) = take_values names [] in ((name, []) # r, items))"
| "take_values (name # names) (t # items) = (let (r, items) = take_values names items in ((name, [t]) # r, items))"

definition for_round :: "group list \<Rightarrow> (string \<times> terms) list \<times> group list" where
  "for_round looping =
     (concat (map (\<lambda>(names, items). fst (take_values names items)) looping),
      map (\<lambda>(names, items). (names, snd (take_values names items))) looping)"

definition allnull :: "(string \<times> terms) list \<Rightarrow> bool" where
  "allnull defs \<longleftrightarrow> list_all (\<lambda>(name, value). value = []) defs"

lemma take_values_items: "snd (take_values names items) = drop (length names) items"
  by (induction names items rule: take_values.induct) (auto split: prod.splits)

lemma take_values_null: "allnull (fst (take_values names items)) \<longleftrightarrow> names = [] \<or> items = []"
proof (induction names items rule: take_values.induct)
  case (2 name names)
  then show ?case by (cases names) (auto simp: allnull_def split: prod.splits)
qed (auto simp: allnull_def split: prod.splits)

lemma for_round_null: "allnull (fst (for_round looping)) \<longleftrightarrow> (\<forall>x \<in> set looping. fst x = [] \<or> snd x = [])"
proof -
  have "allnull (concat xs) \<longleftrightarrow> (\<forall>x \<in> set xs. allnull x)" for xs
    by (auto simp: allnull_def list_all_iff)
  then show ?thesis by (simp add: for_round_def case_prod_beta take_values_null)
qed

definition remaining :: "group list \<Rightarrow> nat" where
  "remaining looping = sum_list (map (\<lambda>x. length (snd x)) looping)"

lemma remaining_round:
  "remaining (snd (for_round looping)) = sum_list (map (\<lambda>x. length (snd x) - length (fst x)) looping)"
  by (simp add: remaining_def for_round_def case_prod_beta comp_def take_values_items)

lemma for_round_less:
  assumes "\<not> allnull (fst (for_round looping))"
  shows "remaining (snd (for_round looping)) < remaining looping"
proof -
  obtain x where "x \<in> set looping" "fst x \<noteq> []" "snd x \<noteq> []" using assms by (auto simp: for_round_null)
  then show ?thesis unfolding remaining_round unfolding remaining_def
  proof (induction looping)
    case (Cons y looping)
    have "(\<Sum>x\<leftarrow>looping. length (snd x) - length (fst x)) \<le> (\<Sum>x\<leftarrow>looping. length (snd x))"
      by (intro sum_list_mono) simp
    moreover have "length (snd x) - length (fst x) < length (snd x)" using Cons.prems by (cases x) auto
    ultimately show ?case using Cons by (cases "y = x") (simp_all add: add_less_le_mono add_le_less_mono)
  qed simp
qed

function for_rounds :: "group list \<Rightarrow> (string \<times> terms) list list" where
  "for_rounds looping =
     (let r = for_round looping in if allnull (fst r) then [] else fst r # for_rounds (snd r))"
  by auto
termination
  by (relation "measure remaining")
     (auto dest: for_round_less)

declare for_rounds.simps [simp del]

fun for_loop :: "walker \<Rightarrow> tree \<Rightarrow> ref \<Rightarrow> evflags \<Rightarrow> (string \<times> terms) list list \<Rightarrow> terms \<Rightarrow> estate \<Rightarrow> terms ev" where
  "for_loop wk body outer evalflags [] result st = Ok (result, st)"
| "for_loop wk body outer evalflags (defs # rounds) result st =
     obind (bind_all defs outer st) (\<lambda>(bp, st).
     obind (wk body bp (evalflags\<lparr>inchild := False\<rparr>) st) (\<lambda>(result, st).
     for_loop wk body outer evalflags rounds result st))"

definition forloop :: "host \<Rightarrow> walker \<Rightarrow> caller \<Rightarrow> tree \<Rightarrow> tree \<Rightarrow> ref \<Rightarrow> evflags \<Rightarrow> estate \<Rightarrow> terms ev" where
  "forloop H wk ev defn body outer evalflags st =
     obind (for_groups H wk ev defn outer st) (\<lambda>(looping, st).
     handle ev st (for_loop wk body outer evalflags (for_rounds looping) ltrue st)
       (\<lambda>e st. if catches e ''break'' then Ok (tl e, st) else rethrow e st))"

section \<open>Matching\<close>

definition matchpattern :: "host \<Rightarrow> walker \<Rightarrow> caller \<Rightarrow> tree \<Rightarrow> tree \<Rightarrow> ref \<Rightarrow> estate \<Rightarrow> terms ev" where
  "matchpattern H wk ev subjectform patternform b st =
     obind (glom H wk ev subjectform b True st) (\<lambda>(subject, st).
     obind (glom2 H wk patternform b st) (\<lambda>(pattern, st).
     Ok (if listmatch (memory H) (map (gs H st) subject) (map (\<lambda>(t, q). (gs H st t, q)) pattern)
         then ltrue else lfalse, st)))"

definition extractpattern :: "host \<Rightarrow> walker \<Rightarrow> caller \<Rightarrow> tree \<Rightarrow> tree \<Rightarrow> ref \<Rightarrow> estate \<Rightarrow> terms ev" where
  "extractpattern H wk ev subjectform patternform b st =
     obind (glom H wk ev subjectform b True st) (\<lambda>(subject, st).
     obind (glom2 H wk patternform b st) (\<lambda>(pattern, st).
     case extractmatches (memory H) (map (gs H st) subject) (map (\<lambda>(t, q). (gs H st t, q)) pattern) of
       None \<Rightarrow> Abort
     | Some list \<Rightarrow> Ok (map Str list, st)))"

section \<open>Walking a tree\<close>

fun walk_body :: "host \<Rightarrow> walker \<Rightarrow> caller \<Rightarrow> tree \<Rightarrow> ref \<Rightarrow> evflags \<Rightarrow> estate \<Rightarrow> terms ev" where
  "walk_body H wk ev TNull b evalflags st = Ok (ltrue, st)"
| "walk_body H wk ev (nAssign a v) b evalflags st = assign H wk ev a v b st"
| "walk_body H wk ev (nLet d body) b evalflags st =
     obind (letbindings H wk ev d b b st) (\<lambda>(b, st). walk_body H wk ev body b evalflags st)"
| "walk_body H wk ev (nClosure d body) b evalflags st =
     obind (letbindings H wk ev d b b st) (\<lambda>(b, st). walk_body H wk ev body b evalflags st)"
| "walk_body H wk ev (nLocal d body) b evalflags st = local H wk ev d body b evalflags st"
| "walk_body H wk ev (nFor d body) b evalflags st = forloop H wk ev d body b evalflags st"
| "walk_body H wk ev (nMatch s p) b evalflags st = matchpattern H wk ev s p b st"
| "walk_body H wk ev (nExtract s p) b evalflags st = extractpattern H wk ev s p b st"
| "walk_body H wk ev (nRedir a c) b evalflags st = Abort"
| "walk_body H wk ev (nPipe i j) b evalflags st = Abort"
| "walk_body H wk ev t b evalflags st = obind (glom H wk ev t b True st) (\<lambda>(list, st). ev list b evalflags st)"

section \<open>Commands\<close>

definition pathsearch :: "host \<Rightarrow> caller \<Rightarrow> es_term \<Rightarrow> estate \<Rightarrow> terms ev" where
  "pathsearch H ev t st =
     obind (lookup ''fn-%pathsearch'' None st) (\<lambda>(search, st).
     if search = [] then
       obind (getclosure H t st) (\<lambda>(c, st).
       efail st ''es:pathsearch''
         (gs H st (case c of None \<Rightarrow> t | Some c \<Rightarrow> Clos c) @ '': fn %pathsearch undefined''))
     else ev (append_list search [t]) None noflags st)"

text \<open>\<open>forkexec\<close> without the signals that may be waiting and the message about the status.\<close>

definition forkexec :: "host \<Rightarrow> string \<Rightarrow> terms \<Rightarrow> bool \<Rightarrow> estate \<Rightarrow> terms ev" where
  "forkexec H file list child st =
     obind (mkenv (gs H st) st) (\<lambda>(envp, st).
     obind (spawn H file (vectorize (gs H st) list) envp child st) (\<lambda>(status, st).
     Ok ([Str (mkstatus (signame H) status)], st)))"

section \<open>Primitives\<close>

text \<open>
  The primitives that evaluate, and those on lists. \<open>n\<close> bounds the rounds of loops that need not end.
  \<open>catch\<close> blocks signals, which are not modelled, around the catcher.
\<close>

fun prim_seq :: "caller \<Rightarrow> evflags \<Rightarrow> terms \<Rightarrow> terms \<Rightarrow> estate \<Rightarrow> terms ev" where
  "prim_seq ev evalflags result [] st = Ok (result, st)"
| "prim_seq ev evalflags result (t # lp) st =
     obind (ev [t] None (if lp = [] then evalflags else evalflags\<lparr>inchild := False\<rparr>) st)
       (\<lambda>(result, st). prim_seq ev evalflags result lp st)"

fun prim_if :: "caller \<Rightarrow> evflags \<Rightarrow> terms \<Rightarrow> estate \<Rightarrow> terms ev" where
  "prim_if ev evalflags [] st = Ok (ltrue, st)"
| "prim_if ev evalflags [t] st = ev [t] None (evalflags\<lparr>exitonfalse := False\<rparr>) st"
| "prim_if ev evalflags (t # u # lp) st =
     obind (ev [t] None noflags st) (\<lambda>(cond, st).
     if istrue cond then ev [u] None evalflags st else prim_if ev evalflags lp st)"

fun prim_forever :: "nat \<Rightarrow> caller \<Rightarrow> evflags \<Rightarrow> terms \<Rightarrow> estate \<Rightarrow> terms ev" where
  "prim_forever 0 ev evalflags body st = Throw (OutOfFuel, st)"
| "prim_forever (Suc n) ev evalflags body st =
     obind (ev body None (evalflags\<lparr>inchild := False\<rparr>) st) (\<lambda>(_, st). prim_forever n ev evalflags body st)"

definition prim_throw :: "terms \<Rightarrow> estate \<Rightarrow> terms ev" where
  "prim_throw list st =
     (if list = [] then efail st ''$&throw'' ''usage: throw exception [args ...]'' else rethrow list st)"

fun catch_loop :: "nat \<Rightarrow> caller \<Rightarrow> evflags \<Rightarrow> es_term \<Rightarrow> terms \<Rightarrow> estate \<Rightarrow> terms ev" where
  "catch_loop 0 ev evalflags catcher body st = Throw (OutOfFuel, st)"
| "catch_loop (Suc n) ev evalflags catcher body st =
     handle ev st (ev body None evalflags st) (\<lambda>frombody st.
     handle ev st (ev (Str ''$&noreturn'' # catcher # frombody) None evalflags st) (\<lambda>fromcatcher st.
     if catches fromcatcher ''retry'' then catch_loop n ev evalflags catcher body st
     else rethrow fromcatcher st))"

definition prim_catch :: "nat \<Rightarrow> caller \<Rightarrow> evflags \<Rightarrow> terms \<Rightarrow> estate \<Rightarrow> terms ev" where
  "prim_catch n ev evalflags list st =
     (case list of [] \<Rightarrow> efail st ''$&catch'' ''usage: catch catcher body''
      | catcher # body \<Rightarrow> catch_loop n ev evalflags catcher body st)"

definition prim_noreturn :: "host \<Rightarrow> walker \<Rightarrow> evflags \<Rightarrow> terms \<Rightarrow> estate \<Rightarrow> terms ev" where
  "prim_noreturn H wk evalflags list st =
     (case list of [] \<Rightarrow> efail st ''$&noreturn'' ''usage: $&noreturn lambda args ...''
      | t # args \<Rightarrow>
          obind (getclosure H t st) (\<lambda>(c, st).
          case c of
            Some (Closure b (nLambda params body)) \<Rightarrow>
              obind (bindargs params args b st) (\<lambda>(context, st). wk body context evalflags st)
          | _ \<Rightarrow> efail st ''$&noreturn''
              (''$&noreturn: '' @ gs H st (case c of None \<Rightarrow> t | Some c \<Rightarrow> Clos c) @ '' is not a lambda'')))"

definition prim_flatten :: "host \<Rightarrow> terms \<Rightarrow> estate \<Rightarrow> terms ev" where
  "prim_flatten H list st =
     (case list of [] \<Rightarrow> efail st ''$&flatten'' ''usage: %flatten separator [args ...]''
      | t # list \<Rightarrow> Ok ([Str (Lconv (gs H st) False list (gs H st t))], st))"

definition prim_fsplit :: "host \<Rightarrow> bool \<Rightarrow> terms \<Rightarrow> estate \<Rightarrow> terms ev" where
  "prim_fsplit H coalescef list st =
     (case list of
        [] \<Rightarrow> if coalescef then efail st ''$&split'' ''usage: %split separator [args ...]''
              else efail st ''$&fsplit'' ''usage: %fsplit separator [args ...]''
      | t # list \<Rightarrow>
          obind (on_throw st (fsplit (gs H st) (gs H st t) list coalescef (splitst st))) (\<lambda>(r, s).
          Ok (r, st\<lparr>splitst := s\<rparr>)))"

definition prim_whatis :: "host \<Rightarrow> caller \<Rightarrow> terms \<Rightarrow> ref \<Rightarrow> estate \<Rightarrow> terms ev" where
  "prim_whatis H ev list b st =
     (case list of
        [t] \<Rightarrow>
          obind (getclosure H t st) (\<lambda>(c, st).
          if c \<noteq> None then Ok (list, st)
          else let prog = gs H st t in
            obind (varlookup2 st ''fn-'' prog b) (\<lambda>fn.
            if fn \<noteq> [] then Ok (fn, st)
            else if isabsolute prog then
              (case checkexecutable H prog of
                 Some err \<Rightarrow> efail st ''$&whatis'' (prog @ '': '' @ err)
               | None \<Rightarrow> Ok (list, st))
            else pathsearch H ev t st))
      | _ \<Rightarrow> efail st ''$&whatis'' ''usage: $&whatis program'')"

fun prim_var :: "host \<Rightarrow> terms \<Rightarrow> estate \<Rightarrow> terms ev" where
  "prim_var H [] st = Ok ([], st)"
| "prim_var H (t # rest) st =
     obind (lookup (gs H st t) None st) (\<lambda>(defn, st).
     obind (prim_var H rest st) (\<lambda>(r, st).
     Ok (Str (Sconv False (gs H st t) @ '' = '' @ Lconv (gs H st) True defn '' '') # r, st)))"

definition prim_setmaxevaldepth :: "host \<Rightarrow> terms \<Rightarrow> estate \<Rightarrow> terms ev" where
  "prim_setmaxevaldepth H list st =
     (case list of
        [] \<Rightarrow> Ok ([], st\<lparr>maxevaldepth := MAXmaxevaldepth\<rparr>)
      | [t] \<Rightarrow>
          let (n, s) = strtol_auto (gs H st t) in
          if n < 0 \<or> s \<noteq> [] then
            efail st ''$&setmaxevaldepth'' ''max-eval-depth must be set to a positive integer''
          else Ok (list, st\<lparr>maxevaldepth :=
            if n < int MINmaxevaldepth then if n = 0 then MAXmaxevaldepth else MINmaxevaldepth else nat n\<rparr>)
      | _ \<Rightarrow> efail st ''$&setmaxevaldepth'' ''usage: $&setmaxevaldepth [limit]'')"

text \<open>\<open>batchloop\<close>, which reads and evaluates commands; \<open>$&parse\<close> is a primitive of the surroundings.\<close>

definition batch_round :: "host \<Rightarrow> caller \<Rightarrow> evflags \<Rightarrow> estate \<Rightarrow> terms option ev" where
  "batch_round H ev evalflags st =
     obind (lookup ''fn-%parse'' None st) (\<lambda>(parser, st).
     obind (if parser = [] then
              (case sysprim H ''parse'' of
                 None \<Rightarrow> efail st ''es:prim'' ''unknown primitive: parse''
               | Some p \<Rightarrow> p [] None noflags st)
            else ev parser None noflags st) (\<lambda>(cmd, st).
     obind (lookup ''fn-%dispatch'' None st) (\<lambda>(dispatch, st).
     if cmd = [] then Ok (None, st)
     else obind (ev (if dispatch = [] then cmd else append_list dispatch cmd) None evalflags st)
            (\<lambda>(r, st). Ok (Some r, st)))))"

text \<open>\<open>st0\<close> is the state that the handler around the loop has recorded.\<close>

fun batch_loop :: "nat \<Rightarrow> host \<Rightarrow> caller \<Rightarrow> evflags \<Rightarrow> estate \<Rightarrow> terms \<Rightarrow> estate \<Rightarrow> terms ev" where
  "batch_loop 0 H ev evalflags st0 result st = Throw (OutOfFuel, st)"
| "batch_loop (Suc n) H ev evalflags st0 result st =
     (case batch_round H ev evalflags st of
        Ok (x, st) \<Rightarrow> batch_loop n H ev evalflags st0 (case x of None \<Rightarrow> result | Some r \<Rightarrow> r) st
      | Throw e \<Rightarrow> handle ev st0 (Throw e) (\<lambda>e st. if catches e ''eof'' then Ok (result, st) else rethrow e st)
      | Abort \<Rightarrow> Abort
      | Undef \<Rightarrow> Undef)"

definition prim_batchloop :: "nat \<Rightarrow> host \<Rightarrow> caller \<Rightarrow> evflags \<Rightarrow> estate \<Rightarrow> terms ev" where
  "prim_batchloop n H ev evalflags st = batch_loop n H ev evalflags st ltrue st"

definition prim_home :: "host \<Rightarrow> terms \<Rightarrow> estate \<Rightarrow> terms ev" where
  "prim_home H list st =
     (case list of
        [] \<Rightarrow> lookup ''home'' None st
      | [t] \<Rightarrow> Ok (case home_dir H (gs H st t) of None \<Rightarrow> [] | Some d \<Rightarrow> [Str d], st)
      | _ \<Rightarrow> efail st ''$&home'' ''usage: %home [user]'')"

definition prim :: "host \<Rightarrow> nat \<Rightarrow> walker \<Rightarrow> caller \<Rightarrow> string \<Rightarrow> caller" where
  "prim H n wk ev s list b evalflags st =
     (if s = ''seq'' then prim_seq ev evalflags ltrue list st
      else if s = ''if'' then prim_if ev evalflags list st
      else if s = ''forever'' then prim_forever n ev evalflags list st
      else if s = ''throw'' then prim_throw list st
      else if s = ''catch'' then prim_catch n ev evalflags list st
      else if s = ''noreturn'' then prim_noreturn H wk evalflags list st
      else if s = ''exec'' then ev list None (evalflags\<lparr>inchild := True\<rparr>) st
      else if s = ''exitonfalse'' then ev list None (evalflags\<lparr>exitonfalse := True\<rparr>) st
      else if s = ''batchloop'' then prim_batchloop n H ev evalflags st
      else if s = ''result'' then Ok (list, st)
      else if s = ''count'' then Ok ([Str (show_nat (nat (list_length list)))], st)
      else if s = ''setnoexport'' then obind (setnoexport (gs H st) list st) (\<lambda>st. Ok (list, st))
      else if s = ''flatten'' then prim_flatten H list st
      else if s = ''split'' then prim_fsplit H True list st
      else if s = ''fsplit'' then prim_fsplit H False list st
      else if s = ''whatis'' then prim_whatis H ev list b st
      else if s = ''var'' then prim_var H list st
      else if s = ''vars'' then Ok (listvars (gs H st) False st, st)
      else if s = ''internals'' then Ok (listvars (gs H st) True st, st)
      else if s = ''home'' then prim_home H list st
      else if s = ''setmaxevaldepth'' then prim_setmaxevaldepth H list st
      else case sysprim H s of
        Some p \<Rightarrow> p list b evalflags st
      | None \<Rightarrow> efail st ''es:prim'' (''unknown primitive: '' @ s))"

section \<open>Evaluation of a list\<close>

text \<open>The label \<open>done\<close>.\<close>

definition finish :: "evflags \<Rightarrow> terms ev \<Rightarrow> terms ev" where
  "finish evalflags r = obind r (\<lambda>(list, st).
     let st = st\<lparr>evaldepth := evaldepth st - 1\<rparr> in
     if exitonfalse evalflags \<and> \<not> istrue list then Throw (Exit (exitstatus list), st) else Ok (list, st))"

definition apply_lambda :: "walker \<Rightarrow> caller \<Rightarrow> string option \<Rightarrow> tree \<Rightarrow> tree \<Rightarrow> ref \<Rightarrow> terms \<Rightarrow> evflags \<Rightarrow> estate \<Rightarrow> terms ev" where
  "apply_lambda wk ev funcname params body b args evalflags st =
     handle ev st
       (obind (bindargs params args b st) (\<lambda>(context, st).
        case funcname of
          None \<Rightarrow> wk body context evalflags st
        | Some name \<Rightarrow>
            obind (varpush (vev ev) ''0'' [Str name] st) (\<lambda>st.
            let n = length (pushlist st) in
            obind (wk body context evalflags st) (\<lambda>(list, st).
            obind (varpop (vev ev) n st) (\<lambda>st. Ok (list, st))))))
       (\<lambda>e st. if catches e ''return'' then Ok (tl e, st) else rethrow e st)"

type_synonym restarter = "string option \<Rightarrow> caller"

definition eval_name :: "host \<Rightarrow> caller \<Rightarrow> restarter \<Rightarrow> string option \<Rightarrow> es_term \<Rightarrow> terms \<Rightarrow> ref \<Rightarrow> evflags \<Rightarrow> estate \<Rightarrow> terms ev" where
  "eval_name H ev rs funcname t args b evalflags st =
     (let name = gs H st t in
      obind (varlookup2 st ''fn-'' name b) (\<lambda>fn.
      if fn \<noteq> [] then rs (Some name) (append_list fn args) b evalflags st
      else if isabsolute name then
        (case checkexecutable H name of
           Some err \<Rightarrow> efail st ''$&whatis'' (name @ '': '' @ err)
         | None \<Rightarrow> finish evalflags (forkexec H name (t # args) (inchild evalflags) st))
      else
        obind (pathsearch H ev t st) (\<lambda>(fn, st).
        case fn of
          [f] \<Rightarrow>
            obind (getclosure H f st) (\<lambda>(c, st).
            if c = None then finish evalflags (forkexec H (gs H st f) (t # args) (inchild evalflags) st)
            else rs funcname (append_list fn args) b evalflags st)
        | _ \<Rightarrow> rs funcname (append_list fn args) b evalflags st)))"

definition restart_body :: "host \<Rightarrow> nat \<Rightarrow> walker \<Rightarrow> caller \<Rightarrow> restarter \<Rightarrow> restarter" where
  "restart_body H n wk ev rs funcname list b evalflags st =
     (case list of
        [] \<Rightarrow> Ok (ltrue, st\<lparr>evaldepth := evaldepth st - 1\<rparr>)
      | t # args \<Rightarrow>
          obind (getclosure H t st) (\<lambda>(cp, st).
          case cp of
            None \<Rightarrow> eval_name H ev rs funcname t args b evalflags st
          | Some (Closure cb code) \<Rightarrow>
              (case code of
                 nPrim s \<Rightarrow> if cb \<noteq> None then Abort else finish evalflags (prim H n wk ev s args b evalflags st)
               | nThunk body \<Rightarrow> finish evalflags (wk body cb evalflags st)
               | nLambda params body \<Rightarrow>
                   finish evalflags (apply_lambda wk ev funcname params body cb args evalflags st)
               | nList x y \<Rightarrow>
                   obind (glom H wk ev (nList x y) cb True st) (\<lambda>(list, st).
                   if list = [] then Undef else rs funcname (append_list list (tl list)) b evalflags st)
               | TNull \<Rightarrow> Undef
               | _ \<Rightarrow> Abort)))"

definition eval_body :: "host \<Rightarrow> restarter \<Rightarrow> caller" where
  "eval_body H rs list b evalflags st =
     (let st = st\<lparr>evaldepth := evaldepth st + 1\<rparr> in
      if maxevaldepth st \<le> evaldepth st then efail st ''es:eval'' ''max-eval-depth exceeded''
      else rs None list b evalflags st)"

fun ewalk :: "host \<Rightarrow> nat \<Rightarrow> walker"
  and eeval :: "host \<Rightarrow> nat \<Rightarrow> caller"
  and erestart :: "host \<Rightarrow> nat \<Rightarrow> restarter"
where
  "ewalk H 0 t b evalflags st = Throw (OutOfFuel, st)"
| "ewalk H (Suc n) t b evalflags st = walk_body H (ewalk H n) (eeval H n) t b evalflags st"
| "eeval H 0 list b evalflags st = Throw (OutOfFuel, st)"
| "eeval H (Suc n) list b evalflags st = eval_body H (erestart H n) list b evalflags st"
| "erestart H 0 name list b evalflags st = Throw (OutOfFuel, st)"
| "erestart H (Suc n) name list b evalflags st =
     restart_body H n (ewalk H n) (eeval H n) (erestart H n) name list b evalflags st"

lemma knot_eqs:
  "ewalk H (Suc n) = walk_body H (ewalk H n) (eeval H n)"
  "eeval H (Suc n) = eval_body H (erestart H n)"
  "erestart H (Suc n) = restart_body H n (ewalk H n) (eeval H n) (erestart H n)"
  by (intro ext; simp)+

section \<open>A shell to start with\<close>

text \<open>A state without variables, and surroundings in which every program exits with status 0.\<close>

definition start :: "var dict \<Rightarrow> estate" where
  "start d = \<lparr>vars = d, noexport = None, env = mkvector 10, sortenv = None, envmin = 0, isdirty = True,
     rebound = False, pushlist = [], heap = [],
     splitst = \<lparr>coalesce = False, splitchars = False, buffer = None, value_rev = [],
       ifsvalid = False, ifs = [], isifs = (\<lambda>_. False)\<rparr>,
     evaldepth = 0, maxevaldepth = MAXmaxevaldepth\<rparr>"

definition plain_host :: host where
  "plain_host = \<lparr>cstack = 100, parsestring = (\<lambda>s. Ok TNull), memory = (\<lambda>i. nul),
     filesys = \<lparr>is_dir = (\<lambda>s. False), file_exists = (\<lambda>s. False), dirents = (\<lambda>s. None)\<rparr>,
     checkexecutable = (\<lambda>s. None), spawn = (\<lambda>file args envp child st. Ok (0, st)),
     signame = (\<lambda>n. ''sig''), home_dir = (\<lambda>s. None), sysprim = (\<lambda>s. None)\<rparr>"

end
