(* ===== verification/Kept.thy ===== *)
theory Kept
  imports Eval "HOL-Library.Sublist"
begin

text \<open>
  What evaluation keeps of the state, whatever the program: no reference to a binding dangles, the local
  bindings that are on the stack come off it, and the depth is what it was. The same for a run that ends
  in an exception, except that it leaves on the stack the local bindings that the handler takes off.
\<close>

section \<open>States without dangling references\<close>

abbreviation hl :: "estate \<Rightarrow> nat" where
  "hl st \<equiv> length (heap st)"

fun ref_ok :: "nat \<Rightarrow> ref \<Rightarrow> bool" where
  "ref_ok n None = True" | "ref_ok n (Some r) = (r < n)"

fun term_ok :: "nat \<Rightarrow> es_term \<Rightarrow> bool" where
  "term_ok n (Str s) = True" | "term_ok n (Clos c) = ref_ok n (binding c)"

definition terms_ok :: "nat \<Rightarrow> terms \<Rightarrow> bool" where
  "terms_ok n ts = list_all (term_ok n) ts"

definition store_ok :: "store \<Rightarrow> bool" where
  "store_ok h = list_all (\<lambda>r. ref_ok r (bnext (h ! r)) \<and> terms_ok (length h) (bdefn (h ! r))) [0..<length h]"

definition state_ok :: "estate \<Rightarrow> bool" where
  "state_ok st \<longleftrightarrow> vars_ok st \<and> store_ok (heap st) \<and> (\<forall>k. terms_ok (hl st) (view st k)) \<and>
     (\<forall>p \<in> set (pushlist st). terms_ok (hl st) (pdefn p))"

lemma terms_ok_simps [simp]:
  "terms_ok n []" "terms_ok n (t # ts) \<longleftrightarrow> term_ok n t \<and> terms_ok n ts"
  "terms_ok n (ts @ us) \<longleftrightarrow> terms_ok n ts \<and> terms_ok n us" "terms_ok n (map Str ss)"
  by (auto simp: terms_ok_def list_all_iff)

lemma terms_ok_sub: "terms_ok n ts \<Longrightarrow> set us \<subseteq> set ts \<Longrightarrow> terms_ok n us"
  by (auto simp: terms_ok_def list_all_iff)

lemma ref_ok_mono: "ref_ok n b \<Longrightarrow> n \<le> m \<Longrightarrow> ref_ok m b"
  by (cases b) auto

lemma term_ok_mono: "term_ok n t \<Longrightarrow> n \<le> m \<Longrightarrow> term_ok m t"
  by (cases t) (auto intro: ref_ok_mono)

lemma terms_ok_mono: "terms_ok n ts \<Longrightarrow> n \<le> m \<Longrightarrow> terms_ok m ts"
  by (auto simp: terms_ok_def list_all_iff intro: term_ok_mono)

lemma store_ok_iff:
  "store_ok h \<longleftrightarrow> (\<forall>r < length h. ref_ok r (bnext (h ! r)) \<and> terms_ok (length h) (bdefn (h ! r)))"
  by (auto simp: store_ok_def list_all_iff)

text \<open>In such a state, walking a chain of bindings ends at a binding or at its end.\<close>

lemma find_binding_ok:
  assumes "store_ok h" "ref_ok m b" "m \<le> length h" "m < n"
  shows "\<exists>r. find_binding n P h b = Some r \<and> ref_ok (length h) r"
  using assms
proof (induction n P h b arbitrary: m rule: find_binding.induct)
  case (3 n P h r)
  have "ref_ok r (bnext (h ! r))" using "3.prems" by (auto simp: store_ok_iff)
  then show ?case using 3 by auto
qed auto

lemma lookup_chain_ok: "store_ok h \<Longrightarrow> ref_ok (length h) b \<Longrightarrow> \<exists>r. lookup_chain P h b = Some r \<and> ref_ok (length h) r"
  unfolding lookup_chain_def by (rule find_binding_ok [of _ "length h"]) auto

lemma store_defn_ok: "store_ok h \<Longrightarrow> r < length h \<Longrightarrow> terms_ok (length h) (bdefn (h ! r))"
  by (auto simp: store_ok_iff)

section \<open>Runs that keep the state\<close>

definition same :: "estate \<Rightarrow> estate \<Rightarrow> bool" where
  "same st st' \<longleftrightarrow> state_ok st' \<and> pushlist st' = pushlist st \<and> hl st \<le> hl st' \<and> evaldepth st' = evaldepth st"

definition exn_ok :: "estate \<Rightarrow> terms \<Rightarrow> estate \<Rightarrow> bool" where
  "exn_ok st e st' \<longleftrightarrow> state_ok st' \<and> suffix (pushlist st) (pushlist st') \<and> hl st \<le> hl st' \<and> terms_ok (hl st') e"

fun good :: "estate \<Rightarrow> ('a \<Rightarrow> bool) \<Rightarrow> (stop \<times> estate, 'a) outcome_of \<Rightarrow> bool" where
  "good st Q (Ok x) = Q x"
| "good st Q (Throw (Exn e, st')) = exn_ok st e st'"
| "good st Q r = True"

definition lower :: "nat \<Rightarrow> estate \<Rightarrow> estate" where
  "lower k st = st\<lparr>evaldepth := evaldepth st - k\<rparr>"

text \<open>A run that gives a value, a state, or a value without changing the state.\<close>

definition gd :: "nat \<Rightarrow> estate \<Rightarrow> ('a \<Rightarrow> nat \<Rightarrow> bool) \<Rightarrow> 'a ev \<Rightarrow> bool" where
  "gd k st P r = good st (\<lambda>(x, st'). same (lower k st) st' \<and> P x (hl st')) r"

definition gdu :: "estate \<Rightarrow> estate upd \<Rightarrow> bool" where
  "gdu st r = good st (same st) r"

definition gdv :: "estate \<Rightarrow> ('a \<Rightarrow> nat \<Rightarrow> bool) \<Rightarrow> (stop \<times> estate, 'a) outcome_of \<Rightarrow> bool" where
  "gdv st P r = good st (\<lambda>x. P x (hl st)) r"

abbreviation tsok :: "terms \<Rightarrow> nat \<Rightarrow> bool" where
  "tsok ts n \<equiv> terms_ok n ts"

lemma lower_simps [simp]:
  "heap (lower k st) = heap st" "pushlist (lower k st) = pushlist st" "lower 0 st = st"
  "evaldepth (lower k st) = evaldepth st - k"
  by (simp_all add: lower_def)

lemma state_ok_cong:
  assumes "vars st' = vars st" "noexport st' = noexport st" "pushlist st' = pushlist st" "heap st' = heap st"
  shows "state_ok st' = state_ok st"
  using vars_ok_cong [OF assms(1,2)] view_cong [OF assms(1)] assms(3,4) by (simp add: state_ok_def)

lemma state_ok_lower [simp]: "state_ok (lower k st) = state_ok st"
  by (rule state_ok_cong) (simp_all add: lower_def)

lemma same_refl [simp]: "state_ok st \<Longrightarrow> same st st"
  by (simp add: same_def)

lemma sameD:
  "same st st' \<Longrightarrow> state_ok st'" "same st st' \<Longrightarrow> terms_ok (hl st) ts \<Longrightarrow> terms_ok (hl st') ts"
  "same st st' \<Longrightarrow> term_ok (hl st) t \<Longrightarrow> term_ok (hl st') t"
  "same st st' \<Longrightarrow> ref_ok (hl st) b \<Longrightarrow> ref_ok (hl st') b"
  by (auto simp: same_def intro: terms_ok_mono term_ok_mono ref_ok_mono)

lemma same_trans: "same st st1 \<Longrightarrow> same (lower k st1) st2 \<Longrightarrow> same (lower k st) st2"
  by (auto simp: same_def)

lemma exn_anchor: "same st st1 \<Longrightarrow> exn_ok st1 e st2 \<Longrightarrow> exn_ok st e st2"
  by (auto simp: same_def exn_ok_def)

lemma good_mono: "good st Q r \<Longrightarrow> (\<And>x. Q x \<Longrightarrow> R x) \<Longrightarrow> good st R r"
  by (cases "(st, Q, r)" rule: good.cases) auto

lemma good_anchor: "good st1 Q r \<Longrightarrow> same st st1 \<Longrightarrow> good st Q r"
  by (cases "(st1, Q, r)" rule: good.cases) (auto intro: exn_anchor)

lemma good_later:
  assumes "good st1 Q r" "same st st1" "\<And>x. Q x \<Longrightarrow> R x"
  shows "good st R r"
  using good_mono [OF good_anchor [OF assms(1,2)] assms(3)] .

lemma good_bind: "good st Q m \<Longrightarrow> (\<And>x. Q x \<Longrightarrow> good st R (f x)) \<Longrightarrow> good st R (obind m f)"
  by (cases "(st, Q, m)" rule: good.cases) auto

named_theorems gd_rules \<open>how the steps of a run keep the state\<close>

lemma gd_bind:
  assumes "gd 0 st P m" "\<And>x st1. same st st1 \<Longrightarrow> P x (hl st1) \<Longrightarrow> gd k st1 R (f (x, st1))"
  shows "gd k st R (obind m f)"
  unfolding gd_def
proof (rule good_bind [OF assms(1) [unfolded gd_def]])
  fix x assume "case x of (x, st') \<Rightarrow> same (lower 0 st) st' \<and> P x (hl st')"
  then obtain y st1 where x: "x = (y, st1)" "same st st1" "P y (hl st1)" by auto
  show "good st (\<lambda>(x, st'). same (lower k st) st' \<and> R x (hl st')) (f x)"
    unfolding x(1)
    by (rule good_later [OF assms(2) [OF x(2,3), unfolded gd_def] x(2)]) (auto intro: same_trans [OF x(2)])
qed

lemma gd_bindu:
  assumes "gdu st m" "\<And>st1. same st st1 \<Longrightarrow> gd k st1 R (f st1)"
  shows "gd k st R (obind m f)"
  unfolding gd_def
proof (rule good_bind [OF assms(1) [unfolded gdu_def]])
  fix st1 assume x: "same st st1"
  show "good st (\<lambda>(x, st'). same (lower k st) st' \<and> R x (hl st')) (f st1)"
    by (rule good_later [OF assms(2) [OF x, unfolded gd_def] x]) (auto intro: same_trans [OF x])
qed

lemma gdu_bindu:
  assumes "gdu st m" "\<And>st1. same st st1 \<Longrightarrow> gdu st1 (f st1)"
  shows "gdu st (obind m f)"
  unfolding gdu_def
proof (rule good_bind [OF assms(1) [unfolded gdu_def]])
  fix st1 assume x: "same st st1"
  show "good st (same st) (f st1)"
    by (rule good_later [OF assms(2) [OF x, unfolded gdu_def] x]) (use same_trans [OF x, of 0] in simp)
qed

lemma gd_bindv:
  assumes "gdv st P m" "\<And>x. P x (hl st) \<Longrightarrow> gd k st R (f x)"
  shows "gd k st R (obind m f)"
  using assms unfolding gd_def gdv_def by (rule good_bind)

lemma gdu_bindv:
  assumes "gdv st P m" "\<And>x. P x (hl st) \<Longrightarrow> gdu st (f x)"
  shows "gdu st (obind m f)"
  using assms unfolding gdu_def gdv_def by (rule good_bind)

lemma gdv_bindv:
  assumes "gdv st P m" "\<And>x. P x (hl st) \<Longrightarrow> gdv st R (f x)"
  shows "gdv st R (obind m f)"
  using assms unfolding gdv_def by (rule good_bind)

lemma gd_leaf [simp]:
  "gd k st P (Ok (x, st1)) \<longleftrightarrow> same (lower k st) st1 \<and> P x (hl st1)" "gd k st P Abort" "gd k st P Undef"
  "gd k st P (Throw (OutOfFuel, st1))" "gd k st P (Throw (Exit i, st1))"
  "gd k st P (Throw (Exn e, st1)) \<longleftrightarrow> exn_ok st e st1"
  "gdu st (Ok st1) \<longleftrightarrow> same st st1" "gdu st Abort" "gdu st Undef" "gdu st (Throw (Exn e, st1)) \<longleftrightarrow> exn_ok st e st1"
  "gdv st V (Ok y) \<longleftrightarrow> V y (hl st)" "gdv st V Abort" "gdv st V Undef"
  "gdv st V (Throw (Exn e, st1)) \<longleftrightarrow> exn_ok st e st1"
  by (simp_all add: gd_def gdu_def gdv_def)

lemma exn_here: "state_ok st \<Longrightarrow> terms_ok (hl st) e \<Longrightarrow> exn_ok st e st"
  by (simp add: exn_ok_def)

lemma gd_efail [simp]: "state_ok st \<Longrightarrow> gd k st P (efail st from msg)"
  by (simp add: efail_def exn_here fail_exn_def)

lemma gd_rethrow [simp]: "state_ok st \<Longrightarrow> terms_ok (hl st) e \<Longrightarrow> gd k st P (rethrow e st)"
  by (simp add: rethrow_def exn_here)

lemma gdv_on_throw: "state_ok st \<Longrightarrow> (\<And>x. m = Ok x \<Longrightarrow> P x (hl st)) \<Longrightarrow>
    (\<And>e. m = Throw e \<Longrightarrow> terms_ok (hl st) e) \<Longrightarrow> gdv st P (on_throw st m)"
  by (cases m) (auto simp: exn_here)

lemma gdv_odict: "(\<And>x. m = Some x \<Longrightarrow> P x (hl st)) \<Longrightarrow> gdv st P (odict m)"
  by (cases m) auto

lemma gd_conseq: "gd k st P r \<Longrightarrow> (\<And>x n. P x n \<Longrightarrow> R x n) \<Longrightarrow> gd k st R r"
  unfolding gd_def by (auto elim!: good_mono)

definition caller_ok :: "caller \<Rightarrow> bool" where
  "caller_ok ev \<longleftrightarrow> (\<forall>list b evalflags st. state_ok st \<longrightarrow> terms_ok (hl st) list \<longrightarrow> ref_ok (hl st) b \<longrightarrow>
     gd 0 st tsok (ev list b evalflags st))"

definition walker_ok :: "walker \<Rightarrow> bool" where
  "walker_ok wk \<longleftrightarrow> (\<forall>t b evalflags st. state_ok st \<longrightarrow> ref_ok (hl st) b \<longrightarrow> gd 0 st tsok (wk t b evalflags st))"

lemma callerD: "caller_ok ev \<Longrightarrow> state_ok st \<Longrightarrow> terms_ok (hl st) list \<Longrightarrow> ref_ok (hl st) b \<Longrightarrow>
    gd 0 st tsok (ev list b evalflags st)"
  by (simp add: caller_ok_def)

lemma walkerD: "walker_ok wk \<Longrightarrow> state_ok st \<Longrightarrow> ref_ok (hl st) b \<Longrightarrow> gd 0 st tsok (wk t b evalflags st)"
  by (simp add: walker_ok_def)

section \<open>Variables\<close>

lemma state_okD:
  "state_ok st \<Longrightarrow> vars_ok st" "state_ok st \<Longrightarrow> store_ok (heap st)"
  "state_ok st \<Longrightarrow> terms_ok (hl st) (view st k)"
  "state_ok st \<Longrightarrow> p \<in> set (pushlist st) \<Longrightarrow> terms_ok (hl st) (pdefn p)"
  by (auto simp: state_ok_def)

lemma validatevar_gd: "state_ok st \<Longrightarrow> gdv st (\<lambda>_ _. True) (on_throw st (validatevar name))"
  by (rule gdv_on_throw) (auto simp: validatevar_def fail_exn_def split: if_splits)

lemma chain_gd:
  assumes "state_ok st" "ref_ok (hl st) b"
  shows "gdv st (\<lambda>r n. ref_ok n r) (odict (lookup_chain P (heap st) b))"
  by (rule gdv_odict) (use lookup_chain_ok [where P = P, OF state_okD(2) [OF assms(1)] assms(2)] in auto)

lemma dictget_gd:
  assumes "state_ok st"
  shows "gdv st (\<lambda>v n. terms_ok n (case v of None \<Rightarrow> [] | Some v \<Rightarrow> vdefn v)) (odict (dictget (vars st) name))"
  using dictget_vars [OF state_okD(1) [OF assms]] state_okD(3) [OF assms, of name]
  by (simp add: view_def)

lemma varlookup2_gd:
  assumes "state_ok st" "ref_ok (hl st) b"
  shows "gdv st tsok (varlookup2 st name1 name2 b)"
  unfolding varlookup2_def dictget2_cat
  by (rule gdv_bindv [OF chain_gd [OF assms]])
     (auto intro!: gdv_bindv [OF dictget_gd] assms store_defn_ok state_okD split: option.splits)

lemma varlookup_name_gd:
  assumes "state_ok st" "ref_ok (hl st) b"
  shows "gdv st tsok (varlookup_name st name b)"
  unfolding varlookup_name_def
  by (intro gdv_bindv [OF validatevar_gd] gdv_bindv [OF chain_gd] assms)
     (auto intro!: gdv_bindv [OF dictget_gd] assms store_defn_ok state_okD split: option.splits)

lemma nth_list_set: "nth_list xs n = Some x \<Longrightarrow> x \<in> set xs"
  by (auto simp: nth_list_eq split: if_splits)

lemma varlookup_gd:
  assumes "state_ok st" "ref_ok (hl st) b"
  shows "gdv st tsok (varlookup st name b)"
proof (cases "iscounting name")
  case True
  have "terms_ok n (case nth_list args i of None \<Rightarrow> [] | Some t \<Rightarrow> [t])" if "terms_ok n args" for args n i
    using that nth_list_set [of args i] by (auto simp: terms_ok_def list_all_iff split: option.splits)
  then show ?thesis using True
    by (auto simp: varlookup_def intro!: gdv_bindv [OF varlookup_name_gd] assms)
next
  case False
  then show ?thesis using varlookup_name_gd [OF assms] by (simp add: varlookup_def)
qed

lemma lookup_gd:
  assumes "state_ok st" "ref_ok (hl st) b"
  shows "gd 0 st tsok (lookup name b st)"
  unfolding lookup_def by (rule gd_bindv [OF varlookup_gd]) (simp_all add: assms)

text \<open>The changes of the table.\<close>

lemma state_ok_view:
  assumes "state_ok st" "vars_ok st'" "heap st' = heap st" "view st' = (view st)(name := defn)"
    "terms_ok (hl st) defn" "\<forall>p \<in> set (pushlist st'). terms_ok (hl st) (pdefn p)"
  shows "state_ok st'"
  using assms by (auto simp: state_ok_def)

lemma define_global_frame:
  "define_global name defn (st :: estate) = Ok st' \<Longrightarrow>
     heap st' = heap st \<and> pushlist st' = pushlist st \<and> evaldepth st' = evaldepth st"
  by (auto simp: define_global_def obind_Ok Let_def split: option.splits if_splits)

lemma push_global_frame:
  "push_global name defn (st :: estate) = Ok st' \<Longrightarrow> heap st' = heap st \<and> evaldepth st' = evaldepth st"
  by (auto simp: push_global_def obind_Ok split: option.splits)

lemma pop_global_frame:
  "pop_global p defn (st :: estate) = Ok st' \<Longrightarrow> heap st' = heap st \<and> evaldepth st' = evaldepth st"
  by (auto simp: pop_global_def obind_Ok)

text \<open>What throws nothing needs to be looked at only where it returns.\<close>

fun throws :: "('e, 'a) outcome_of \<Rightarrow> bool" where
  "throws (Throw e) = True" | "throws r = False"

lemma throws_obind: "throws (obind m f) \<longleftrightarrow> throws m \<or> (\<exists>x. m = Ok x \<and> throws (f x))"
  by (cases m) auto

lemma throws_odict [simp]: "\<not> throws (odict r)"
  by (cases r) auto

lemma throws_isexported [simp]: "\<not> throws (isexported st name)"
  by (auto simp: isexported_def throws_obind split: option.splits)

lemma good_silent: "\<not> throws m \<Longrightarrow> (\<And>x. m = Ok x \<Longrightarrow> Q x) \<Longrightarrow> good st Q m"
  by (cases m) auto

lemma throws_globals [simp]:
  "\<not> throws (define_global name defn st)" "\<not> throws (push_global name defn st)" "\<not> throws (pop_global p defn st)"
  "\<not> throws (mark_dirty name st)"
  by (auto simp: define_global_def push_global_def pop_global_def mark_dirty_def throws_obind Let_def
      split: option.splits)

lemma define_global_gd:
  assumes "state_ok st" "terms_ok (hl st) defn"
  shows "gdu st (define_global name defn st)"
  unfolding gdu_def
proof (rule good_silent)
  fix st' assume r: "define_global name defn st = Ok st'"
  show "same st st'"
    using define_global_frame [OF r] define_global_view [OF state_okD(1) [OF assms(1)] r] assms
      state_ok_view [OF assms(1), of st' name defn] by (simp add: same_def state_ok_def)
qed simp

definition pushed :: "estate \<Rightarrow> estate \<Rightarrow> bool" where
  "pushed st st' \<longleftrightarrow> state_ok st' \<and> (\<exists>p. pushlist st' = p # pushlist st) \<and> hl st \<le> hl st' \<and> evaldepth st' = evaldepth st"

definition popped :: "estate \<Rightarrow> estate \<Rightarrow> bool" where
  "popped st st' \<longleftrightarrow> state_ok st' \<and> pushlist st' = tl (pushlist st) \<and> hl st \<le> hl st' \<and> evaldepth st' = evaldepth st"

lemma push_global_gd:
  assumes "state_ok st" "terms_ok (hl st) defn"
  shows "good st (pushed st) (push_global name defn st)"
proof (rule good_silent)
  fix st' assume r: "push_global name defn st = Ok st'"
  note v = push_global_view [OF state_okD(1) [OF assms(1)] r]
  then obtain p where p: "pushlist st' = p # pushlist st" "pdefn p = view st name" by blast
  have "state_ok st'"
    by (rule state_ok_view [OF assms(1), of st' name defn])
       (use v p push_global_frame [OF r] assms state_okD(3,4) [OF assms(1)] in auto)
  then show "pushed st st'" using p push_global_frame [OF r] by (simp add: pushed_def)
qed simp

lemma pop_global_gd:
  assumes "state_ok st" "terms_ok (hl st) defn"
  shows "good st (popped st) (pop_global p defn st)"
proof (rule good_silent)
  fix st' assume r: "pop_global p defn st = Ok st'"
  note v = pop_global_view [OF state_okD(1) [OF assms(1)] r]
  have "set (tl (pushlist st)) \<subseteq> set (pushlist st)" by (cases "pushlist st") auto
  then have "state_ok st'"
    by (intro state_ok_view [OF assms(1), of st' "pname p" defn])
       (use v pop_global_frame [OF r] assms state_okD(4) [OF assms(1)] in auto)
  then show "popped st st'" using v pop_global_frame [OF r] by (simp add: popped_def)
qed simp

lemma same_popped: "pushed st st1 \<Longrightarrow> same st1 st2 \<Longrightarrow> popped st2 st3 \<Longrightarrow> same st st3"
  by (auto simp: pushed_def same_def popped_def)

lemma good_pushed: "good st1 Q r \<Longrightarrow> pushed st st1 \<Longrightarrow> good st Q r"
  by (cases "(st1, Q, r)" rule: good.cases) (auto simp: pushed_def exn_ok_def suffix_Cons suffix_ConsD)

lemma mark_dirty_gd: "state_ok st \<Longrightarrow> gdu st (mark_dirty name st)"
proof -
  assume ok: "state_ok st"
  have "state_ok (if c then st\<lparr>isdirty := True\<rparr> else st)" for c
    using ok state_ok_cong [of "st\<lparr>isdirty := True\<rparr>" st] by simp
  then show ?thesis by (simp add: mark_dirty_ok [OF state_okD(1) [OF ok]] same_def)
qed

text \<open>A stretch of evaluation between a push and a pop.\<close>

lemma bracket:
  assumes "good st (pushed st) push" "\<And>st1. pushed st st1 \<Longrightarrow> gd 0 st1 tsok (m st1)"
    "\<And>st1 st2. pushed st st1 \<Longrightarrow> same st1 st2 \<Longrightarrow> good st2 (popped st2) (pop (length (pushlist st1)) st2)"
  shows "gd 0 st tsok (obind push (\<lambda>st1. obind (m st1) (\<lambda>(x, st2). obind (pop (length (pushlist st1)) st2) (\<lambda>st3. Ok (x, st3)))))"
  unfolding gd_def
proof (rule good_bind [OF assms(1)])
  let ?Q = "\<lambda>(x, st'). same (lower 0 st) st' \<and> terms_ok (hl st') x"
  fix st1 assume p: "pushed st st1"
  show "good st ?Q (obind (m st1) (\<lambda>(x, st2). obind (pop (length (pushlist st1)) st2) (\<lambda>st3. Ok (x, st3))))"
  proof (rule good_bind [OF good_pushed [OF assms(2) [OF p, unfolded gd_def] p]])
    fix y assume "case y of (x, st') \<Rightarrow> same (lower 0 st1) st' \<and> terms_ok (hl st') x"
    then obtain x st2 where y: "y = (x, st2)" "same st1 st2" "terms_ok (hl st2) x" by auto
    show "good st ?Q (case y of (x, st2) \<Rightarrow> obind (pop (length (pushlist st1)) st2) (\<lambda>st3. Ok (x, st3)))"
      unfolding y(1) case_prod_conv
    proof (rule good_bind [OF good_pushed [OF good_anchor [OF assms(3) [OF p y(2)] y(2)] p]])
      fix st3 assume q: "popped st2 st3"
      then show "good st ?Q (Ok (x, st3))"
        using same_popped [OF p y(2) q] y(3) by (auto simp: popped_def intro: terms_ok_mono)
    qed
  qed
qed

lemma callsettor_gd:
  assumes "state_ok st" "terms_ok (hl st) defn" "caller_ok ev"
  shows "gd 0 st tsok (callsettor (vev ev) name defn st)"
proof -
  have pop: "good st (popped st) (varpop0 n st)" if "state_ok st" for n st
    using that pop_global_gd [OF that state_okD(4) [OF that]]
    by (cases "pushlist st") (auto simp: varpop0_def Let_def)
  have push: "good st (pushed st) (varpush0 ''0'' [Str name] st)"
    unfolding varpush0_def using assms(1)
    by (auto intro!: good_bind [OF validatevar_gd [unfolded gdv_def]] push_global_gd)
  have "gd 0 st tsok (obind (varpush0 ''0'' [Str name] st) (\<lambda>st1. obind (vev ev (settor @ defn) st1)
      (\<lambda>(x, st2). obind (varpop0 (length (pushlist st1)) st2) (\<lambda>st3. Ok (x, st3)))))"
    if "terms_ok (hl st) settor" for settor
    by (rule bracket [OF push])
       (auto simp: vev_def pushed_def intro!: callerD pop assms(3) sameD(1) dest: terms_ok_mono [OF that] terms_ok_mono [OF assms(2)])
  then show ?thesis using assms
    by (auto simp: callsettor_def Let_def intro!: gd_bindv [OF varlookup2_gd])
qed

lemma vardef_gd:
  assumes "state_ok st" "terms_ok (hl st) defn" "ref_ok (hl st) b" "caller_ok ev"
  shows "gdu st (vardef (vev ev) name b defn st)"
  unfolding vardef_def
proof (intro gdu_bindv [OF validatevar_gd] gdu_bindv [OF chain_gd] assms)
  fix r assume r: "ref_ok (hl st) r"
  show "gdu st (case r of
       Some r \<Rightarrow> Ok (st\<lparr>heap := (heap st)[r := (heap st ! r)\<lparr>bdefn := defn\<rparr>], rebound := True\<rparr>)
     | None \<Rightarrow> obind (callsettor (vev ev) name defn st) (\<lambda>(defn, st). define_global name defn st))"
  proof (cases r)
    case None
    have "gdu st (obind (callsettor (vev ev) name defn st) (\<lambda>(defn, st). define_global name defn st))"
      unfolding gdu_def
    proof (rule good_bind [OF callsettor_gd [OF assms(1,2,4), unfolded gd_def]])
      fix x assume "case x of (d, st') \<Rightarrow> same (lower 0 st) st' \<and> terms_ok (hl st') d"
      then obtain d st1 where x: "x = (d, st1)" "same st st1" "terms_ok (hl st1) d" by auto
      show "good st (same st) (case x of (defn, st) \<Rightarrow> define_global name defn st)"
        unfolding x(1) case_prod_conv
        by (rule good_later [OF define_global_gd [OF sameD(1) [OF x(2)] x(3), unfolded gdu_def] x(2)])
           (use same_trans [OF x(2), of 0] in simp)
    qed
    then show ?thesis by (simp add: None)
  next
    case (Some i)
    let ?h = "(heap st)[i := (heap st ! i)\<lparr>bdefn := defn\<rparr>]"
    have "store_ok ?h" using state_okD(2) [OF assms(1)] assms(2) r
      by (auto simp: store_ok_iff nth_list_update Some)
    then have "state_ok (st\<lparr>heap := ?h, rebound := True\<rparr>)"
      using assms(1) by (simp add: state_ok_def vars_ok_def view_def)
    then show ?thesis by (simp add: Some same_def)
  qed
qed

lemma varpush_gd:
  assumes "state_ok st" "terms_ok (hl st) defn" "caller_ok ev"
  shows "good st (pushed st) (varpush (vev ev) name defn st)"
  unfolding varpush_def
proof (rule good_bind [OF validatevar_gd [OF assms(1), unfolded gdv_def]], rule good_bind [OF mark_dirty_gd [OF assms(1), unfolded gdu_def]])
  fix st1 assume s: "same st st1"
  have d: "terms_ok (hl st1) defn" using assms(2) s by (rule sameD(2) [rotated])
  show "good st (pushed st) (obind (callsettor (vev ev) name defn st1) (\<lambda>(defn, st). push_global name defn st))"
  proof (rule good_bind [OF good_anchor [OF callsettor_gd [OF sameD(1) [OF s] d assms(3), unfolded gd_def] s]])
    fix x assume "case x of (d, st') \<Rightarrow> same (lower 0 st1) st' \<and> terms_ok (hl st') d"
    then obtain e st2 where x: "x = (e, st2)" "same st st2" "terms_ok (hl st2) e"
      using same_trans [OF s, of 0] by auto
    show "good st (pushed st) (case x of (defn, st) \<Rightarrow> push_global name defn st)"
      unfolding x(1) case_prod_conv
      by (rule good_later [OF push_global_gd [OF sameD(1) [OF x(2)] x(3)] x(2)])
         (use x(2) in \<open>auto simp: pushed_def same_def\<close>)
  qed
qed

lemma varpop_gd:
  assumes "state_ok st" "caller_ok ev"
  shows "good st (popped st) (varpop (vev ev) n st)"
proof (cases "length (pushlist st) \<noteq> n \<or> n = 0")
  case False
  then obtain p where p: "p \<in> set (pushlist st)" "hd (pushlist st) = p" by (cases "pushlist st") auto
  have "good st (popped st) (obind (mark_dirty (pname p) st) (\<lambda>st.
      obind (callsettor (vev ev) (pname p) (pdefn p) st) (\<lambda>(defn, st). pop_global p defn st)))"
  proof (rule good_bind [OF mark_dirty_gd [OF assms(1), unfolded gdu_def]])
    fix st1 assume s: "same st st1"
    have d: "terms_ok (hl st1) (pdefn p)" using state_okD(4) [OF assms(1) p(1)] s by (rule sameD(2) [rotated])
    show "good st (popped st) (obind (callsettor (vev ev) (pname p) (pdefn p) st1) (\<lambda>(defn, st). pop_global p defn st))"
    proof (rule good_bind [OF good_anchor [OF callsettor_gd [OF sameD(1) [OF s] d assms(2), unfolded gd_def] s]])
      fix x assume "case x of (d, st') \<Rightarrow> same (lower 0 st1) st' \<and> terms_ok (hl st') d"
      then obtain e st2 where x: "x = (e, st2)" "same st st2" "terms_ok (hl st2) e"
        using same_trans [OF s, of 0] by auto
      show "good st (popped st) (case x of (defn, st) \<Rightarrow> pop_global p defn st)"
        unfolding x(1) case_prod_conv
        by (rule good_later [OF pop_global_gd [OF sameD(1) [OF x(2)] x(3)] x(2)])
           (use x(2) in \<open>auto simp: popped_def same_def\<close>)
    qed
  qed
  then show ?thesis using False p(2) by (simp add: varpop_def Let_def)
qed (simp add: varpop_def)

section \<open>The environment\<close>

lemma mkenv_slot:
  "mkenv0 g st s e = Ok (s', e') \<Longrightarrow> same_slot s s' \<and>
     (\<forall>k v. s' = Entry k v \<longrightarrow> (\<exists>u. s = Entry k u \<and> vdefn v = vdefn u)) \<and> (s' = Free \<longleftrightarrow> s = Free) \<and> (s' = Dead \<longleftrightarrow> s = Dead)"
  by (cases s) (auto simp: mkenv0_def same_slot_def obind_Ok Let_def split: if_splits option.splits)

lemma mkenv_loop_slots:
  "mkenv_loop g st t e = Ok (t', e') \<Longrightarrow> list_all2 same_slot t t' \<and>
     map (\<lambda>(k, v). (k, vdefn v)) (entries t') = map (\<lambda>(k, v). (k, vdefn v)) (entries t)"
proof (induction t arbitrary: e t' e')
  case (Cons s t)
  then obtain s1 e1 t1 e2 where r: "mkenv0 g st s e = Ok (s1, e1)" "mkenv_loop g st t e1 = Ok (t1, e2)" "t' = s1 # t1"
    by (auto simp: obind_Ok)
  note slot = mkenv_slot [OF r(1)] and IH = Cons.IH [OF r(2)]
  have "map (\<lambda>(k, v). (k, vdefn v)) (slot_entry s1) = map (\<lambda>(k, v). (k, vdefn v)) (slot_entry s)"
    using slot by (cases s1) auto
  then show ?case using slot IH r(3) by simp
qed simp

lemma throws_mkenv_loop [simp]: "\<not> throws (mkenv_loop g st t e)"
proof (induction t arbitrary: e)
  case (Cons s t)
  have "\<not> throws (mkenv0 g st s e)" for e
    by (auto simp: mkenv0_def throws_obind Let_def split: assoc.splits option.splits)
  then show ?case using Cons by (auto simp: throws_obind)
qed simp

lemma view_same_slots:
  assumes "list_all2 same_slot (table d) t'"
    "map (\<lambda>(k, v). (k, vdefn v)) (entries t') = map (\<lambda>(k, v). (k, vdefn v)) (entries (table d))"
  shows "map_option vdefn (map_of (entries t') k) = map_option vdefn (map_of (entries (table d)) k)"
  using arg_cong [OF assms(2), of "\<lambda>xs. map_of xs k"] by (simp add: map_of_map_value [of "\<lambda>_. vdefn"])

lemma mkenv_gd:
  assumes "state_ok st"
  shows "gd 0 st (\<lambda>_ _. True) (mkenv g st)"
proof -
  have refresh: "state_ok (st\<lparr>vars := (vars st)\<lparr>table := t\<rparr>, env := e, isdirty := False, rebound := False, sortenv := v\<rparr>)"
    if "mkenv_loop g st (table (vars st)) e0 = Ok (t, e)" for t e e0 v
  proof -
    note s = mkenv_loop_slots [OF that]
    let ?st = "st\<lparr>vars := (vars st)\<lparr>table := t\<rparr>, env := e, isdirty := False, rebound := False, sortenv := v\<rparr>"
    have "vars_ok ?st" using assms s dict_inv_same_slots [of "vars st" t]
      by (simp add: state_ok_def vars_ok_def)
    moreover have "view ?st = view st"
    proof
      fix k
      have "view ?st k = (case map_option vdefn (map_of (entries t) k) of None \<Rightarrow> [] | Some v \<Rightarrow> v)"
        by (simp add: view_def dict_abs_def split: option.split)
      moreover have "view st k = (case map_option vdefn (map_of (entries (table (vars st))) k) of None \<Rightarrow> [] | Some v \<Rightarrow> v)"
        by (simp add: view_def dict_abs_def split: option.split)
      ultimately show "view ?st k = view st k" using view_same_slots [OF conjunct1 [OF s] conjunct2 [OF s]] by simp
    qed
    ultimately show ?thesis using assms by (simp add: state_ok_def)
  qed
  have "\<not> throws (mkenv g st)"
    by (auto simp: mkenv_def throws_obind Let_def split: option.splits)
  then show ?thesis unfolding gd_def
    by (rule good_silent)
       (auto simp: mkenv_def obind_Ok Let_def same_def assms split: option.splits if_splits dest: refresh)
qed

lemma noexport_loop_inv: "dict_inv d \<Longrightarrow> noexport_loop g list d = Some d' \<Longrightarrow> dict_inv d'"
  by (induction list arbitrary: d) (auto dest: odict_put split: option.splits)

lemma setnoexport_gd:
  assumes "state_ok st"
  shows "gdu st (setnoexport g list st)"
proof -
  have ok: "state_ok (st\<lparr>isdirty := True, noexport := d\<rparr>)" if "\<forall>x. d = Some x \<longrightarrow> dict_inv x" for d
    using that assms by (simp add: state_ok_def vars_ok_def view_def)
  have "\<not> throws (setnoexport g list st)" by (auto simp: setnoexport_def throws_obind Let_def)
  moreover have "same st st'" if r: "setnoexport g list st = Ok st'" for st'
  proof (cases "list = []")
    case True
    then show ?thesis using r ok [of None] by (auto simp: setnoexport_def Let_def same_def)
  next
    case False
    then obtain d0 d where "mkdict = Some (d0 :: unit dict)" "noexport_loop g list d0 = Some d" "st' = st\<lparr>isdirty := True, noexport := Some d\<rparr>"
      using r by (auto simp: setnoexport_def Let_def obind_Ok)
    moreover have "dict_inv d0"
    proof -
      obtain d1 :: "unit dict" where "mkdict = Some d1" "dict_inv d1" using mkdict_abs by blast
      then show ?thesis using calculation(1) by (metis option.inject)
    qed
    ultimately show ?thesis using ok [of "Some d"] noexport_loop_inv [of d0 g list d] by (auto simp: same_def)
  qed
  ultimately show ?thesis unfolding gdu_def by (rule good_silent)
qed

section \<open>Bindings and closures\<close>

lemma mkbinding_gd:
  assumes "state_ok st" "terms_ok (hl st) defn" "ref_ok (hl st) b"
  shows "gd 0 st (\<lambda>b n. ref_ok n b) (mkbinding name defn b st)"
proof -
  let ?st = "st\<lparr>heap := heap st @ [\<lparr>bname = name, bdefn = defn, bnext = b\<rparr>]\<rparr>"
  have "store_ok (heap ?st)"
    using assms by (auto simp: store_ok_iff nth_append state_ok_def less_Suc_eq intro: terms_ok_mono)
  then have "state_ok ?st"
    using assms by (auto simp: state_ok_def vars_ok_def view_def intro: terms_ok_mono)
  then show ?thesis using assms
    by (auto simp: mkbinding_def same_def intro!: gd_bindv [OF validatevar_gd])
qed

definition defs_ok :: "nat \<Rightarrow> ('a \<times> terms) list \<Rightarrow> bool" where
  "defs_ok n defs = list_all (\<lambda>(name, defn). terms_ok n defn) defs"

lemma defs_ok_simps [simp]:
  "defs_ok n []" "defs_ok n ((name, defn) # defs) \<longleftrightarrow> terms_ok n defn \<and> defs_ok n defs"
  "defs_ok n (defs @ defs') \<longleftrightarrow> defs_ok n defs \<and> defs_ok n defs'"
  by (auto simp: defs_ok_def)

lemma defs_ok_mono: "defs_ok n defs \<Longrightarrow> n \<le> m \<Longrightarrow> defs_ok m defs"
  by (auto simp: defs_ok_def list_all_iff intro: terms_ok_mono)

lemma defs_ok_same: "same st st' \<Longrightarrow> defs_ok (hl st) defs \<Longrightarrow> defs_ok (hl st') defs"
  by (auto simp: same_def intro: defs_ok_mono)

lemma bind_all_gd:
  assumes "state_ok st" "defs_ok (hl st) defs" "ref_ok (hl st) b"
  shows "gd 0 st (\<lambda>b n. ref_ok n b) (bind_all defs b st)"
  using assms
proof (induction defs b st rule: bind_all.induct)
  case (2 name defn rest b st)
  have "gd 0 st (\<lambda>b n. ref_ok n b) (mkbinding name defn b st)" using "2.prems" by (simp add: mkbinding_gd)
  then show ?case unfolding bind_all.simps
  proof (rule gd_bind)
    fix x st1 assume "same st st1" "ref_ok (hl st1) x"
    then show "gd 0 st1 (\<lambda>b n. ref_ok n b) (case (x, st1) of (b, st) \<Rightarrow> bind_all rest b st)"
      using "2.prems" by (auto intro!: "2.IH" dest: sameD defs_ok_same)
  qed
qed simp

lemma spread_ok: "terms_ok n vs \<Longrightarrow> defs_ok n (spread xs vs)"
proof (induction xs arbitrary: vs)
  case (Cons x xs)
  then show ?case by (cases vs) auto
qed simp

lemma bindargs_gd:
  assumes "state_ok st" "terms_ok (hl st) args" "ref_ok (hl st) b"
  shows "gd 0 st (\<lambda>b n. ref_ok n b) (bindargs params args b st)"
  unfolding bindargs_def
  by (auto intro!: mkbinding_gd bind_all_gd spread_ok assms split: option.split)

text \<open>The bindings of a closure that was in a string; some of them refer to the closure itself.\<close>

lemma chain_cells_length [simp]: "length (chain_cells n b defs) = length defs"
  by (induction n b defs rule: chain_cells.induct) auto

lemma chain_cells_ok:
  assumes "ref_ok n b" "defs_ok m defs" "r < length defs"
  shows "ref_ok (n + r) (bnext (chain_cells n b defs ! r)) \<and> terms_ok m (bdefn (chain_cells n b defs ! r))"
  using assms
proof (induction n b defs arbitrary: r rule: chain_cells.induct)
  case (2 n b name defn rest)
  show ?case
  proof (cases r)
    case (Suc q)
    then show ?thesis using "2.IH" [of q] "2.prems" by simp
  qed (use "2.prems" in simp)
qed simp

lemma extend_store_ok:
  assumes "state_ok st" "defs_ok (hl st + length defs) defs"
  shows "state_ok (st\<lparr>heap := heap st @ chain_cells (hl st) None defs\<rparr>)"
proof -
  let ?h = "heap st @ chain_cells (hl st) None defs"
  have "ref_ok r (bnext (?h ! r)) \<and> terms_ok (length ?h) (bdefn (?h ! r))" if "r < length ?h" for r
  proof (cases "r < hl st")
    case True
    then show ?thesis using state_okD(2) [OF assms(1)]
      by (auto simp: store_ok_iff nth_append intro: terms_ok_mono)
  next
    case False
    then show ?thesis using that chain_cells_ok [of "hl st" None "hl st + length defs" defs "r - hl st"] assms(2)
      by (simp add: nth_append)
  qed
  then have "store_ok ?h" by (simp add: store_ok_iff)
  then show ?thesis using assms(1)
    by (auto simp: state_ok_def vars_ok_def view_def intro: terms_ok_mono)
qed

lemma throws_extract:
  "extract_values ws list = Throw e \<Longrightarrow> terms_ok n e"
  by (induction ws list rule: extract_values.induct) (auto simp: fail_exn_def split: if_splits option.splits)

lemma obind_Throw: "obind m f = Throw e \<longleftrightarrow> m = Throw e \<or> (\<exists>x. m = Ok x \<and> f x = Throw e)"
  by (cases m) auto

lemma throws_validatevar: "validatevar name = Throw e \<Longrightarrow> terms_ok n e"
  by (auto simp: validatevar_def fail_exn_def split: if_splits)

lemma throws_extract_defs: "extract_defs t = Throw e \<Longrightarrow> terms_ok n e"
  by (induction t rule: extract_defs.induct)
     (auto simp: obind_Throw dest: throws_extract throws_validatevar split: option.splits if_splits)

lemma throws_extract_all: "extract_all t = Throw e \<Longrightarrow> terms_ok n e"
  by (induction t rule: extract_all.induct) (auto simp: obind_Throw dest: throws_extract_defs)

definition plain :: "es_term option list \<Rightarrow> bool" where
  "plain vs = list_all (\<lambda>v. \<forall>c. v \<noteq> Some (Clos c)) vs"

lemma extract_values_ok: "extract_values ws list = Ok vs \<Longrightarrow> plain list \<Longrightarrow> plain vs"
  by (induction ws list rule: extract_values.induct) (auto simp: plain_def split: if_splits option.splits)

lemma extract_defs_ok: "extract_defs t = Ok defs \<Longrightarrow> list_all (\<lambda>d. plain (snd d)) defs"
proof (induction t arbitrary: defs rule: extract_defs.induct)
qed (auto simp: obind_Ok plain_def [of "[]"] dest!: extract_values_ok split: option.splits if_splits)

lemma extract_all_ok: "extract_all t = Ok (defs, u) \<Longrightarrow> list_all (\<lambda>d. plain (snd d)) defs"
  by (induction t arbitrary: defs u rule: extract_all.induct) (auto simp: obind_Ok dest: extract_defs_ok)

abbreviation cok :: "closure option \<Rightarrow> nat \<Rightarrow> bool" where
  "cok c n \<equiv> (case c of None \<Rightarrow> True | Some c \<Rightarrow> ref_ok n (binding c))"

lemma extractbindings_gd:
  assumes "state_ok st"
  shows "gd 0 st (\<lambda>c n. ref_ok n (binding c)) (extractbindings t st)"
  unfolding extractbindings_def
proof (rule gd_bindv [OF gdv_on_throw [where P = "\<lambda>x n. list_all (\<lambda>d. plain (snd d)) (fst x)", OF assms]])
  fix x :: "(string \<times> es_term option list) list \<times> tree"
  assume p: "list_all (\<lambda>d. plain (snd d)) (fst x)"
  obtain defs u where x: "x = (defs, u)" by (cases x)
  let ?b = "if defs = [] then None else Some (hl st + length defs - 1)"
  let ?f = "\<lambda>v. case v of None \<Rightarrow> Clos (Closure ?b u) | Some t \<Rightarrow> t"
  let ?defs = "map (\<lambda>(name, list). (name, map ?f list)) defs"
  have b: "ref_ok (hl st + length defs) ?b" by (cases defs) auto
  have "terms_ok (hl st + length defs) (map ?f vs)" if "plain vs" for vs
  proof -
    have "term_ok (hl st + length defs) (?f v)" if "v \<in> set vs" for v
    proof (cases v)
      case (Some t)
      then show ?thesis using \<open>plain vs\<close> that by (cases t) (auto simp: plain_def list_all_iff)
    qed (use b in simp)
    then show ?thesis by (simp add: terms_ok_def list_all_iff)
  qed
  then have "defs_ok (hl st + length ?defs) ?defs"
    using p unfolding x by (auto simp: defs_ok_def list_all_iff)
  note e = extend_store_ok [OF assms this]
  show "gd 0 st (\<lambda>c n. ref_ok n (binding c)) (case x of (defs, t) \<Rightarrow>
     let b = if defs = [] then None else Some (hl st + length defs - 1); c = Closure b t;
         defs = map (\<lambda>(name, list). (name, map (\<lambda>v. case v of None \<Rightarrow> Clos c | Some t \<Rightarrow> t) list)) defs
     in Ok (c, st\<lparr>heap := heap st @ chain_cells (hl st) None defs\<rparr>))"
    using e b by (simp add: x Let_def same_def)
qed (auto dest: extract_all_ok throws_extract_all)

lemma getclosure_gd:
  assumes "state_ok st" "term_ok (hl st) t" "\<And>s e n. parsestring H s = Throw e \<Longrightarrow> terms_ok n e"
  shows "gd 0 st cok (getclosure H t st)"
proof (cases t)
  case (Str s)
  have "gd 0 st cok (obind (on_throw st (parsestring H s)) (\<lambda>np.
     if np = TNull then Ok (None, st) else obind (extractbindings np st) (\<lambda>(c, st). Ok (Some c, st))))"
    by (rule gd_bindv [OF gdv_on_throw [where P = "\<lambda>_ _. True"]])
       (auto simp: assms(1) intro: assms(3) intro!: gd_bind [OF extractbindings_gd] dest: sameD(1))
  then show ?thesis by (simp add: getclosure_def Str assms(1))
qed (use assms in \<open>simp add: getclosure_def\<close>)

section \<open>Handlers\<close>

definition host_ok :: "host \<Rightarrow> bool" where
  "host_ok H \<longleftrightarrow> (\<forall>s e n. parsestring H s = Throw e \<longrightarrow> terms_ok n e) \<and>
     (\<forall>file args envp child st. state_ok st \<longrightarrow> gd 0 st (\<lambda>_ _. True) (spawn H file args envp child st)) \<and>
     (\<forall>s p. sysprim H s = Some p \<longrightarrow> caller_ok p)"

lemma host_okD:
  "host_ok H \<Longrightarrow> state_ok st \<Longrightarrow> gd 0 st (\<lambda>_ _. True) (spawn H file args envp child st)"
  "host_ok H \<Longrightarrow> sysprim H s = Some p \<Longrightarrow> caller_ok p"
  by (auto simp: host_ok_def)

lemma getclosure_host_gd:
  "host_ok H \<Longrightarrow> state_ok st \<Longrightarrow> term_ok (hl st) t \<Longrightarrow> gd 0 st cok (getclosure H t st)"
  by (rule getclosure_gd) (auto simp: host_ok_def)

lemma unwind_gd:
  assumes "caller_ok ev" "state_ok st1" "pushlist st1 = xs @ pushlist st" "hl st \<le> hl st1"
  shows "good st (\<lambda>st2. state_ok st2 \<and> pushlist st2 = pushlist st \<and> hl st1 \<le> hl st2) (unwind ev (length xs) st1)"
  using assms(2-)
proof (induction xs arbitrary: st1)
  case (Cons x xs)
  have a: "good st (popped st1) (varpop (vev ev) (length (pushlist st1)) st1)"
  proof -
    have "good st1 (popped st1) (varpop (vev ev) (length (pushlist st1)) st1)"
      using varpop_gd [OF Cons.prems(1) assms(1)] .
    then show ?thesis using Cons.prems
      by (cases "(st1, popped st1, varpop (vev ev) (length (pushlist st1)) st1)" rule: good.cases)
         (auto simp: exn_ok_def suffix_def)
  qed
  have "good st (\<lambda>st2. state_ok st2 \<and> pushlist st2 = pushlist st \<and> hl st1 \<le> hl st2)
      (obind (varpop (vev ev) (length (pushlist st1)) st1) (unwind ev (length xs)))"
  proof (rule good_bind [OF a])
    fix st2 assume p: "popped st1 st2"
    have "good st (\<lambda>st3. state_ok st3 \<and> pushlist st3 = pushlist st \<and> hl st2 \<le> hl st3) (unwind ev (length xs) st2)"
      by (rule Cons.IH) (use p Cons.prems in \<open>auto simp: popped_def\<close>)
    then show "good st (\<lambda>st3. state_ok st3 \<and> pushlist st3 = pushlist st \<and> hl st1 \<le> hl st3) (unwind ev (length xs) st2)"
      by (rule good_mono) (use p in \<open>auto simp: popped_def\<close>)
  qed
  then show ?case by simp
qed simp

lemma handle_gd':
  assumes "caller_ok ev" "gd 0 st P run"
    "\<And>e s st1. run = Throw (Exn e, s) \<Longrightarrow> hl s \<le> hl st1 \<Longrightarrow> same st st1 \<Longrightarrow> terms_ok (hl st1) e \<Longrightarrow>
       gd 0 st1 P (catch e st1)"
  shows "gd 0 st P (handle ev st run catch)"
proof (cases "\<exists>e st1. run = Throw (Exn e, st1)")
  case True
  then obtain e st1 where r: "run = Throw (Exn e, st1)" by blast
  have x: "exn_ok st e st1" using assms(2) by (simp add: r)
  then obtain xs where xs: "pushlist st1 = xs @ pushlist st" by (auto simp: exn_ok_def suffix_def)
  have "good st (\<lambda>(y, st'). same (lower 0 st) st' \<and> P y (hl st'))
      (obind (unwind ev (length xs) st1) (\<lambda>st2. catch e (st2\<lparr>evaldepth := evaldepth st\<rparr>)))"
  proof (rule good_bind [OF unwind_gd [OF assms(1) _ xs]])
    fix st2 assume s: "state_ok st2 \<and> pushlist st2 = pushlist st \<and> hl st1 \<le> hl st2"
    let ?st = "st2\<lparr>evaldepth := evaldepth st\<rparr>"
    have "state_ok ?st = state_ok st2" by (rule state_ok_cong) simp_all
    then have same: "same st ?st" using s x by (auto simp: same_def exn_ok_def)
    have "terms_ok (hl ?st) e" using s x by (auto simp: exn_ok_def intro: terms_ok_mono)
    then have c: "gd 0 ?st P (catch e ?st)" using s by (intro assms(3) [OF r _ same]) auto
    show "good st (\<lambda>(y, st'). same (lower 0 st) st' \<and> P y (hl st')) (catch e ?st)"
      by (rule good_later [OF c [unfolded gd_def] same]) (use same_trans [OF same, of 0] in auto)
  qed (use x in \<open>auto simp: exn_ok_def\<close>)
  then show ?thesis by (simp add: handle_def r xs gd_def)
next
  case False
  then have "handle ev st run catch = run"
    by (auto simp: handle_def split: outcome_of.split stop.split)
  then show ?thesis using assms(2) by simp
qed

lemma handle_gd:
  assumes "caller_ok ev" "gd 0 st P run"
    "\<And>e st1. same st st1 \<Longrightarrow> terms_ok (hl st1) e \<Longrightarrow> gd 0 st1 P (catch e st1)"
  shows "gd 0 st P (handle ev st run catch)"
  using assms by (rule handle_gd')

section \<open>Glomming\<close>

lemma concat_list_ok: "terms_ok n (concat_list g l r)"
proof (induction g l r rule: concat_list.induct)
  case (2 g t l r)
  have "term_ok n (catterm g t u)" for u by (simp add: catterm_def termcat_def)
  then show ?case using 2 by (auto simp: terms_ok_def list_all_iff)
qed simp

abbreviation qok :: "(es_term \<times> quote) list \<Rightarrow> nat \<Rightarrow> bool" where
  "qok l n \<equiv> terms_ok n (map fst l)"

lemma qconcat_ok: "terms_ok n (map fst (qconcat g l r))"
  by (simp add: qconcat_terms concat_list_ok)

lemma sub_take_set:
  "set (snd (snd (sub_take list len lo hi x))) \<subseteq> set list \<union> set (fst x) \<union> set (snd (snd x)) \<and>
   set (fst (sub_take list len lo hi x)) \<subseteq> set list \<union> set (fst x)"
  by (cases x) (auto simp: sub_take_def Let_def split: if_splits dest!: in_set_takeD in_set_dropD)

lemma subscript_loop_set:
  "subscript_loop n g list len subs x = Ok r \<Longrightarrow> set r \<subseteq> set list \<union> set (fst x) \<union> set (snd (snd x))"
proof (induction n g list len subs x rule: subscript_loop.induct)
  case (3 n g list len t subs x)
  then obtain lo hi subs' where r: "subscript_loop n g list len subs' (sub_take list len lo hi x) = Ok r"
      and y: "sub_number g t = Ok lo"
        "(if subs \<noteq> [] \<and> g (hd subs) = ''...'' then sub_upper g len (tl subs) else Ok (lo, subs)) = Ok (hi, subs')"
    by (auto simp: obind_Ok)
  show ?case using "3.IH" [OF r] sub_take_set [of list len lo hi x] by blast
qed auto

lemma subscript_set: "subscript g list subs = Ok r \<Longrightarrow> set r \<subseteq> set list"
proof -
  assume r: "subscript g list subs = Ok r"
  obtain subs' x where x: "subscript_loop (length subs') g list (list_length list) subs' x = Ok r"
      "set (fst x) \<subseteq> set list" "set (snd (snd x)) \<subseteq> set list"
  proof (cases "subs \<noteq> [] \<and> g (hd subs) = ''...''")
    case True
    then obtain hi subs' where "subscript_loop (length subs') g list (list_length list) subs'
        (sub_take list (list_length list) 1 hi (list, 1, [])) = Ok r"
      using r by (auto simp: subscript_def Let_def obind_Ok)
    then show ?thesis using sub_take_set [of list "list_length list" 1 hi "(list, 1, [])"] by (intro that) auto
  next
    case False
    then have "subscript_loop (length subs) g list (list_length list) subs (list, 1, []) = Ok r"
      using r unfolding subscript_def Let_def by (simp only: if_False)
    then show ?thesis by (rule that) auto
  qed
  show ?thesis using subscript_loop_set [OF x(1)] x(2,3) by blast
qed

lemma throws_subscript_loop: "subscript_loop n g list len subs x = Throw e \<Longrightarrow> terms_ok k e"
proof (induction n g list len subs x rule: subscript_loop.induct)
qed (auto simp: obind_Throw sub_number_def sub_upper_def fail_exn_def Let_def split: if_splits list.splits)

lemma throws_subscript: "subscript g list subs = Throw e \<Longrightarrow> terms_ok k e"
  by (auto simp: subscript_def Let_def obind_Throw sub_number_def sub_upper_def fail_exn_def
      dest: throws_subscript_loop split: if_splits list.splits)

lemma glom_vars_gd:
  assumes "state_ok st" "ref_ok (hl st) b"
  shows "gd 0 st tsok (glom_vars H xs b st)"
  using assms
proof (induction H xs b st rule: glom_vars.induct)
  case (2 H t xs b st)
  show ?case unfolding glom_vars.simps
  proof (rule gd_bind [OF lookup_gd [OF "2.prems"]], unfold case_prod_conv)
    fix v st1 assume v: "same st st1" "terms_ok (hl st1) v"
    show "gd 0 st1 tsok (obind (glom_vars H xs b st1) (\<lambda>(r, st). Ok (listcopy v @ r, st)))"
      by (rule gd_bind [OF "2.IH"]) (use v "2.prems" in \<open>auto intro: sameD dest: sameD(1)\<close>)
  qed
qed simp

lemma same_right: "same st st1 \<Longrightarrow> same st1 st1"
  by (simp add: same_def)

lemma glom1_gd:
  assumes "walker_ok wk" "state_ok st" "ref_ok (hl st) b"
  shows "gd 0 st tsok (glom1 H wk t b st)"
  using assms(2,3)
proof (induction t arbitrary: st)
  case (nVarsub t u)
  show ?case unfolding glom1.simps
  proof (rule gd_bind [OF nVarsub.IH(1) [OF nVarsub.prems]], unfold case_prod_conv)
    fix xs st1 assume s: "same st st1" "terms_ok (hl st1) xs"
    have b: "ref_ok (hl st1) b" using s nVarsub.prems by (auto intro: sameD)
    have "gd 0 st1 tsok (obind (lookup (gs H st1 (hd xs)) b st1) (\<lambda>(v, st).
          obind (glom1 H wk u b st) (\<lambda>(sub, st).
          obind (on_throw st (subscript (gs H st) v sub)) (\<lambda>r. Ok (r, st)))))"
    proof (rule gd_bind [OF lookup_gd [OF sameD(1) [OF s(1)] b]], unfold case_prod_conv)
      fix v st2 assume v: "same st1 st2" "terms_ok (hl st2) v"
      show "gd 0 st2 tsok (obind (glom1 H wk u b st2) (\<lambda>(sub, st).
          obind (on_throw st (subscript (gs H st) v sub)) (\<lambda>r. Ok (r, st))))"
      proof (rule gd_bind [OF nVarsub.IH(2)], unfold case_prod_conv)
        fix sub st3 assume w: "same st2 st3"
        show "gd 0 st3 tsok (obind (on_throw st3 (subscript (gs H st3) v sub)) (\<lambda>r. Ok (r, st3)))"
          by (rule gd_bindv [OF gdv_on_throw [where P = tsok]])
             (use w v(2) in \<open>auto intro: throws_subscript terms_ok_sub [OF sameD(2) [OF w v(2)]] dest: sameD(1) subscript_set\<close>)
      qed (use v b in \<open>auto intro: sameD\<close>)
    qed
    then show "gd 0 st1 tsok (if xs = [] then efail st1 ''desh:glom'' ''null variable name in subscript''
       else if tl xs \<noteq> [] then efail st1 ''desh:glom'' ''multi-word variable name in subscript''
       else obind (lookup (gs H st1 (hd xs)) b st1) (\<lambda>(v, st).
          obind (glom1 H wk u b st) (\<lambda>(sub, st).
          obind (on_throw st (subscript (gs H st) v sub)) (\<lambda>r. Ok (r, st)))))"
      using sameD(1) [OF s(1)] by simp
  qed
next
  case (nVar t)
  show ?case unfolding glom1.simps
    by (rule gd_bind [OF nVar.IH [OF nVar.prems]]) (use nVar.prems in \<open>auto intro!: glom_vars_gd intro: sameD\<close>)
next
  case (nCall t)
  show ?case unfolding glom1.simps
    by (rule gd_bind [OF walkerD [OF assms(1) nCall.prems]]) (auto dest: sameD(1))
next
  case (nList t u)
  show ?case unfolding glom1.simps
  proof (rule gd_bind [OF nList.IH(1) [OF nList.prems]], unfold case_prod_conv)
    fix l st1 assume l: "same st st1" "terms_ok (hl st1) l"
    show "gd 0 st1 tsok (obind (glom1 H wk u b st1) (\<lambda>(r, st). Ok (l @ r, st)))"
      by (rule gd_bind [OF nList.IH(2)]) (use l nList.prems in \<open>auto intro: sameD dest: sameD(1)\<close>)
  qed
next
  case (nConcat t u)
  show ?case unfolding glom1.simps
  proof (rule gd_bind [OF nConcat.IH(1) [OF nConcat.prems]], unfold case_prod_conv)
    fix l st1 assume l: "same st st1" "terms_ok (hl st1) l"
    show "gd 0 st1 tsok (obind (glom1 H wk u b st1) (\<lambda>(r, st). Ok (concat_list (gs H st) l r, st)))"
      by (rule gd_bind [OF nConcat.IH(2)]) (use l nConcat.prems in \<open>auto intro: sameD dest: sameD(1) simp: concat_list_ok\<close>)
  qed
qed simp_all

lemma glom2_gd:
  assumes "walker_ok wk" "state_ok st" "ref_ok (hl st) b"
  shows "gd 0 st qok (glom2 H wk t b st)"
  using assms(2,3)
proof (induction t arbitrary: st)
  case (nList t u)
  show ?case unfolding glom2.simps
  proof (rule gd_bind [OF nList.IH(1) [OF nList.prems]], unfold case_prod_conv)
    fix l st1 assume l: "same st st1" "qok l (hl st1)"
    show "gd 0 st1 qok (obind (glom2 H wk u b st1) (\<lambda>(r, st). Ok (l @ r, st)))"
      by (rule gd_bind [OF nList.IH(2)]) (use l nList.prems in \<open>auto intro: sameD dest: sameD(1)\<close>)
  qed
next
  case (nConcat t u)
  show ?case unfolding glom2.simps
  proof (rule gd_bind [OF nConcat.IH(1) [OF nConcat.prems]], unfold case_prod_conv)
    fix l st1 assume l: "same st st1" "qok l (hl st1)"
    show "gd 0 st1 qok (obind (glom2 H wk u b st1) (\<lambda>(r, st). Ok (qconcat (gs H st) l r, st)))"
      by (rule gd_bind [OF nConcat.IH(2)]) (use l nConcat.prems in \<open>auto intro: sameD dest: sameD(1) simp: qconcat_ok\<close>)
  qed
qed (auto intro!: gd_bind [OF glom1_gd [OF assms(1)]] simp del: glom1.simps dest: sameD(1) simp: comp_def)

lemma expandhome_gd:
  assumes "caller_ok ev" "state_ok st"
  shows "gd 0 st (\<lambda>_ _. True) (expandhome H ev s q st)"
  unfolding expandhome_def
proof (rule gd_bind [OF lookup_gd [OF assms(2)]], simp, unfold case_prod_conv)
  fix fn st1 assume f: "same st st1" "terms_ok (hl st1) fn"
  show "gd 0 st1 (\<lambda>_ _. True) (if fn = [] then Ok ((s, q), st1)
     else let n = tilde_user s; user = if n > 1 then [Str (take (n - 1) (tl s))] else [] in
       obind (ev (append_list fn user) None noflags st1) (\<lambda>(list, st).
       case list of
         [] \<Rightarrow> Ok ((s, q), st)
       | [t] \<Rightarrow> Ok (tilde_join s q (gs H st t), st)
       | _ \<Rightarrow> efail st ''es:expandhome'' ''%home returned more than one value''))"
    using f sameD(1) [OF f(1)]
    by (auto simp: Let_def intro!: gd_bind [OF callerD [OF assms(1)]] dest: sameD(1) split: list.split)
qed

lemma glob_prepass_gd:
  assumes "caller_ok ev" "state_ok st" "qok list (hl st)"
  shows "gd 0 st (\<lambda>x n. qok (fst x) n) (glob_prepass H ev list st)"
  using assms(2,3)
proof (induction list arbitrary: st)
  case (Cons x list)
  obtain t q where x: "x = (t, q)" by (cases x)
  have rest: "gd 0 st1 (\<lambda>x n. qok (fst x) n) (obind (glob_prepass H ev list st1)
      (\<lambda>((r, wild), st). Ok ((u # r, f wild), st)))" if "same st st1" "term_ok (hl st1) (fst u)" for st1 u f
    by (rule gd_bind [OF Cons.IH]) (use that Cons.prems in \<open>auto intro: sameD same_right\<close>)
  show ?case
  proof (cases "q = QUOTED")
    case True
    then show ?thesis using rest [of st "(t, q)" "\<lambda>w. w"] Cons.prems by (simp add: x)
  next
    case False
    have "gd 0 st (\<lambda>x n. qok (fst x) n) (obind (if hastilde s q then expandhome H ev s q st else Ok ((s, q), st)) (\<lambda>((s, q), st).
            obind (glob_prepass H ev list st) (\<lambda>((r, wild), st). Ok (((Str s, q) # r, haswild s q \<or> wild), st))))" for s
    proof (rule gd_bind [where P = "\<lambda>_ _. True"])
      show "gd 0 st (\<lambda>_ _. True) (if hastilde s q then expandhome H ev s q st else Ok ((s, q), st))"
        using expandhome_gd [OF assms(1) Cons.prems(1)] Cons.prems(1) by simp
    qed (auto intro!: rest split: prod.split)
    then show ?thesis using False by (simp add: x split: es_term.split)
  qed
qed simp

lemma glob0_ok: "qok list n \<Longrightarrow> terms_ok n (glob0 mem fs g list)"
proof (induction mem fs g list rule: glob0.induct)
  case (2 mem fs g t q list)
  have "terms_ok n (sortlist g (map Str xs))" for xs
    by (auto simp: sortlist_def listify_eq)
  then show ?case using 2 by (auto simp: Let_def)
qed simp

lemma glob_gd:
  assumes "caller_ok ev" "state_ok st" "qok list (hl st)"
  shows "gd 0 st tsok (glob H ev list st)"
  unfolding glob_def
  by (rule gd_bind [OF glob_prepass_gd [OF assms]]) (auto intro: glob0_ok same_right)

lemma glom_gd:
  assumes "walker_ok wk" "caller_ok ev" "state_ok st" "ref_ok (hl st) b"
  shows "gd 0 st tsok (glom H wk ev t b globit st)"
  unfolding glom_def
  by (auto intro!: glom1_gd gd_bind [OF glom2_gd] glob_gd assms dest: sameD(1))

section \<open>Assignments, bindings, loops\<close>

lemma rethrow_gd: "same st st1 \<Longrightarrow> terms_ok (hl st1) e \<Longrightarrow> gd k st1 P (rethrow e st1)"
  by (simp add: sameD(1))

lemma caught_gd: "same st st1 \<Longrightarrow> terms_ok (hl st1) e \<Longrightarrow> gd 0 st1 tsok (if c then Ok (tl e, st1) else rethrow e st1)"
  by (cases e) (auto intro: same_right rethrow_gd)

lemma define_all_gd:
  assumes "caller_ok ev" "state_ok st" "defs_ok (hl st) defs" "ref_ok (hl st) b"
  shows "gdu st (define_all H ev defs b st)"
  using assms
proof (induction H ev defs b st rule: define_all.induct)
  case (2 H ev t v rest b st)
  show ?case unfolding define_all.simps
    by (rule gdu_bindu [OF vardef_gd])
       (use "2.prems" in \<open>auto intro!: "2.IH" intro: sameD defs_ok_same\<close>)
qed simp

lemma assign_gd:
  assumes "walker_ok wk" "caller_ok ev" "state_ok st" "ref_ok (hl st) b"
  shows "gd 0 st tsok (assign H wk ev varform valueform b st)"
  unfolding assign_def
proof (rule gd_bind [OF glom_gd [OF assms]], unfold case_prod_conv)
  fix xs st1 assume s: "same st st1"
  have b: "ref_ok (hl st1) b" "state_ok st1" using s assms by (auto intro: sameD)
  have "gd 0 st1 tsok (obind (glom H wk ev valueform b True st1) (\<lambda>(v, st).
      obind (define_all H ev (spread xs v) b st) (\<lambda>st. Ok (v, st))))"
  proof (rule gd_bind [OF glom_gd [OF assms(1,2) b(2,1)]], unfold case_prod_conv)
    fix v st2 assume v: "same st1 st2" "terms_ok (hl st2) v"
    show "gd 0 st2 tsok (obind (define_all H ev (spread xs v) b st2) (\<lambda>st. Ok (v, st)))"
      by (rule gd_bindu [OF define_all_gd]) (use v b assms(2) in \<open>auto intro: sameD same_right spread_ok\<close>)
  qed
  then show "gd 0 st1 tsok (if xs = [] then efail st1 ''es:assign'' ''null variable name''
     else obind (glom H wk ev valueform b True st1) (\<lambda>(v, st).
          obind (define_all H ev (spread xs v) b st) (\<lambda>st. Ok (v, st))))"
    using b by simp
qed

lemma validate_all_gd:
  assumes "state_ok st"
  shows "gdu st (validate_all names st)"
proof -
  have "gdu st (fold (\<lambda>name r. obind r (\<lambda>st. obind (on_throw st (validatevar name)) (\<lambda>_. Ok st))) names r)"
    if "gdu st r" for r
    using that
  proof (induction names arbitrary: r)
    case (Cons name names)
    have "gdu st (obind r (\<lambda>st. obind (on_throw st (validatevar name)) (\<lambda>_. Ok st)))"
      by (rule gdu_bindu [OF Cons.prems]) (auto intro!: gdu_bindv [OF validatevar_gd] intro: sameD same_right)
    then show ?case using Cons.IH by simp
  qed simp
  then show ?thesis using assms by (simp add: validate_all_def)
qed

abbreviation dok :: "(string \<times> terms) list \<Rightarrow> nat \<Rightarrow> bool" where
  "dok defs n \<equiv> defs_ok n defs"

lemma defs_ok_map: "defs_ok n defs \<Longrightarrow> defs_ok n (map (\<lambda>(t, v). (f t, v)) defs)"
  by (auto simp: defs_ok_def list_all_iff)

lemma let_values_gd:
  assumes "walker_ok wk" "caller_ok ev" "state_ok st" "ref_ok (hl st) ctx"
  shows "gd 0 st dok (let_values H wk ev defn ctx st)"
  using assms
proof (induction H wk ev defn ctx st rule: let_values.induct)
  case (3 H wk ev a v rest ctx st)
  note c = "3.prems"(1,2)
  show ?case unfolding let_values.simps
  proof (rule gd_bind [OF glom_gd [OF "3.prems"]], unfold case_prod_conv)
    fix xs st1 assume s: "same st st1"
    have b: "state_ok st1" "ref_ok (hl st1) ctx" using s "3.prems" by (auto intro: sameD)
    show "gd 0 st1 dok (obind (glom H wk ev v ctx True st1) (\<lambda>(vs, st).
     if xs = [] then efail st ''es:let'' ''null variable name''
     else let defs = map (\<lambda>(t, value). (gs H st t, value)) (spread xs vs) in
       obind (validate_all (map fst defs) st) (\<lambda>st.
       obind (let_values H wk ev rest ctx st) (\<lambda>(others, st). Ok (defs @ others, st)))))"
    proof (rule gd_bind [OF glom_gd [OF c b]], unfold case_prod_conv)
      fix vs st2 assume v: "same st1 st2" "terms_ok (hl st2) vs"
      let ?defs = "map (\<lambda>(t, value). (gs H st2 t, value)) (spread xs vs)"
      have d: "defs_ok (hl st2) ?defs" by (intro defs_ok_map spread_ok v(2))
      have "gd 0 st2 dok (obind (validate_all (map fst ?defs) st2) (\<lambda>st.
          obind (let_values H wk ev rest ctx st) (\<lambda>(others, st). Ok (?defs @ others, st))))" if ne: "xs \<noteq> []"
      proof (rule gd_bindu [OF validate_all_gd [OF sameD(1) [OF v(1)]]])
        fix st3 assume w: "same st2 st3"
        have e: "state_ok st3" "ref_ok (hl st3) ctx" "defs_ok (hl st3) ?defs"
          using w v b d by (auto intro: sameD defs_ok_same)
        show "gd 0 st3 dok (obind (let_values H wk ev rest ctx st3) (\<lambda>(others, st). Ok (?defs @ others, st)))"
          by (rule gd_bind [OF "3.IH" [OF ne refl c e(1,2)]]) (use e(3) in \<open>auto intro: same_right defs_ok_same\<close>)
      qed
      then show "gd 0 st2 dok (if xs = [] then efail st2 ''es:let'' ''null variable name''
        else let defs = ?defs in
          obind (validate_all (map fst defs) st2) (\<lambda>st.
          obind (let_values H wk ev rest ctx st) (\<lambda>(others, st). Ok (defs @ others, st))))"
        using sameD(1) [OF v(1)] by (simp add: Let_def)
    qed
  qed
qed simp_all

lemma letbindings_gd:
  assumes "walker_ok wk" "caller_ok ev" "state_ok st" "ref_ok (hl st) ctx" "ref_ok (hl st) outer"
  shows "gd 0 st (\<lambda>b n. ref_ok n b) (letbindings H wk ev defn outer ctx st)"
  unfolding letbindings_def
  by (rule gd_bind [OF let_values_gd [OF assms(1-4)]]) (use assms(5) in \<open>auto intro!: bind_all_gd intro: sameD\<close>)

lemma localbind_gd:
  assumes "walker_ok wk" "caller_ok ev" "state_ok st" "ref_ok (hl st) b" "defs_ok (hl st) defs"
  shows "gd 0 st tsok (localbind wk ev defs b body evalflags st)"
  using assms(3-)
proof (induction defs arbitrary: st)
  case Nil
  then show ?case using walkerD [OF assms(1)] by simp
next
  case (Cons d defs)
  obtain name defn where d: "d = (name, defn)" by (cases d)
  have "gd 0 st tsok (obind (varpush (vev ev) name defn st) (\<lambda>st1.
      obind (localbind wk ev defs b body evalflags st1) (\<lambda>(x, st2).
      obind (varpop (vev ev) (length (pushlist st1)) st2) (\<lambda>st3. Ok (x, st3)))))"
  proof (rule bracket [OF varpush_gd])
    fix st1 assume p: "pushed st st1"
    show "gd 0 st1 tsok (localbind wk ev defs b body evalflags st1)"
      by (rule Cons.IH) (use p Cons.prems in \<open>auto simp: pushed_def d intro: ref_ok_mono defs_ok_mono\<close>)
  qed (use Cons.prems assms(2) in \<open>auto simp: d intro!: varpop_gd intro: sameD\<close>)
  then show ?case by (simp add: d Let_def)
qed

lemma local_gd:
  assumes "walker_ok wk" "caller_ok ev" "state_ok st" "ref_ok (hl st) b"
  shows "gd 0 st tsok (local H wk ev defn body b evalflags st)"
  unfolding local_def
  by (rule gd_bind [OF let_values_gd [OF assms]]) (use assms in \<open>auto intro!: localbind_gd intro: sameD\<close>)

abbreviation gok :: "group list \<Rightarrow> nat \<Rightarrow> bool" where
  "gok g n \<equiv> list_all (\<lambda>x. terms_ok n (snd x)) g"

lemma gok_same: "same st st' \<Longrightarrow> gok g (hl st) \<Longrightarrow> gok g (hl st')"
  by (auto simp: list_all_iff intro: sameD)

lemma for_groups_gd:
  assumes "walker_ok wk" "caller_ok ev" "state_ok st" "ref_ok (hl st) outer"
  shows "gd 0 st gok (for_groups H wk ev defn outer st)"
  using assms
proof (induction H wk ev defn outer st rule: for_groups.induct)
  case (3 H wk ev a v rest outer st)
  note c = "3.prems"(1,2)
  show ?case unfolding for_groups.simps
  proof (rule gd_bind [OF glom_gd [OF "3.prems"]], unfold case_prod_conv)
    fix xs st1 assume s: "same st st1"
    have b: "state_ok st1" "ref_ok (hl st1) outer" using s "3.prems" by (auto intro: sameD)
    show "gd 0 st1 gok (obind (glom H wk ev v outer True st1) (\<lambda>(list, st).
     if xs = [] then efail st ''es:for'' ''null variable name''
     else obind (validate_all (map (gs H st) xs) st) (\<lambda>st.
       obind (for_groups H wk ev rest outer st) (\<lambda>(others, st'). Ok ((map (gs H st) xs, list) # others, st')))))"
    proof (rule gd_bind [OF glom_gd [OF c b]], unfold case_prod_conv)
      fix vs st2 assume v: "same st1 st2" "terms_ok (hl st2) vs"
      have "gd 0 st2 gok (obind (validate_all (map (gs H st2) xs) st2) (\<lambda>st.
          obind (for_groups H wk ev rest outer st) (\<lambda>(others, st'). Ok ((map (gs H st) xs, vs) # others, st'))))" if ne: "xs \<noteq> []"
      proof (rule gd_bindu [OF validate_all_gd [OF sameD(1) [OF v(1)]]])
        fix st3 assume w: "same st2 st3"
        have e: "state_ok st3" "ref_ok (hl st3) outer" "terms_ok (hl st3) vs"
          using w v b by (auto intro: sameD)
        show "gd 0 st3 gok (obind (for_groups H wk ev rest outer st3) (\<lambda>(others, st'). Ok ((map (gs H st3) xs, vs) # others, st')))"
          by (rule gd_bind [OF "3.IH" [OF ne c e(1,2)]]) (use e(3) in \<open>auto intro: same_right sameD\<close>)
      qed
      then show "gd 0 st2 gok (if xs = [] then efail st2 ''es:for'' ''null variable name''
        else obind (validate_all (map (gs H st2) xs) st2) (\<lambda>st.
          obind (for_groups H wk ev rest outer st) (\<lambda>(others, st'). Ok ((map (gs H st) xs, vs) # others, st'))))"
        using sameD(1) [OF v(1)] by simp
    qed
  qed
qed simp_all

lemma take_values_ok: "terms_ok n items \<Longrightarrow> defs_ok n (fst (take_values names items))"
  by (induction names items rule: take_values.induct) (auto split: prod.splits)

lemma for_round_ok: "gok g n \<Longrightarrow> defs_ok n (fst (for_round g)) \<and> gok (snd (for_round g)) n"
proof (induction g)
  case (Cons x g)
  have "terms_ok n (drop k (snd x))" for k
    using Cons.prems terms_ok_sub [of n "snd x" "drop k (snd x)"] by (auto dest: in_set_dropD)
  then show ?case using Cons by (auto simp: for_round_def take_values_items take_values_ok case_prod_beta)
qed (simp add: for_round_def)

lemma for_rounds_ok: "gok g n \<Longrightarrow> list_all (defs_ok n) (for_rounds g)"
proof (induction g rule: for_rounds.induct)
  case (1 g)
  then show ?case using for_round_ok [OF "1.prems"]
    by (subst for_rounds.simps) (simp add: Let_def)
qed

lemma for_loop_gd:
  assumes "walker_ok wk" "state_ok st" "ref_ok (hl st) outer" "list_all (defs_ok (hl st)) rounds" "terms_ok (hl st) result"
  shows "gd 0 st tsok (for_loop wk body outer evalflags rounds result st)"
  using assms(2-)
proof (induction rounds arbitrary: result st)
  case (Cons defs rounds)
  show ?case unfolding for_loop.simps
  proof (rule gd_bind [OF bind_all_gd], unfold case_prod_conv)
    fix bp st1 assume s: "same st st1" "ref_ok (hl st1) bp"
    show "gd 0 st1 tsok (obind (wk body bp (evalflags\<lparr>inchild := False\<rparr>) st1)
        (\<lambda>(result, st). for_loop wk body outer evalflags rounds result st))"
    proof (rule gd_bind [OF walkerD [OF assms(1) sameD(1) [OF s(1)] s(2)]], unfold case_prod_conv)
      fix r st2 assume r: "same st1 st2" "terms_ok (hl st2) r"
      have "same st st2" using same_trans [OF s(1), of 0 st2] r(1) by simp
      then show "gd 0 st2 tsok (for_loop wk body outer evalflags rounds r st2)"
        using Cons.prems r by (intro Cons.IH) (auto simp: list_all_iff intro: sameD defs_ok_same)
    qed
  qed (use Cons.prems in auto)
qed simp

lemma forloop_gd:
  assumes "walker_ok wk" "caller_ok ev" "state_ok st" "ref_ok (hl st) outer"
  shows "gd 0 st tsok (forloop H wk ev defn body outer evalflags st)"
  unfolding forloop_def
proof (rule gd_bind [OF for_groups_gd [OF assms]], unfold case_prod_conv)
  fix g st1 assume s: "same st st1" "gok g (hl st1)"
  show "gd 0 st1 tsok (handle ev st1 (for_loop wk body outer evalflags (for_rounds g) ltrue st1)
       (\<lambda>e st. if catches e ''break'' then Ok (tl e, st) else rethrow e st))"
  proof (rule handle_gd [OF assms(2)])
    show "gd 0 st1 tsok (for_loop wk body outer evalflags (for_rounds g) ltrue st1)"
      by (rule for_loop_gd) (use assms s in \<open>auto simp: ltrue_def intro: sameD for_rounds_ok\<close>)
  qed (rule caught_gd)
qed

lemma matchpattern_gd:
  assumes "walker_ok wk" "caller_ok ev" "state_ok st" "ref_ok (hl st) b"
  shows "gd 0 st tsok (matchpattern H wk ev s p b st)"
  unfolding matchpattern_def
  by (rule gd_bind [OF glom_gd [OF assms]])
     (use assms in \<open>auto simp: ltrue_def lfalse_def intro!: gd_bind [OF glom2_gd] intro: sameD same_right\<close>)

lemma extractpattern_gd:
  assumes "walker_ok wk" "caller_ok ev" "state_ok st" "ref_ok (hl st) b"
  shows "gd 0 st tsok (extractpattern H wk ev s p b st)"
  unfolding extractpattern_def
  by (rule gd_bind [OF glom_gd [OF assms]])
     (use assms in \<open>auto intro!: gd_bind [OF glom2_gd] intro: sameD same_right split: option.split\<close>)

lemma walk_body_gd:
  assumes "walker_ok wk" "caller_ok ev" "state_ok st" "ref_ok (hl st) b"
  shows "gd 0 st tsok (walk_body H wk ev t b evalflags st)"
proof -
  have words: "gd 0 st tsok (obind (glom H wk ev t b True st) (\<lambda>(list, st). ev list b evalflags st))"
    if "state_ok st" "ref_ok (hl st) b" for t b st
    by (rule gd_bind [OF glom_gd [OF assms(1,2) that]]) (use that in \<open>auto intro!: callerD assms(2) intro: sameD\<close>)
  show ?thesis using assms(3,4)
  proof (induction t arbitrary: b st)
    case (nLet d body)
    show ?case unfolding walk_body.simps
      by (rule gd_bind [OF letbindings_gd [OF assms(1,2) nLet.prems nLet.prems(2)]])
         (auto intro!: nLet.IH intro: sameD)
  next
    case (nClosure d body)
    show ?case unfolding walk_body.simps
      by (rule gd_bind [OF letbindings_gd [OF assms(1,2) nClosure.prems nClosure.prems(2)]])
         (auto intro!: nClosure.IH intro: sameD)
  qed (auto simp: ltrue_def intro!: words assign_gd local_gd forloop_gd matchpattern_gd extractpattern_gd assms(1,2))
qed

section \<open>Commands and primitives\<close>

lemma pathsearch_gd:
  assumes "host_ok H" "caller_ok ev" "state_ok st" "term_ok (hl st) t"
  shows "gd 0 st tsok (pathsearch H ev t st)"
  unfolding pathsearch_def
proof (rule gd_bind [OF lookup_gd [OF assms(3)]], simp, unfold case_prod_conv)
  fix fn st1 assume f: "same st st1" "terms_ok (hl st1) fn"
  have t: "term_ok (hl st1) t" "state_ok st1" using f assms by (auto intro: sameD)
  show "gd 0 st1 tsok (if fn = [] then
       obind (getclosure H t st1) (\<lambda>(c, st).
       efail st ''es:pathsearch''
         (gs H st (case c of None \<Rightarrow> t | Some c \<Rightarrow> Clos c) @ '': fn %pathsearch undefined''))
     else ev (append_list fn [t]) None noflags st1)"
    using f t by (auto intro!: gd_bind [OF getclosure_host_gd [OF assms(1)]] callerD [OF assms(2)] dest: sameD(1))
qed

lemma forkexec_gd:
  assumes "host_ok H" "state_ok st"
  shows "gd 0 st tsok (forkexec H file list child st)"
  unfolding forkexec_def
  by (rule gd_bind [OF mkenv_gd [OF assms(2)]])
     (auto intro!: gd_bind [OF host_okD(1) [OF assms(1)]] intro: same_right sameD)

lemma gd_later:
  assumes "gd k st1 P r" "same st st1"
  shows "gd k st P r"
  using assms(1) unfolding gd_def
  by (rule good_later [OF _ assms(2)]) (use same_trans [OF assms(2)] in auto)

lemma prim_seq_gd:
  assumes "caller_ok ev" "state_ok st" "terms_ok (hl st) list" "terms_ok (hl st) result"
  shows "gd 0 st tsok (prim_seq ev evalflags result list st)"
  using assms(2-)
proof (induction list arbitrary: result st)
  case (Cons t lp)
  show ?case unfolding prim_seq.simps
    by (rule gd_bind [OF callerD [OF assms(1)]]) (use Cons.prems in \<open>auto intro!: Cons.IH intro: sameD\<close>)
qed simp

lemma prim_if_gd:
  assumes "caller_ok ev" "state_ok st" "terms_ok (hl st) list"
  shows "gd 0 st tsok (prim_if ev evalflags list st)"
  using assms
proof (induction ev evalflags list st rule: prim_if.induct)
  case (3 ev evalflags t u lp st)
  show ?case unfolding prim_if.simps
  proof (rule gd_bind [OF callerD [OF "3.prems"(1)]], simp_all add: "3.prems" del: prim_if.simps)
    show "term_ok (hl st) t" using "3.prems" by simp
    fix c st1 assume s: "same st st1"
    have k: "state_ok st1" "terms_ok (hl st1) (t # u # lp)" using s "3.prems" by (auto intro: sameD)
    show "(istrue c \<longrightarrow> gd 0 st1 tsok (ev [u] None evalflags st1)) \<and>
        (\<not> istrue c \<longrightarrow> gd 0 st1 tsok (prim_if ev evalflags lp st1))"
      using k "3.prems"(1) "3.IH" by (auto intro!: callerD)
  qed
qed (auto intro!: callerD simp: ltrue_def)

lemma prim_forever_gd:
  assumes "caller_ok ev" "state_ok st" "terms_ok (hl st) list"
  shows "gd 0 st tsok (prim_forever n ev evalflags list st)"
  using assms(2-)
proof (induction n arbitrary: st)
  case (Suc n)
  show ?case unfolding prim_forever.simps
    by (rule gd_bind [OF callerD [OF assms(1)]]) (use Suc.prems in \<open>auto intro!: Suc.IH intro: sameD\<close>)
qed simp

lemma catch_loop_gd:
  assumes "caller_ok ev" "state_ok st" "term_ok (hl st) catcher" "terms_ok (hl st) body"
  shows "gd 0 st tsok (catch_loop n ev evalflags catcher body st)"
  using assms(2-)
proof (induction n arbitrary: st)
  case (Suc n)
  show ?case unfolding catch_loop.simps
  proof (rule handle_gd [OF assms(1)])
    show "gd 0 st tsok (ev body None evalflags st)" using Suc.prems by (intro callerD assms(1)) auto
    fix e st1 assume e: "same st st1" "terms_ok (hl st1) e"
    have k: "state_ok st1" "term_ok (hl st1) catcher" "terms_ok (hl st1) body"
      using e Suc.prems by (auto intro: sameD)
    show "gd 0 st1 tsok (handle ev st1 (ev (Str ''$&noreturn'' # catcher # e) None evalflags st1) (\<lambda>fromcatcher st.
     if catches fromcatcher ''retry'' then catch_loop n ev evalflags catcher body st
     else rethrow fromcatcher st))"
    proof (rule handle_gd [OF assms(1)])
      show "gd 0 st1 tsok (ev (Str ''$&noreturn'' # catcher # e) None evalflags st1)"
        using k e by (intro callerD assms(1)) auto
      fix f st2 assume f: "same st1 st2" "terms_ok (hl st2) f"
      show "gd 0 st2 tsok (if catches f ''retry'' then catch_loop n ev evalflags catcher body st2 else rethrow f st2)"
        using f k Suc.IH by (auto intro: sameD rethrow_gd)
    qed
  qed
qed simp

lemma prim_noreturn_gd:
  assumes "host_ok H" "walker_ok wk" "state_ok st" "terms_ok (hl st) list"
  shows "gd 0 st tsok (prim_noreturn H wk evalflags list st)"
proof (cases list)
  case (Cons t args)
  show ?thesis unfolding prim_noreturn_def Cons list.case
  proof (rule gd_bind [OF getclosure_host_gd [OF assms(1,3)]], use assms(4) Cons in simp, unfold case_prod_conv)
    fix c st1 assume c: "same st st1" "cok c (hl st1)"
    have k: "state_ok st1" "terms_ok (hl st1) args" using c assms(4) Cons by (auto intro: sameD)
    show "gd 0 st1 tsok (case c of
            Some (Closure b (nLambda params body)) \<Rightarrow>
              obind (bindargs params args b st1) (\<lambda>(context, st). wk body context evalflags st)
          | _ \<Rightarrow> efail st1 ''$&noreturn''
              (''$&noreturn: '' @ gs H st1 (case c of None \<Rightarrow> t | Some c \<Rightarrow> Clos c) @ '' is not a lambda''))"
      using c(2) k
      by (auto intro!: gd_bind [OF bindargs_gd] walkerD [OF assms(2)] dest: sameD(1)
          split: option.split closure.split tree.split)
  qed
qed (simp add: prim_noreturn_def assms(3))

lemma state_ok_splitst [simp]: "state_ok (st\<lparr>splitst := s\<rparr>) = state_ok st"
  by (rule state_ok_cong) simp_all

lemma state_ok_maxdepth [simp]: "state_ok (st\<lparr>maxevaldepth := n\<rparr>) = state_ok st"
  by (rule state_ok_cong) simp_all

lemma fsplit_terms: "fsplit g sep list c sp = Ok (r, sp') \<Longrightarrow> terms_ok n r"
  by (auto simp: fsplit_def case_prod_beta split: outcome_of.splits)

lemma fsplit_throws: "fsplit g sep list c sp \<noteq> Throw e"
proof -
  have "splitstring s b sp \<noteq> Throw e" for s b sp
    by (auto simp: splitstring_def Let_def split: prod.splits)
  then have "fsplit_loop g list sp \<noteq> Throw e" for sp
    by (induction g list sp rule: fsplit_loop.induct) (auto split: outcome_of.splits)
  then show ?thesis by (auto simp: fsplit_def case_prod_beta split: outcome_of.splits)
qed

lemma prim_fsplit_gd:
  assumes "state_ok st"
  shows "gd 0 st tsok (prim_fsplit H c list st)"
  using assms fsplit_throws
  by (auto simp: prim_fsplit_def same_def intro!: gd_bindv [OF gdv_on_throw [where P = "\<lambda>x n. terms_ok n (fst x)"]]
      dest: fsplit_terms split: list.split)

lemma prim_var_gd:
  assumes "state_ok st"
  shows "gd 0 st tsok (prim_var H list st)"
  using assms
proof (induction H list st rule: prim_var.induct)
  case (2 H t rest st)
  show ?case unfolding prim_var.simps
    by (rule gd_bind [OF lookup_gd [OF "2.prems"]])
       (auto intro!: gd_bind [OF "2.IH"] intro: sameD same_right)
qed simp

lemma prim_whatis_gd:
  assumes "host_ok H" "caller_ok ev" "state_ok st" "terms_ok (hl st) list" "ref_ok (hl st) b"
  shows "gd 0 st tsok (prim_whatis H ev list b st)"
proof (cases "\<exists>t. list = [t]")
  case True
  then obtain t where l: "list = [t]" by blast
  show ?thesis unfolding prim_whatis_def l list.case
  proof (rule gd_bind [OF getclosure_host_gd [OF assms(1,3)]], use assms(4) l in simp, unfold case_prod_conv)
    fix c st1 assume c: "same st st1"
    have k: "state_ok st1" "term_ok (hl st1) t" "ref_ok (hl st1) b" using c assms l by (auto intro: sameD)
    show "gd 0 st1 tsok (if c \<noteq> None then Ok ([t], st1)
          else let prog = gs H st1 t in
            obind (varlookup2 st1 ''fn-'' prog b) (\<lambda>fn.
            if fn \<noteq> [] then Ok (fn, st1)
            else if isabsolute prog then
              (case checkexecutable H prog of
                 Some err \<Rightarrow> efail st1 ''$&whatis'' (prog @ '': '' @ err)
               | None \<Rightarrow> Ok ([t], st1))
            else pathsearch H ev t st1))"
      using k
      by (auto simp: Let_def intro!: gd_bindv [OF varlookup2_gd] pathsearch_gd assms(1,2) split: option.split)
  qed
next
  case False
  then show ?thesis using assms(3) by (auto simp: prim_whatis_def split: list.split)
qed

lemma batch_round_gd:
  assumes "host_ok H" "caller_ok ev" "state_ok st"
  shows "gd 0 st (\<lambda>x n. terms_ok n (case x of None \<Rightarrow> [] | Some r \<Rightarrow> r)) (batch_round H ev evalflags st)"
  (is "gd 0 st ?P _")
  unfolding batch_round_def
proof (rule gd_bind [OF lookup_gd [OF assms(3)]], simp, unfold case_prod_conv)
  fix p st1 assume p: "same st st1" "terms_ok (hl st1) p"
  let ?m = "if p = [] then
                 (case sysprim H ''parse'' of
                    None \<Rightarrow> efail st1 ''es:prim'' ''unknown primitive: parse''
                  | Some p \<Rightarrow> p [] None noflags st1)
               else ev p None noflags st1"
  have m: "gd 0 st1 tsok ?m"
    using p sameD(1) [OF p(1)] host_okD(2) [OF assms(1)]
    by (auto intro!: callerD [OF assms(2)] callerD split: option.split)
  show "gd 0 st1 ?P (obind ?m (\<lambda>(cmd, st).
        obind (lookup ''fn-%dispatch'' None st) (\<lambda>(dispatch, st).
        if cmd = [] then Ok (None, st)
        else obind (ev (if dispatch = [] then cmd else append_list dispatch cmd) None evalflags st)
               (\<lambda>(r, st). Ok (Some r, st)))))"
  proof (rule gd_bind [OF m], unfold case_prod_conv)
    fix cmd st2 assume c: "same st1 st2" "terms_ok (hl st2) cmd"
    show "gd 0 st2 ?P (obind (lookup ''fn-%dispatch'' None st2) (\<lambda>(dispatch, st).
        if cmd = [] then Ok (None, st)
        else obind (ev (if dispatch = [] then cmd else append_list dispatch cmd) None evalflags st)
               (\<lambda>(r, st). Ok (Some r, st))))"
    proof (rule gd_bind [OF lookup_gd [OF sameD(1) [OF c(1)]]], simp, unfold case_prod_conv)
      fix d st3 assume d: "same st2 st3" "terms_ok (hl st3) d"
      have "gd 0 st3 ?P (obind (ev (if d = [] then cmd else append_list d cmd) None evalflags st3) (\<lambda>(r, st). Ok (Some r, st)))"
        by (rule gd_bind [OF callerD [OF assms(2)]]) (use c d in \<open>auto intro: sameD same_right\<close>)
      then show "gd 0 st3 ?P (if cmd = [] then Ok (None, st3)
          else obind (ev (if d = [] then cmd else append_list d cmd) None evalflags st3) (\<lambda>(r, st). Ok (Some r, st)))"
        using d by (auto intro: same_right)
    qed
  qed
qed

lemma batch_loop_gd:
  assumes "host_ok H" "caller_ok ev" "same st0 st" "terms_ok (hl st) result"
  shows "gd 0 st0 tsok (batch_loop n H ev evalflags st0 result st)"
  using assms(3,4)
proof (induction n arbitrary: result st)
  case (Suc n)
  note run = batch_round_gd [OF assms(1,2) sameD(1) [OF Suc.prems(1)], of evalflags]
  show ?case
  proof (cases "batch_round H ev evalflags st")
    case (Ok x)
    obtain y st1 where x: "x = (y, st1)" by (cases x)
    have s: "same st st1" "terms_ok (hl st1) (case y of None \<Rightarrow> result | Some r \<Rightarrow> r)"
      using run Suc.prems by (auto simp: Ok x intro: sameD split: option.splits)
    then show ?thesis using Suc.IH same_trans [OF Suc.prems(1), of 0 st1] by (simp add: Ok x)
  next
    case (Throw x)
    obtain s st1 where x: "x = (s, st1)" by (cases x)
    have "gd 0 st0 tsok (Throw x)" using gd_later [OF run Suc.prems(1)] unfolding Throw x
      by (cases s) simp_all
    then have "gd 0 st0 tsok (handle ev st0 (Throw x) (\<lambda>e st. if catches e ''eof'' then Ok (result, st) else rethrow e st))"
    proof (rule handle_gd' [OF assms(2)])
      fix e s st2 assume e: "Throw x = Throw (Exn e, s)" "hl s \<le> hl st2" "same st0 st2" "terms_ok (hl st2) e"
      have "hl st \<le> hl s" using run e(1) by (simp add: Throw exn_ok_def)
      then have "terms_ok (hl st2) result" using Suc.prems(2) e(2) by (auto intro: terms_ok_mono)
      then show "gd 0 st2 tsok (if catches e ''eof'' then Ok (result, st2) else rethrow e st2)"
        using e by (auto intro: same_right rethrow_gd)
    qed
    then show ?thesis by (simp add: Throw)
  qed simp_all
qed simp

lemma listvars_ok: "terms_ok n (listvars g c st)"
proof -
  have f: "terms_ok n (fold (\<lambda>(k, v) l. if P k v then Str k # l else l) xs l)" if "terms_ok n l"
    for P :: "string \<Rightarrow> var \<Rightarrow> bool" and xs l
    using that by (induction xs arbitrary: l) auto
  have s: "terms_ok n (sortlist g l)" if "terms_ok n l" for l
    using that by (auto simp: sortlist_def)
  show ?thesis unfolding listvars_def dictforall_def by (intro s f) simp
qed

lemma prim_setmaxevaldepth_gd:
  "state_ok st \<Longrightarrow> terms_ok (hl st) list \<Longrightarrow> gd 0 st tsok (prim_setmaxevaldepth H list st)"
  by (auto simp: prim_setmaxevaldepth_def same_def Let_def case_prod_beta split: list.split)

lemma prim_home_gd: "state_ok st \<Longrightarrow> gd 0 st tsok (prim_home H list st)"
  by (auto simp: prim_home_def intro!: lookup_gd split: list.split option.split)

lemma prim_gd:
  assumes "host_ok H" "walker_ok wk" "caller_ok ev"
  shows "caller_ok (prim H n wk ev s)"
proof -
  have "gd 0 st tsok (prim H n wk ev s list b evalflags st)"
    if "state_ok st" "terms_ok (hl st) list" "ref_ok (hl st) b" for list b evalflags st
  proof -
    note ok = that and ev = callerD [OF assms(3) ok(1,2), of None]
    have seq: "gd 0 st tsok (prim_seq ev evalflags ltrue list st)"
      using prim_seq_gd [OF assms(3) ok(1,2), of ltrue] by (simp add: ltrue_def)
    have catch: "gd 0 st tsok (prim_catch n ev evalflags list st)"
      using ok by (auto simp: prim_catch_def intro!: catch_loop_gd [OF assms(3)] split: list.split)
    have throw: "gd 0 st tsok (prim_throw list st)" using ok by (simp add: prim_throw_def)
    have noexp: "gd 0 st tsok (obind (setnoexport (gs H st) list st) (\<lambda>st. Ok (list, st)))"
      by (rule gd_bindu [OF setnoexport_gd [OF ok(1)]]) (use ok in \<open>auto intro: same_right sameD\<close>)
    have flat: "gd 0 st tsok (prim_flatten H list st)"
      using ok(1) by (auto simp: prim_flatten_def split: list.split)
    have sys: "gd 0 st tsok (case sysprim H s of Some p \<Rightarrow> p list b evalflags st
        | None \<Rightarrow> efail st ''es:prim'' (''unknown primitive: '' @ s))"
      using ok host_okD(2) [OF assms(1)] by (auto intro: callerD split: option.split)
    have batch: "gd 0 st tsok (prim_batchloop n H ev evalflags st)"
      unfolding prim_batchloop_def
      by (rule batch_loop_gd [OF assms(1,3)]) (use ok in \<open>simp_all add: ltrue_def\<close>)
    show ?thesis unfolding prim_def
      using seq catch throw noexp flat sys batch ev ok prim_if_gd [OF assms(3) ok(1,2)]
        prim_forever_gd [OF assms(3) ok(1,2)] prim_noreturn_gd [OF assms(1,2) ok(1,2)] prim_fsplit_gd [OF ok(1)]
        prim_whatis_gd [OF assms(1,3) ok] prim_var_gd [OF ok(1)] prim_home_gd [OF ok(1)]
        prim_setmaxevaldepth_gd [OF ok(1,2)]
      by (simp add: ltrue_def listvars_ok del: list_length_eq)
  qed
  then show ?thesis by (simp add: caller_ok_def)
qed

section \<open>Evaluation\<close>

lemma finish_gd:
  assumes "gd 0 st tsok r"
  shows "gd (Suc 0) st tsok (finish evalflags r)"
  unfolding finish_def
proof (rule gd_bind [OF assms], unfold case_prod_conv)
  fix x st1 assume s: "same st st1" "terms_ok (hl st1) x"
  have "state_ok (st1\<lparr>evaldepth := evaldepth st1 - 1\<rparr>)"
    using sameD(1) [OF s(1)] state_ok_lower [of 1 st1] unfolding lower_def by blast
  then show "gd (Suc 0) st1 tsok (let st = st1\<lparr>evaldepth := evaldepth st1 - 1\<rparr>
      in if exitonfalse evalflags \<and> \<not> istrue x then Throw (Exit (exitstatus x), st) else Ok (x, st))"
    using s(2) by (simp add: Let_def same_def)
qed

lemma apply_lambda_gd:
  assumes "walker_ok wk" "caller_ok ev" "state_ok st" "terms_ok (hl st) args" "ref_ok (hl st) b"
  shows "gd 0 st tsok (apply_lambda wk ev funcname params body b args evalflags st)"
  unfolding apply_lambda_def
proof (rule handle_gd [OF assms(2)])
  show "gd 0 st tsok (obind (bindargs params args b st) (\<lambda>(context, st).
        case funcname of
          None \<Rightarrow> wk body context evalflags st
        | Some name \<Rightarrow>
            obind (varpush (vev ev) ''0'' [Str name] st) (\<lambda>st.
            let n = length (pushlist st) in
            obind (wk body context evalflags st) (\<lambda>(list, st).
            obind (varpop (vev ev) n st) (\<lambda>st. Ok (list, st))))))"
  proof (rule gd_bind [OF bindargs_gd [OF assms(3-5)]], unfold case_prod_conv)
    fix c st1 assume c: "same st st1" "ref_ok (hl st1) c"
    have k: "state_ok st1" using c by (auto intro: sameD)
    have "gd 0 st1 tsok (obind (varpush (vev ev) ''0'' [Str name] st1) (\<lambda>st2.
        obind (wk body c evalflags st2) (\<lambda>(x, st3).
        obind (varpop (vev ev) (length (pushlist st2)) st3) (\<lambda>st. Ok (x, st)))))" for name
    proof (rule bracket [OF varpush_gd [OF k _ assms(2)]])
      fix st2 assume p: "pushed st1 st2"
      show "gd 0 st2 tsok (wk body c evalflags st2)"
        by (rule walkerD [OF assms(1)]) (use p c in \<open>auto simp: pushed_def intro: ref_ok_mono\<close>)
    qed (auto intro!: varpop_gd assms(2) intro: sameD)
    then show "gd 0 st1 tsok (case funcname of
          None \<Rightarrow> wk body c evalflags st1
        | Some name \<Rightarrow>
            obind (varpush (vev ev) ''0'' [Str name] st1) (\<lambda>st.
            let n = length (pushlist st) in
            obind (wk body c evalflags st) (\<lambda>(list, st).
            obind (varpop (vev ev) n st) (\<lambda>st. Ok (list, st)))))"
      using walkerD [OF assms(1) k c(2)] by (auto simp: Let_def split: option.split)
  qed
qed (rule caught_gd)

definition restarter_ok :: "restarter \<Rightarrow> bool" where
  "restarter_ok rs \<longleftrightarrow> (\<forall>name list b evalflags st. state_ok st \<longrightarrow> terms_ok (hl st) list \<longrightarrow> ref_ok (hl st) b \<longrightarrow>
     gd (Suc 0) st tsok (rs name list b evalflags st))"

lemma restarterD: "restarter_ok rs \<Longrightarrow> state_ok st \<Longrightarrow> terms_ok (hl st) list \<Longrightarrow> ref_ok (hl st) b \<Longrightarrow>
    gd (Suc 0) st tsok (rs name list b evalflags st)"
  by (simp add: restarter_ok_def)

lemma eval_name_gd:
  assumes "host_ok H" "caller_ok ev" "restarter_ok rs" "state_ok st" "term_ok (hl st) t" "terms_ok (hl st) args"
    "ref_ok (hl st) b"
  shows "gd (Suc 0) st tsok (eval_name H ev rs funcname t args b evalflags st)"
  unfolding eval_name_def Let_def
proof (rule gd_bindv [OF varlookup2_gd [OF assms(4,7)]])
  fix fn assume fn: "terms_ok (hl st) fn"
  have "gd (Suc 0) st tsok (obind (pathsearch H ev t st) (\<lambda>(fn, st).
        case fn of
          [f] \<Rightarrow>
            obind (getclosure H f st) (\<lambda>(c, st).
            if c = None then finish evalflags (forkexec H (gs H st f) (t # args) (inchild evalflags) st)
            else rs funcname (append_list fn args) b evalflags st)
        | _ \<Rightarrow> rs funcname (append_list fn args) b evalflags st))"
  proof (rule gd_bind [OF pathsearch_gd [OF assms(1,2,4,5)]], unfold case_prod_conv)
    fix fn st1 assume s: "same st st1" "terms_ok (hl st1) fn"
    have k: "state_ok st1" "terms_ok (hl st1) args" "ref_ok (hl st1) b" using s assms by (auto intro: sameD)
    have rs: "gd (Suc 0) st1 tsok (rs funcname (append_list fn args) b evalflags st1)"
      using k s by (intro restarterD [OF assms(3)]) auto
    have one: "gd (Suc 0) st1 tsok (obind (getclosure H f st1) (\<lambda>(c, st).
            if c = None then finish evalflags (forkexec H (gs H st f) (t # args) (inchild evalflags) st)
            else rs funcname (append_list fn args) b evalflags st))" if "fn = [f]" for f
    proof (rule gd_bind [OF getclosure_host_gd [OF assms(1) k(1)]], use s(2) that in simp, unfold case_prod_conv)
      fix c st2 assume c: "same st1 st2"
      show "gd (Suc 0) st2 tsok (if c = None then finish evalflags (forkexec H (gs H st2 f) (t # args) (inchild evalflags) st2)
            else rs funcname (append_list fn args) b evalflags st2)"
        using c k s by (auto intro!: finish_gd forkexec_gd assms(1) restarterD [OF assms(3)] intro: sameD)
    qed
    show "gd (Suc 0) st1 tsok (case fn of
          [f] \<Rightarrow>
            obind (getclosure H f st1) (\<lambda>(c, st).
            if c = None then finish evalflags (forkexec H (gs H st f) (t # args) (inchild evalflags) st)
            else rs funcname (append_list fn args) b evalflags st)
        | _ \<Rightarrow> rs funcname (append_list fn args) b evalflags st1)"
    proof (cases "\<exists>f. fn = [f]")
      case True
      then show ?thesis using one by auto
    next
      case False
      then show ?thesis using rs by (auto split: list.split)
    qed
  qed
  then show "gd (Suc 0) st tsok (if fn \<noteq> [] then rs (Some (gs H st t)) (append_list fn args) b evalflags st
      else if isabsolute (gs H st t) then
        (case checkexecutable H (gs H st t) of
           Some err \<Rightarrow> efail st ''$&whatis'' (gs H st t @ '': '' @ err)
         | None \<Rightarrow> finish evalflags (forkexec H (gs H st t) (t # args) (inchild evalflags) st))
      else
        obind (pathsearch H ev t st) (\<lambda>(fn, st).
        case fn of
          [f] \<Rightarrow>
            obind (getclosure H f st) (\<lambda>(c, st).
            if c = None then finish evalflags (forkexec H (gs H st f) (t # args) (inchild evalflags) st)
            else rs funcname (append_list fn args) b evalflags st)
        | _ \<Rightarrow> rs funcname (append_list fn args) b evalflags st))"
    using fn assms by (auto intro!: finish_gd forkexec_gd restarterD split: option.split)
qed

lemma restart_body_gd:
  assumes "host_ok H" "walker_ok wk" "caller_ok ev" "restarter_ok rs"
  shows "restarter_ok (restart_body H n wk ev rs)"
proof -
  have "gd (Suc 0) st tsok (restart_body H n wk ev rs name list b evalflags st)"
    if ok: "state_ok st" "terms_ok (hl st) list" "ref_ok (hl st) b" for name list b evalflags st
  proof (cases list)
    case Nil
    have "same (lower (Suc 0) st) (st\<lparr>evaldepth := evaldepth st - Suc 0\<rparr>)"
      using ok(1) same_refl [of "lower (Suc 0) st"] state_ok_lower [of "Suc 0" st] unfolding lower_def by blast
    then show ?thesis by (simp add: restart_body_def Nil ltrue_def)
  next
    case (Cons t args)
    show ?thesis unfolding restart_body_def Cons list.case
    proof (rule gd_bind [OF getclosure_host_gd [OF assms(1) ok(1)]], use ok(2) Cons in simp, unfold case_prod_conv)
      fix cp st1 assume c: "same st st1" "cok cp (hl st1)"
      have k: "state_ok st1" "term_ok (hl st1) t" "terms_ok (hl st1) args" "ref_ok (hl st1) b"
        using c ok Cons by (auto intro: sameD)
      have list: "gd (Suc 0) st1 tsok (obind (glom H wk ev (nList x y) cb True st1) (\<lambda>(list, st).
                   if list = [] then Undef else rs name (append_list list (tl list)) b evalflags st))"
        if "ref_ok (hl st1) cb" for cb x y
      proof (rule gd_bind [OF glom_gd [OF assms(2,3) k(1) that]], unfold case_prod_conv)
        fix l st2 assume l: "same st1 st2" "terms_ok (hl st2) l"
        then show "gd (Suc 0) st2 tsok (if l = [] then Undef else rs name (append_list l (tl l)) b evalflags st2)"
          using k by (cases l) (auto intro!: restarterD [OF assms(4)] intro: sameD)
      qed
      show "gd (Suc 0) st1 tsok (case cp of
            None \<Rightarrow> eval_name H ev rs name t args b evalflags st1
          | Some (Closure cb code) \<Rightarrow>
              (case code of
                 nPrim s \<Rightarrow> if cb \<noteq> None then Abort else finish evalflags (prim H n wk ev s args b evalflags st1)
               | nThunk body \<Rightarrow> finish evalflags (wk body cb evalflags st1)
               | nLambda params body \<Rightarrow>
                   finish evalflags (apply_lambda wk ev name params body cb args evalflags st1)
               | nList x y \<Rightarrow>
                   obind (glom H wk ev (nList x y) cb True st1) (\<lambda>(list, st).
                   if list = [] then Undef else rs name (append_list list (tl list)) b evalflags st)
               | TNull \<Rightarrow> Undef
               | _ \<Rightarrow> Abort))"
        using c(2) k list callerD [OF prim_gd [OF assms(1-3)] k(1,3,4)]
        by (auto intro!: finish_gd eval_name_gd apply_lambda_gd walkerD [OF assms(2)] assms
            split: option.split closure.split tree.split)
    qed
  qed
  then show ?thesis by (simp add: restarter_ok_def)
qed

lemma eval_body_gd:
  assumes "restarter_ok rs"
  shows "caller_ok (eval_body H rs)"
proof -
  have "gd 0 st tsok (eval_body H rs list b evalflags st)"
    if ok: "state_ok st" "terms_ok (hl st) list" "ref_ok (hl st) b" for list b evalflags st
  proof -
    let ?st = "st\<lparr>evaldepth := evaldepth st + 1\<rparr>"
    have s: "state_ok ?st" using ok(1) by (subst state_ok_cong [of ?st st]) simp_all
    have "gd (Suc 0) ?st tsok (eval_body H rs list b evalflags st)"
      using s ok restarterD [OF assms s] by (simp add: eval_body_def Let_def)
    then show ?thesis
      unfolding gd_def
      by (cases "(?st, \<lambda>(x, st'). same (lower (Suc 0) ?st) st' \<and> terms_ok (hl st') x, eval_body H rs list b evalflags st)"
          rule: good.cases) (auto simp: same_def exn_ok_def)
  qed
  then show ?thesis by (simp add: caller_ok_def)
qed

lemma evaluation_gd:
  assumes "host_ok H"
  shows "walker_ok (ewalk H n) \<and> caller_ok (eeval H n) \<and> restarter_ok (erestart H n)"
proof (induction n)
  case 0
  then show ?case by (simp add: walker_ok_def caller_ok_def restarter_ok_def)
next
  case (Suc n)
  have "walker_ok (ewalk H (Suc n))" unfolding knot_eqs using Suc walk_body_gd by (simp add: walker_ok_def)
  moreover have "caller_ok (eeval H (Suc n))" unfolding knot_eqs using Suc eval_body_gd by simp
  moreover have "restarter_ok (erestart H (Suc n))" unfolding knot_eqs using Suc restart_body_gd [OF assms] by simp
  ultimately show ?case by blast
qed

end
