(* ===== verification/Fuel.thy ===== *)
theory Fuel
  imports Eval
begin

text \<open>
  More fuel changes no result: a run that ends with some fuel ends in the same way with more. Runs are
  compared by an order in which one that is out of fuel is below every other.
\<close>

definition less_run :: "(stop \<times> estate, 'a) outcome_of \<Rightarrow> (stop \<times> estate, 'a) outcome_of \<Rightarrow> bool" where
  "less_run r r' \<longleftrightarrow> (case r of Throw (OutOfFuel, st) \<Rightarrow> True | _ \<Rightarrow> r' = r)"

definition less_walker :: "walker \<Rightarrow> walker \<Rightarrow> bool" where
  "less_walker wk wk' \<longleftrightarrow> (\<forall>t b evalflags st. less_run (wk t b evalflags st) (wk' t b evalflags st))"

definition less_caller :: "caller \<Rightarrow> caller \<Rightarrow> bool" where
  "less_caller ev ev' \<longleftrightarrow> (\<forall>list b evalflags st. less_run (ev list b evalflags st) (ev' list b evalflags st))"

definition less_restarter :: "restarter \<Rightarrow> restarter \<Rightarrow> bool" where
  "less_restarter rs rs' \<longleftrightarrow> (\<forall>name. less_caller (rs name) (rs' name))"

lemma less_run_refl [simp]: "less_run r r"
  by (auto simp: less_run_def split: outcome_of.split stop.split)

lemma less_run_oof [simp]: "less_run (Throw (OutOfFuel, st)) r"
  by (simp add: less_run_def)

lemma less_runE:
  assumes "less_run r r'"
  obtains "r' = r" | st where "r = Throw (OutOfFuel, st)"
  using assms by (auto simp: less_run_def split: outcome_of.splits prod.splits stop.splits)

named_theorems less_rules \<open>more fuel for the parts is more fuel for the whole\<close>

lemma less_bind [less_rules]:
  assumes "less_run m m'" "\<And>x. less_run (f x) (f' x)"
  shows "less_run (obind m f) (obind m' f')"
  using assms(1)
proof (rule less_runE)
  assume "m' = m"
  then show ?thesis using assms(2) by (cases m) simp_all
qed simp

lemma less_if [less_rules]:
  "(c \<Longrightarrow> less_run r r') \<Longrightarrow> (\<not> c \<Longrightarrow> less_run s s') \<Longrightarrow> less_run (if c then r else s) (if c then r' else s')"
  by simp

lemma less_prod [less_rules]:
  "(\<And>x y. less_run (f x y) (f' x y)) \<Longrightarrow> less_run (case p of (x, y) \<Rightarrow> f x y) (case p of (x, y) \<Rightarrow> f' x y)"
  by (cases p) simp

lemma less_prod2 [less_rules]:
  "(\<And>x y. less_run (f x y z) (f' x y z)) \<Longrightarrow>
     less_run ((case p of (x, y) \<Rightarrow> f x y) z) ((case p of (x, y) \<Rightarrow> f' x y) z)"
  by (cases p) simp

lemma less_option [less_rules]:
  "less_run r r' \<Longrightarrow> (\<And>x. less_run (f x) (f' x)) \<Longrightarrow>
     less_run (case c of None \<Rightarrow> r | Some x \<Rightarrow> f x) (case c of None \<Rightarrow> r' | Some x \<Rightarrow> f' x)"
  by (cases c) simp_all

lemma less_list [less_rules]:
  "less_run r r' \<Longrightarrow> (\<And>x xs. less_run (f x xs) (f' x xs)) \<Longrightarrow>
     less_run (case c of [] \<Rightarrow> r | x # xs \<Rightarrow> f x xs) (case c of [] \<Rightarrow> r' | x # xs \<Rightarrow> f' x xs)"
  by (cases c) simp_all

lemma less_term [less_rules]:
  "(\<And>s. less_run (f s) (f' s)) \<Longrightarrow> (\<And>c. less_run (g c) (g' c)) \<Longrightarrow>
     less_run (case t of Str s \<Rightarrow> f s | Clos c \<Rightarrow> g c) (case t of Str s \<Rightarrow> f' s | Clos c \<Rightarrow> g' c)"
  by (cases t) simp_all

lemma less_closure [less_rules]:
  "(\<And>b t. less_run (f b t) (f' b t)) \<Longrightarrow>
     less_run (case c of Closure b t \<Rightarrow> f b t) (case c of Closure b t \<Rightarrow> f' b t)"
  by (cases c) simp

lemma less_Let [less_rules]: "less_run (f x) (f' x) \<Longrightarrow> less_run (Let x f) (Let x f')"
  by simp

lemmas less_leaf = less_run_refl less_run_oof
declare less_leaf [less_rules]

lemma less_walkerD: "less_walker wk wk' \<Longrightarrow> less_run (wk t b evalflags st) (wk' t b evalflags st)"
  by (simp add: less_walker_def)

lemma less_callerD: "less_caller ev ev' \<Longrightarrow> less_run (ev list b evalflags st) (ev' list b evalflags st)"
  by (simp add: less_caller_def)

lemma less_restarterD:
  "less_restarter rs rs' \<Longrightarrow> less_run (rs name list b evalflags st) (rs' name list b evalflags st)"
  by (simp add: less_restarter_def less_caller_def)

lemma less_vev [less_rules]: "less_caller ev ev' \<Longrightarrow> less_run (vev ev list st) (vev ev' list st)"
  by (simp add: vev_def less_callerD)

section \<open>Variables\<close>

lemma less_callsettor [less_rules]:
  "less_caller ev ev' \<Longrightarrow> less_run (callsettor (vev ev) name defn st) (callsettor (vev ev') name defn st)"
  unfolding callsettor_def by (intro less_rules)

lemma less_vardef [less_rules]:
  "less_caller ev ev' \<Longrightarrow> less_run (vardef (vev ev) name b defn st) (vardef (vev ev') name b defn st)"
  unfolding vardef_def by (intro less_rules)

lemma less_varpush [less_rules]:
  "less_caller ev ev' \<Longrightarrow> less_run (varpush (vev ev) name defn st) (varpush (vev ev') name defn st)"
  unfolding varpush_def by (intro less_rules)

lemma less_varpop [less_rules]:
  "less_caller ev ev' \<Longrightarrow> less_run (varpop (vev ev) n st) (varpop (vev ev') n st)"
  unfolding varpop_def by (intro less_rules)

lemma less_unwind [less_rules]:
  "less_caller ev ev' \<Longrightarrow> less_run (unwind ev k st) (unwind ev' k st)"
  by (induction k arbitrary: st) (auto intro!: less_rules)

lemma less_handle [less_rules]:
  assumes "less_caller ev ev'" "less_run run run'" "\<And>e st. less_run (catch e st) (catch' e st)"
  shows "less_run (handle ev st run catch) (handle ev' st run' catch')"
  using assms(2)
proof (rule less_runE)
  assume r: "run' = run"
  show ?thesis
  proof (cases "\<exists>e st1. run = Throw (Exn e, st1)")
    case True
    then show ?thesis unfolding r handle_def by (auto intro!: less_bind less_unwind assms(1,3))
  next
    case False
    then show ?thesis unfolding r handle_def by (auto split: outcome_of.split stop.split)
  qed
qed (simp add: handle_def)

section \<open>Glomming\<close>

lemma less_glom1 [less_rules]:
  assumes "less_walker wk wk'"
  shows "less_run (glom1 H wk t b st) (glom1 H wk' t b st)"
proof (induction t arbitrary: st)
  case (nCall t)
  show ?case unfolding glom1.simps by (intro less_rules less_walkerD [OF assms])
next
  case (nVar t)
  show ?case unfolding glom1.simps by (intro less_rules nVar)
next
  case (nVarsub t u)
  show ?case unfolding glom1.simps by (intro less_rules nVarsub)
next
  case (nList t u)
  show ?case unfolding glom1.simps by (intro less_rules nList)
next
  case (nConcat t u)
  show ?case unfolding glom1.simps by (intro less_rules nConcat)
qed simp_all

lemma less_glom2 [less_rules]:
  assumes "less_walker wk wk'"
  shows "less_run (glom2 H wk t b st) (glom2 H wk' t b st)"
proof (induction t arbitrary: st)
  case (nList t u)
  show ?case unfolding glom2.simps by (intro less_rules nList)
next
  case (nConcat t u)
  show ?case unfolding glom2.simps by (intro less_rules nConcat)
qed (simp_all only: glom2.simps less_run_refl, (intro less_rules assms)+)

lemma less_expandhome [less_rules]:
  "less_caller ev ev' \<Longrightarrow> less_run (expandhome H ev s q st) (expandhome H ev' s q st)"
  unfolding expandhome_def by (intro less_rules less_callerD)

lemma less_glob_prepass [less_rules]:
  assumes "less_caller ev ev'"
  shows "less_run (glob_prepass H ev list st) (glob_prepass H ev' list st)"
proof (induction list arbitrary: st)
  case (Cons x list)
  show ?case by (cases x, simp only: glob_prepass.simps, intro less_rules assms Cons)
qed simp

lemma less_glob [less_rules]:
  "less_caller ev ev' \<Longrightarrow> less_run (glob H ev list st) (glob H ev' list st)"
  unfolding glob_def by (intro less_rules)

lemma less_glom [less_rules]:
  "less_walker wk wk' \<Longrightarrow> less_caller ev ev' \<Longrightarrow> less_run (glom H wk ev t b globit st) (glom H wk' ev' t b globit st)"
  unfolding glom_def by (intro less_rules)

section \<open>Evaluation\<close>

lemma less_define_all [less_rules]:
  assumes "less_caller ev ev'"
  shows "less_run (define_all H ev defs b st) (define_all H ev' defs b st)"
proof (induction defs arbitrary: st)
  case (Cons d defs)
  show ?case by (cases d, simp only: define_all.simps, intro less_rules assms Cons)
qed simp

lemma less_assign [less_rules]:
  "less_walker wk wk' \<Longrightarrow> less_caller ev ev' \<Longrightarrow> less_run (assign H wk ev a v b st) (assign H wk' ev' a v b st)"
  unfolding assign_def by (intro less_rules)

lemma less_let_values [less_rules]:
  assumes "less_walker wk wk'" "less_caller ev ev'"
  shows "less_run (let_values H wk ev t ctx st) (let_values H wk' ev' t ctx st)"
  using assms
proof (induction H wk ev t ctx st rule: let_values.induct)
  case (3 H wk ev a v rest ctx st)
  show ?case unfolding let_values.simps
    by (intro less_rules "3.prems" "3.IH") (assumption | rule refl)+
qed simp_all

lemma less_letbindings [less_rules]:
  "less_walker wk wk' \<Longrightarrow> less_caller ev ev' \<Longrightarrow>
     less_run (letbindings H wk ev t outer ctx st) (letbindings H wk' ev' t outer ctx st)"
  unfolding letbindings_def by (intro less_rules)

lemma less_localbind [less_rules]:
  assumes "less_walker wk wk'" "less_caller ev ev'"
  shows "less_run (localbind wk ev defs b body evalflags st) (localbind wk' ev' defs b body evalflags st)"
proof (induction defs arbitrary: st)
  case (Cons d defs)
  show ?case by (cases d, simp only: localbind.simps, intro less_rules assms Cons)
qed (simp add: less_walkerD [OF assms(1)])

lemma less_local [less_rules]:
  "less_walker wk wk' \<Longrightarrow> less_caller ev ev' \<Longrightarrow>
     less_run (local H wk ev t body b evalflags st) (local H wk' ev' t body b evalflags st)"
  unfolding local_def by (intro less_rules)

lemma less_for_groups [less_rules]:
  assumes "less_walker wk wk'" "less_caller ev ev'"
  shows "less_run (for_groups H wk ev t outer st) (for_groups H wk' ev' t outer st)"
  using assms
proof (induction H wk ev t outer st rule: for_groups.induct)
  case (3 H wk ev a v rest outer st)
  show ?case unfolding for_groups.simps by (intro less_rules "3.prems" "3.IH")
qed simp_all

lemma less_for_loop [less_rules]:
  assumes "less_walker wk wk'"
  shows "less_run (for_loop wk body outer evalflags rounds r st) (for_loop wk' body outer evalflags rounds r st)"
proof (induction rounds arbitrary: r st)
  case (Cons d rounds)
  show ?case unfolding for_loop.simps by (intro less_rules less_walkerD [OF assms] Cons)
qed simp

lemma less_forloop [less_rules]:
  "less_walker wk wk' \<Longrightarrow> less_caller ev ev' \<Longrightarrow>
     less_run (forloop H wk ev t body b evalflags st) (forloop H wk' ev' t body b evalflags st)"
  unfolding forloop_def by (intro less_rules)

lemma less_matchpattern [less_rules]:
  "less_walker wk wk' \<Longrightarrow> less_caller ev ev' \<Longrightarrow>
     less_run (matchpattern H wk ev s p b st) (matchpattern H wk' ev' s p b st)"
  unfolding matchpattern_def by (intro less_rules)

lemma less_extractpattern [less_rules]:
  "less_walker wk wk' \<Longrightarrow> less_caller ev ev' \<Longrightarrow>
     less_run (extractpattern H wk ev s p b st) (extractpattern H wk' ev' s p b st)"
  unfolding extractpattern_def by (intro less_rules)

lemma less_walk_body:
  assumes "less_walker wk wk'" "less_caller ev ev'"
  shows "less_walker (walk_body H wk ev) (walk_body H wk' ev')"
proof -
  have "less_run (walk_body H wk ev t b evalflags st) (walk_body H wk' ev' t b evalflags st)" for t b evalflags st
  proof (induction t arbitrary: b st)
    case (nLet d body)
    show ?case unfolding walk_body.simps by (intro less_rules assms nLet)
  next
    case (nClosure d body)
    show ?case unfolding walk_body.simps by (intro less_rules assms nClosure)
  qed (simp_all only: walk_body.simps, (intro less_rules assms less_callerD [OF assms(2)])+)
  then show ?thesis by (simp add: less_walker_def)
qed

lemma less_pathsearch [less_rules]:
  assumes "less_caller ev ev'"
  shows "less_run (pathsearch H ev t st) (pathsearch H ev' t st)"
  unfolding pathsearch_def by (intro less_rules less_callerD [OF assms])

lemma less_finish [less_rules]: "less_run r r' \<Longrightarrow> less_run (finish evalflags r) (finish evalflags r')"
  unfolding finish_def by (intro less_rules)

lemma less_prim_seq [less_rules]:
  assumes "less_caller ev ev'"
  shows "less_run (prim_seq ev evalflags r list st) (prim_seq ev' evalflags r list st)"
proof (induction list arbitrary: r st)
  case (Cons t list)
  show ?case unfolding prim_seq.simps by (intro less_rules less_callerD [OF assms] Cons)
qed simp

lemma less_prim_if [less_rules]:
  assumes "less_caller ev ev'"
  shows "less_run (prim_if ev evalflags list st) (prim_if ev' evalflags list st)"
  using assms
proof (induction ev evalflags list st rule: prim_if.induct)
  case (3 ev evalflags t u lp st)
  show ?case unfolding prim_if.simps by (intro less_rules less_callerD [OF "3.prems"] "3.prems" "3.IH")
qed (simp_all add: less_callerD)

lemma less_forever:
  assumes "less_caller ev ev'" "n \<le> n'"
  shows "less_run (prim_forever n ev evalflags body st) (prim_forever n' ev' evalflags body st)"
  using assms(2)
proof (induction n arbitrary: n' st)
  case (Suc n)
  then obtain k where k: "n' = Suc k" "n \<le> k" by (cases n') auto
  show ?case unfolding k(1) prim_forever.simps by (intro less_rules less_callerD [OF assms(1)] Suc.IH k(2))
qed simp

lemma less_catch_loop:
  assumes "less_caller ev ev'" "n \<le> n'"
  shows "less_run (catch_loop n ev evalflags c body st) (catch_loop n' ev' evalflags c body st)"
  using assms(2)
proof (induction n arbitrary: n' st)
  case (Suc n)
  then obtain k where k: "n' = Suc k" "n \<le> k" by (cases n') auto
  show ?case unfolding k(1) catch_loop.simps
    by (intro less_rules less_callerD [OF assms(1)] assms(1) Suc.IH k(2))
qed simp

lemma less_noreturn [less_rules]:
  assumes "less_walker wk wk'"
  shows "less_run (prim_noreturn H wk evalflags list st) (prim_noreturn H wk' evalflags list st)"
proof -
  have "less_run (case c of Some (Closure b (nLambda params body)) \<Rightarrow> f b params body | _ \<Rightarrow> r)
      (case c of Some (Closure b (nLambda params body)) \<Rightarrow> f' b params body | _ \<Rightarrow> r)"
    if "\<And>b params body. less_run (f b params body) (f' b params body)"
    for c r and f f' :: "ref \<Rightarrow> tree \<Rightarrow> tree \<Rightarrow> terms ev"
    using that by (auto split: option.split closure.split tree.split)
  note case_c = this
  show ?thesis unfolding prim_noreturn_def by (intro less_rules case_c less_walkerD [OF assms])
qed

lemma less_whatis [less_rules]:
  assumes "less_caller ev ev'"
  shows "less_run (prim_whatis H ev list b st) (prim_whatis H ev' list b st)"
  unfolding prim_whatis_def by (intro less_rules assms)

lemma less_batch_round [less_rules]:
  assumes "less_caller ev ev'"
  shows "less_run (batch_round H ev evalflags st) (batch_round H ev' evalflags st)"
  unfolding batch_round_def by (intro less_rules less_callerD [OF assms])

lemma less_batch_loop:
  assumes "less_caller ev ev'" "n \<le> n'"
  shows "less_run (batch_loop n H ev evalflags st0 r st) (batch_loop n' H ev' evalflags st0 r st)"
  using assms(2)
proof (induction n arbitrary: n' r st)
  case (Suc n)
  then obtain k where k: "n' = Suc k" "n \<le> k" by (cases n') auto
  have "less_run (batch_round H ev evalflags st) (batch_round H ev' evalflags st)"
    by (intro less_rules assms(1))
  then show ?case
  proof (rule less_runE)
    assume e: "batch_round H ev' evalflags st = batch_round H ev evalflags st"
    show ?thesis unfolding k(1) batch_loop.simps e
    proof (cases "batch_round H ev evalflags st")
      case (Ok x)
      then show "less_run (case batch_round H ev evalflags st of
            Ok (x, st) \<Rightarrow> batch_loop n H ev evalflags st0 (case x of None \<Rightarrow> r | Some r \<Rightarrow> r) st
          | Throw e \<Rightarrow> handle ev st0 (Throw e) (\<lambda>e st. if catches e ''eof'' then Ok (r, st) else rethrow e st)
          | Abort \<Rightarrow> Abort | Undef \<Rightarrow> Undef)
        (case batch_round H ev evalflags st of
            Ok (x, st) \<Rightarrow> batch_loop k H ev' evalflags st0 (case x of None \<Rightarrow> r | Some r \<Rightarrow> r) st
          | Throw e \<Rightarrow> handle ev' st0 (Throw e) (\<lambda>e st. if catches e ''eof'' then Ok (r, st) else rethrow e st)
          | Abort \<Rightarrow> Abort | Undef \<Rightarrow> Undef)"
        using Suc.IH [OF k(2)] by (cases x) simp
    qed (auto intro!: less_handle assms(1))
  next
    fix st1 assume "batch_round H ev evalflags st = Throw (OutOfFuel, st1)"
    then show ?thesis by (simp add: handle_def)
  qed
qed simp

lemma less_prim:
  assumes "less_walker wk wk'" "less_caller ev ev'" "n \<le> n'"
  shows "less_caller (prim H n wk ev s) (prim H n' wk' ev' s)"
proof -
  have "less_run (prim_catch n ev evalflags list st) (prim_catch n' ev' evalflags list st)" for evalflags list st
    unfolding prim_catch_def by (intro less_rules less_catch_loop assms)
  then show ?thesis unfolding less_caller_def prim_def prim_batchloop_def
    by (intro allI less_rules less_callerD [OF assms(2)] assms less_forever less_batch_loop)
qed

lemma less_apply_lambda [less_rules]:
  assumes "less_walker wk wk'" "less_caller ev ev'"
  shows "less_run (apply_lambda wk ev name params body b args evalflags st)
    (apply_lambda wk' ev' name params body b args evalflags st)"
  unfolding apply_lambda_def by (intro less_rules assms less_walkerD [OF assms(1)])

lemma less_eval_name [less_rules]:
  assumes "less_caller ev ev'" "less_restarter rs rs'"
  shows "less_run (eval_name H ev rs name t args b evalflags st) (eval_name H ev' rs' name t args b evalflags st)"
  unfolding eval_name_def by (intro less_rules assms less_restarterD [OF assms(2)])

lemma less_restart_body:
  assumes "less_walker wk wk'" "less_caller ev ev'" "less_restarter rs rs'" "n \<le> n'"
  shows "less_restarter (restart_body H n wk ev rs) (restart_body H n' wk' ev' rs')"
proof -
  have tree: "less_run (case code of
                 nPrim s \<Rightarrow> f s
               | nThunk body \<Rightarrow> g body
               | nLambda params body \<Rightarrow> h params body
               | nList x y \<Rightarrow> k x y
               | TNull \<Rightarrow> Undef
               | _ \<Rightarrow> Abort) (case code of
                 nPrim s \<Rightarrow> f' s
               | nThunk body \<Rightarrow> g' body
               | nLambda params body \<Rightarrow> h' params body
               | nList x y \<Rightarrow> k' x y
               | TNull \<Rightarrow> Undef
               | _ \<Rightarrow> Abort)"
    if "\<And>s. less_run (f s) (f' s)" "\<And>body. less_run (g body) (g' body)"
      "\<And>x y. less_run (h x y) (h' x y)" "\<And>x y. less_run (k x y) (k' x y)"
    for code and f f' :: "string \<Rightarrow> terms ev" and g g' h h' k k'
    using that by (cases code) simp_all
  show ?thesis unfolding less_restarter_def less_caller_def restart_body_def
    by (intro allI less_rules tree assms less_walkerD [OF assms(1)] less_restarterD [OF assms(3)]
        less_callerD [OF less_prim [OF assms(1,2,4)]])
qed

lemma less_eval_body:
  "less_restarter rs rs' \<Longrightarrow> less_caller (eval_body H rs) (eval_body H rs')"
  unfolding less_caller_def eval_body_def by (intro allI less_rules less_restarterD)

lemma more_fuel:
  "n \<le> n' \<Longrightarrow> less_walker (ewalk H n) (ewalk H n') \<and> less_caller (eeval H n) (eeval H n') \<and>
     less_restarter (erestart H n) (erestart H n')"
proof (induction n arbitrary: n')
  case 0
  show ?case by (simp add: less_walker_def less_caller_def less_restarter_def)
next
  case (Suc n)
  then obtain k where k: "n' = Suc k" "n \<le> k" by (cases n') auto
  note IH = Suc.IH [OF k(2)]
  show ?case unfolding k(1) knot_eqs
    using IH k(2) by (intro conjI less_walk_body less_eval_body less_restart_body) auto
qed

end
