(* ===== verification/Commands.thy ===== *)
theory Commands
  imports Kept Fuel
begin

text \<open>
  What commands do: the theorems about evaluation as a whole, about the pieces that have a meaning of
  their own (parameters, \<open>for\<close>, closures in strings), and about what goes wrong.
\<close>

section \<open>Parameters\<close>

text \<open>\<open>spread\<close>: the value of the variable with number \<open>i\<close> of \<open>n\<close>.\<close>

definition share :: "nat \<Rightarrow> terms \<Rightarrow> nat \<Rightarrow> terms" where
  "share n vs i = (if Suc i = n then drop i vs else take 1 (drop i vs))"

lemma share_Nil [simp]: "share n [] i = []"
  by (simp add: share_def)

lemma spread_Nil: "spread xs [] = map (\<lambda>x. (x, [])) xs"
  by (induction xs) auto

lemma spread_share: "spread xs vs = zip xs (map (share (length xs) vs) [0..<length xs])"
proof (induction xs arbitrary: vs)
  case (Cons x xs)
  have up: "[0..<Suc n] = 0 # map Suc [0..<n]" for n by (simp add: upt_conv_Cons map_Suc_upt)
  show ?case
  proof (cases vs)
    case Nil
    then show ?thesis by (simp add: spread_Nil map_replicate_const zip_replicate2 del: upt_Suc spread.simps)
  next
    case (Cons v vs')
    have sh: "share (Suc (length xs)) (v # vs') (Suc i) = share (length xs) vs' i" for i
      by (simp add: share_def) (metis drop_Suc_Cons)
    show ?thesis
    proof (cases "xs = []")
      case True
      then show ?thesis by (simp add: Cons share_def)
    next
      case False
      then have "spread (x # xs) vs = (x, [v]) # spread xs vs'"
        using spread_Nil [of xs] by (auto simp: Cons)
      moreover have "share (length (x # xs)) vs 0 = [v]" using False by (simp add: Cons share_def)
      ultimately show ?thesis using Cons.IH [of vs']
        by (simp only: up length_Cons list.map map_map comp_def sh zip_Cons_Cons Cons)
    qed
  qed
qed simp

text \<open>The cells that are made, and what a lookup finds in them: the last definition of a name.\<close>

fun last_def :: "(string \<times> terms) list \<Rightarrow> string \<Rightarrow> terms option" where
  "last_def [] name = None"
| "last_def ((x, defn) # rest) name =
     (case last_def rest name of Some v \<Rightarrow> Some v | None \<Rightarrow> if x = name then Some defn else None)"

definition value_of :: "string \<Rightarrow> ref \<Rightarrow> store \<Rightarrow> terms option option" where
  "value_of name b h = map_option (map_option (\<lambda>r. bdefn (h ! r))) (lookup_chain (\<lambda>x. name = x) h b)"

lemma find_binding_more:
  "find_binding n P h b = Some r \<Longrightarrow> n \<le> m \<Longrightarrow> find_binding m P h b = Some r"
proof (induction n P h b arbitrary: m rule: find_binding.induct)
  case (2 n P h)
  then show ?case by (cases m) auto
next
  case (3 n P h i)
  then obtain k where k: "m = Suc k" "n \<le> k" by (cases m) auto
  show ?case
  proof (cases "length h \<le> i \<or> P (bname (h ! i))")
    case True
    then show ?thesis using "3.prems"(1) unfolding k(1) by (simp split: if_splits)
  next
    case False
    then have "find_binding n P h (bnext (h ! i)) = Some r" using "3.prems"(1) by simp
    then have "find_binding k P h (bnext (h ! i)) = Some r" using "3.IH" False k(2) by blast
    then show ?thesis using False unfolding k(1) by simp
  qed
qed simp

lemma find_binding_append:
  assumes "store_ok h" "ref_ok (length h) b"
  shows "find_binding n P (h @ h') b = find_binding n P h b"
  using assms
proof (induction n P h b rule: find_binding.induct)
  case (3 n P h i)
  have i: "i < length h" using "3.prems"(2) by simp
  then have "ref_ok (length h) (bnext (h ! i))" using "3.prems"(1) by (auto simp: store_ok_iff intro: ref_ok_mono)
  then show ?case using 3 i by (auto simp: nth_append)
qed simp_all

lemma value_of_append:
  assumes "store_ok h" "ref_ok (length h) b"
  shows "value_of name b (h @ h') = value_of name b h"
proof -
  let ?P = "\<lambda>x. name = x"
  obtain r where r: "lookup_chain ?P h b = Some r" "ref_ok (length h) r"
    using lookup_chain_ok [OF assms] by blast
  have "lookup_chain ?P (h @ h') b = Some r"
    using find_binding_more [OF r(1) [unfolded lookup_chain_def], of "length (h @ h') + 1"]
    by (simp add: lookup_chain_def find_binding_append [OF assms])
  then show ?thesis using r by (cases r) (auto simp: value_of_def nth_append)
qed

lemma value_of_cons:
  assumes "store_ok h" "ref_ok (length h) b"
  shows "value_of name (Some (length h)) (h @ [\<lparr>bname = x, bdefn = defn, bnext = b\<rparr>]) =
    (if name = x then Some (Some defn) else value_of name b h)"
proof -
  have "find_binding (length h + 1) (\<lambda>x. name = x) (h @ h') b = find_binding (length h + 1) (\<lambda>x. name = x) h b" for h'
    by (rule find_binding_append [OF assms])
  moreover obtain r where r: "lookup_chain (\<lambda>x. name = x) h b = Some r" "ref_ok (length h) r"
    using lookup_chain_ok [OF assms] by blast
  ultimately show ?thesis
    by (cases r) (auto simp: value_of_def lookup_chain_def nth_append)
qed

lemma bind_all_values:
  assumes "state_ok st" "ref_ok (hl st) b" "defs_ok (hl st) defs" "bind_all defs b st = Ok (b', st')"
  shows "value_of name b' (heap st') =
    (case last_def defs name of None \<Rightarrow> value_of name b (heap st) | Some v \<Rightarrow> Some (Some v))"
  using assms
proof (induction defs b st arbitrary: b' st' rule: bind_all.induct)
  case (2 x defn rest b st)
  let ?st = "st\<lparr>heap := heap st @ [\<lparr>bname = x, bdefn = defn, bnext = b\<rparr>]\<rparr>"
  have mk: "mkbinding x defn b st = Ok (Some (hl st), ?st)" and r: "bind_all rest (Some (hl st)) ?st = Ok (b', st')"
    using "2.prems"(4) by (auto simp: mkbinding_def obind_Ok)
  have s: "same st ?st" using mkbinding_gd [of st defn b x] "2.prems" by (simp add: mk)
  have d: "defs_ok (hl ?st) rest" using "2.prems"(3) by (auto intro: defs_ok_mono)
  have "value_of name b' (heap st') = (case last_def rest name of
      None \<Rightarrow> value_of name (Some (hl st)) (heap ?st) | Some v \<Rightarrow> Some (Some v))"
    by (rule "2.IH")
       (use r sameD(1) [OF s] d in simp_all)
  then show ?case
    using value_of_cons [OF state_okD(2) [OF "2.prems"(1)] "2.prems"(2)] by (auto split: option.split)
qed simp

lemma last_def_zip: "distinct xs \<Longrightarrow> length xs = length vs \<Longrightarrow> i < length xs \<Longrightarrow>
    last_def (zip xs vs) (xs ! i) = Some (vs ! i)"
proof (induction xs vs arbitrary: i rule: list_induct2')
  case (4 x xs v vs)
  have none: "last_def (zip xs vs) name = None" if "name \<notin> set xs" for name
    using that by (induction xs vs rule: list_induct2') auto
  show ?case
  proof (cases i)
    case 0
    then show ?thesis using 4 none by auto
  next
    case (Suc j)
    then show ?thesis using 4 by auto
  qed
qed auto

lemma last_def_other: "name \<notin> set xs \<Longrightarrow> last_def (zip xs vs) name = None"
  by (induction xs vs rule: list_induct2') auto

section \<open>Rounds of a loop\<close>

text \<open>The number of rounds, and the bindings of the round with number \<open>i\<close>.\<close>

fun rounds :: "group list \<Rightarrow> nat" where
  "rounds [] = 0"
| "rounds ((names, items) # looping) = max ((length items + length names - 1) div length names) (rounds looping)"

definition round_of :: "group list \<Rightarrow> nat \<Rightarrow> (string \<times> terms) list" where
  "round_of looping i = concat (map (\<lambda>x. zip (fst x)
     (map (\<lambda>j. take 1 (drop (i * length (fst x) + j) (snd x))) [0..<length (fst x)])) looping)"

lemma take_values_zip: "fst (take_values names items) = zip names (map (\<lambda>j. take 1 (drop j items)) [0..<length names])"
proof (induction names arbitrary: items)
  case (Cons name names)
  have up: "[0..<Suc n] = 0 # map Suc [0..<n]" for n by (simp add: upt_conv_Cons map_Suc_upt)
  show ?case
  proof (cases items)
    case Nil
    then show ?thesis using Cons.IH [of "[]"] by (simp add: up case_prod_beta comp_def del: upt_Suc)
  next
    case (Cons t items')
    then show ?thesis using Cons.IH [of items'] by (simp add: up case_prod_beta comp_def del: upt_Suc)
  qed
qed simp

lemma for_round_0: "fst (for_round looping) = round_of looping 0"
  by (simp add: for_round_def round_of_def take_values_zip case_prod_unfold)

lemma round_of_Suc: "round_of (snd (for_round looping)) i = round_of looping (Suc i)"
  unfolding round_of_def for_round_def
  by (simp add: comp_def case_prod_unfold take_values_items add.commute add.left_commute)

lemma ceil_step: "0 < k \<Longrightarrow> (n - k + k - 1) div k = (n + k - 1) div k - (1 :: nat)"
proof (cases "k \<le> n")
  case True
  assume "0 < k"
  then have "n + k - 1 = (n - k + k - 1) + k" using True by simp
  then have "(n + k - 1) div k = (n - k + k - 1) div k + 1" using \<open>0 < k\<close> by (metis div_add_self2 not_less0)
  then show ?thesis by simp
next
  case False
  assume k: "0 < k"
  have "(n + k - 1) div k \<le> 1"
  proof -
    have "n + k - 1 < 2 * k" using False k by simp
    then show ?thesis using less_mult_imp_div_less [of "n + k - 1" 2 k] by simp
  qed
  then show ?thesis using False k by simp
qed

lemma rounds_step:
  assumes "list_all (\<lambda>x. fst x \<noteq> []) looping"
  shows "rounds (snd (for_round looping)) = rounds looping - 1"
  using assms
proof (induction looping)
  case (Cons x looping)
  obtain names items where x: "x = (names, items)" by (cases x)
  have "0 < length names" using Cons.prems by (simp add: x)
  note c = ceil_step [OF this, of "length items"]
  have "rounds (snd (for_round looping)) = rounds looping - 1" using Cons by simp
  moreover have "max (a - 1) (c - 1) = max a c - 1" for a c :: nat by (simp add: max_def)
  ultimately show ?case using c by (simp add: x for_round_def take_values_items)
qed (simp add: for_round_def)

lemma rounds_0:
  assumes "list_all (\<lambda>x. fst x \<noteq> []) looping"
  shows "allnull (fst (for_round looping)) \<longleftrightarrow> rounds looping = 0"
  unfolding for_round_null using assms
proof (induction looping)
  case (Cons x looping)
  obtain names items where x: "x = (names, items)" by (cases x)
  have "(length items + length names - 1) div length names = 0 \<longleftrightarrow> items = []"
    using Cons.prems by (cases items) (auto simp: x div_eq_0_iff)
  then show ?case using Cons by (auto simp: x)
qed simp

lemma for_rounds_eq:
  assumes "list_all (\<lambda>x. fst x \<noteq> []) looping"
  shows "for_rounds looping = map (round_of looping) [0..<rounds looping]"
  using assms
proof (induction looping rule: for_rounds.induct)
  case (1 looping)
  show ?case
  proof (cases "allnull (fst (for_round looping))")
    case True
    then show ?thesis using rounds_0 [OF "1.prems"] by (subst for_rounds.simps) (simp add: Let_def)
  next
    case False
    then obtain n where n: "rounds looping = Suc n" using rounds_0 [OF "1.prems"] by (cases "rounds looping") auto
    have "list_all (\<lambda>x. fst x \<noteq> []) (snd (for_round looping))"
      using "1.prems" by (auto simp: for_round_def list_all_iff)
    then have "for_rounds (snd (for_round looping)) = map (round_of (snd (for_round looping))) [0..<n]"
      using "1.IH" [OF refl False] rounds_step [OF "1.prems"] n by simp
    moreover have "[0..<Suc n] = 0 # map Suc [0..<n]" by (simp add: upt_conv_Cons map_Suc_upt)
    ultimately show ?thesis using False
      by (subst for_rounds.simps) (simp add: Let_def n for_round_0 round_of_Suc comp_def del: upt_Suc)
  qed
qed

section \<open>Evaluation as a whole\<close>

lemma eval_run:
  assumes "host_ok H" "state_ok st" "terms_ok (hl st) list" "ref_ok (hl st) b"
  shows "gd 0 st tsok (eeval H n list b evalflags st)"
  using evaluation_gd [OF assms(1), of n] assms(2-) by (auto intro: callerD)

lemma walk_run:
  assumes "host_ok H" "state_ok st" "ref_ok (hl st) b"
  shows "gd 0 st tsok (ewalk H n t b evalflags st)"
  using evaluation_gd [OF assms(1), of n] assms(2-) by (auto intro: walkerD)

text \<open>
  C3: evaluation leaves no dangling reference. From a state in which every closure and every binding
  refers to a binding that exists, and every binding only to an older one, a command that returns leaves
  such a state, its values are of that kind, and every lookup through any of the bindings ends.
\<close>

theorem evaluation_keeps_references:
  assumes "host_ok H" and "state_ok st" and "terms_ok (hl st) list" and "ref_ok (hl st) b"
    and "eeval H n list b evalflags st = Ok (r, st')"
  shows "state_ok st' \<and> hl st \<le> hl st' \<and> terms_ok (hl st') r \<and>
    (\<forall>b P. ref_ok (hl st') b \<longrightarrow> lookup_chain P (heap st') b \<noteq> None)"
proof -
  have s: "same st st'" "terms_ok (hl st') r" using eval_run [OF assms(1-4), of n evalflags] assms(5) by auto
  have "lookup_chain P (heap st') b \<noteq> None" if "ref_ok (hl st') b" for b P
    using lookup_chain_ok [OF state_okD(2) [OF sameD(1) [OF s(1)]] that, of P] by auto
  then show ?thesis using s by (simp add: same_def)
qed

text \<open>
  C1: whatever a command does, when it returns, the stack of local bindings and the depth of evaluation
  are what they were: every \<open>varpush\<close> of a \<open>local\<close>, of \<open>$0\<close> in a function or of a settor function has had
  its \<open>varpop\<close>, also when exceptions were thrown and caught on the way.
\<close>

theorem evaluation_restores_locals:
  assumes "host_ok H" and "state_ok st" and "ref_ok (hl st) b"
    and "ewalk H n t b evalflags st = Ok (r, st')"
  shows "pushlist st' = pushlist st \<and> evaldepth st' = evaldepth st"
  using walk_run [OF assms(1-3), of n t evalflags] assms(4) by (auto simp: same_def)

text \<open>
  C2: an exception that leaves a command is caught with the local bindings and the depth of the handler:
  the exception itself leaves the local bindings made since on the stack, \<open>throw_exception\<close> takes them
  off, and if their settor functions return, the catcher runs with the stack and the depth of the handler.
\<close>

theorem handler_finds_its_state:
  assumes "host_ok H" and "state_ok st" and "ref_ok (hl st) b"
    and "ewalk H n t b evalflags st = Throw (Exn e, st1)"
    and "unwind (eeval H m) (length (pushlist st1) - length (pushlist st)) st1 = Ok st2"
  shows "suffix (pushlist st) (pushlist st1) \<and>
    (\<exists>st3. handle (eeval H m) st (ewalk H n t b evalflags st) catch = catch e st3 \<and>
      state_ok st3 \<and> vars st3 = vars st2 \<and> pushlist st3 = pushlist st \<and> evaldepth st3 = evaldepth st)"
proof -
  have x: "exn_ok st e st1" using walk_run [OF assms(1-3), of n t evalflags] by (simp add: assms(4))
  then obtain xs where xs: "pushlist st1 = xs @ pushlist st" by (auto simp: exn_ok_def suffix_def)
  have "good st (\<lambda>st2. state_ok st2 \<and> pushlist st2 = pushlist st \<and> hl st1 \<le> hl st2) (unwind (eeval H m) (length xs) st1)"
    by (rule unwind_gd) (use evaluation_gd [OF assms(1), of m] x xs in \<open>auto simp: exn_ok_def\<close>)
  then have s: "state_ok st2" "pushlist st2 = pushlist st" using assms(5) by (auto simp: xs)
  have "state_ok (st2\<lparr>evaldepth := evaldepth st\<rparr>) = state_ok st2" by (rule state_ok_cong) simp_all
  then show ?thesis using s x by (auto simp: assms(4,5) handle_def exn_ok_def)
qed


text \<open>
  C5: the parameters of a function. In the bindings that \<open>bindargs\<close> makes, every parameter but the last
  has one of the arguments in turn, the last has all that are left, parameters without an argument are
  empty, and every other name means what it meant around the function.
\<close>

theorem parameters_are_bound:
  assumes "state_ok st" and "terms_ok (hl st) args" and "ref_ok (hl st) b"
    and "params_of params = Some names" and "names \<noteq> []" and "distinct names"
    and "bindargs params args b st = Ok (context, st')"
  shows "(\<forall>i < length names. value_of (names ! i) context (heap st') = Some (Some (share (length names) args i))) \<and>
    (\<forall>name. name \<notin> set names \<longrightarrow> value_of name context (heap st') = value_of name b (heap st))"
proof -
  have "params \<noteq> TNull" using assms(4,5) by auto
  then have b: "bind_all (spread names args) b st = Ok (context, st')"
    using assms(4,7) by (simp add: bindargs_def)
  note v = bind_all_values [OF assms(1,3) spread_ok [OF assms(2)] b]
  show ?thesis unfolding v unfolding spread_share
    using last_def_zip [OF assms(6), of "map (share (length names) args) [0..<length names]"]
    by (auto simp: last_def_other)
qed

text \<open>
  The rounds of \<open>for\<close>. There are as many as the longest of the lists needs, and in round \<open>i\<close> the \<open>k\<close>
  names of a list get its values with the numbers from \<open>i * k\<close> on, or nothing where the list has ended.
\<close>

theorem for_takes_values_in_turn:
  assumes "list_all (\<lambda>(names, items). names \<noteq> []) looping"
  shows "for_rounds looping = map (round_of looping) [0..<rounds looping]"
  by (rule for_rounds_eq) (use assms in \<open>simp add: case_prod_unfold\<close>)

section \<open>What goes wrong\<close>

lemma gs_Str: "0 < cstack H \<Longrightarrow> gs H st (Str s) = s"
  by (cases "cstack H") (simp_all add: term_text_def)

text \<open>
  C6: a function that is defined as its own name hangs the shell. Evaluation looks the name up and starts
  again with the value, without a test for signals, and without going deeper, so that
  \<open>max-eval-depth\<close> does not stop it either.
\<close>

theorem alias_of_itself_hangs:
  assumes "state_ok st" and "0 < cstack H" and "\<not> isfunction name" and "view st (''fn-'' @ name) = [Str name]"
    and "evaldepth st + 1 < maxevaldepth st"
  shows "\<exists>st'. eeval H n [Str name] None evalflags st = Throw (OutOfFuel, st')"
proof -
  let ?st = "st\<lparr>evaldepth := evaldepth st + 1\<rparr>"
  have "varlookup2 ?st ''fn-'' name None = Ok [Str name]"
    using assms(4) by (auto simp: varlookup2_def lookup_chain_def dictget2_cat dictget_vars [OF state_okD(1) [OF assms(1)]]
        view_def split: option.splits)
  then have look: "eval_name H ev rs fn (Str name) [] None f ?st = rs (Some name) [Str name] None f ?st" for ev rs fn f
    by (simp add: eval_name_def Let_def gs_Str assms(2))
  have "\<exists>st'. erestart H k fn [Str name] None evalflags ?st = Throw (OutOfFuel, st')" for k fn
  proof (induction k arbitrary: fn)
    case (Suc k)
    have "getclosure H (Str name) ?st = Ok (None, ?st)" using assms(3) by (simp add: getclosure_def)
    then show ?case using Suc by (simp add: restart_body_def look [simplified])
  qed simp
  then show ?thesis using assms(5) by (cases n) (auto simp: eval_body_def Let_def)
qed

text \<open>
  A closure that was parsed to several words loses its arguments. The string \<open>$&result x\<close> as a command
  with arguments gives \<open>x\<close> twice, whatever the arguments are: \<open>eval\<close> replaces the list before it takes
  the arguments from it.
\<close>

theorem words_in_a_string_lose_arguments:
  assumes "parsestring H ''$&result x'' = Ok (nList (nPrim ''result'') (nList (nWord ''x'') TNull))"
    and "evaldepth st + 1 < maxevaldepth st"
  shows "\<exists>st'. eeval H 3 (Str ''$&result x'' # args) b noflags st = Ok ([Str ''x'', Str ''x''], st')"
proof -
  let ?st = "st\<lparr>evaldepth := evaldepth st + 1\<rparr>" and ?t = "nList (nPrim ''result'') (nList (nWord ''x'') TNull)"
  have g: "getclosure H (Str ''$&result x'') ?st = Ok (Some (Closure None ?t), ?st)"
    by (simp add: getclosure_def isfunction_def assms(1) extractbindings_def strip_list_def Let_def)
  have glom: "glom H wk ev ?t None True ?st = Ok ([Clos (Closure None (nPrim ''result'')), Str ''x''], ?st)" for wk ev
    by (simp add: glom_def glob_def haswild.simps hastilde_def)
  have r: "erestart H 1 None (Clos (Closure None (nPrim ''result'')) # [Str ''x'', Str ''x'']) b noflags ?st =
      Ok ([Str ''x'', Str ''x''], st)"
    by (simp add: restart_body_def getclosure_def prim_def finish_def noflags_def)
  have "erestart H 2 None (Str ''$&result x'' # args) b noflags ?st = Ok ([Str ''x'', Str ''x''], st)"
  proof -
    have "erestart H 2 = restart_body H 1 (ewalk H 1) (eeval H 1) (erestart H 1)"
      by (simp only: numeral_2_eq_2 One_nat_def knot_eqs)
    then show ?thesis by (simp add: restart_body_def g glom r del: One_nat_def)
  qed
  then show ?thesis using assms(2) by (auto simp: eval_body_def Let_def numeral_3_eq_3 numeral_2_eq_2)
qed

section \<open>The theorems at work\<close>

lemma start_ok: "mkdict = Some d \<Longrightarrow> state_ok (start d)"
proof -
  assume d: "mkdict = Some d"
  have v: "vars_ok (start d)" "view (start d) k = []" for k
    using blank_ok [OF d] blank_view [OF d, of k] by (simp_all add: start_def blank_def vars_ok_def view_def)
  moreover have "heap (start d) = []" "pushlist (start d) = []" by (simp_all add: start_def)
  ultimately show "state_ok (start d)" by (simp add: state_ok_def store_ok_def)
qed

lemma plain_host_ok: "host_ok plain_host"
  by (simp add: host_ok_def plain_host_def)

text \<open>
  Running a program with \<open>simp\<close>: the rest of a sequence is left alone until its first step has a value.
\<close>

lemma obind_first: "m = m' \<Longrightarrow> obind m f = obind m' f"
  by simp

lemma start_fields:
  "evaldepth (start d) = 0" "maxevaldepth (start d) = MAXmaxevaldepth" "heap (start d) = []"
  "pushlist (start d) = []" "vars (start d) = d" "noexport (start d) = None" "isdirty (start d)"
  by (simp_all add: start_def)

lemma start_dirty: "(start d)\<lparr>isdirty := True\<rparr> = start d"
  by (simp add: start_def)

lemma plain_text: "term_text plain_host h (Str s) = s"
  by (simp add: term_text_def plain_host_def eval_nat_numeral)

lemma iscounting_x: "\<not> iscounting ''x''"
  by code_simp

lemmas run_defs = eval_body_def restart_body_def getclosure_def finish_def noflags_def glom_def glob_def
  letbindings_def validate_all_def isfunction_def mkbinding_def hastilde_def prim_def start_fields plain_text
  MAXmaxevaldepth_def lookup_def local_def prim_throw_def rethrow_def validate_x Let_def

lemma fuel_8: "8 = Suc (Suc (Suc (Suc (Suc (Suc (Suc (Suc 0)))))))"
  by simp

text \<open>\<open>local (x = 1 2) $&result $x\<close>, and the same with \<open>$&throw\<close>.\<close>

definition local_x :: "string \<Rightarrow> tree" where
  "local_x p = nLocal (nList (nAssign (nWord ''x'') (nList (nWord ''1'') (nList (nWord ''2'') TNull))) TNull)
     (nList (nPrim p) (nList (nVar (nWord ''x'')) TNull))"

abbreviation x_values :: terms where
  "x_values \<equiv> [Str ''1'', Str ''2'']"

lemma x_put_and_removed: "\<exists>d d1 d2. mkdict = Some d \<and> dictput d ''x'' (Some v) = Some d1 \<and> dictput d1 ''x'' None = Some d2"
proof -
  have "(case mkdict of None \<Rightarrow> False | Some d \<Rightarrow> (case dictput d ''x'' (Some v) of
      None \<Rightarrow> False | Some d1 \<Rightarrow> dictput d1 ''x'' None \<noteq> None))"
    by code_simp
  then show ?thesis by (auto split: option.splits)
qed

text \<open>The shell in which \<open>x\<close> is bound: what \<open>varpush\<close> and \<open>varpop\<close> do with every evaluator.\<close>

lemma bound_x:
  "\<exists>d st1 st2. mkdict = Some d \<and> (\<forall>ev. varpush (vev ev) ''x'' x_values (start d) = Ok st1) \<and>
    (\<forall>ev k. varpop (vev ev) 1 (st1\<lparr>evaldepth := k\<rparr>) = Ok (st2\<lparr>evaldepth := k\<rparr>)) \<and>
    varlookup st1 ''x'' None = Ok x_values \<and> length (pushlist st1) = 1 \<and> evaldepth st1 = 0 \<and>
    maxevaldepth st1 = MAXmaxevaldepth"
proof -
  obtain d d1 d2 where d: "mkdict = Some d" "dictput d ''x'' (Some (mkvar x_values)) = Some d1"
      "dictput d1 ''x'' None = Some d2"
    using x_put_and_removed [of "mkvar x_values"] by (elim exE conjE) (rule that; assumption)
  let ?p = "\<lparr>pname = ''x'', pdefn = [], phasb = False, pinternal = False\<rparr>"
  let ?s1 = "(start d)\<lparr>vars := d1, pushlist := [?p]\<rparr>"
  have ok: "state_ok (start d)" "view (start d) k = []" for k
    using start_ok [OF d(1)] blank_view [OF d(1), of k] by (simp_all add: view_def start_def blank_def)
  note v = state_okD(1) [OF ok(1)]
  have none: "dictget d ''x'' = Some None"
    using dictget_vars [OF v, of "''x''"] ok(2) mkdict_abs d(1) by (metis option.inject start_fields(5))
  have push: "push_global ''x'' x_values (start d) = Ok ?s1"
    by (simp add: push_global_def start_fields none d)
  note p = push_global_view [OF v push]
  have s1: "vars_ok (?s1\<lparr>evaldepth := k\<rparr>)" "view (?s1\<lparr>evaldepth := k\<rparr>) = (view (start d))(''x'' := x_values)" for k
    using p by (simp_all add: vars_ok_def view_def fun_eq_iff)
  obtain u where u: "dictget d1 ''x'' = Some (Some u)"
    using dictget_vars [OF s1(1) [of 0], of "''x''"] fun_cong [OF s1(2) [of 0], of "''x''"]
    by (auto simp: view_def start_fields split: option.splits)
  have "varpush (vev ev) ''x'' x_values (start d) = Ok ?s1" for ev
    using push ok callsettor_none [OF v] mark_dirty_ok [OF v]
    by (simp add: varpush_def validate_x start_fields start_dirty)
  moreover have "varpop (vev ev) 1 (?s1\<lparr>evaldepth := k\<rparr>) = Ok ((?s1\<lparr>vars := d2, pushlist := []\<rparr>)\<lparr>evaldepth := k\<rparr>)" for ev k
  proof -
    have m: "mark_dirty ''x'' (?s1\<lparr>evaldepth := k\<rparr>) = Ok (?s1\<lparr>evaldepth := k\<rparr>)"
      using mark_dirty_ok [OF s1(1)] by (simp add: start_def)
    have c: "callsettor (vev ev) ''x'' [] (?s1\<lparr>evaldepth := k\<rparr>) = Ok ([], ?s1\<lparr>evaldepth := k\<rparr>)"
      by (rule callsettor_none [OF s1(1)]) (simp add: s1(2) ok(2))
    show ?thesis using m c d(3) u by (simp add: varpop_def pop_global_def)
  qed
  moreover have "varlookup ?s1 ''x'' None = Ok x_values"
    using p by (simp add: varlookup_view [OF _ validate_x])
  ultimately show ?thesis using d(1)
    by (intro exI [of _ d] exI [of _ ?s1] exI [of _ "?s1\<lparr>vars := d2, pushlist := []\<rparr>"]) (simp add: start_fields)
qed

lemma evaluation_of_local:
  assumes "\<forall>ev. varpush (vev ev) ''x'' x_values (start d) = Ok st1" "varlookup st1 ''x'' None = Ok x_values"
    "evaldepth st1 = 0" "maxevaldepth st1 = MAXmaxevaldepth"
  shows "ewalk plain_host 8 (local_x ''throw'') None noflags (start d) =
      Throw (Exn x_values, st1\<lparr>evaldepth := 1\<rparr>)"
    and "length (pushlist st1) = 1 \<Longrightarrow> (\<forall>ev k. varpop (vev ev) 1 (st1\<lparr>evaldepth := k\<rparr>) = Ok (st2\<lparr>evaldepth := k\<rparr>)) \<Longrightarrow>
      ewalk plain_host 8 (local_x ''result'') None noflags (start d) = Ok (x_values, st2\<lparr>evaldepth := 0\<rparr>)"
  unfolding fuel_8 by (simp_all add: run_defs local_x_def iscounting_x assms cong: obind_first)

theorem evaluation_restores_locals_witness:
  "\<exists>d st. mkdict = Some d \<and> ewalk plain_host 8 (local_x ''result'') None noflags (start d) =
     Ok (x_values, st) \<and> pushlist st = [] \<and> evaldepth st = 0"
proof -
  obtain d st1 st2 where d: "mkdict = Some d" "\<forall>ev. varpush (vev ev) ''x'' x_values (start d) = Ok st1"
    "\<forall>ev k. varpop (vev ev) 1 (st1\<lparr>evaldepth := k\<rparr>) = Ok (st2\<lparr>evaldepth := k\<rparr>)"
    "varlookup st1 ''x'' None = Ok x_values" "length (pushlist st1) = 1" "evaldepth st1 = 0"
    "maxevaldepth st1 = MAXmaxevaldepth"
    using bound_x by (elim exE conjE) (rule that; assumption)
  note r = evaluation_of_local(2) [OF d(2,4,6,7,5,3)]
  show ?thesis
    using evaluation_restores_locals [OF plain_host_ok start_ok [OF d(1)] _ r]
    by (intro exI [of _ d] exI [of _ "st2\<lparr>evaldepth := 0\<rparr>"]) (simp add: d(1) r start_fields)
qed

theorem handler_finds_its_state_witness:
  "\<exists>d st. mkdict = Some d \<and> handle (eeval plain_host 9) (start d) (ewalk plain_host 8 (local_x ''throw'') None noflags (start d))
     (\<lambda>e st. Ok (tl e, st)) = Ok ([Str ''2''], st) \<and> pushlist st = [] \<and> evaldepth st = 0"
proof -
  obtain d st1 st2 where d: "mkdict = Some d" "\<forall>ev. varpush (vev ev) ''x'' x_values (start d) = Ok st1"
    "\<forall>ev k. varpop (vev ev) 1 (st1\<lparr>evaldepth := k\<rparr>) = Ok (st2\<lparr>evaldepth := k\<rparr>)"
    "varlookup st1 ''x'' None = Ok x_values" "length (pushlist st1) = 1" "evaldepth st1 = 0"
    "maxevaldepth st1 = MAXmaxevaldepth"
    using bound_x by (elim exE conjE) (rule that; assumption)
  note r = evaluation_of_local(1) [OF d(2,4,6,7)]
  have l: "length (pushlist (st1\<lparr>evaldepth := 1\<rparr>)) - length (pushlist (start d)) = Suc 0"
    using d(5) by (simp add: start_fields)
  have u: "unwind (eeval plain_host 9) (length (pushlist (st1\<lparr>evaldepth := 1\<rparr>)) - length (pushlist (start d)))
      (st1\<lparr>evaldepth := 1\<rparr>) = Ok (st2\<lparr>evaldepth := 1\<rparr>)"
    unfolding l using d(3,5) by simp
  show ?thesis
    using handler_finds_its_state [OF plain_host_ok start_ok [OF d(1)] _ r u, of "\<lambda>e st. Ok (tl e, st)"] d(1)
    by (auto simp: start_fields)
qed

text \<open>A function that keeps its bindings: \<open>let (x = 1) $&result @ {$x}\<close>.\<close>

definition let_x :: tree where
  "let_x = nLet (nList (nAssign (nWord ''x'') (nList (nWord ''1'') TNull)) TNull)
     (nList (nPrim ''result'') (nList (nThunk (nVar (nWord ''x''))) TNull))"

abbreviation let_value :: terms where
  "let_value \<equiv> [Clos (Closure (Some 0) (nThunk (nVar (nWord ''x''))))]"

lemma let_run: "eeval plain_host 8 [Clos (Closure None (nThunk let_x))] None noflags (start d) =
    Ok (let_value, (start d)\<lparr>heap := [\<lparr>bname = ''x'', bdefn = [Str ''1''], bnext = None\<rparr>]\<rparr>)"
  unfolding fuel_8 by (simp add: run_defs let_x_def iscounting_x cong: obind_first)

theorem evaluation_keeps_references_witness:
  "\<exists>d st. mkdict = Some d \<and> eeval plain_host 8 [Clos (Closure None (nThunk let_x))] None noflags (start d) =
     Ok (let_value, st) \<and> 0 < hl st \<and> store_ok (heap st)"
proof -
  obtain d :: "var dict" where d: "mkdict = Some d" using mkdict_abs by blast
  show ?thesis
    using evaluation_keeps_references [OF plain_host_ok start_ok [OF d] _ _ let_run] d let_run [of d]
    by (auto simp: state_ok_def)
qed


lemma validate_ab: "validatevar ''a'' = Ok ()" "validatevar ''b'' = Ok ()"
  by code_simp+

theorem parameters_are_bound_witness:
  "\<exists>d b st. mkdict = Some d \<and> bindargs (nList (nWord ''a'') (nList (nWord ''b'') TNull)) [Str ''1'', Str ''2'', Str ''3''] None
     (start d) = Ok (b, st) \<and> value_of ''b'' b (heap st) = Some (Some [Str ''2'', Str ''3''])"
proof -
  obtain d :: "var dict" where d: "mkdict = Some d" using mkdict_abs by blast
  let ?p = "nList (nWord ''a'') (nList (nWord ''b'') TNull)" and ?a = "[Str ''1'', Str ''2'', Str ''3'']"
  obtain b st where b: "bindargs ?p ?a None (start d) = Ok (b, st)"
    by (simp add: bindargs_def mkbinding_def validate_ab)
  have "(\<forall>i < length [''a'', ''b'']. value_of ([''a'', ''b''] ! i) b (heap st) =
      Some (Some (share (length [''a'', ''b'']) ?a i)))"
    using parameters_are_bound [OF start_ok [OF d] _ _ _ _ _ b, of "[''a'', ''b'']"] by simp
  then have "value_of ''b'' b (heap st) = Some (Some (share 2 ?a 1))" by (auto simp: numeral_2_eq_2 dest: spec [where x = 1])
  then show ?thesis using d b by (auto simp: share_def)
qed

theorem for_takes_values_in_turn_witness:
  "for_rounds [([''a'', ''b''], [Str ''1'', Str ''2'', Str ''3'']), ([''c''], [Str ''x''])] =
     [[(''a'', [Str ''1'']), (''b'', [Str ''2'']), (''c'', [Str ''x''])], [(''a'', [Str ''3'']), (''b'', []), (''c'', [])]]"
  by (subst for_takes_values_in_turn) (simp, code_simp)

text \<open>The shell after \<open>fn-x = x\<close>.\<close>

lemma alias_state: "\<exists>d d2. mkdict = Some d \<and> dictput d ''fn-x'' (Some (mkvar [Str ''x''])) = Some d2"
proof -
  have "(case mkdict of None \<Rightarrow> False | Some d \<Rightarrow> dictput d ''fn-x'' (Some (mkvar [Str ''x''])) \<noteq> None)" by code_simp
  then show ?thesis by (auto split: option.splits)
qed

theorem alias_of_itself_hangs_witness:
  "\<exists>d d2 st. mkdict = Some d \<and> dictput d ''fn-x'' (Some (mkvar [Str ''x''])) = Some d2 \<and>
     eeval plain_host 1000 [Str ''x''] None noflags (start d2) = Throw (OutOfFuel, st)"
proof -
  obtain d d2 where d: "mkdict = Some d" "dictput d ''fn-x'' (Some (mkvar [Str ''x''])) = Some d2"
    using alias_state by blast
  have s: "start d2 = (start d)\<lparr>vars := d2\<rparr>" by (simp add: start_def)
  have v: "vars_ok (start d2)" "view (start d2) = (view (start d))(''fn-x'' := [Str ''x''])"
    using put_view [of "start d" "''fn-x''" "Some (mkvar [Str ''x''])" d2] d(2) start_ok [OF d(1)]
    by (simp_all add: s [symmetric] state_ok_def mkvar_def start_def)
  have "state_ok (start d2)"
    by (rule state_ok_view [OF start_ok [OF d(1)] v(1) _ v(2)]) (simp_all add: start_def)
  then show ?thesis
    using alias_of_itself_hangs [of "start d2" plain_host "''x''" 1000 noflags] d v(2)
    by (auto simp: plain_host_def isfunction_def hasprefix_def start_def MAXmaxevaldepth_def)
qed

theorem words_in_a_string_lose_arguments_witness:
  "\<exists>d st. mkdict = Some d \<and> eeval (plain_host\<lparr>parsestring := (\<lambda>s. Ok (nList (nPrim ''result'') (nList (nWord ''x'') TNull)))\<rparr>) 3
     [Str ''$&result x'', Str ''y''] None noflags (start d) = Ok ([Str ''x'', Str ''x''], st)"
proof -
  obtain d where d: "mkdict = Some (d :: var dict)" using mkdict_abs by blast
  then show ?thesis
    using words_in_a_string_lose_arguments [of "plain_host\<lparr>parsestring := (\<lambda>s. Ok (nList (nPrim ''result'') (nList (nWord ''x'') TNull)))\<rparr>"
        "start d" "[Str ''y'']" None]
    by (auto simp: start_def MAXmaxevaldepth_def)
qed

end
