(* ===== verification/Spec2Isabelle.thy ===== *)
theory Spec2Isabelle
  imports Dict Values Opt Split Match Print Conv Syntax Token Vars Fd Heredoc Access Limits Signals Arith Procs Pipes Gc Input Glob Commands
begin

text \<open>
  A verification of desh, a shell of the rc and es family.
\<close>

end
